(* ===== verification/Prelude.thy ===== *)
theory Prelude
  imports Main "HOL-Library.Word" "HOL-Library.Finite_Map" "HOL-Library.Char_ord"
    "HOL-Library.List_Lexorder"
begin

text \<open>
  The shared vocabulary of the development.

  Go's fixed-width integers are words: \<open>u8\<close>, \<open>u32\<close>, \<open>u64\<close>. Sizes, file offsets, chunk indices
  and slice lengths, which the code mixes freely with \<open>len\<close>, are natural numbers; wherever Go
  computes one of them in a \<open>uint64\<close> or \<open>uint32\<close> the reduction is written out with \<open>wrap64\<close>,
  \<open>sub64\<close> or \<open>wrap32\<close>. Signed nanosecond times are integers. A Go string is a list of characters,
  that is of bytes, ordered lexicographically as Go orders strings; a byte slice is a list of
  8-bit words. A Go map is a finite map. A function that can fail returns a sum, \<open>Inl\<close> for
  the error; a panic is an error value too.
\<close>

unbundle bit_operations_syntax

type_synonym u8 = "8 word"
type_synonym u32 = "32 word"
type_synonym u64 = "64 word"
type_synonym bytes = "8 word list"

named_theorems wrap_simps \<open>unfolding of the machine-integer reductions\<close>
named_theorems fs_simps \<open>field-by-field effect of the state updates\<close>

section \<open>Machine reductions on natural numbers\<close>

definition wrap64 :: "nat \<Rightarrow> nat" where
  "wrap64 n = n mod 2 ^ 64"

definition wrap32 :: "nat \<Rightarrow> nat" where
  "wrap32 n = n mod 2 ^ 32"

text \<open>Go's \<open>a - b\<close> on \<open>uint64\<close>: it wraps when \<open>b\<close> is the larger.\<close>

definition sub64 :: "nat \<Rightarrow> nat \<Rightarrow> nat" where
  "sub64 a b = (a + 2 ^ 64 - b) mod 2 ^ 64"

lemma wrap64_small [simp]: "n < 2 ^ 64 \<Longrightarrow> wrap64 n = n"
  by (simp add: wrap64_def)

lemma wrap64_less [simp]: "wrap64 n < 2 ^ 64"
  by (simp add: wrap64_def)

lemma wrap64_less_num [simp]: "wrap64 n < 18446744073709551616"
  using wrap64_less [of n] by simp

lemma wrap32_small [simp]: "n < 2 ^ 32 \<Longrightarrow> wrap32 n = n"
  by (simp add: wrap32_def)

lemma wrap32_less [simp]: "wrap32 n < 2 ^ 32"
  by (simp add: wrap32_def)

lemma wrap32_less_num [simp]: "wrap32 n < 4294967296"
  using wrap32_less [of n] by simp

lemma sub64_le [simp]: "b \<le> a \<Longrightarrow> a < 2 ^ 64 \<Longrightarrow> sub64 a b = a - b"
  by (simp add: sub64_def mod_if)

section \<open>Slices\<close>

text \<open>\<open>xs[lo:hi]\<close>.\<close>

definition slice :: "nat \<Rightarrow> nat \<Rightarrow> 'a list \<Rightarrow> 'a list" where
  "slice lo hi xs = take (hi - lo) (drop lo xs)"

lemma length_slice [simp]: "length (slice lo hi xs) = min (hi - lo) (length xs - lo)"
  by (simp add: slice_def min.commute)

lemma nth_slice: "lo + i < hi \<Longrightarrow> lo + i < length xs \<Longrightarrow> slice lo hi xs ! i = xs ! (lo + i)"
  by (simp add: slice_def)

text \<open>\<open>copy(dst[at:], src)\<close>, \<open>dst\<close> keeping its length.\<close>

definition copy_at :: "nat \<Rightarrow> 'a list \<Rightarrow> 'a list \<Rightarrow> 'a list" where
  "copy_at at src dst =
     take at dst @ take (length dst - at) src @ drop (at + length src) dst"

lemma length_copy_at [simp]: "at \<le> length dst \<Longrightarrow> length (copy_at at src dst) = length dst"
  by (simp add: copy_at_def)

lemma nth_copy_at:
  assumes "at \<le> length dst" "i < length dst"
  shows "copy_at at src dst ! i = (if at \<le> i \<and> i < at + length src then src ! (i - at) else dst ! i)"
  using assms by (auto simp: copy_at_def nth_append min_def)

section \<open>Bits of words\<close>

lemma word_bits_eq: "a = b \<longleftrightarrow> (\<forall>n < LENGTH('a). bit a n = bit b n)" for a b :: "'a::len word"
  by (metis bit_word_eqI)

lemma next_word_less: "x \<noteq> - 1 \<Longrightarrow> x < x + 1" for x :: "'a::len word"
proof -
  assume "x \<noteq> - 1"
  then have "1 + x \<noteq> 0" by (metis add.commute add_eq_0_iff)
  then have "unat (1 + x) = Suc (unat x)" by (rule unatSuc)
  then show ?thesis by (simp add: word_less_nat_alt add.commute)
qed

lemma bit_u32_less: "bit w n \<Longrightarrow> n < 32" for w :: u32
  using bit_imp_le_length [of w n] by simp

section \<open>Big-endian integers (encoding/binary)\<close>

definition put_be32 :: "u32 \<Rightarrow> bytes" where
  "put_be32 v = [ucast (drop_bit 24 v), ucast (drop_bit 16 v), ucast (drop_bit 8 v), ucast v]"

definition put_be64 :: "u64 \<Rightarrow> bytes" where
  "put_be64 v = put_be32 (ucast (drop_bit 32 v)) @ put_be32 (ucast v)"

definition get_be32 :: "bytes \<Rightarrow> u32" where
  "get_be32 b = push_bit 24 (ucast (b ! 0)) OR push_bit 16 (ucast (b ! 1))
     OR push_bit 8 (ucast (b ! 2)) OR ucast (b ! 3)"

definition get_be64 :: "bytes \<Rightarrow> u64" where
  "get_be64 b = push_bit 32 (ucast (get_be32 (take 4 b))) OR ucast (get_be32 (drop 4 b))"

lemma length_put_be32 [simp]: "length (put_be32 v) = 4"
  by (simp add: put_be32_def)

lemma length_put_be64 [simp]: "length (put_be64 v) = 8"
  by (simp add: put_be64_def)

lemma get_put_be32 [simp]: "get_be32 (put_be32 v) = v"
proof (rule bit_word_eqI)
  fix n assume n: "n < LENGTH(32)"
  consider "n < 8" | "8 \<le> n" "n < 16" | "16 \<le> n" "n < 24" | "24 \<le> n" by linarith
  then show "bit (get_be32 (put_be32 v)) n \<longleftrightarrow> bit v n"
    using n by cases (auto simp: get_be32_def put_be32_def bit_simps less_diff_conv2)
qed

lemma get_put_be64 [simp]: "get_be64 (put_be64 v) = v"
proof (rule bit_word_eqI)
  fix n assume "n < LENGTH(64)"
  then show "bit (get_be64 (put_be64 v)) n \<longleftrightarrow> bit v n"
    by (auto simp: get_be64_def put_be64_def bit_simps)
qed

section \<open>Strings as byte slices\<close>

definition bytes_of_string :: "string \<Rightarrow> bytes" where
  "bytes_of_string s = map (\<lambda>c. of_nat (of_char c)) s"

definition string_of_bytes :: "bytes \<Rightarrow> string" where
  "string_of_bytes b = map (\<lambda>x. char_of (unat x)) b"

lemma string_of_bytes_of_string [simp]: "string_of_bytes (bytes_of_string s) = s"
  by (induction s) (simp_all add: string_of_bytes_def bytes_of_string_def unat_of_nat)

lemma length_bytes_of_string [simp]: "length (bytes_of_string s) = length s"
  by (simp add: bytes_of_string_def)

section \<open>Printed numbers\<close>

definition digit_char :: "nat \<Rightarrow> char" where
  "digit_char d = ''0123456789abcdef'' ! d"

text \<open>A number of at most \<open>k\<close> decimal digits, padded with zeros to \<open>k\<close>.\<close>

definition pad_dec :: "nat \<Rightarrow> nat \<Rightarrow> string" where
  "pad_dec k n = map (\<lambda>i. digit_char (n div 10 ^ (k - Suc i) mod 10)) [0 ..< k]"

text \<open>\<open>encoding/hex\<close>.\<close>

definition hex_string :: "bytes \<Rightarrow> string" where
  "hex_string b = concat (map (\<lambda>x. [digit_char (unat x div 16), digit_char (unat x mod 16)]) b)"

section \<open>Sums and finite maps\<close>

definition sum_bind :: "'e + 'a \<Rightarrow> ('a \<Rightarrow> 'e + 'b) \<Rightarrow> 'e + 'b" where
  "sum_bind x f = (case x of Inl e \<Rightarrow> Inl e | Inr a \<Rightarrow> f a)"

lemma sum_bind_simps [simp]:
  "sum_bind (Inl e) f = Inl e"
  "sum_bind (Inr a) f = f a"
  by (simp_all add: sum_bind_def)

lemma sum_bind_Inr: "sum_bind x f = Inr b \<longleftrightarrow> (\<exists>a. x = Inr a \<and> f a = Inr b)"
  by (cases x) auto

end
