(* ===== verification/Fsm.thy ===== *)
theory Fsm
  imports Prelude
begin

text \<open>
  \<open>internal/fsm/fsm.go\<close>: state machines as explicit tables of edges. A table is built once from
  its list of edges (\<open>NewTable\<close>, which panics on two edges with the same source and event), a
  \<open>Machine\<close> walks it under its owner's lock, and an \<open>Atomic\<close> walks it in one atomic word with a
  compare-and-swap loop. The loop is a step relation over any number of threads; its runs are
  shown to be runs of the plain machine.
\<close>

section \<open>Tables\<close>

record ('s, 'e) edge =
  From :: 's
  On :: 'e
  To :: 's

record ('s, 'e) table =
  tname :: string
  edges :: "('s, 'e) edge list"
  nextm :: "('s \<times> 'e, 's) fmap"

datatype ('s, 'e) panic = TwoEdges string 's 'e | NilTable

fun newTable_loop ::
  "string \<Rightarrow> ('s, 'e) edge list \<Rightarrow> ('s \<times> 'e, 's) fmap \<Rightarrow> ('s, 'e) panic + ('s \<times> 'e, 's) fmap" where
  "newTable_loop name [] m = Inr m"
| "newTable_loop name (e # es) m =
     (case fmlookup m (From e, On e) of
        Some _ \<Rightarrow> Inl (TwoEdges name (From e) (On e))
      | None \<Rightarrow> newTable_loop name es (fmupd (From e, On e) (To e) m))"

definition NewTable :: "string \<Rightarrow> ('s, 'e) edge list \<Rightarrow> ('s, 'e) panic + ('s, 'e) table" where
  "NewTable name es =
     (case newTable_loop name es fmempty of
        Inl p \<Rightarrow> Inl p
      | Inr m \<Rightarrow> Inr \<lparr>tname = name, edges = es, nextm = m\<rparr>)"

definition Next :: "('s, 'e) table \<Rightarrow> 's \<Rightarrow> 'e \<Rightarrow> 's option" where
  "Next t from on = fmlookup (nextm t) (from, on)"

definition Edges :: "('s, 'e) table \<Rightarrow> ('s, 'e) edge list" where
  "Edges t = edges t"

section \<open>Machines\<close>

datatype ('s, 'e) illegal = IllegalError string 's 'e

record ('s, 'e) machine =
  mtable :: "('s, 'e) table"
  state :: 's

definition NewMachine :: "('s, 'e) table option \<Rightarrow> 's \<Rightarrow> ('s, 'e) panic + ('s, 'e) machine" where
  "NewMachine t initial =
     (case t of None \<Rightarrow> Inl NilTable | Some tb \<Rightarrow> Inr \<lparr>mtable = tb, state = initial\<rparr>)"

definition Fire ::
  "('s, 'e) machine \<Rightarrow> 'e \<Rightarrow> ('s, 'e) machine \<times> 's \<times> 's \<times> ('s, 'e) illegal option" where
  "Fire m on =
     (let cur = state m in
      case Next (mtable m) cur on of
        None \<Rightarrow> (m, cur, cur, Some (IllegalError (tname (mtable m)) cur on))
      | Some nx \<Rightarrow> (m\<lparr>state := nx\<rparr>, cur, nx, None))"

section \<open>The table is exactly its edges\<close>

definition keys_of :: "('s, 'e) edge list \<Rightarrow> ('s \<times> 'e) list" where
  "keys_of es = map (\<lambda>e. (From e, On e)) es"

lemma keys_of_simps [simp]:
  "keys_of [] = []" "keys_of (e # es) = (From e, On e) # keys_of es"
  by (simp_all add: keys_of_def)

lemma newTable_loop_Inr:
  "(\<exists>m'. newTable_loop name es m = Inr m') \<longleftrightarrow>
     distinct (keys_of es) \<and> set (keys_of es) \<inter> fset (fmdom m) = {}"
proof (induction es arbitrary: m)
  case Nil
  then show ?case by simp
next
  case (Cons e es)
  show ?case
  proof (cases "fmlookup m (From e, On e)")
    case None
    then have "(From e, On e) |\<notin>| fmdom m" by (simp add: fmdom_notI)
    with None Cons show ?thesis by auto
  next
    case (Some x)
    then have "(From e, On e) |\<in>| fmdom m" by (simp add: fmdomI)
    with Some show ?thesis by auto
  qed
qed

lemma newTable_loop_lookup:
  "newTable_loop name es m = Inr m' \<Longrightarrow>
     fmlookup m' (s, v) = (case find (\<lambda>e. From e = s \<and> On e = v) es of
       Some e \<Rightarrow> Some (To e) | None \<Rightarrow> fmlookup m (s, v))"
proof (induction es arbitrary: m)
  case Nil
  then show ?case by simp
next
  case (Cons e es)
  let ?m1 = "fmupd (From e, On e) (To e) m"
  from Cons.prems have run: "newTable_loop name es ?m1 = Inr m'"
    by (auto split: option.splits)
  then have fresh: "(From e, On e) \<notin> set (keys_of es)"
    using newTable_loop_Inr [of name es ?m1] by auto
  have none: "find (\<lambda>x. From x = From e \<and> On x = On e) es = None"
    using fresh by (auto simp: find_None_iff keys_of_def image_iff)
  show ?case using Cons.IH [OF run] none by (auto split: option.splits)
qed

lemma find_edge:
  assumes "distinct (keys_of es)"
  shows "find (\<lambda>e. From e = s \<and> On e = v) es = Some e \<longleftrightarrow> e \<in> set es \<and> From e = s \<and> On e = v"
  using assms
proof (induction es)
  case Nil
  then show ?case by simp
next
  case (Cons a es)
  then show ?case by (auto simp: keys_of_def)
qed

lemma NewTable_InrD:
  assumes "NewTable name es = Inr t"
  shows "edges t = es" "tname t = name" "newTable_loop name es fmempty = Inr (nextm t)"
    and "distinct (keys_of es)"
proof -
  from assms obtain m where m: "newTable_loop name es fmempty = Inr m"
    and t: "t = \<lparr>tname = name, edges = es, nextm = m\<rparr>"
    by (auto simp: NewTable_def split: sum.splits)
  then show "edges t = es" "tname t = name" "newTable_loop name es fmempty = Inr (nextm t)"
    by simp_all
  show "distinct (keys_of es)"
    using m newTable_loop_Inr [of name es fmempty] by auto
qed

lemma Next_iff_edge:
  assumes "NewTable name es = Inr t"
  shows "Next t s v = Some s' \<longleftrightarrow> \<lparr>From = s, On = v, To = s'\<rparr> \<in> set es"
proof -
  note d = NewTable_InrD [OF assms]
  have "Next t s v = map_option To (find (\<lambda>e. From e = s \<and> On e = v) es)"
    using newTable_loop_lookup [OF d(3), of s v]
    by (simp add: Next_def split: option.splits)
  also have "\<dots> = Some s' \<longleftrightarrow> (\<exists>e \<in> set es. From e = s \<and> On e = v \<and> To e = s')"
    using find_edge [OF d(4), of s v] by auto
  also have "\<dots> \<longleftrightarrow> \<lparr>From = s, On = v, To = s'\<rparr> \<in> set es"
    by (metis (full_types) edge.select_convs edge.surjective old.unit.exhaust)
  finally show ?thesis .
qed

text \<open>
  \<open>NewTable\<close> panics exactly on two edges with the same source and event; a table it
  returns answers \<open>Next\<close> with an edge exactly when that edge was declared, so every other
  transition is refused, and \<open>Edges\<close> gives back the declaration.
\<close>

theorem NewTable_spec:
  "((\<exists>t. NewTable name es = Inr t) \<longleftrightarrow> distinct (keys_of es)) \<and>
   (\<forall>t. NewTable name es = Inr t \<longrightarrow>
      Edges t = es \<and>
      (\<forall>s v s'. Next t s v = Some s' \<longleftrightarrow> \<lparr>From = s, On = v, To = s'\<rparr> \<in> set es))"
proof -
  have "(\<exists>t. NewTable name es = Inr t) \<longleftrightarrow> (\<exists>m. newTable_loop name es fmempty = Inr m)"
    by (auto simp: NewTable_def split: sum.splits)
  then show ?thesis
    using newTable_loop_Inr [of name es fmempty]
    by (auto simp: Next_iff_edge Edges_def dest: NewTable_InrD)
qed


text \<open>A two-state table with one edge.\<close>

definition race_table :: "(nat, bool) table" where
  "race_table = \<lparr>tname = ''race'', edges = [\<lparr>From = 1, On = True, To = 2\<rparr>],
     nextm = fmupd (1, True) 2 fmempty\<rparr>"

lemma race_table_new: "NewTable ''race'' [\<lparr>From = 1, On = True, To = 2\<rparr>] = Inr race_table"
  by (simp add: NewTable_def race_table_def)

theorem NewTable_spec_witness:
  "NewTable ''race'' [\<lparr>From = 1, On = True, To = 2\<rparr>] = Inr race_table \<and>
   Edges race_table = [\<lparr>From = 1, On = True, To = 2\<rparr>] \<and>
   Next race_table 1 True = Some 2 \<and> Next race_table 1 False = None"
proof -
  note r = NewTable_spec [of "''race''" "[\<lparr>From = (1::nat), On = True, To = 2\<rparr>]",
      THEN conjunct2, rule_format, OF race_table_new]
  have "Next race_table 1 False = None"
    using r by (auto simp flip: not_Some_eq)
  with r race_table_new show ?thesis by simp
qed

section \<open>The atomic machine\<close>

text \<open>
  \<open>Atomic.Fire\<close> is a loop: load the word, look the edge up, and compare-and-swap from the value
  loaded, going round again when another thread changed the word in between. Each load and each
  compare-and-swap is one step, and any number of threads interleave. \<open>fired\<close> records the
  calls in the order in which they took effect: at the load for a refused call, at the successful
  swap for the others. \<open>started\<close> counts a thread's calls and \<open>seen\<close> is the length of the record
  when the thread last loaded; neither is read by the code.
\<close>

datatype ('s, 'e) fire_pc =
    Outside
  | Loading 'e
  | Swapping 'e 's 's
  | Returning 'e 's 's "('s, 'e) illegal option"

type_synonym ('s, 'e) fire_record = "nat \<times> 'e \<times> 's \<times> 's \<times> ('s, 'e) illegal option"

record ('s, 'e) atomic_sys =
  word :: 's
  pcs :: "nat \<Rightarrow> ('s, 'e) fire_pc"
  fired :: "('s, 'e) fire_record list"
  started :: "nat \<Rightarrow> nat"
  seen :: "nat \<Rightarrow> nat"

definition at_rest :: "'s \<Rightarrow> ('s, 'e) atomic_sys" where
  "at_rest initial =
     \<lparr>word = initial, pcs = (\<lambda>_. Outside), fired = [], started = (\<lambda>_. 0), seen = (\<lambda>_. 0)\<rparr>"

definition NewAtomic :: "('s, 'e) table option \<Rightarrow> 's \<Rightarrow> ('s, 'e) panic + ('s, 'e) atomic_sys" where
  "NewAtomic t initial = (case t of None \<Rightarrow> Inl NilTable | Some _ \<Rightarrow> Inr (at_rest initial))"

inductive atomic_step :: "('s, 'e) table \<Rightarrow> ('s, 'e) atomic_sys \<Rightarrow> ('s, 'e) atomic_sys \<Rightarrow> bool"
  for t where
  call: "pcs a i = Outside \<Longrightarrow>
     atomic_step t a (a\<lparr>pcs := (pcs a)(i := Loading on), started := (started a)(i := Suc (started a i))\<rparr>)"
| load_edge: "pcs a i = Loading on \<Longrightarrow> Next t (word a) on = Some nx \<Longrightarrow>
     atomic_step t a (a\<lparr>pcs := (pcs a)(i := Swapping on (word a) nx),
                        seen := (seen a)(i := length (fired a))\<rparr>)"
| load_illegal: "pcs a i = Loading on \<Longrightarrow> Next t (word a) on = None \<Longrightarrow>
     err = Some (IllegalError (tname t) (word a) on) \<Longrightarrow>
     atomic_step t a (a\<lparr>pcs := (pcs a)(i := Returning on (word a) (word a) err),
                        fired := fired a @ [(i, on, word a, word a, err)]\<rparr>)"
| swap_ok: "pcs a i = Swapping on cur nx \<Longrightarrow> word a = cur \<Longrightarrow>
     atomic_step t a (a\<lparr>word := nx, pcs := (pcs a)(i := Returning on cur nx None),
                        fired := fired a @ [(i, on, cur, nx, None)]\<rparr>)"
| swap_lost: "pcs a i = Swapping on cur nx \<Longrightarrow> word a \<noteq> cur \<Longrightarrow>
     atomic_step t a (a\<lparr>pcs := (pcs a)(i := Loading on)\<rparr>)"
| return: "pcs a i = Returning on f s err \<Longrightarrow>
     atomic_step t a (a\<lparr>pcs := (pcs a)(i := Outside)\<rparr>)"

inductive atomic_reach :: "('s, 'e) table \<Rightarrow> 's \<Rightarrow> ('s, 'e) atomic_sys \<Rightarrow> bool" for t s0 where
  start: "NewAtomic (Some t) s0 = Inr a \<Longrightarrow> atomic_reach t s0 a"
| step: "atomic_reach t s0 a \<Longrightarrow> atomic_step t a b \<Longrightarrow> atomic_reach t s0 b"

text \<open>Replaying a record on the plain machine: each entry must be what \<open>Fire\<close> answers.\<close>

fun replay :: "('s, 'e) table \<Rightarrow> 's \<Rightarrow> ('s, 'e) fire_record list \<Rightarrow> 's option" where
  "replay t s [] = Some s"
| "replay t s ((i, on, f, s', err) # l) =
     (case Fire \<lparr>mtable = t, state = s\<rparr> on of
        (m, f1, s1, e1) \<Rightarrow> if (f1, s1, e1) = (f, s', err) then replay t (state m) l else None)"

lemma replay_append: "replay t s (l1 @ l2) = Option.bind (replay t s l1) (\<lambda>s1. replay t s1 l2)"
  by (induction l1 arbitrary: s) (auto split: prod.splits)

lemma replay_snoc_illegal:
  assumes "replay t s l = Some w" "Next t w on = None"
  shows "replay t s (l @ [(i, on, w, w, Some (IllegalError (tname t) w on))]) = Some w"
  using assms by (simp add: replay_append Fire_def)

lemma replay_snoc_edge:
  assumes "replay t s l = Some w" "Next t w on = Some nx"
  shows "replay t s (l @ [(i, on, w, nx, None)]) = Some nx"
  using assms by (simp add: replay_append Fire_def)

lemma replay_unmoved:
  "replay t s l = Some w \<Longrightarrow> w \<noteq> s \<Longrightarrow> \<exists>x \<in> set l. snd (snd (snd (snd x))) = None"
  by (induction t s l rule: replay.induct) (auto simp: Fire_def split: option.splits if_splits)

fun mid_call :: "('s, 'e) fire_pc \<Rightarrow> bool" where
  "mid_call (Loading _) = True"
| "mid_call (Swapping _ _ _) = True"
| "mid_call _ = False"

definition fires_by :: "nat \<Rightarrow> ('s, 'e) fire_record list \<Rightarrow> nat" where
  "fires_by i l = length (filter (\<lambda>x. fst x = i) l)"

lemma fires_by_simps [simp]:
  "fires_by i [] = 0"
  "fires_by i (l @ [x]) = fires_by i l + (if fst x = i then 1 else 0)"
  by (simp_all add: fires_by_def)

definition atomic_inv :: "('s, 'e) table \<Rightarrow> 's \<Rightarrow> ('s, 'e) atomic_sys \<Rightarrow> bool" where
  "atomic_inv t s0 a \<longleftrightarrow>
     replay t s0 (fired a) = Some (word a) \<and>
     (\<forall>i. started a i = fires_by i (fired a) + (if mid_call (pcs a i) then 1 else 0)) \<and>
     (\<forall>i on f s err. pcs a i = Returning on f s err \<longrightarrow> (i, on, f, s, err) \<in> set (fired a)) \<and>
     (\<forall>i on cur nx. pcs a i = Swapping on cur nx \<longrightarrow>
        Next t cur on = Some nx \<and> seen a i \<le> length (fired a) \<and>
        replay t cur (drop (seen a i) (fired a)) = Some (word a))"

lemma atomic_start: "atomic_reach t s0 (at_rest s0)"
  by (rule atomic_reach.start) (simp add: NewAtomic_def)

lemma atomic_inv_start: "NewAtomic (Some t) s0 = Inr a \<Longrightarrow> atomic_inv t s0 a"
  by (auto simp: atomic_inv_def NewAtomic_def at_rest_def)

lemma atomic_step_inv:
  assumes "atomic_step t a b" "atomic_inv t s0 a"
  shows "atomic_inv t s0 b"
  using assms
proof cases
  case (call i on)
  with assms(2) show ?thesis by (auto simp: atomic_inv_def)
next
  case (load_edge i on nx)
  with assms(2) show ?thesis by (auto simp: atomic_inv_def)
next
  case (load_illegal i on err)
  with assms(2) show ?thesis
    by (auto simp: atomic_inv_def replay_snoc_illegal intro: le_SucI)
next
  case (swap_ok i on cur nx)
  with assms(2) have "Next t (word a) on = Some nx" by (auto simp: atomic_inv_def)
  with swap_ok assms(2) show ?thesis
    by (auto simp: atomic_inv_def replay_snoc_edge intro: le_SucI)
next
  case (swap_lost i on cur nx)
  with assms(2) show ?thesis by (auto simp: atomic_inv_def)
next
  case (return i on f s err)
  with assms(2) show ?thesis by (auto simp: atomic_inv_def)
qed

lemma atomic_reach_inv: "atomic_reach t s0 a \<Longrightarrow> atomic_inv t s0 a"
  by (induction rule: atomic_reach.induct) (blast intro: atomic_inv_start atomic_step_inv)+

text \<open>
  C35. The compare-and-swap loop is linearizable: however the loads and swaps of any number of
  threads interleave, the calls that took effect are, in that order, a run of the plain machine
  from the initial state to the word's value, a call that is returning returns what that run
  answered it, and every call took effect exactly once or is still running. A call that must go
  round again has had another thread's transition succeed since its load.
\<close>

theorem Atomic_Fire_linearizable:
  assumes "atomic_reach t s0 a"
  shows "replay t s0 (fired a) = Some (word a) \<and>
    (\<forall>i on f s err. pcs a i = Returning on f s err \<longrightarrow> (i, on, f, s, err) \<in> set (fired a)) \<and>
    (\<forall>i. started a i = fires_by i (fired a) + (if mid_call (pcs a i) then 1 else 0)) \<and>
    (\<forall>i on cur nx. pcs a i = Swapping on cur nx \<and> word a \<noteq> cur \<longrightarrow>
       (\<exists>x \<in> set (drop (seen a i) (fired a)). snd (snd (snd (snd x))) = None))"
proof -
  from assms have inv: "atomic_inv t s0 a" by (rule atomic_reach_inv)
  moreover have "\<exists>x \<in> set (drop (seen a i) (fired a)). snd (snd (snd (snd x))) = None"
    if "pcs a i = Swapping on cur nx" "word a \<noteq> cur" for i on cur nx
    using that inv by (intro replay_unmoved [of t cur]) (auto simp: atomic_inv_def)
  ultimately show ?thesis by (auto simp: atomic_inv_def)
qed

text \<open>
  Two threads race one edge of a two-state table: both load, thread 0 swaps, and thread 1, whose
  swap would now fail, finds thread 0's transition recorded since its load.
\<close>

definition race_end :: "(nat, bool) atomic_sys" where
  "race_end =
     \<lparr>word = 2, pcs = (\<lambda>_. Outside)(0 := Returning True 1 2 None, 1 := Swapping True 1 2),
      fired = [(0, True, 1, 2, None)], started = (\<lambda>_. 0)(0 := 1, 1 := 1), seen = (\<lambda>_. 0)\<rparr>"

lemma race_end_reached: "atomic_reach race_table 1 race_end"
proof -
  let ?t = "race_table" and ?a0 = "at_rest 1 :: (nat, bool) atomic_sys"
  let ?a1 = "?a0\<lparr>pcs := (pcs ?a0)(0 := Loading True), started := (started ?a0)(0 := Suc (started ?a0 0))\<rparr>"
  let ?a2 = "?a1\<lparr>pcs := (pcs ?a1)(1 := Loading True), started := (started ?a1)(1 := Suc (started ?a1 1))\<rparr>"
  let ?a3 = "?a2\<lparr>pcs := (pcs ?a2)(0 := Swapping True (word ?a2) 2), seen := (seen ?a2)(0 := length (fired ?a2))\<rparr>"
  let ?a4 = "?a3\<lparr>pcs := (pcs ?a3)(1 := Swapping True (word ?a3) 2), seen := (seen ?a3)(1 := length (fired ?a3))\<rparr>"
  let ?a5 = "?a4\<lparr>word := 2, pcs := (pcs ?a4)(0 := Returning True 1 2 None),
               fired := fired ?a4 @ [(0, True, 1, 2, None)]\<rparr>"
  have "atomic_step ?t ?a0 ?a1" by (rule atomic_step.call) (simp add: at_rest_def)
  moreover have "atomic_step ?t ?a1 ?a2" by (rule atomic_step.call) (simp add: at_rest_def)
  moreover have "atomic_step ?t ?a2 ?a3"
    by (rule atomic_step.load_edge) (simp_all add: at_rest_def Next_def race_table_def)
  moreover have "atomic_step ?t ?a3 ?a4"
    by (rule atomic_step.load_edge) (simp_all add: at_rest_def Next_def race_table_def)
  moreover have "atomic_step ?t ?a4 ?a5"
    by (rule atomic_step.swap_ok) (simp_all add: at_rest_def)
  ultimately have "atomic_reach ?t 1 ?a5"
    by (meson atomic_start atomic_reach.step)
  moreover have "?a5 = race_end"
    by (simp add: at_rest_def race_end_def fun_eq_iff)
  ultimately show ?thesis by simp
qed

theorem Atomic_Fire_linearizable_witness:
  "atomic_reach race_table 1 race_end \<and>
   replay race_table 1 (fired race_end) = Some 2 \<and>
   pcs race_end 1 = Swapping True 1 2 \<and> word race_end \<noteq> 1 \<and>
   (\<exists>x \<in> set (drop (seen race_end 1) (fired race_end)). snd (snd (snd (snd x))) = None)"
proof -
  have "pcs race_end 1 = Swapping True 1 2" "word race_end = 2"
    by (simp_all add: race_end_def)
  with race_end_reached Atomic_Fire_linearizable [OF race_end_reached] show ?thesis
    by (metis numeral_eq_one_iff semiring_norm(85))
qed

end
