(* ===== verification/Vfs.thy ===== *)
theory Vfs
  imports Prelude
begin

text \<open>
  The filesystem contract of \<open>internal/vfs/vfs.go\<close>: the NFSv3 status codes, the file types, the
  attribute records, the caller identity and the access bits the protocol and the filesystem
  exchange. A \<open>Status\<close> is a 32-bit number in the source; every value the program makes is one of
  its constants, so it is an enumeration here, with \<open>status_code\<close> giving the number.
\<close>

datatype status =
    OK | ErrPerm | ErrNoEnt | ErrIO | ErrNXIO | ErrAcces | ErrExist | ErrXDev | ErrNoDev
  | ErrNotDir | ErrIsDir | ErrInval | ErrFBig | ErrNoSpc | ErrROFS | ErrMLink | ErrNameTooLong
  | ErrNotEmpty | ErrDQuot | ErrStale | ErrRemote | ErrBadHandle | ErrNotSync | ErrBadCookie
  | ErrNotSupp | ErrTooSmall | ErrServerFault | ErrBadType | ErrJukebox

fun status_code :: "status \<Rightarrow> u32" where
  "status_code OK = 0"
| "status_code ErrPerm = 1"
| "status_code ErrNoEnt = 2"
| "status_code ErrIO = 5"
| "status_code ErrNXIO = 6"
| "status_code ErrAcces = 13"
| "status_code ErrExist = 17"
| "status_code ErrXDev = 18"
| "status_code ErrNoDev = 19"
| "status_code ErrNotDir = 20"
| "status_code ErrIsDir = 21"
| "status_code ErrInval = 22"
| "status_code ErrFBig = 27"
| "status_code ErrNoSpc = 28"
| "status_code ErrROFS = 30"
| "status_code ErrMLink = 31"
| "status_code ErrNameTooLong = 63"
| "status_code ErrNotEmpty = 66"
| "status_code ErrDQuot = 69"
| "status_code ErrStale = 70"
| "status_code ErrRemote = 71"
| "status_code ErrBadHandle = 10001"
| "status_code ErrNotSync = 10002"
| "status_code ErrBadCookie = 10003"
| "status_code ErrNotSupp = 10004"
| "status_code ErrTooSmall = 10005"
| "status_code ErrServerFault = 10006"
| "status_code ErrBadType = 10007"
| "status_code ErrJukebox = 10008"

datatype file_type = TypeReg | TypeDir | TypeBlk | TypeChr | TypeLnk | TypeSock | TypeFifo

fun type_code :: "file_type \<Rightarrow> u32" where
  "type_code TypeReg = 1"
| "type_code TypeDir = 2"
| "type_code TypeBlk = 3"
| "type_code TypeChr = 4"
| "type_code TypeLnk = 5"
| "type_code TypeSock = 6"
| "type_code TypeFifo = 7"

text \<open>\<open>time.Time\<close> is a count of nanoseconds since the epoch.\<close>

type_synonym gotime = int

type_synonym handle = bytes

record attr =
  a_Type :: file_type
  a_Mode :: u32
  a_NLink :: u32
  a_UID :: u32
  a_GID :: u32
  a_Size :: nat
  a_Used :: nat
  a_RDev :: "u32 \<times> u32"
  a_FSID :: u64
  a_FileID :: u64
  a_ATime :: gotime
  a_MTime :: gotime
  a_CTime :: gotime

record set_attr =
  s_Mode :: "u32 option"
  s_UID :: "u32 option"
  s_GID :: "u32 option"
  s_Size :: "nat option"
  s_ATime :: "gotime option"
  s_MTime :: "gotime option"

definition no_attrs :: set_attr where
  "no_attrs = \<lparr>s_Mode = None, s_UID = None, s_GID = None, s_Size = None, s_ATime = None, s_MTime = None\<rparr>"

record dir_entry =
  d_FileID :: u64
  d_Name :: string
  d_Cookie :: nat
  d_Handle :: "handle option"
  d_Attr :: "attr option"

record fs_stat =
  TotalBytes :: nat
  FreeBytes :: nat
  AvailBytes :: nat
  TotalFiles :: nat
  FreeFiles :: nat

text \<open>\<open>Stability\<close> is a \<open>uint32\<close>: a client may send a value that is none of the three.\<close>

datatype stability = Unstable | DataSync | FileSync | StabilityOther u32

fun stability_code :: "stability \<Rightarrow> u32" where
  "stability_code Unstable = 0"
| "stability_code DataSync = 1"
| "stability_code FileSync = 2"
| "stability_code (StabilityOther v) = v"

definition stability_of :: "u32 \<Rightarrow> stability" where
  "stability_of v = (if v = 0 then Unstable else if v = 1 then DataSync else if v = 2 then FileSync else StabilityOther v)"

record caller =
  c_UID :: u32
  c_GID :: u32
  c_GIDs :: "u32 list"

definition AccessRead :: u32 where "AccessRead = 0x0001"
definition AccessLookup :: u32 where "AccessLookup = 0x0002"
definition AccessModify :: u32 where "AccessModify = 0x0004"
definition AccessExtend :: u32 where "AccessExtend = 0x0008"
definition AccessDelete :: u32 where "AccessDelete = 0x0010"
definition AccessExecute :: u32 where "AccessExecute = 0x0020"

lemmas access_bit_defs =
  AccessRead_def AccessLookup_def AccessModify_def AccessExtend_def AccessDelete_def AccessExecute_def

lemma status_code_inj: "status_code a = status_code b \<Longrightarrow> a = b"
  by (cases a; cases b) simp_all

end
