(* ===== verification/Modes.thy ===== *)
theory Modes
  imports Fsm Vfs
begin

text \<open>
  The two state machines of a mount, \<open>internal/blobfs/mode.go\<close> and
  \<open>internal/blobfs/rootknowledge.go\<close>: whether the mount accepts changes, and whether it knows the
  ETag of the root pointer it descends from.
\<close>

section \<open>The mount mode\<close>

datatype mountMode = mountWritable | mountReadOnly | mountDiverged | mountModeOther u32

datatype mountEvent = mountDiverge | mountEventOther u8

definition mountModes_new :: "(mountMode, mountEvent) panic + (mountMode, mountEvent) table" where
  "mountModes_new = NewTable ''mode'' [\<lparr>From = mountWritable, On = mountDiverge, To = mountDiverged\<rparr>]"

definition mountModes :: "(mountMode, mountEvent) table" where
  "mountModes = projr mountModes_new"

lemma mountModes_ok: "mountModes_new = Inr mountModes"
  by (simp add: mountModes_def mountModes_new_def NewTable_def)

lemma Next_mountModes:
  "Next mountModes m e = Some m' \<longleftrightarrow> m = mountWritable \<and> e = mountDiverge \<and> m' = mountDiverged"
  using Next_iff_edge [OF mountModes_ok [unfolded mountModes_new_def]] by auto

lemma Next_mountModes_simps [simp]:
  "Next mountModes mountWritable mountDiverge = Some mountDiverged"
  "m \<noteq> mountWritable \<Longrightarrow> Next mountModes m e = None"
  by (simp_all add: Next_mountModes flip: not_Some_eq)

section \<open>Root-pointer knowledge\<close>

datatype rootState = rootKnown | rootInDoubt | rootStateOther u8

datatype rootEvent = rootSwapOK | rootSwapUnknown | rootProbeOurs | rootProbeUnchanged | rootEventOther u8

definition rootStates_new :: "(rootState, rootEvent) panic + (rootState, rootEvent) table" where
  "rootStates_new = NewTable ''rootKnowledge''
     [\<lparr>From = rootKnown, On = rootSwapOK, To = rootKnown\<rparr>,
      \<lparr>From = rootKnown, On = rootSwapUnknown, To = rootInDoubt\<rparr>,
      \<lparr>From = rootInDoubt, On = rootProbeOurs, To = rootKnown\<rparr>,
      \<lparr>From = rootInDoubt, On = rootProbeUnchanged, To = rootKnown\<rparr>]"

definition rootStates :: "(rootState, rootEvent) table" where
  "rootStates = projr rootStates_new"

lemma rootStates_ok: "rootStates_new = Inr rootStates"
  by (simp add: rootStates_def rootStates_new_def NewTable_def)

lemma Next_rootStates:
  "Next rootStates s e = Some s' \<longleftrightarrow>
     s = rootKnown \<and> e = rootSwapOK \<and> s' = rootKnown \<or>
     s = rootKnown \<and> e = rootSwapUnknown \<and> s' = rootInDoubt \<or>
     s = rootInDoubt \<and> e = rootProbeOurs \<and> s' = rootKnown \<or>
     s = rootInDoubt \<and> e = rootProbeUnchanged \<and> s' = rootKnown"
  using Next_iff_edge [OF rootStates_ok [unfolded rootStates_new_def]] by auto

lemma Next_rootStates_simps [simp]:
  "Next rootStates rootKnown rootSwapOK = Some rootKnown"
  "Next rootStates rootKnown rootSwapUnknown = Some rootInDoubt"
  "Next rootStates rootInDoubt rootProbeOurs = Some rootKnown"
  "Next rootStates rootInDoubt rootProbeUnchanged = Some rootKnown"
  "Next rootStates rootInDoubt rootSwapOK = None"
  "Next rootStates rootInDoubt rootSwapUnknown = None"
  by (simp_all add: Next_rootStates flip: not_Some_eq)

section \<open>What a mode answers a change\<close>

text \<open>\<open>FS.mutable\<close>: \<open>None\<close> is Go's \<open>nil\<close>.\<close>

fun mode_error :: "mountMode \<Rightarrow> status option" where
  "mode_error mountWritable = None"
| "mode_error mountReadOnly = Some ErrROFS"
| "mode_error mountDiverged = Some ErrStale"
| "mode_error (mountModeOther _) = Some ErrServerFault"

lemma mode_error_None [simp]: "mode_error m = None \<longleftrightarrow> m = mountWritable"
  by (cases m) simp_all

text \<open>
  C36. No run of the mode machine, of any threads in any interleaving, ever widens what the mount may
  do: a mount that is not writable stays in its mode for good, and a writable one can only become
  diverged.
\<close>

theorem mode_never_widens:
  assumes "atomic_reach mountModes m0 a"
  shows "word a = m0 \<or> m0 = mountWritable \<and> word a = mountDiverged"
  using assms
proof (induction rule: atomic_reach.induct)
  case start
  then show ?case by (auto simp: NewAtomic_def at_rest_def)
next
  case (step a b)
  have inv: "atomic_inv mountModes m0 a" using step.hyps(1) by (rule atomic_reach_inv)
  from step.hyps(2) step.IH inv show ?case
    by cases (auto simp: atomic_inv_def Next_mountModes)
qed

definition diverged_run :: "(mountMode, mountEvent) atomic_sys" where
  "diverged_run =
     \<lparr>word = mountDiverged, pcs = (\<lambda>_. Outside)(0 := Returning mountDiverge mountWritable mountDiverged None),
      fired = [(0, mountDiverge, mountWritable, mountDiverged, None)],
      started = (\<lambda>_. 0)(0 := 1), seen = (\<lambda>_. 0)\<rparr>"

lemma diverged_run_reached: "atomic_reach mountModes mountWritable diverged_run"
proof -
  let ?a0 = "at_rest mountWritable :: (mountMode, mountEvent) atomic_sys"
  let ?a1 = "?a0\<lparr>pcs := (pcs ?a0)(0 := Loading mountDiverge), started := (started ?a0)(0 := Suc (started ?a0 0))\<rparr>"
  let ?a2 = "?a1\<lparr>pcs := (pcs ?a1)(0 := Swapping mountDiverge (word ?a1) mountDiverged),
               seen := (seen ?a1)(0 := length (fired ?a1))\<rparr>"
  let ?a3 = "?a2\<lparr>word := mountDiverged, pcs := (pcs ?a2)(0 := Returning mountDiverge mountWritable mountDiverged None),
               fired := fired ?a2 @ [(0, mountDiverge, mountWritable, mountDiverged, None)]\<rparr>"
  have "atomic_step mountModes ?a0 ?a1" by (rule atomic_step.call) (simp add: at_rest_def)
  moreover have "atomic_step mountModes ?a1 ?a2"
    by (rule atomic_step.load_edge) (simp_all add: at_rest_def)
  moreover have "atomic_step mountModes ?a2 ?a3"
    by (rule atomic_step.swap_ok) (simp_all add: at_rest_def)
  ultimately have "atomic_reach mountModes mountWritable ?a3"
    by (meson atomic_start atomic_reach.step)
  moreover have "?a3 = diverged_run"
    by (simp add: at_rest_def diverged_run_def fun_eq_iff)
  ultimately show ?thesis by simp
qed

theorem mode_never_widens_witness:
  "atomic_reach mountModes mountWritable diverged_run \<and> word diverged_run = mountDiverged"
  using diverged_run_reached mode_never_widens [OF diverged_run_reached]
  by (simp add: diverged_run_def)

end
