(* ===== verification/Policy.thy ===== *)
theory Policy
  imports Vfs
begin

text \<open>
  \<open>internal/policy/policy.go\<close>: what a caller may do to a filesystem object, as one table of rules.
  A decision is \<open>None\<close> to allow (Go's \<open>nil\<close>) and \<open>Some\<close> status to refuse. The octal mode masks
  are written in hexadecimal: \<open>0o777\<close> is \<open>0x1FF\<close> and \<open>0o111\<close> is \<open>0x49\<close>.
\<close>

definition PermExec :: u32 where "PermExec = 1"
definition PermWrite :: u32 where "PermWrite = 2"
definition PermRead :: u32 where "PermRead = 4"

definition permAll :: u32 where "permAll = PermRead OR PermWrite OR PermExec"

lemmas perm_defs = PermExec_def PermWrite_def PermRead_def

record object =
  o_Type :: file_type
  o_Mode :: u32
  o_UID :: u32
  o_GID :: u32

fun member_gid :: "u32 list \<Rightarrow> u32 \<Rightarrow> bool" where
  "member_gid [] gid = False"
| "member_gid (g # gs) gid = (if g = gid then True else member_gid gs gid)"

definition InGroup :: "caller \<Rightarrow> u32 \<Rightarrow> bool" where
  "InGroup c gid = (if c_GID c = gid then True else member_gid (c_GIDs c) gid)"

definition Permits :: "caller \<Rightarrow> object \<Rightarrow> u32 \<Rightarrow> bool" where
  "Permits c ob want =
     (if want AND NOT permAll \<noteq> 0 then False
      else let mode = o_Mode ob AND 0x1FF in
        if c_UID c = 0 then want AND PermExec = 0 \<or> o_Type ob = TypeDir \<or> mode AND 0x49 \<noteq> 0
        else let bits = (if c_UID c = o_UID ob then drop_bit 6 mode AND 7
                         else if InGroup c (o_GID ob) then drop_bit 3 mode AND 7
                         else mode AND 7)
             in bits AND want = want)"

datatype op =
    OpRead | OpWrite | OpTruncate | OpChmod | OpChown | OpChgrp | OpSetTimes | OpLookup | OpReadDir
  | OpAddEntry | OpRemoveEntry | OpRename | OpOther u8

record request =
  r_Op :: op
  r_Caller :: caller
  r_Object :: object
  r_Dst :: object
  r_UID :: u32
  r_GID :: u32

type_synonym policy = "request \<Rightarrow> status option"

fun All :: "policy list \<Rightarrow> policy" where
  "All [] r = None"
| "All (p # ps) r = (case p r of Some e \<Rightarrow> Some e | None \<Rightarrow> All ps r)"

definition fileAccess :: "caller \<Rightarrow> object \<Rightarrow> u32 \<Rightarrow> status option" where
  "fileAccess c ob want =
     (if o_Type ob = TypeDir then Some ErrIsDir
      else if \<not> Permits c ob want then Some ErrAcces else None)"

definition dirAccess :: "caller \<Rightarrow> object \<Rightarrow> u32 \<Rightarrow> status option" where
  "dirAccess c ob want =
     (if o_Type ob \<noteq> TypeDir then Some ErrNotDir
      else if \<not> Permits c ob want then Some ErrAcces else None)"

definition rootOrOwner :: "caller \<Rightarrow> object \<Rightarrow> bool" where
  "rootOrOwner c ob \<longleftrightarrow> c_UID c = 0 \<or> c_UID c = o_UID ob"

definition unix_Check :: policy where
  "unix_Check r =
     (let c = r_Caller r; ob = r_Object r in
      case r_Op r of
        OpRead \<Rightarrow> fileAccess c ob PermRead
      | OpWrite \<Rightarrow> fileAccess c ob PermWrite
      | OpTruncate \<Rightarrow> fileAccess c ob PermWrite
      | OpChmod \<Rightarrow> if \<not> rootOrOwner c ob then Some ErrPerm else None
      | OpChown \<Rightarrow>
          if \<not> rootOrOwner c ob then Some ErrPerm
          else if c_UID c \<noteq> 0 \<and> r_UID r \<noteq> o_UID ob then Some ErrPerm else None
      | OpChgrp \<Rightarrow>
          if \<not> rootOrOwner c ob then Some ErrPerm
          else if c_UID c \<noteq> 0 \<and> \<not> InGroup c (r_GID r) then Some ErrPerm else None
      | OpSetTimes \<Rightarrow>
          if \<not> rootOrOwner c ob \<and> \<not> Permits c ob PermWrite then Some ErrPerm else None
      | OpLookup \<Rightarrow> dirAccess c ob PermExec
      | OpReadDir \<Rightarrow> dirAccess c ob PermRead
      | OpAddEntry \<Rightarrow> dirAccess c ob (PermWrite OR PermExec)
      | OpRemoveEntry \<Rightarrow> dirAccess c ob (PermWrite OR PermExec)
      | OpRename \<Rightarrow>
          if o_Type ob \<noteq> TypeDir \<or> o_Type (r_Dst r) \<noteq> TypeDir then Some ErrNotDir
          else if \<not> Permits c ob (PermWrite OR PermExec)
                  \<or> \<not> Permits c (r_Dst r) (PermWrite OR PermExec) then Some ErrAcces
          else None
      | OpOther _ \<Rightarrow> Some ErrServerFault)"

definition AccessBits :: "caller \<Rightarrow> object \<Rightarrow> u32" where
  "AccessBits c ob =
     (let dir = (o_Type ob = TypeDir);
          read = Permits c ob PermRead;
          exec = Permits c ob PermExec;
          bits0 = (if read then AccessRead else 0);
          bits1 = (if dir \<and> (read \<or> exec) then bits0 OR AccessLookup else bits0);
          bits2 = (if Permits c ob PermWrite
                   then (let b = bits1 OR (AccessModify OR AccessExtend)
                         in if dir then b OR AccessDelete else b)
                   else bits1)
      in if \<not> dir \<and> o_Mode ob AND 0x49 \<noteq> 0 \<and> exec then bits2 OR AccessExecute else bits2)"

section \<open>The mode check, bit by bit\<close>

lemma member_gid_set [simp]: "member_gid gs g \<longleftrightarrow> g \<in> set gs"
  by (induction gs) auto

lemma InGroup_iff: "InGroup c g \<longleftrightarrow> g = c_GID c \<or> g \<in> set (c_GIDs c)"
  by (auto simp: InGroup_def)

lemma permAll_bit: "bit permAll n \<longleftrightarrow> n < 3"
  by (auto simp: permAll_def perm_defs bit_simps less_Suc_eq numeral_eq_Suc)

lemma and_not_permAll: "want AND NOT permAll = 0 \<longleftrightarrow> (\<forall>n. bit want n \<longrightarrow> n < 3)" for want :: u32
  by (auto simp: word_bits_eq bit_and_iff bit_not_iff permAll_bit dest: bit_u32_less)

text \<open>The position of a caller's class in the mode: owner, else group, else other.\<close>

definition class_shift :: "caller \<Rightarrow> object \<Rightarrow> nat" where
  "class_shift c ob = (if c_UID c = o_UID ob then 6 else if InGroup c (o_GID ob) then 3 else 0)"


lemma mask_bits:
  "bit (0x1FF :: int) n \<longleftrightarrow> n < 9"
  "bit (7 :: int) n \<longleftrightarrow> n < 3"
proof -
  have "(0x1FF :: int) = mask 9" "(7 :: int) = mask 3" by (simp_all add: mask_eq_exp_minus_1)
  then show "bit (0x1FF :: int) n \<longleftrightarrow> n < 9" "bit (7 :: int) n \<longleftrightarrow> n < 3"
    by (simp_all only: bit_mask_iff) simp_all
qed

lemma exec_bits: "bit (0x49 :: int) n \<longleftrightarrow> n = 0 \<or> n = 3 \<or> n = 6"
proof -
  have "(0x49 :: int) = push_bit 6 1 OR push_bit 3 1 OR 1" by simp
  then show ?thesis
    by (simp only: bit_or_iff bit_push_bit_iff bit_1_iff) auto
qed

lemma and_eq_right_iff: "a AND b = b \<longleftrightarrow> (\<forall>n. bit b n \<longrightarrow> bit a n)" for a b :: "'a::len word"
  by (auto simp: word_bits_eq bit_simps dest: bit_imp_le_length)

lemma exec_mask_iff:
  "(m AND 0x1FF) AND 0x49 \<noteq> 0 \<longleftrightarrow> bit m 0 \<or> bit m 3 \<or> bit m 6" for m :: u32
proof -
  have "(m AND 0x1FF) AND 0x49 \<noteq> 0 \<longleftrightarrow> (\<exists>n < 32. bit m n \<and> (n = 0 \<or> n = 3 \<or> n = 6))"
    by (auto simp: word_bits_eq bit_and_iff mask_bits exec_bits)
  also have "\<dots> \<longleftrightarrow> bit m 0 \<or> bit m 3 \<or> bit m 6"
    using bit_u32_less [of m] by blast
  finally show ?thesis .
qed

lemma want_exec_iff: "w AND PermExec = 0 \<longleftrightarrow> \<not> bit w 0" for w :: u32
  proof -
  have "w AND PermExec = 0 \<longleftrightarrow> (\<forall>n < 32. bit w n \<longrightarrow> n \<noteq> 0)"
    by (auto simp: word_bits_eq bit_and_iff bit_1_iff PermExec_def)
  also have "\<dots> \<longleftrightarrow> \<not> bit w 0"
    using bit_u32_less [of w 0] by metis
  finally show ?thesis .
qed

text \<open>
  C37. The mode check in full. A want with a bit outside the three is refused to everyone; root has
  read and write always, and execute on a directory or where some execute bit is set; anyone else
  has exactly the bits of one class, the owner's if it owns the object, else the group's if it is
  in the group by primary or supplementary membership, else the other bits.
\<close>

theorem Permits_spec:
  "Permits c ob want =
     ({n. bit want n} \<subseteq> {0, 1, 2} \<and>
      (if c_UID c = 0
       then 0 \<notin> {n. bit want n} \<or> o_Type ob = TypeDir \<or>
            bit (o_Mode ob) 0 \<or> bit (o_Mode ob) 3 \<or> bit (o_Mode ob) 6
       else {n. bit want n} \<subseteq> {n. bit (o_Mode ob)
              (n + (if c_UID c = o_UID ob then 6
                    else if o_GID ob \<in> insert (c_GID c) (set (c_GIDs c)) then 3 else 0))}))"
proof (cases "{n. bit want n} \<subseteq> {0, 1, 2}")
  case False
  then have "want AND NOT permAll \<noteq> 0"
    by (auto simp: and_not_permAll)
  with False show ?thesis by (simp add: Permits_def)
next
  case True
  then have lt: "n < 3" if "bit want n" for n using that by fastforce
  then have ok: "want AND NOT permAll = 0" by (simp add: and_not_permAll)
  show ?thesis
  proof (cases "c_UID c = 0")
    case True
    with ok \<open>{n. bit want n} \<subseteq> _\<close> show ?thesis
      by (simp add: Permits_def Let_def exec_mask_iff want_exec_iff)
  next
    case False
    let ?m = "o_Mode ob"
    have "(drop_bit k (?m AND 0x1FF) AND 7) AND want = want \<longleftrightarrow> (\<forall>n. bit want n \<longrightarrow> bit ?m (n + k))"
      if "k \<le> 6" for k
      using that unfolding and_eq_right_iff
      by (auto simp: bit_and_iff bit_drop_bit_eq mask_bits add.commute dest: lt)
    from this [of 0] this [of 3] this [of 6] False ok True show ?thesis
      by (auto simp: Permits_def Let_def InGroup_iff)
  qed
qed

lemma perm_bits:
  "{n. bit PermExec n} = {0}" "{n. bit PermWrite n} = {1}" "{n. bit PermRead n} = {2}"
  "{n. bit (PermWrite OR PermExec) n} = {0, 1}"
  by (auto simp: perm_defs bit_simps less_Suc_eq numeral_eq_Suc)

theorem Permits_spec_witness:
  "let c = \<lparr>c_UID = 7, c_GID = 8, c_GIDs = [9]\<rparr>;
       f = \<lparr>o_Type = TypeReg, o_Mode = 0x1A4, o_UID = 5, o_GID = 9\<rparr>
   in Permits c f PermRead \<and> \<not> Permits c f PermWrite"
  by (simp add: Let_def Permits_spec perm_bits)

section \<open>Consequences of the rules\<close>

abbreviation ask :: "op \<Rightarrow> caller \<Rightarrow> object \<Rightarrow> request" where
  "ask k c ob \<equiv> \<lparr>r_Op = k, r_Caller = c, r_Object = ob,
     r_Dst = \<lparr>o_Type = TypeReg, o_Mode = 0, o_UID = 0, o_GID = 0\<rparr>, r_UID = 0, r_GID = 0\<rparr>"

lemma All_append: "All (ps @ qs) r = (case All ps r of Some e \<Rightarrow> Some e | None \<Rightarrow> All qs r)"
  by (induction ps) (auto split: option.splits)

lemma All_None: "All ps r = None \<longleftrightarrow> (\<forall>p \<in> set ps. p r = None)"
  by (induction ps) (auto split: option.splits)

lemma Permits_or:
  "Permits c ob (PermWrite OR PermExec) \<Longrightarrow> Permits c ob PermWrite \<and> Permits c ob PermExec"
  by (auto simp: Permits_spec perm_bits split: if_splits)

lemma access_and:
  "AccessBits c ob AND AccessRead = (if Permits c ob PermRead then AccessRead else 0)"
  "AccessBits c ob AND AccessLookup =
     (if o_Type ob = TypeDir \<and> (Permits c ob PermRead \<or> Permits c ob PermExec) then AccessLookup else 0)"
  "AccessBits c ob AND AccessModify = (if Permits c ob PermWrite then AccessModify else 0)"
  "AccessBits c ob AND AccessExtend = (if Permits c ob PermWrite then AccessExtend else 0)"
  "AccessBits c ob AND AccessDelete =
     (if o_Type ob = TypeDir \<and> Permits c ob PermWrite then AccessDelete else 0)"
  "AccessBits c ob AND NOT 0x3F = 0"
  by (simp_all add: AccessBits_def Let_def access_bit_defs)

text \<open>
  C38. The ACCESS answer never denies what the operations would allow, and on a file it is exact:
  read, modify and extend are granted exactly when the read and the write are allowed. On a directory
  read is granted exactly when listing is allowed, and lookup, modify, extend and delete whenever the
  operation they stand for is allowed. No bit outside the six is ever granted.
\<close>

theorem AccessBits_complete:
  "(o_Type ob \<noteq> TypeDir \<longrightarrow>
      ((AccessBits c ob AND AccessRead = AccessRead) = (unix_Check (ask OpRead c ob) = None)) \<and>
      ((AccessBits c ob AND AccessModify = AccessModify) = (unix_Check (ask OpWrite c ob) = None)) \<and>
      ((AccessBits c ob AND AccessExtend = AccessExtend) = (unix_Check (ask OpTruncate c ob) = None))) \<and>
   (o_Type ob = TypeDir \<longrightarrow>
      ((AccessBits c ob AND AccessRead = AccessRead) = (unix_Check (ask OpReadDir c ob) = None)) \<and>
      (unix_Check (ask OpLookup c ob) = None \<longrightarrow> AccessBits c ob AND AccessLookup = AccessLookup) \<and>
      (unix_Check (ask OpAddEntry c ob) = None \<longrightarrow>
         AccessBits c ob AND (AccessModify OR AccessExtend) = AccessModify OR AccessExtend) \<and>
      (unix_Check (ask OpRemoveEntry c ob) = None \<longrightarrow> AccessBits c ob AND AccessDelete = AccessDelete)) \<and>
   AccessBits c ob AND NOT 0x3F = 0"
proof -
  have ne: "AccessRead \<noteq> 0" "AccessModify \<noteq> 0" "AccessExtend \<noteq> 0"
    by (simp_all add: access_bit_defs)
  show ?thesis
    using access_and [of c ob] Permits_or [of c ob] ne
    by (auto simp: unix_Check_def fileAccess_def dirAccess_def and.assoc bit.conj_disj_distrib
        simp flip: and.assoc split: if_splits)
qed

theorem AccessBits_complete_witness:
  "let c = \<lparr>c_UID = 7, c_GID = 8, c_GIDs = [9]\<rparr>;
       d = \<lparr>o_Type = TypeDir, o_Mode = 0x1ED, o_UID = 7, o_GID = 1\<rparr>
   in unix_Check (ask OpRemoveEntry c d) = None \<and> AccessBits c d AND AccessDelete = AccessDelete"
proof -
  let ?c = "\<lparr>c_UID = 7, c_GID = 8, c_GIDs = [9]\<rparr>"
  let ?d = "\<lparr>o_Type = TypeDir, o_Mode = 0x1ED, o_UID = 7, o_GID = 1\<rparr>"
  have "unix_Check (ask OpRemoveEntry ?c ?d) = None"
    by (simp add: unix_Check_def dirAccess_def Permits_def perm_defs permAll_def)
  with AccessBits_complete [of ?d ?c] show ?thesis by simp
qed

end
