(* ===== verification/Xdr.thy ===== *)
theory Xdr
  imports Prelude
begin

text \<open>
  \<open>internal/xdr/xdr.go\<close>: the XDR codec. A \<open>Writer\<close> is the buffer it has built. A \<open>Reader\<close> keeps
  the message, an offset and the first error it met; a failed read answers Go's zero value, here
  \<open>None\<close> for a nil slice. Lengths are Go \<open>int\<close>s, so a negative one is a case of its own.
\<close>

datatype xdr_error = ErrShort | ErrTooLong

definition maxVarLen :: nat where
  "maxVarLen = 64 * 2 ^ 20"

section \<open>Writer\<close>

type_synonym writer = bytes

definition NewWriter :: writer where "NewWriter = []"

definition W_Uint32 :: "u32 \<Rightarrow> writer \<Rightarrow> writer" where
  "W_Uint32 v w = w @ put_be32 v"

definition W_Uint64 :: "u64 \<Rightarrow> writer \<Rightarrow> writer" where
  "W_Uint64 v w = w @ put_be64 v"

definition W_Bool :: "bool \<Rightarrow> writer \<Rightarrow> writer" where
  "W_Bool v w = (if v then W_Uint32 1 w else W_Uint32 0 w)"

definition pad_len :: "nat \<Rightarrow> nat" where
  "pad_len n = (4 - n mod 4) mod 4"

definition W_pad :: "nat \<Rightarrow> writer \<Rightarrow> writer" where
  "W_pad n w = w @ replicate (pad_len n) 0"

definition W_Fixed :: "bytes \<Rightarrow> writer \<Rightarrow> writer" where
  "W_Fixed b w = W_pad (length b) (w @ b)"

definition W_Opaque :: "bytes \<Rightarrow> writer \<Rightarrow> writer" where
  "W_Opaque b w = W_Fixed b (W_Uint32 (of_nat (length b)) w)"

definition W_String :: "string \<Rightarrow> writer \<Rightarrow> writer" where
  "W_String s w = W_pad (length s) (W_Uint32 (of_nat (length s)) w @ bytes_of_string s)"

section \<open>Reader\<close>

record reader =
  rb :: bytes
  off :: nat
  err :: "xdr_error option"

definition NewReader :: "bytes \<Rightarrow> reader" where
  "NewReader b = \<lparr>rb = b, off = 0, err = None\<rparr>"

definition Remaining :: "reader \<Rightarrow> nat" where
  "Remaining r = length (rb r) - off r"

definition R_fail :: "xdr_error \<Rightarrow> reader \<Rightarrow> reader" where
  "R_fail e r = (if err r = None then r\<lparr>err := Some e\<rparr> else r)"

definition R_take :: "int \<Rightarrow> reader \<Rightarrow> bytes option \<times> reader" where
  "R_take n r =
     (if err r \<noteq> None then (None, r)
      else if n < 0 \<or> int (off r) + n > int (length (rb r)) then (None, R_fail ErrShort r)
      else (Some (slice (off r) (off r + nat n) (rb r)), r\<lparr>off := off r + nat n\<rparr>))"

definition R_Uint32 :: "reader \<Rightarrow> u32 \<times> reader" where
  "R_Uint32 r = (case R_take 4 r of (None, r1) \<Rightarrow> (0, r1) | (Some s, r1) \<Rightarrow> (get_be32 s, r1))"

definition R_Uint64 :: "reader \<Rightarrow> u64 \<times> reader" where
  "R_Uint64 r = (case R_take 8 r of (None, r1) \<Rightarrow> (0, r1) | (Some s, r1) \<Rightarrow> (get_be64 s, r1))"

definition R_Bool :: "reader \<Rightarrow> bool \<times> reader" where
  "R_Bool r = (case R_Uint32 r of (v, r1) \<Rightarrow> (v \<noteq> 0, r1))"

text \<open>Go's \<open>%\<close> truncates towards zero; \<open>skipPad\<close> is only reached with \<open>n\<close> not negative, where it is \<open>mod\<close>.\<close>

definition R_skipPad :: "int \<Rightarrow> reader \<Rightarrow> reader" where
  "R_skipPad n r = (let p = (4 - n mod 4) mod 4 in if p > 0 then snd (R_take p r) else r)"

definition R_Fixed :: "int \<Rightarrow> reader \<Rightarrow> bytes option \<times> reader" where
  "R_Fixed n r = (case R_take n r of (None, r1) \<Rightarrow> (None, r1) | (Some s, r1) \<Rightarrow> (Some s, R_skipPad n r1))"

definition R_Opaque :: "reader \<Rightarrow> bytes option \<times> reader" where
  "R_Opaque r =
     (case R_Uint32 r of (n, r1) \<Rightarrow>
        if err r1 \<noteq> None then (None, r1)
        else if unat n > maxVarLen then (None, R_fail ErrTooLong r1)
        else R_Fixed (int (unat n)) r1)"

definition R_String :: "reader \<Rightarrow> string \<times> reader" where
  "R_String r = (case R_Opaque r of (None, r1) \<Rightarrow> ('''', r1) | (Some b, r1) \<Rightarrow> (string_of_bytes b, r1))"

definition CheckLen :: "u32 \<Rightarrow> u32 \<Rightarrow> xdr_error option" where
  "CheckLen n limit = (if n > limit \<or> n > 0x7FFFFFFF then Some ErrTooLong else None)"

lemmas writer_defs = W_Uint32_def W_Uint64_def W_Bool_def W_pad_def W_Fixed_def W_Opaque_def W_String_def

section \<open>Reading back what was written\<close>

lemma W_String_Opaque: "W_String s w = W_Opaque (bytes_of_string s) w"
  by (simp add: writer_defs)

lemma R_take_exact:
  assumes "err r = None" "rb r = p @ b @ q" "off r = length p" "n = int (length b)"
  shows "R_take n r = (Some b, r\<lparr>off := off r + length b\<rparr>)"
  using assms by (simp add: R_take_def slice_def)

lemma R_Uint32_exact:
  assumes "err r = None" "rb r = p @ put_be32 v @ q" "off r = length p"
  shows "R_Uint32 r = (v, r\<lparr>off := off r + 4\<rparr>)"
  using R_take_exact [OF assms, of 4] by (simp add: R_Uint32_def)

lemma R_Uint64_exact:
  assumes "err r = None" "rb r = p @ put_be64 v @ q" "off r = length p"
  shows "R_Uint64 r = (v, r\<lparr>off := off r + 8\<rparr>)"
  using R_take_exact [OF assms, of 8] by (simp add: R_Uint64_def)

lemma pad_len_int: "(4 - int n mod 4) mod 4 = int (pad_len n)"
  unfolding pad_len_def by (simp add: of_nat_diff zmod_int)

lemma R_skipPad_int:
  "R_skipPad (int n) r = (if pad_len n > 0 then snd (R_take (int (pad_len n)) r) else r)"
  unfolding R_skipPad_def pad_len_int Let_def by simp

lemma R_Fixed_exact:
  assumes "err r = None" "rb r = p @ b @ replicate (pad_len (length b)) 0 @ q" "off r = length p"
  shows "R_Fixed (int (length b)) r = (Some b, r\<lparr>off := off r + length b + pad_len (length b)\<rparr>)"
proof -
  let ?r1 = "r\<lparr>off := off r + length b\<rparr>"
  have t: "R_take (int (length b)) r = (Some b, ?r1)"
    using assms by (intro R_take_exact) simp_all
  have "R_skipPad (int (length b)) ?r1 = r\<lparr>off := off r + length b + pad_len (length b)\<rparr>"
  proof (cases "pad_len (length b) = 0")
    case True
    then show ?thesis by (simp add: R_skipPad_int)
  next
    case False
    have "R_take (int (pad_len (length b))) ?r1
        = (Some (replicate (pad_len (length b)) 0), ?r1\<lparr>off := off ?r1 + pad_len (length b)\<rparr>)"
      using assms R_take_exact [of ?r1 "p @ b" "replicate (pad_len (length b)) 0" q] by simp
    with False show ?thesis by (simp add: R_skipPad_int)
  qed
  with t show ?thesis by (simp add: R_Fixed_def)
qed

lemma R_Opaque_exact:
  assumes "err r = None" "off r = length p" "length b \<le> maxVarLen"
    and "rb r = p @ put_be32 (of_nat (length b)) @ b @ replicate (pad_len (length b)) 0 @ q"
  shows "R_Opaque r = (Some b, r\<lparr>off := off r + 4 + length b + pad_len (length b)\<rparr>)"
proof -
  let ?r1 = "r\<lparr>off := off r + 4\<rparr>"
  have u: "R_Uint32 r = (of_nat (length b), ?r1)"
    using assms by (intro R_Uint32_exact) simp_all
  have n: "unat (of_nat (length b) :: u32) = length b"
    using assms(3) by (simp add: maxVarLen_def unat_of_nat)
  have "R_Fixed (int (length b)) ?r1 = (Some b, ?r1\<lparr>off := off ?r1 + length b + pad_len (length b)\<rparr>)"
    using assms by (intro R_Fixed_exact [where p = "p @ put_be32 (of_nat (length b))" and q = q]) simp_all
  with u n assms show ?thesis by (simp add: R_Opaque_def)
qed

text \<open>A field of a message, and the calls that write and read it.\<close>

datatype field = FU32 u32 | FU64 u64 | FBool bool | FFixed bytes | FOpaque bytes | FString string

fun put_field :: "field \<Rightarrow> writer \<Rightarrow> writer" where
  "put_field (FU32 v) w = W_Uint32 v w"
| "put_field (FU64 v) w = W_Uint64 v w"
| "put_field (FBool v) w = W_Bool v w"
| "put_field (FFixed b) w = W_Fixed b w"
| "put_field (FOpaque b) w = W_Opaque b w"
| "put_field (FString s) w = W_String s w"

text \<open>Reading back a field of the same kind (and, for a fixed-length opaque, of the same length).\<close>

fun get_field :: "field \<Rightarrow> reader \<Rightarrow> field \<times> reader" where
  "get_field (FU32 _) r = apfst FU32 (R_Uint32 r)"
| "get_field (FU64 _) r = apfst FU64 (R_Uint64 r)"
| "get_field (FBool _) r = apfst FBool (R_Bool r)"
| "get_field (FFixed b) r = apfst (\<lambda>x. case x of None \<Rightarrow> FFixed [] | Some y \<Rightarrow> FFixed y) (R_Fixed (int (length b)) r)"
| "get_field (FOpaque _) r = apfst (\<lambda>x. case x of None \<Rightarrow> FOpaque [] | Some y \<Rightarrow> FOpaque y) (R_Opaque r)"
| "get_field (FString _) r = apfst FString (R_String r)"

fun get_fields :: "field list \<Rightarrow> reader \<Rightarrow> field list \<times> reader" where
  "get_fields [] r = ([], r)"
| "get_fields (f # fs) r =
     (case get_field f r of (g, r1) \<Rightarrow> case get_fields fs r1 of (gs, r2) \<Rightarrow> (g # gs, r2))"

fun field_ok :: "field \<Rightarrow> bool" where
  "field_ok (FOpaque b) \<longleftrightarrow> length b \<le> maxVarLen"
| "field_ok (FString s) \<longleftrightarrow> length s \<le> maxVarLen"
| "field_ok _ \<longleftrightarrow> True"

lemma put_field_append: "put_field f w = w @ put_field f []"
  by (cases f) (simp_all add: writer_defs)

lemma fold_put_append: "fold put_field fs w = w @ fold put_field fs []"
proof (induction fs arbitrary: w)
  case Nil
  then show ?case by simp
next
  case (Cons f fs)
  have "fold put_field (f # fs) w = put_field f w @ fold put_field fs []"
    using Cons [of "put_field f w"] by simp
  also have "\<dots> = w @ fold put_field (f # fs) []"
    using Cons [of "put_field f []"] put_field_append [of f w] by simp
  finally show ?case .
qed

lemma get_field_exact:
  assumes "err r = None" "rb r = p @ put_field f [] @ q" "off r = length p" "field_ok f"
  shows "get_field f r = (f, r\<lparr>off := off r + length (put_field f [])\<rparr>)"
proof (cases f)
  case (FU32 v)
  with assms show ?thesis by (simp add: writer_defs R_Uint32_exact)
next
  case (FU64 v)
  with assms show ?thesis by (simp add: writer_defs R_Uint64_exact)
next
  case (FBool v)
  with assms have "R_Uint32 r = (if v then 1 else 0, r\<lparr>off := off r + 4\<rparr>)"
    by (intro R_Uint32_exact) (simp_all add: writer_defs)
  with FBool show ?thesis by (simp add: writer_defs R_Bool_def)
next
  case (FFixed b)
  with assms show ?thesis by (simp add: writer_defs R_Fixed_exact)
next
  case (FOpaque b)
  with assms show ?thesis by (simp add: writer_defs R_Opaque_exact)
next
  case (FString s)
  with assms have "R_Opaque r = (Some (bytes_of_string s), r\<lparr>off := off r + 4 + length s + pad_len (length s)\<rparr>)"
    using R_Opaque_exact [of r p "bytes_of_string s" q] by (simp add: writer_defs)
  with FString show ?thesis by (simp add: writer_defs R_String_def)
qed

lemma get_fields_exact:
  assumes "err r = None" "rb r = p @ fold put_field fs [] @ q" "off r = length p"
    and "list_all field_ok fs"
  shows "get_fields fs r = (fs, r\<lparr>off := off r + length (fold put_field fs [])\<rparr>)"
  using assms
proof (induction fs arbitrary: r p)
  case Nil
  then show ?case by simp
next
  case (Cons f fs)
  let ?r1 = "r\<lparr>off := off r + length (put_field f [])\<rparr>"
  have split: "fold put_field (f # fs) [] = put_field f [] @ fold put_field fs []"
    by (simp add: fold_put_append [of fs "put_field f []"])
  have "get_field f r = (f, ?r1)"
    using Cons.prems split by (intro get_field_exact [where q = "fold put_field fs [] @ q"]) simp_all
  moreover have "get_fields fs ?r1 = (fs, ?r1\<lparr>off := off ?r1 + length (fold put_field fs [])\<rparr>)"
    using Cons.prems split by (intro Cons.IH [where p = "p @ put_field f []"]) simp_all
  ultimately show ?case using split by simp
qed

lemma pad_aligned: "4 dvd n + pad_len n"
proof -
  obtain q r where n: "n = 4 * q + r" and r: "r < 4"
    by (metis mod_less_divisor mult_div_mod_eq zero_less_numeral)
  then have "pad_len n = (4 - r) mod 4" by (simp add: pad_len_def)
  with r have "n + pad_len n = 4 * (if r = 0 then q else q + 1)" by (simp add: n)
  then show ?thesis by (metis dvd_triv_left)
qed

lemma put_field_aligned: "4 dvd length (put_field f [])"
proof -
  have "4 dvd 4 + (length (b :: bytes) + pad_len (length b))" for b
    using pad_aligned [of "length b"] dvd_add [OF dvd_refl] by blast
  moreover have "4 dvd 4 + (length (s :: string) + pad_len (length s))" for s
    using pad_aligned [of "length s"] dvd_add [OF dvd_refl] by blast
  moreover have "(4 :: nat) dvd 8" by simp
  ultimately show ?thesis using pad_aligned
    by (cases f) (simp_all only: put_field.simps writer_defs length_append length_replicate
        length_put_be32 length_put_be64 length_bytes_of_string list.size add_0 if_split append_Nil
        add.assoc dvd_refl simp_thms split: if_splits)
qed

text \<open>
  C30. The codec round-trips: whatever sequence of fields a message is written with, reading the same
  kinds of field from it gives back every value, without an error, and leaves the reader exactly at
  what followed; and every message is a whole number of 4-byte units. The only condition is that no
  opaque or string is longer than the reader's own limit.
\<close>

theorem xdr_roundtrip:
  assumes "list_all field_ok fs"
  shows "get_fields fs (NewReader (fold put_field fs NewWriter @ rest)) =
           (fs, \<lparr>rb = fold put_field fs NewWriter @ rest, off = length (fold put_field fs NewWriter), err = None\<rparr>)
         \<and> 4 dvd length (fold put_field fs NewWriter)"
proof -
  have "4 dvd length (put_field f [])" for f
    by (rule put_field_aligned)
  then have "4 dvd length (fold put_field fs [])"
  proof (induction fs)
    case (Cons f fs)
    then show ?case using fold_put_append [of fs "put_field f []"] by simp
  qed simp
  with get_fields_exact [of "NewReader (fold put_field fs [] @ rest)" "[]" fs rest] assms
  show ?thesis by (simp add: NewReader_def NewWriter_def)
qed

theorem xdr_roundtrip_witness:
  "list_all field_ok [FU32 7, FString ''abcde'', FBool True] \<and>
   fst (get_fields [FU32 7, FString ''abcde'', FBool True]
     (NewReader (fold put_field [FU32 7, FString ''abcde'', FBool True] NewWriter @ [1, 2])))
     = [FU32 7, FString ''abcde'', FBool True]"
proof -
  have "list_all field_ok [FU32 7, FString ''abcde'', FBool True]"
    by (simp add: maxVarLen_def)
  then show ?thesis using xdr_roundtrip [of "[FU32 7, FString ''abcde'', FBool True]" "[1, 2]"] by simp
qed

section \<open>A hostile message\<close>

definition advances :: "reader \<Rightarrow> reader \<Rightarrow> bool" where
  "advances r r1 \<longleftrightarrow> rb r1 = rb r \<and> off r \<le> off r1 \<and> (off r \<le> length (rb r) \<longrightarrow> off r1 \<le> length (rb r))"

lemma advances_refl [simp]: "advances r r"
  by (simp add: advances_def)

lemma advances_trans [trans]: "advances r r1 \<Longrightarrow> advances r1 r2 \<Longrightarrow> advances r r2"
  by (auto simp: advances_def)

lemma advances_fail [simp]: "advances r (R_fail e r)"
  by (simp add: advances_def R_fail_def)

lemma advances_take: "advances r (snd (R_take n r))"
  by (auto simp: advances_def R_take_def R_fail_def)

lemma R_take_latched: "err r \<noteq> None \<Longrightarrow> R_take n r = (None, r)"
  by (simp add: R_take_def)

lemma advances_skipPad: "advances r (R_skipPad n r)"
  by (simp add: R_skipPad_def Let_def advances_take)

lemma snd_R_Uint32: "snd (R_Uint32 r) = snd (R_take 4 r)"
  by (simp add: R_Uint32_def split: prod.splits option.splits)

lemma snd_R_Uint64: "snd (R_Uint64 r) = snd (R_take 8 r)"
  by (simp add: R_Uint64_def split: prod.splits option.splits)

lemma advances_Fixed: "advances r (snd (R_Fixed n r))"
proof (cases "R_take n r")
  case (Pair x r1)
  then have "advances r r1" using advances_take [of r n] by simp
  then show ?thesis using Pair advances_trans [OF _ advances_skipPad [of r1 n]]
    by (cases x) (simp_all add: R_Fixed_def)
qed

lemma advances_Opaque: "advances r (snd (R_Opaque r))"
proof (cases "R_Uint32 r")
  case (Pair n r1)
  then have "advances r r1" using advances_take [of r 4] snd_R_Uint32 [of r] by simp
  then show ?thesis
    using Pair advances_trans [OF _ advances_Fixed [of r1 "int (unat n)"]]
      advances_trans [OF _ advances_fail [of r1 ErrTooLong]]
    by (simp add: R_Opaque_def)
qed

lemma snd_R_String: "snd (R_String r) = snd (R_Opaque r)"
  by (simp add: R_String_def split: prod.splits option.splits)

lemma snd_R_Bool: "snd (R_Bool r) = snd (R_Uint32 r)"
  by (simp add: R_Bool_def split: prod.splits)

lemmas snd_reads = snd_R_Uint32 snd_R_Uint64 snd_R_String snd_R_Bool

lemma R_Opaque_bound:
  assumes "R_Opaque r = (Some b, r1)" shows "length b \<le> maxVarLen"
proof -
  from assms obtain n r2 where "R_Uint32 r = (n, r2)" and n: "unat n \<le> maxVarLen"
    and f: "R_Fixed (int (unat n)) r2 = (Some b, r1)"
    by (auto simp: R_Opaque_def split: prod.splits if_splits)
  from f have "length b \<le> unat n"
    by (auto simp: R_Fixed_def R_take_def split: prod.splits option.splits if_splits)
  with n show ?thesis by simp
qed

lemma advances_get_field: "advances r (snd (get_field f r))"
  by (cases f) (simp_all add: snd_reads advances_take advances_Fixed advances_Opaque)

lemma advances_get_fields: "advances r (snd (get_fields fs r))"
proof (induction fs arbitrary: r)
  case Nil
  then show ?case by simp
next
  case (Cons f fs)
  have "advances r (snd (get_field f r))" by (rule advances_get_field)
  also have "advances (snd (get_field f r)) (snd (get_fields fs (snd (get_field f r))))" by (rule Cons)
  finally show ?case by (simp add: split_beta)
qed

lemma get_field_latched:
  assumes "err r \<noteq> None"
  shows "snd (get_field f r) = r"
proof -
  have "snd (R_Fixed n r) = r" "snd (R_Opaque r) = r" for n
    using assms by (simp_all add: R_Fixed_def R_Opaque_def R_Uint32_def R_take_latched)
  with assms show ?thesis by (cases f) (simp_all add: snd_reads R_take_latched)
qed

lemma get_fields_latched: "err r \<noteq> None \<Longrightarrow> snd (get_fields fs r) = r"
  by (induction fs) (auto simp: split_beta get_field_latched)

text \<open>
  What the bytes ahead of a reader say of the next field: whether they hold it, and otherwise which error.
  \<open>ahead n r\<close> is that there are \<open>n\<close> more bytes, \<open>announced r\<close> the length a variable field gives for itself.
\<close>

definition ahead :: "nat \<Rightarrow> reader \<Rightarrow> bool" where
  "ahead n r \<longleftrightarrow> off r + n \<le> length (rb r)"

definition announced :: "reader \<Rightarrow> nat" where
  "announced r = unat (get_be32 (slice (off r) (off r + 4) (rb r)))"

definition short_of :: "nat \<Rightarrow> reader \<Rightarrow> xdr_error option" where
  "short_of n r = (if ahead n r then None else Some ErrShort)"

definition opaque_error :: "reader \<Rightarrow> xdr_error option" where
  "opaque_error r =
     (if \<not> ahead 4 r then Some ErrShort
      else if announced r > maxVarLen then Some ErrTooLong
      else short_of (4 + announced r + pad_len (announced r)) r)"

fun field_error :: "field \<Rightarrow> reader \<Rightarrow> xdr_error option" where
  "field_error (FU32 _) r = short_of 4 r"
| "field_error (FU64 _) r = short_of 8 r"
| "field_error (FBool _) r = short_of 4 r"
| "field_error (FFixed b) r = short_of (length b + pad_len (length b)) r"
| "field_error (FOpaque _) r = opaque_error r"
| "field_error (FString _) r = opaque_error r"

text \<open>Go's zero value of a field, and the bytes a returned field holds.\<close>

fun zero_field :: "field \<Rightarrow> field" where
  "zero_field (FU32 _) = FU32 0"
| "zero_field (FU64 _) = FU64 0"
| "zero_field (FBool _) = FBool False"
| "zero_field (FFixed _) = FFixed []"
| "zero_field (FOpaque _) = FOpaque []"
| "zero_field (FString _) = FString []"

fun payload :: "field \<Rightarrow> nat" where
  "payload (FFixed b) = length b"
| "payload (FOpaque b) = length b"
| "payload (FString s) = length s"
| "payload _ = 0"

lemma R_take_nat:
  "err r = None \<Longrightarrow> R_take (int n) r =
     (if ahead n r then (Some (slice (off r) (off r + n) (rb r)), r\<lparr>off := off r + n\<rparr>) else (None, r\<lparr>err := Some ErrShort\<rparr>))"
  by (auto simp: R_take_def R_fail_def ahead_def)

lemma err_take: "err r = None \<Longrightarrow> err (snd (R_take (int n) r)) = short_of n r"
  by (simp add: R_take_nat short_of_def)

lemma err_Fixed:
  assumes "err r = None" shows "err (snd (R_Fixed (int n) r)) = short_of (n + pad_len n) r"
  using assms by (simp add: R_Fixed_def R_take_nat R_skipPad_int err_take short_of_def ahead_def)

lemma err_Opaque:
  assumes "err r = None" shows "err (snd (R_Opaque r)) = opaque_error r"
proof (cases "ahead 4 r")
  case True
  with assms R_take_nat [OF assms, of 4] have u: "R_Uint32 r = (get_be32 (slice (off r) (off r + 4) (rb r)), r\<lparr>off := off r + 4\<rparr>)"
    by (simp add: R_Uint32_def)
  have "err (snd (R_Fixed (int (announced r)) (r\<lparr>off := off r + 4\<rparr>))) = short_of (4 + announced r + pad_len (announced r)) r"
    using err_Fixed [of "r\<lparr>off := off r + 4\<rparr>"] assms by (simp add: short_of_def ahead_def add.assoc)
  then show ?thesis using u True assms by (auto simp: R_Opaque_def opaque_error_def announced_def R_fail_def)
next
  case False
  with R_take_nat [OF assms, of 4] have "R_Uint32 r = (0, r\<lparr>err := Some ErrShort\<rparr>)" by (simp add: R_Uint32_def)
  with False show ?thesis by (simp add: R_Opaque_def opaque_error_def)
qed

lemma get_field_error: "err r = None \<Longrightarrow> err (snd (get_field f r)) = field_error f r"
  using err_take [of r 4] err_take [of r 8] by (cases f) (simp_all add: snd_reads err_Fixed err_Opaque)

lemma get_field_zero: "err r \<noteq> None \<Longrightarrow> get_field f r = (zero_field f, r)"
  by (cases f) (simp_all add: R_Uint32_def R_Uint64_def R_Bool_def R_Fixed_def R_Opaque_def R_String_def R_take_latched)

lemma get_fields_zero: "err r \<noteq> None \<Longrightarrow> get_fields fs r = (map zero_field fs, r)"
  by (induction fs) (simp_all add: get_field_zero)

lemma get_fields_append:
  "get_fields (as @ bs) r = (fst (get_fields as r) @ fst (get_fields bs (snd (get_fields as r))),
     snd (get_fields bs (snd (get_fields as r))))"
  by (induction as arbitrary: r) (simp_all add: split_beta)

lemma length_string_of_bytes [simp]: "length (string_of_bytes b) = length b"
  by (simp add: string_of_bytes_def)

lemma R_Fixed_payload:
  "R_Fixed (int n) r = (Some b, r1) \<Longrightarrow> length b = n \<and> off r + length b \<le> off r1"
  using advances_skipPad [of "r\<lparr>off := off r + n\<rparr>" "int n"]
  by (auto simp: R_Fixed_def R_take_def advances_def split: prod.splits option.splits if_splits)

lemma R_Opaque_payload:
  assumes "R_Opaque r = (Some b, r1)" shows "off r + length b \<le> off r1"
proof -
  from assms obtain n r2 where u: "R_Uint32 r = (n, r2)" and f: "R_Fixed (int (unat n)) r2 = (Some b, r1)"
    by (auto simp: R_Opaque_def split: prod.splits if_splits)
  have "off r \<le> off r2" using advances_take [of r 4] snd_R_Uint32 [of r] u by (simp add: advances_def)
  with R_Fixed_payload [OF f] show ?thesis by simp
qed

lemma get_field_payload: "off r + payload (fst (get_field f r)) \<le> off (snd (get_field f r))"
proof -
  have a: "off r \<le> off (snd (get_field f r))" using advances_get_field [of r f] by (simp add: advances_def)
  show ?thesis
  proof (cases f)
    case (FFixed b)
    then show ?thesis using a R_Fixed_payload [of "length b" r]
      by (cases "R_Fixed (int (length b)) r") (auto split: option.splits)
  next
    case (FOpaque b)
    then show ?thesis using a R_Opaque_payload [of r] by (cases "R_Opaque r") (auto split: option.splits)
  next
    case (FString x)
    then show ?thesis using a R_Opaque_payload [of r]
      by (cases "R_Opaque r") (auto simp: R_String_def split: option.splits)
  qed (use a in \<open>simp_all add: snd_reads\<close>)
qed

lemma get_field_ok: "(case f of FFixed _ \<Rightarrow> True | _ \<Rightarrow> field_ok (fst (get_field f r)))"
proof -
  have "field_ok (FOpaque b)" if "R_Opaque r = (Some b, r1)" for b r1 using R_Opaque_bound [OF that] by simp
  moreover have "length (string_of_bytes b) \<le> maxVarLen" if "R_Opaque r = (Some b, r1)" for b r1
    using R_Opaque_bound [OF that] by simp
  ultimately show ?thesis
    by (cases f; cases "R_Opaque r") (auto simp: R_String_def split: option.splits)
qed

lemma get_fields_payload: "off r + (\<Sum>g \<leftarrow> fst (get_fields fs r). payload g) \<le> off (snd (get_fields fs r))"
proof (induction fs arbitrary: r)
  case (Cons f fs)
  have "off r + payload (fst (get_field f r)) \<le> off (snd (get_field f r))" by (rule get_field_payload)
  with Cons [of "snd (get_field f r)"] show ?case by (simp add: split_beta)
qed simp

lemma get_fields_ok: "list_all field_ok (fst (get_fields fs r))"
proof (induction fs arbitrary: r)
  case (Cons f fs)
  have "field_ok (fst (get_field f r))"
    using get_field_ok [of f r] by (cases f) (auto split: option.splits)
  with Cons show ?case by (simp add: split_beta)
qed simp

text \<open>
  C31. Decoding is safe on any bytes. Whatever is read from whatever message, the reader never moves
  back and never past the end of the message and leaves the message as it is. A field that the bytes
  ahead hold is read without an error; the first one they do not hold (too few bytes are left, or it
  announces more than \<open>maxVarLen\<close>) sets the error to the reason, and from then on every read answers the
  zero value, moves nothing and leaves that error, so the error checked at the end is that of the first
  field that failed. The values returned hold together no more bytes than the reader consumed, and no
  opaque or string is longer than \<open>maxVarLen\<close>, so a hostile length cannot ask for a larger buffer.
\<close>

theorem xdr_reader_safe:
  assumes "off r \<le> length (rb r)" "get_fields fs r = (vs, r')"
  shows "off r \<le> off r' \<and> off r' \<le> length (rb r) \<and> rb r' = rb r \<and>
    (err r \<noteq> None \<longrightarrow> vs = map zero_field fs \<and> r' = r) \<and>
    (\<forall>as f bs us r1. fs = as @ f # bs \<and> get_fields as r = (us, r1) \<and> err r1 = None \<longrightarrow>
       (case field_error f r1 of
          None \<Rightarrow> err (snd (get_field f r1)) = None
        | Some e \<Rightarrow> err r' = Some e \<and> r' = snd (get_field f r1) \<and>
            (\<exists>v. vs = us @ v # map zero_field bs))) \<and>
    (\<Sum>g \<leftarrow> vs. payload g) \<le> off r' - off r \<and> list_all field_ok vs"
proof -
  have "case field_error f r1 of
      None \<Rightarrow> err (snd (get_field f r1)) = None
    | Some e \<Rightarrow> err r' = Some e \<and> r' = snd (get_field f r1) \<and> (\<exists>v. vs = us @ v # map zero_field bs)"
    if "fs = as @ f # bs" "get_fields as r = (us, r1)" "err r1 = None" for as f bs us r1
  proof (cases "field_error f r1")
    case None
    then show ?thesis using get_field_error [OF that(3)] by simp
  next
    case (Some e)
    then have e: "err (snd (get_field f r1)) = Some e" using get_field_error [OF that(3)] by simp
    then have z: "get_fields bs (snd (get_field f r1)) = (map zero_field bs, snd (get_field f r1))"
      by (intro get_fields_zero) simp
    then have "get_fields fs r = (us @ fst (get_field f r1) # map zero_field bs, snd (get_field f r1))"
      using that(1,2) by (simp add: get_fields_append split_beta)
    then show ?thesis using Some e assms(2) by simp
  qed
  moreover have "(\<Sum>g \<leftarrow> vs. payload g) \<le> off r' - off r" using get_fields_payload [of r fs] assms(2) by simp
  moreover have "list_all field_ok vs" using get_fields_ok [of fs r] assms(2) by simp
  moreover have "err r \<noteq> None \<longrightarrow> vs = map zero_field fs \<and> r' = r" using get_fields_zero [of r fs] assms(2) by auto
  ultimately show ?thesis using assms advances_get_fields [of r fs] unfolding advances_def by auto
qed

theorem xdr_reader_safe_witness:
  "let r = NewReader [0xFF, 0xFF, 0xFF, 0xFF, 1] in
   err (snd (get_fields [FOpaque [], FU32 0] r)) = Some ErrTooLong \<and>
   off (snd (get_fields [FOpaque [], FU32 0] r)) \<le> 5"
proof -
  let ?r = "NewReader [0xFF, 0xFF, 0xFF, 0xFF, 1]" and ?fs = "[FOpaque [], FU32 0]"
  have ok: "off ?r \<le> length (rb ?r)" by (simp add: NewReader_def)
  have e: "field_error (FOpaque []) ?r = Some ErrTooLong"
    by (simp add: NewReader_def opaque_error_def ahead_def announced_def slice_def get_be32_def maxVarLen_def)
  obtain vs r' where g: "get_fields ?fs ?r = (vs, r')" by fastforce
  have n: "err ?r = None" "length (rb ?r) = 5" by (simp_all add: NewReader_def)
  note safe = xdr_reader_safe [OF ok g]
  from safe have "off r' \<le> 5" unfolding n(2) by blast
  moreover from safe have "\<forall>as f bs us r1. ?fs = as @ f # bs \<and> get_fields as ?r = (us, r1) \<and> err r1 = None \<longrightarrow>
       (case field_error f r1 of
          None \<Rightarrow> err (snd (get_field f r1)) = None
        | Some e \<Rightarrow> err r' = Some e \<and> r' = snd (get_field f r1) \<and> (\<exists>v. vs = us @ v # map zero_field bs))"
    by blast
  from this [rule_format, of "[]" "FOpaque []" "[FU32 0]" "[]" ?r] have "err r' = Some ErrTooLong"
    using e n(1) by auto
  ultimately show ?thesis using g by (simp only: Let_def snd_conv simp_thms)
qed

end
