(* ===== verification/ChunkCache.thy ===== *)
theory ChunkCache
  imports Prelude
begin

text \<open>
  \<open>internal/blobfs/cache.go\<close>: the byte-bounded LRU of chunk contents. The list holds the entries,
  most recently used first; \<open>items\<close> maps a hash to the entry its list element carries. A byte slice
  is a value here, which is the copy \<open>put\<close> makes. Byte counts are unbounded integers: the code's
  \<open>int64\<close> sums count memory the process holds.
\<close>

record cache_entry =
  ce_hash :: string
  ce_data :: bytes

record chunk_cache =
  maxBytes :: int
  curBytes :: int
  ll :: "cache_entry list"
  items :: "(string, cache_entry) fmap"
  hits :: int
  misses :: int

definition newChunkCache :: "int \<Rightarrow> chunk_cache" where
  "newChunkCache mb =
     \<lparr>maxBytes = (if mb \<le> 0 then 256 * 2 ^ 20 else mb), curBytes = 0, ll = [], items = fmempty,
      hits = 0, misses = 0\<rparr>"

definition MoveToFront :: "cache_entry \<Rightarrow> cache_entry list \<Rightarrow> cache_entry list" where
  "MoveToFront el l = el # filter (\<lambda>x. ce_hash x \<noteq> ce_hash el) l"

definition cache_get :: "string \<Rightarrow> chunk_cache \<Rightarrow> bytes option \<times> chunk_cache" where
  "cache_get h c =
     (case fmlookup (items c) h of
        None \<Rightarrow> (None, c\<lparr>misses := misses c + 1\<rparr>)
      | Some el \<Rightarrow> (Some (ce_data el), c\<lparr>hits := hits c + 1, ll := MoveToFront el (ll c)\<rparr>))"

function cache_evict :: "chunk_cache \<Rightarrow> chunk_cache" where
  "cache_evict c =
     (if curBytes c > maxBytes c
      then (if ll c = [] then c
            else let ent = last (ll c)
                 in cache_evict (c\<lparr>ll := butlast (ll c), items := fmdrop (ce_hash ent) (items c),
                                   curBytes := curBytes c - int (length (ce_data ent))\<rparr>))
      else c)"
  by pat_completeness auto
termination
  by (relation "measure (\<lambda>c. length (ll c))") auto

declare cache_evict.simps [simp del]

definition cache_put :: "string \<Rightarrow> bytes \<Rightarrow> chunk_cache \<Rightarrow> chunk_cache" where
  "cache_put h data c =
     (if int (length data) > maxBytes c then c
      else case fmlookup (items c) h of
        Some el \<Rightarrow> c\<lparr>ll := MoveToFront el (ll c)\<rparr>
      | None \<Rightarrow>
          (let el = \<lparr>ce_hash = h, ce_data = data\<rparr>
           in cache_evict (c\<lparr>ll := el # ll c, items := fmupd h el (items c),
                             curBytes := curBytes c + int (length data)\<rparr>)))"

definition cache_stats :: "chunk_cache \<Rightarrow> int \<times> int \<times> int" where
  "cache_stats c = (hits c, misses c, curBytes c)"

section \<open>The invariant\<close>

definition total :: "cache_entry list \<Rightarrow> int" where
  "total l = (\<Sum>e \<leftarrow> l. int (length (ce_data e)))"

lemma total_simps [simp]:
  "total [] = 0" "total (e # l) = int (length (ce_data e)) + total l" "total (a @ b) = total a + total b"
  by (simp_all add: total_def)

lemma total_nonneg: "0 \<le> total l"
  by (induction l) auto

text \<open>What holds between the calls, but for the byte bound, which \<open>put\<close> breaks and its loop restores.\<close>

definition cache_shape :: "chunk_cache \<Rightarrow> bool" where
  "cache_shape c \<longleftrightarrow>
     distinct (map ce_hash (ll c)) \<and>
     (\<forall>h e. fmlookup (items c) h = Some e \<longleftrightarrow> e \<in> set (ll c) \<and> ce_hash e = h) \<and>
     curBytes c = total (ll c)"

definition cache_inv :: "chunk_cache \<Rightarrow> bool" where
  "cache_inv c \<longleftrightarrow> cache_shape c \<and> curBytes c \<le> maxBytes c \<and> 0 < maxBytes c"

lemma filter_other_hash:
  assumes "distinct (map ce_hash l)" "el \<in> set l"
  shows "set (filter (\<lambda>x. ce_hash x \<noteq> ce_hash el) l) = set l - {el}"
    and "total (filter (\<lambda>x. ce_hash x \<noteq> ce_hash el) l) = total l - int (length (ce_data el))"
proof -
  have "ce_hash x = ce_hash el \<Longrightarrow> x \<in> set l \<Longrightarrow> x = el" for x
    using assms by (metis distinct_map inj_on_def)
  then show "set (filter (\<lambda>x. ce_hash x \<noteq> ce_hash el) l) = set l - {el}" by auto
  show "total (filter (\<lambda>x. ce_hash x \<noteq> ce_hash el) l) = total l - int (length (ce_data el))"
    using assms
  proof (induction l)
    case (Cons x l)
    then show ?case
    proof (cases "x = el")
      case True
      with Cons.prems have "filter (\<lambda>x. ce_hash x \<noteq> ce_hash el) l = l"
        by (intro filter_True) (auto simp: image_iff)
      with True show ?thesis by simp
    next
      case False
      with Cons have "ce_hash x \<noteq> ce_hash el" by auto
      with False Cons show ?thesis by simp
    qed
  qed simp
qed

lemma MoveToFront_shape:
  assumes "cache_shape c" "fmlookup (items c) h = Some el"
  shows "cache_shape (c\<lparr>ll := MoveToFront el (ll c)\<rparr>)"
proof -
  from assms have el: "el \<in> set (ll c)" and d: "distinct (map ce_hash (ll c))"
    by (auto simp: cache_shape_def)
  have "distinct (map ce_hash (filter (\<lambda>x. ce_hash x \<noteq> ce_hash el) (ll c)))"
    using d by (rule distinct_map_filter)
  with assms(1) el filter_other_hash [OF d el] show ?thesis
    by (auto simp: cache_shape_def MoveToFront_def)
qed

lemma cache_shape_cong:
  "ll c = ll d \<Longrightarrow> items c = items d \<Longrightarrow> curBytes c = curBytes d \<Longrightarrow> cache_shape c \<longleftrightarrow> cache_shape d"
  by (simp add: cache_shape_def)

lemma cache_get_inv:
  assumes "cache_inv c" shows "cache_inv (snd (cache_get h c))"
proof (cases "fmlookup (items c) h")
  case None
  with assms show ?thesis by (simp add: cache_get_def cache_inv_def cache_shape_def)
next
  case (Some el)
  with assms have "cache_shape (c\<lparr>ll := MoveToFront el (ll c)\<rparr>)"
    by (intro MoveToFront_shape) (simp_all add: cache_inv_def)
  then have "cache_shape (c\<lparr>hits := hits c + 1, ll := MoveToFront el (ll c)\<rparr>)"
    by (simp add: cache_shape_def)
  with assms Some show ?thesis by (simp add: cache_get_def cache_inv_def)
qed

section \<open>Eviction keeps the longest prefix that fits\<close>

text \<open>\<open>keep mx acc l\<close> is the longest prefix of \<open>l\<close> whose bytes, with \<open>acc\<close> before it, are at most \<open>mx\<close>.\<close>

fun keep :: "int \<Rightarrow> int \<Rightarrow> cache_entry list \<Rightarrow> cache_entry list" where
  "keep mx acc [] = []"
| "keep mx acc (e # l) =
     (if acc + int (length (ce_data e)) \<le> mx then e # keep mx (acc + int (length (ce_data e))) l else [])"

lemma keep_all: "acc + total l \<le> mx \<Longrightarrow> keep mx acc l = l"
proof (induction l arbitrary: acc)
  case (Cons e l)
  have "0 \<le> total l" by (rule total_nonneg)
  with Cons.prems have "acc + int (length (ce_data e)) \<le> mx" by simp
  with Cons show ?case by (simp add: algebra_simps)
qed simp

lemma keep_snoc: "acc + total (l @ [e]) > mx \<Longrightarrow> keep mx acc (l @ [e]) = keep mx acc l"
  by (induction l arbitrary: acc) auto

lemma keep_prefix: "\<exists>r. l = keep mx acc l @ r"
  by (induction l arbitrary: acc) auto

lemma total_keep: "acc \<le> mx \<Longrightarrow> acc + total (keep mx acc l) \<le> mx"
proof (induction l arbitrary: acc)
  case (Cons e l)
  show ?case
  proof (cases "acc + int (length (ce_data e)) \<le> mx")
    case True
    then show ?thesis using Cons.IH [OF True] by simp
  qed (use Cons.prems in simp)
qed simp

lemma cache_evict_spec:
  assumes "cache_shape c" "0 < maxBytes c"
  shows "cache_inv (cache_evict c) \<and> ll (cache_evict c) = keep (maxBytes c) 0 (ll c) \<and>
         maxBytes (cache_evict c) = maxBytes c"
  using assms
proof (induction c rule: cache_evict.induct)
  case (1 c)
  show ?case
  proof (cases "curBytes c > maxBytes c \<and> ll c \<noteq> []")
    case False
    with 1 have le: "curBytes c \<le> maxBytes c" by (auto simp: cache_shape_def)
    with 1 have "keep (maxBytes c) 0 (ll c) = ll c"
      by (intro keep_all) (simp add: cache_shape_def)
    with 1 le show ?thesis by (simp add: cache_evict.simps [of c] cache_inv_def)
  next
    case True
    let ?e = "last (ll c)"
    let ?c1 = "c\<lparr>ll := butlast (ll c), items := fmdrop (ce_hash ?e) (items c),
                 curBytes := curBytes c - int (length (ce_data ?e))\<rparr>"
    from True have l: "ll c = butlast (ll c) @ [?e]" by simp
    have d: "distinct (map ce_hash (butlast (ll c) @ [?e]))"
      using 1(2) l by (simp add: cache_shape_def)
    have tot: "total (ll c) = total (butlast (ll c)) + int (length (ce_data ?e))"
      using l by (metis total_simps(1-3) add.right_neutral)
    have mem: "x \<in> set (ll c) \<longleftrightarrow> x = ?e \<or> x \<in> set (butlast (ll c))" for x
      using l by (metis Un_iff empty_iff insert_iff list.set set_append)
    have sh: "cache_shape ?c1"
      using 1(2) d tot mem by (auto simp: cache_shape_def image_iff)
    have "cache_evict c = cache_evict ?c1"
      using True by (simp add: cache_evict.simps [of c] Let_def)
    moreover have "keep (maxBytes c) 0 (ll c) = keep (maxBytes c) 0 (butlast (ll c))"
      using keep_snoc [of "maxBytes c" 0 "butlast (ll c)" ?e] True l tot 1(2)
      by (simp add: cache_shape_def)
    ultimately show ?thesis using 1(1) [OF _ _ refl] True sh 1(3) by simp
  qed
qed

lemma cache_push_shape:
  assumes "cache_shape c" "fmlookup (items c) h = None"
  shows "cache_shape (c\<lparr>ll := \<lparr>ce_hash = h, ce_data = d\<rparr> # ll c,
           items := fmupd h \<lparr>ce_hash = h, ce_data = d\<rparr> (items c), curBytes := curBytes c + int (length d)\<rparr>)"
proof -
  from assms have "h \<notin> ce_hash ` set (ll c)"
    unfolding cache_shape_def by (metis imageE option.distinct(1))
  with assms(1) show ?thesis by (auto simp: cache_shape_def)
qed

lemma cache_put_inv:
  assumes "cache_inv c" shows "cache_inv (cache_put h d c)"
proof (cases "fmlookup (items c) h")
  case None
  with assms cache_evict_spec [OF cache_push_shape [of c h d]] show ?thesis
    by (simp add: cache_put_def cache_inv_def Let_def)
next
  case (Some el)
  with assms MoveToFront_shape [of c h el] show ?thesis
    by (simp add: cache_put_def cache_inv_def)
qed

lemma cache_put_entries:
  assumes "cache_inv c"
  shows "set (ll (cache_put h d c)) \<subseteq> insert \<lparr>ce_hash = h, ce_data = d\<rparr> (set (ll c))"
proof (cases "fmlookup (items c) h")
  case None
  have "set (keep m a l) \<subseteq> set l" for m a l
    using keep_prefix [of l m a] by (metis Un_upper1 set_append)
  with assms None cache_evict_spec [OF cache_push_shape [of c h d]] show ?thesis
    by (auto simp: cache_put_def cache_inv_def Let_def dest: subsetD)
next
  case (Some el)
  with assms have "el \<in> set (ll c)" by (auto simp: cache_inv_def cache_shape_def)
  with Some show ?thesis by (auto simp: cache_put_def MoveToFront_def)
qed

lemma cache_put_clauses:
  assumes "cache_inv c"
  shows "cache_inv (cache_put h d c) \<and> maxBytes (cache_put h d c) = maxBytes c \<and>
    (if int (length d) > maxBytes c then cache_put h d c = c
     else case fmlookup (items c) h of
       Some el \<Rightarrow> fst (cache_get h (cache_put h d c)) = Some (ce_data el) \<and>
                  set (ll (cache_put h d c)) = set (ll c)
     | None \<Rightarrow> ll (cache_put h d c) = keep (maxBytes c) 0 (\<lparr>ce_hash = h, ce_data = d\<rparr> # ll c) \<and>
               fst (cache_get h (cache_put h d c)) = Some d)"
proof -
  have inv: "cache_inv (cache_put h d c)" using assms by (rule cache_put_inv)
  show ?thesis
  proof (cases "int (length d) > maxBytes c")
    case True
    then show ?thesis using assms by (simp add: cache_put_def)
  next
    case fits: False
    show ?thesis
    proof (cases "fmlookup (items c) h")
      case (Some el)
      with assms have "el \<in> set (ll c)" "distinct (map ce_hash (ll c))"
        by (auto simp: cache_inv_def cache_shape_def)
      with Some fits inv filter_other_hash [of "ll c" el] show ?thesis
        by (auto simp: cache_put_def cache_get_def MoveToFront_def)
    next
      case None
      let ?el = "\<lparr>ce_hash = h, ce_data = d\<rparr>"
      have ev: "ll (cache_put h d c) = keep (maxBytes c) 0 (?el # ll c)"
        "maxBytes (cache_put h d c) = maxBytes c"
        using assms None fits cache_evict_spec [OF cache_push_shape [of c h d]]
        by (simp_all add: cache_put_def cache_inv_def Let_def)
      with fits have "?el \<in> set (ll (cache_put h d c))" by simp
      with inv have "fmlookup (items (cache_put h d c)) h = Some ?el"
        by (simp add: cache_inv_def cache_shape_def)
      with None fits inv ev show ?thesis by (simp add: cache_get_def)
    qed
  qed
qed

section \<open>Recency over a history of calls\<close>

text \<open>
  The calls made on a cache, the latest first, and the cache they leave. \<open>last_use mx ops h\<close> is how many calls
  were made since the last one that used \<open>h\<close>: a \<open>get\<close> of it, or a \<open>put\<close> of it that was not too large.
\<close>

datatype cache_op = CGet string | CPut string bytes

fun cache_exec :: "int \<Rightarrow> cache_op list \<Rightarrow> chunk_cache" where
  "cache_exec mb [] = newChunkCache mb"
| "cache_exec mb (CGet h # ops) = snd (cache_get h (cache_exec mb ops))"
| "cache_exec mb (CPut h d # ops) = cache_put h d (cache_exec mb ops)"

fun op_uses :: "int \<Rightarrow> string \<Rightarrow> cache_op \<Rightarrow> bool" where
  "op_uses mx h (CGet k) \<longleftrightarrow> k = h"
| "op_uses mx h (CPut k d) \<longleftrightarrow> k = h \<and> int (length d) \<le> mx"

fun last_use :: "int \<Rightarrow> cache_op list \<Rightarrow> string \<Rightarrow> nat" where
  "last_use mx [] h = 0"
| "last_use mx (x # ops) h = (if op_uses mx h x then 0 else Suc (last_use mx ops h))"

definition by_recency :: "int \<Rightarrow> cache_op list \<Rightarrow> cache_entry list \<Rightarrow> bool" where
  "by_recency mx ops l \<longleftrightarrow> sorted_wrt (\<lambda>x y. last_use mx ops (ce_hash x) < last_use mx ops (ce_hash y)) l"

lemma by_recency_others:
  assumes "by_recency mx ops l" "\<And>e. e \<in> set l \<Longrightarrow> \<not> op_uses mx (ce_hash e) x"
  shows "by_recency mx (x # ops) l"
  using assms unfolding by_recency_def by (auto intro: sorted_wrt_mono_rel [rotated])

lemma by_recency_front:
  assumes "by_recency mx ops l" "op_uses mx (ce_hash el) x" "\<And>e. e \<in> set l \<Longrightarrow> \<not> op_uses mx (ce_hash e) x"
  shows "by_recency mx (x # ops) (el # l)"
  using by_recency_others [OF assms(1,3)] assms(2,3) by (simp add: by_recency_def)

lemma by_recency_filter: "by_recency mx ops l \<Longrightarrow> by_recency mx ops (filter P l)"
  by (simp add: by_recency_def sorted_wrt_filter)

lemma by_recency_MoveToFront:
  assumes "by_recency mx ops l" "op_uses mx (ce_hash el) x" "\<And>h. op_uses mx h x \<Longrightarrow> h = ce_hash el"
  shows "by_recency mx (x # ops) (MoveToFront el l)"
  unfolding MoveToFront_def
  by (rule by_recency_front [OF by_recency_filter [OF assms(1)] assms(2)]) (use assms(3) in auto)

lemma by_recency_keep: "by_recency mx ops l \<Longrightarrow> by_recency mx ops (keep m acc l)"
  using keep_prefix [of l m acc] unfolding by_recency_def by (metis sorted_wrt_append)

lemma cache_lookup_hash: "cache_inv c \<Longrightarrow> fmlookup (items c) h = Some el \<Longrightarrow> ce_hash el = h \<and> el \<in> set (ll c)"
  by (auto simp: cache_inv_def cache_shape_def)

lemma cache_lookup_none: "cache_inv c \<Longrightarrow> fmlookup (items c) h = None \<Longrightarrow> e \<in> set (ll c) \<Longrightarrow> ce_hash e \<noteq> h"
  unfolding cache_inv_def cache_shape_def by (metis option.distinct(1))

lemma cache_get_recency:
  assumes "cache_inv c" "by_recency mx ops (ll c)"
  shows "by_recency mx (CGet h # ops) (ll (snd (cache_get h c)))"
proof (cases "fmlookup (items c) h")
  case None
  then show ?thesis using by_recency_others [OF assms(2), of "CGet h"] cache_lookup_none [OF assms(1) None]
    by (auto simp: cache_get_def)
next
  case (Some el)
  then show ?thesis using by_recency_MoveToFront [OF assms(2), of el "CGet h"] cache_lookup_hash [OF assms(1) Some]
    by (simp add: cache_get_def)
qed

lemma cache_put_recency:
  assumes "cache_inv c" "maxBytes c = mx" "by_recency mx ops (ll c)"
  shows "by_recency mx (CPut h d # ops) (ll (cache_put h d c))"
proof (cases "int (length d) > mx")
  case True
  then show ?thesis using by_recency_others [OF assms(3), of "CPut h d"] assms(2) by (auto simp: cache_put_def)
next
  case fits: False
  show ?thesis
  proof (cases "fmlookup (items c) h")
    case None
    let ?el = "\<lparr>ce_hash = h, ce_data = d\<rparr>"
    have "by_recency mx (CPut h d # ops) (?el # ll c)"
      using by_recency_front [OF assms(3), of ?el "CPut h d"] cache_lookup_none [OF assms(1) None] fits by auto
    from by_recency_keep [OF this, of mx 0] show ?thesis
      using cache_put_clauses [OF assms(1), of h d] None fits assms(2) by simp
  next
    case (Some el)
    then show ?thesis using by_recency_MoveToFront [OF assms(3), of el "CPut h d"] cache_lookup_hash [OF assms(1) Some] fits assms(2)
      by (simp add: cache_put_def)
  qed
qed

lemma cache_exec_inv:
  "cache_inv (cache_exec mb ops) \<and> maxBytes (cache_exec mb ops) = maxBytes (newChunkCache mb) \<and>
   by_recency (maxBytes (newChunkCache mb)) ops (ll (cache_exec mb ops)) \<and>
   (\<forall>e \<in> set (ll (cache_exec mb ops)). CPut (ce_hash e) (ce_data e) \<in> set ops)"
proof (induction ops)
  case Nil
  show ?case by (simp add: newChunkCache_def cache_inv_def cache_shape_def by_recency_def)
next
  case (Cons x ops)
  let ?c = "cache_exec mb ops"
  show ?case
  proof (cases x)
    case (CGet h)
    have "set (ll (snd (cache_get h ?c))) \<subseteq> set (ll ?c)" "maxBytes (snd (cache_get h ?c)) = maxBytes ?c"
      using Cons cache_lookup_hash [of ?c h] by (auto simp: cache_get_def MoveToFront_def split: option.splits)
    then show ?thesis using Cons CGet cache_get_inv cache_get_recency by auto
  next
    case (CPut h d)
    have "maxBytes (cache_put h d ?c) = maxBytes ?c" using cache_put_clauses [of ?c h d] Cons by simp
    then show ?thesis using Cons CPut cache_put_inv cache_put_recency cache_put_entries [of ?c h d] by fastforce
  qed
qed

lemma keep_evicts_last:
  assumes "sorted_wrt R l" "l = keep m acc l @ r" "x \<in> set (keep m acc l)" "y \<in> set l" "y \<notin> set (keep m acc l)"
  shows "R x y"
  using assms by (metis Un_iff set_append sorted_wrt_append)

text \<open>
  C34. The cache is a least recently used cache within its budget. After any history of \<open>get\<close> and \<open>put\<close>
  calls it holds at most its budget, charges exactly what it holds, holds only bytes that were put under
  their hash, and its list is in the order of the last use of each entry, a \<open>get\<close> that hits and a \<open>put\<close> of a
  hash already present being uses. Storing a new chunk that fits leaves exactly the longest prefix of the
  new chunk and the old entries in that order whose bytes fit the budget, so the chunk just stored is
  there, and every entry that had to go was used longer ago than every entry that stayed; storing one
  already present keeps the stored bytes and all entries; storing one larger than the budget changes nothing.
\<close>

theorem cache_put_spec:
  fixes mb :: int and ops :: "cache_op list"
  defines "c \<equiv> cache_exec mb ops" and "mx \<equiv> (if mb \<le> 0 then 256 * 2 ^ 20 else mb)"
  shows "cache_inv c \<and> maxBytes c = mx \<and>
    sorted_wrt (\<lambda>x y. last_use mx ops (ce_hash x) < last_use mx ops (ce_hash y)) (ll c) \<and>
    (\<forall>e \<in> set (ll c). CPut (ce_hash e) (ce_data e) \<in> set ops) \<and>
    (if int (length d) > mx then cache_put h d c = c
     else case fmlookup (items c) h of
       Some el \<Rightarrow> fst (cache_get h (cache_put h d c)) = Some (ce_data el) \<and> set (ll (cache_put h d c)) = set (ll c)
     | None \<Rightarrow> ll (cache_put h d c) = keep mx 0 (\<lparr>ce_hash = h, ce_data = d\<rparr> # ll c) \<and>
               fst (cache_get h (cache_put h d c)) = Some d \<and>
               (\<forall>x \<in> set (ll c). \<forall>y \<in> set (ll c). x \<in> set (ll (cache_put h d c)) \<and> y \<notin> set (ll (cache_put h d c)) \<longrightarrow>
                  last_use mx ops (ce_hash x) < last_use mx ops (ce_hash y)))"
proof -
  have mx: "maxBytes (newChunkCache mb) = mx" by (simp add: newChunkCache_def mx_def)
  note I = cache_exec_inv [of mb ops, unfolded mx, folded c_def]
  have "last_use mx ops (ce_hash x) < last_use mx ops (ce_hash y)"
    if "fmlookup (items c) h = None" "int (length d) \<le> mx" "x \<in> set (ll c)" "y \<in> set (ll c)"
      "x \<in> set (ll (cache_put h d c))" "y \<notin> set (ll (cache_put h d c))" for x y
  proof -
    let ?el = "\<lparr>ce_hash = h, ce_data = d\<rparr>"
    have k: "ll (cache_put h d c) = ?el # keep mx (int (length d)) (ll c)"
      using cache_put_clauses [of c h d] I that(1,2) by simp
    obtain r where "ll c = keep mx (int (length d)) (ll c) @ r" using keep_prefix by blast
    moreover have "x \<noteq> ?el" using cache_lookup_none [of c h x] I that(1,3) by auto
    ultimately show ?thesis
      using I keep_evicts_last [of "\<lambda>x y. last_use mx ops (ce_hash x) < last_use mx ops (ce_hash y)" "ll c" mx "int (length d)" r x y]
        that(4-6) k by (auto simp: by_recency_def)
  qed
  then show ?thesis using I cache_put_clauses [of c h d] by (auto simp: by_recency_def split: option.splits)
qed

theorem cache_put_spec_witness:
  "map ce_hash (ll (cache_put ''c'' [3, 4] (cache_exec 3 [CGet ''a'', CPut ''b'' [2], CPut ''a'' [1]]))) = [''c'', ''a''] \<and>
   fst (cache_get ''c'' (cache_put ''c'' [3, 4] (cache_exec 3 [CGet ''a'', CPut ''b'' [2], CPut ''a'' [1]]))) = Some [3, 4]"
proof -
  let ?c = "cache_exec 3 [CGet ''a'', CPut ''b'' [2], CPut ''a'' [1]]"
  have l: "map ce_hash (ll ?c) = [''a'', ''b'']" "map (length \<circ> ce_data) (ll ?c) = [1, 1]" "fmlookup (items ?c) ''c'' = None"
    by (simp_all add: newChunkCache_def cache_put_def cache_get_def cache_evict.simps MoveToFront_def Let_def)
  have "ll (cache_put ''c'' [3, 4] ?c) = keep 3 0 (\<lparr>ce_hash = ''c'', ce_data = [3, 4]\<rparr> # ll ?c)"
    "fst (cache_get ''c'' (cache_put ''c'' [3, 4] ?c)) = Some [3, 4]"
    using cache_put_spec [of 3 "[CGet ''a'', CPut ''b'' [2], CPut ''a'' [1]]" "[3, 4]" "''c''"] l(3) by simp_all
  then show ?thesis using l(1,2) by auto
qed

section \<open>Content addressing\<close>

text \<open>An entry's hash is the hash of its bytes, so a hit can be used without hashing it again.\<close>

definition addressed :: "(bytes \<Rightarrow> string) \<Rightarrow> chunk_cache \<Rightarrow> bool" where
  "addressed sha c \<longleftrightarrow> (\<forall>e \<in> set (ll c). sha (ce_data e) = ce_hash e)"

definition cache_ok :: "(bytes \<Rightarrow> string) \<Rightarrow> chunk_cache \<Rightarrow> bool" where
  "cache_ok sha c \<longleftrightarrow> cache_inv c \<and> addressed sha c"

lemma cache_get_ok:
  assumes "cache_ok sha c"
  shows "cache_ok sha (snd (cache_get h c))"
    and "fst (cache_get h c) = Some d \<Longrightarrow> sha d = h"
proof -
  show "cache_ok sha (snd (cache_get h c))"
    using assms cache_get_inv [of c h]
    by (auto simp: cache_ok_def addressed_def cache_get_def MoveToFront_def cache_inv_def cache_shape_def
        split: option.splits)
  show "fst (cache_get h c) = Some d \<Longrightarrow> sha d = h"
    using assms
    by (auto simp: cache_ok_def addressed_def cache_get_def cache_inv_def cache_shape_def
        split: option.splits)
qed

lemma cache_put_ok:
  assumes "cache_ok sha c" "sha d = h"
  shows "cache_ok sha (cache_put h d c)"
proof -
  have inv: "cache_inv c" using assms by (simp add: cache_ok_def)
  have "set (ll (cache_put h d c)) \<subseteq> insert \<lparr>ce_hash = h, ce_data = d\<rparr> (set (ll c))"
    using inv by (rule cache_put_entries)
  with assms cache_put_inv [OF inv, of h d] show ?thesis
    by (auto simp: cache_ok_def addressed_def)
qed

end
