(* ===== verification/Inode.thy ===== *)
theory Inode
  imports Vfs
begin

text \<open>
  \<open>internal/blobfs/inode.go\<close>: chunk references, inodes, and the two serialized records, the
  namespace snapshot and the root pointer. \<open>Entries\<close> is \<open>None\<close> for Go's nil map, which reads as
  empty and panics when written. A \<open>*inode\<close> in a decoded snapshot may be nil, so the snapshot's
  table holds \<open>inode option\<close>.
\<close>

definition rootInodeID :: u64 where "rootInodeID = 1"

record chunkRef =
  ch_Hash :: string
  ch_Size :: nat

definition isHole :: "chunkRef \<Rightarrow> bool" where
  "isHole c \<longleftrightarrow> ch_Hash c = []"

definition hole :: "nat \<Rightarrow> chunkRef" where
  "hole n = \<lparr>ch_Hash = [], ch_Size = n\<rparr>"

record inode =
  ID :: u64
  Gen :: u64
  Type :: file_type
  Mode :: u32
  UID :: u32
  GID :: u32
  NLink :: u32
  Size :: nat
  ATimeNS :: int
  MTimeNS :: int
  CTimeNS :: int
  Entries :: "(string, u64) fmap option"
  Parent :: u64
  Chunks :: "chunkRef list"
  Target :: string

definition isDir :: "inode \<Rightarrow> bool" where "isDir n \<longleftrightarrow> Type n = TypeDir"
definition isFile :: "inode \<Rightarrow> bool" where "isFile n \<longleftrightarrow> Type n = TypeReg"
definition isLink :: "inode \<Rightarrow> bool" where "isLink n \<longleftrightarrow> Type n = TypeLnk"

text \<open>Reading \<open>Entries\<close>: a nil map reads as the empty one.\<close>

definition entries :: "inode \<Rightarrow> (string, u64) fmap" where
  "entries n = (case Entries n of None \<Rightarrow> fmempty | Some m \<Rightarrow> m)"

definition touchM :: "gotime \<Rightarrow> inode \<Rightarrow> inode" where
  "touchM t n = n\<lparr>MTimeNS := t, CTimeNS := t\<rparr>"

definition touchC :: "gotime \<Rightarrow> inode \<Rightarrow> inode" where
  "touchC t n = n\<lparr>CTimeNS := t\<rparr>"

definition touchA :: "gotime \<Rightarrow> inode \<Rightarrow> inode" where
  "touchA t n = n\<lparr>ATimeNS := t\<rparr>"

fun used_loop :: "nat \<Rightarrow> chunkRef list \<Rightarrow> nat" where
  "used_loop tot [] = tot"
| "used_loop tot (c # cs) =
     used_loop (if \<not> isHole c then wrap64 (tot + ch_Size c) else tot) cs"

definition used :: "inode \<Rightarrow> nat" where
  "used n = used_loop 0 (Chunks n)"

definition inode_attr :: "inode \<Rightarrow> u64 \<Rightarrow> attr" where
  "inode_attr n fsid =
     \<lparr>a_Type = Type n, a_Mode = Mode n AND 0xFFF, a_NLink = NLink n, a_UID = UID n, a_GID = GID n,
      a_Size = Size n, a_Used = used n, a_RDev = (0, 0), a_FSID = fsid, a_FileID = ID n,
      a_ATime = ATimeNS n, a_MTime = MTimeNS n, a_CTime = CTimeNS n\<rparr>"

record snapshot =
  sn_Version :: int
  sn_Epoch :: nat
  sn_NextIno :: u64
  sn_ChunkSize :: nat
  sn_Inodes :: "(u64, inode option) fmap option"
  sn_CreatedNS :: int

record rootPointer =
  rp_Version :: int
  rp_Epoch :: nat
  rp_Snapshot :: string
  rp_FSID :: u64
  rp_WrittenNS :: int
  rp_Writer :: string

definition zero_rootPointer :: rootPointer where
  "zero_rootPointer = \<lparr>rp_Version = 0, rp_Epoch = 0, rp_Snapshot = [], rp_FSID = 0, rp_WrittenNS = 0, rp_Writer = []\<rparr>"

definition rootKey :: string where "rootKey = ''root''"
definition snapshotPrefix :: string where "snapshotPrefix = ''snapshots/''"
definition chunkPrefix :: string where "chunkPrefix = ''chunks/''"
definition snapshotVersion :: int where "snapshotVersion = 1"

lemma touch_sel [simp]:
  "ID (touchM t n) = ID n" "Gen (touchM t n) = Gen n" "Type (touchM t n) = Type n"
  "Entries (touchM t n) = Entries n" "Parent (touchM t n) = Parent n" "NLink (touchM t n) = NLink n"
  "Chunks (touchM t n) = Chunks n" "Size (touchM t n) = Size n"
  "ID (touchC t n) = ID n" "Gen (touchC t n) = Gen n" "Type (touchC t n) = Type n"
  "Entries (touchC t n) = Entries n" "Parent (touchC t n) = Parent n" "NLink (touchC t n) = NLink n"
  "Chunks (touchC t n) = Chunks n" "Size (touchC t n) = Size n"
  "ID (touchA t n) = ID n" "Gen (touchA t n) = Gen n" "Type (touchA t n) = Type n"
  "Entries (touchA t n) = Entries n" "Parent (touchA t n) = Parent n" "NLink (touchA t n) = NLink n"
  "Chunks (touchA t n) = Chunks n" "Size (touchA t n) = Size n"
  by (simp_all add: touchM_def touchC_def touchA_def)

lemma used_loop_bound: "t < 2 ^ 64 \<Longrightarrow> used_loop t cs < 2 ^ 64"
  by (induction cs arbitrary: t) simp_all

text \<open>Where the sum fits 64 bits, \<open>used\<close> is the sum of the stored chunks' sizes: holes cost nothing.\<close>

lemma used_loop_sum:
  "t + sum_list (map ch_Size (filter (Not \<circ> isHole) cs)) < 2 ^ 64 \<Longrightarrow>
   used_loop t cs = t + sum_list (map ch_Size (filter (Not \<circ> isHole) cs))"
proof (induction cs arbitrary: t)
  case (Cons c cs)
  then show ?case by (cases "isHole c") (simp_all add: add.assoc)
qed simp

end
