(* ===== verification/Store.thy ===== *)
theory Store
  imports Prelude
begin

text \<open>
  \<open>internal/store/store.go\<close>: the object-store interface, the wrapper that refuses every mutation,
  and the contract the filesystem relies on. A backend is a record of functions over the state of
  the world it acts on, so that one filesystem model runs over any backend. The contract is the
  locale \<open>object_store\<close>: what an answer says about the objects before and after the call. It
  promises nothing about when a call succeeds, and a mutation that answers an error may or may not
  have taken effect, as a lost reply leaves it.
\<close>

datatype serr = ErrNotFound | ErrPrecondition | ErrUnsupported | ErrOther string

record object_info =
  oi_Key :: string
  oi_Size :: nat
  oi_ETag :: string

record 'w store_ops =
  Get :: "string \<Rightarrow> 'w \<Rightarrow> (serr + bytes) \<times> 'w"
  GetRange :: "string \<Rightarrow> nat \<Rightarrow> nat \<Rightarrow> 'w \<Rightarrow> (serr + bytes) \<times> 'w"
  Head :: "string \<Rightarrow> 'w \<Rightarrow> (serr + object_info) \<times> 'w"
  Put :: "string \<Rightarrow> bytes \<Rightarrow> 'w \<Rightarrow> serr option \<times> 'w"
  Delete :: "string \<Rightarrow> 'w \<Rightarrow> serr option \<times> 'w"
  List :: "string \<Rightarrow> string \<Rightarrow> int \<Rightarrow> 'w \<Rightarrow> (serr + object_info list) \<times> 'w"
  PutIfMatch :: "string \<Rightarrow> bytes \<Rightarrow> string \<Rightarrow> 'w \<Rightarrow> (serr + string) \<times> 'w"
  Name :: string
  GetWithETag :: "string \<Rightarrow> 'w \<Rightarrow> (serr + bytes \<times> string) \<times> 'w"

definition ReadOnly :: "'w store_ops \<Rightarrow> 'w store_ops" where
  "ReadOnly st =
     st\<lparr>Put := \<lambda>_ _ w. (Some ErrUnsupported, w),
        Delete := \<lambda>_ w. (Some ErrUnsupported, w),
        PutIfMatch := \<lambda>_ _ _ w. (Inl ErrUnsupported, w),
        Name := Name st @ '' (read-only)''\<rparr>"

section \<open>The contract\<close>

definition starts_with :: "string \<Rightarrow> string \<Rightarrow> bool" where
  "starts_with p k \<longleftrightarrow> take (length p) k = p"

text \<open>
  \<open>objs\<close> and \<open>etag\<close> read the world: the object stored at a key, and the ETag a conditional write
  would compare against. \<open>good\<close> is the backend's own invariant and \<open>key_ok\<close> the keys it stores as
  they are. A listing is a page of the keys in order, no longer than the limit, and empty only at the
  end: a backend may give shorter pages than asked.
\<close>

text \<open>A listing cut off at the limit is a page of the whole.\<close>

lemma page_of_limit:
  assumes "map oi_Key is = (if mx > 0 then take (nat mx) ks else ks)"
  shows "(\<exists>m. map oi_Key is = take m ks \<and> (mx > 0 \<longrightarrow> m \<le> nat mx)) \<and> (is = [] \<longrightarrow> ks = [])"
proof (cases "mx > 0")
  case True
  then show ?thesis using assms by (cases ks) (auto intro!: exI [of _ "nat mx"])
next
  case False
  then show ?thesis using assms by (auto intro!: exI [of _ "length ks"])
qed

locale object_store =
  fixes st :: "'w store_ops"
    and objs :: "'w \<Rightarrow> string \<Rightarrow> bytes option"
    and etag :: "'w \<Rightarrow> string \<Rightarrow> string"
    and good :: "'w \<Rightarrow> bool"
    and key_ok :: "string \<Rightarrow> bool"
  assumes Get_law: "\<And>w k r w'. good w \<Longrightarrow> key_ok k \<Longrightarrow> Get st k w = (r, w') \<Longrightarrow>
      good w' \<and> objs w' = objs w \<and> etag w' = etag w \<and>
      (case r of Inr d \<Rightarrow> objs w k = Some d | Inl e \<Rightarrow> e = ErrNotFound \<longrightarrow> objs w k = None)"
    and GetRange_law: "\<And>w k off n r w'. good w \<Longrightarrow> key_ok k \<Longrightarrow> off + n < 2 ^ 63 \<Longrightarrow> GetRange st k off n w = (r, w') \<Longrightarrow>
      good w' \<and> objs w' = objs w \<and> etag w' = etag w \<and>
      (case r of Inr d \<Rightarrow> map_option (slice off (off + n)) (objs w k) = Some d \<or> n = 0 \<and> d = []
       | Inl e \<Rightarrow> e = ErrNotFound \<longrightarrow> objs w k = None)"
    and Head_law: "\<And>w k r w'. good w \<Longrightarrow> key_ok k \<Longrightarrow> Head st k w = (r, w') \<Longrightarrow>
      good w' \<and> objs w' = objs w \<and> etag w' = etag w \<and>
      (case r of Inr i \<Rightarrow> oi_Key i = k \<and> map_option length (objs w k) = Some (oi_Size i) \<and>
                          (oi_ETag i = [] \<or> oi_ETag i = etag w k)
       | Inl e \<Rightarrow> e = ErrNotFound \<longrightarrow> objs w k = None)"
    and GetWithETag_law: "\<And>w k r w'. good w \<Longrightarrow> key_ok k \<Longrightarrow> GetWithETag st k w = (r, w') \<Longrightarrow>
      good w' \<and> objs w' = objs w \<and> etag w' = etag w \<and>
      (case r of Inr (d, e) \<Rightarrow> objs w k = Some d \<and> (e = [] \<or> e = etag w k)
       | Inl e \<Rightarrow> e = ErrNotFound \<longrightarrow> objs w k = None)"
    and Put_law: "\<And>w k d r w'. good w \<Longrightarrow> key_ok k \<Longrightarrow> Put st k d w = (r, w') \<Longrightarrow>
      good w' \<and> (\<forall>k'. k' \<noteq> k \<longrightarrow> objs w' k' = objs w k' \<and> etag w' k' = etag w k') \<and>
      (objs w' k = Some d \<or> r \<noteq> None \<and> objs w' k = objs w k \<and> etag w' k = etag w k)"
    and Delete_law: "\<And>w k r w'. good w \<Longrightarrow> key_ok k \<Longrightarrow> Delete st k w = (r, w') \<Longrightarrow>
      good w' \<and> (\<forall>k'. k' \<noteq> k \<longrightarrow> objs w' k' = objs w k' \<and> etag w' k' = etag w k') \<and>
      (objs w' k = None \<or> r \<noteq> None \<and> objs w' k = objs w k \<and> etag w' k = etag w k)"
    and PutIfMatch_law: "\<And>w k d e r w'. good w \<Longrightarrow> key_ok k \<Longrightarrow> PutIfMatch st k d e w = (r, w') \<Longrightarrow>
      good w' \<and> (\<forall>k'. k' \<noteq> k \<longrightarrow> objs w' k' = objs w k' \<and> etag w' k' = etag w k') \<and>
      (objs w' k = Some d \<and> (if objs w k = None then e = [] else e \<noteq> [] \<and> e = etag w k) \<and>
         (case r of Inr e' \<Rightarrow> e' = [] \<or> e' = etag w' k | Inl _ \<Rightarrow> True) \<or>
       (\<exists>x. r = Inl x) \<and> objs w' k = objs w k \<and> etag w' k = etag w k)"
    and List_law: "\<And>w p a mx r w'. good w \<Longrightarrow> List st p a mx w = (r, w') \<Longrightarrow>
      good w' \<and> objs w' = objs w \<and> etag w' = etag w \<and>
      (\<forall>is. r = Inr is \<longrightarrow>
         (\<exists>ks. sorted_wrt (<) ks \<and> set ks = {k. objs w k \<noteq> None \<and> starts_with p k \<and> a < k} \<and>
               (\<exists>m. map oi_Key is = take m ks \<and> (mx > 0 \<longrightarrow> m \<le> nat mx)) \<and> (is = [] \<longrightarrow> ks = [])) \<and>
         (\<forall>i \<in> set is. key_ok (oi_Key i)))"
begin

text \<open>Only the five verbs above reach the objects, so a world is known by them through every call.\<close>

lemma reads_change_nothing:
  assumes "good w" "key_ok k"
  shows "objs (snd (Get st k w)) = objs w" "good (snd (Get st k w))"
    "objs (snd (Head st k w)) = objs w" "good (snd (Head st k w))"
    "objs (snd (GetWithETag st k w)) = objs w" "good (snd (GetWithETag st k w))"
    "etag (snd (Get st k w)) = etag w" "etag (snd (Head st k w)) = etag w"
    "etag (snd (GetWithETag st k w)) = etag w"
  using assms Get_law [OF assms surjective_pairing] Head_law [OF assms surjective_pairing]
    GetWithETag_law [OF assms surjective_pairing] by simp_all

lemma Get_ok: "good w \<Longrightarrow> key_ok k \<Longrightarrow> fst (Get st k w) = Inr d \<Longrightarrow> objs w k = Some d"
  using Get_law [OF _ _ surjective_pairing] by fastforce

text \<open>Two successful steps of the protocol's pattern: what was put is what is read.\<close>

lemma Put_then_Get:
  assumes "good w" "key_ok k" "Put st k d w = (None, w1)" "Get st k w1 = (Inr d', w2)"
  shows "d' = d"
  using Put_law [OF assms(1-3)] Get_law [OF _ assms(2,4)] by simp

text \<open>
  The compare-and-swap: if the body read under an ETag is swapped out against that ETag, then
  nothing replaced it in between, as far as ETags tell bodies apart.
\<close>

lemma swap_saw_current:
  assumes "good w" "key_ok k" "PutIfMatch st k d e w = (Inr e', w')"
  shows "objs w' k = Some d \<and> (if objs w k = None then e = [] else e = etag w k)"
  using PutIfMatch_law [OF assms] by (auto split: if_splits)

text \<open>
  Behind the read-only wrapper the contract still holds, so a client written against it works
  unchanged.
\<close>

lemma ReadOnly_sel:
  "Get (ReadOnly st) = Get st" "GetRange (ReadOnly st) = GetRange st" "Head (ReadOnly st) = Head st"
  "List (ReadOnly st) = List st" "GetWithETag (ReadOnly st) = GetWithETag st"
  "Put (ReadOnly st) k d w = (Some ErrUnsupported, w)"
  "Delete (ReadOnly st) k w = (Some ErrUnsupported, w)"
  "PutIfMatch (ReadOnly st) k d e w = (Inl ErrUnsupported, w)"
  by (simp_all add: ReadOnly_def)

lemma ReadOnly_store: "object_store (ReadOnly st) objs etag good key_ok"
proof (rule object_store.intro, goal_cases)
  case (1 w k r w')
  then show ?case unfolding ReadOnly_sel by (rule Get_law)
next
  case (2 w k off n r w')
  then show ?case unfolding ReadOnly_sel by (rule GetRange_law)
next
  case (3 w k r w')
  then show ?case unfolding ReadOnly_sel by (rule Head_law)
next
  case (4 w k r w')
  then show ?case unfolding ReadOnly_sel by (rule GetWithETag_law)
next
  case (8 w p a mx r w')
  then show ?case unfolding ReadOnly_sel by (rule List_law)
qed (auto simp: ReadOnly_sel)

end

end
