(* ===== verification/FsState.thy ===== *)
theory FsState
  imports Inode Modes Policy Store ChunkCache
begin

text \<open>
  The state of a mount, the \<open>FS\<close> struct of \<open>internal/blobfs/fs.go\<close>, and the helpers every
  method uses. The methods run one at a time: the locks of the code, which order its concurrent
  callers, are not part of the state. A pointer to an inode is its key in the table, and a pointer
  to an open file the key of its inode; inode numbers are never reused, so a key still in the table
  names the same object. \<open>time.Now()\<close> is a clock \<open>clk\<close>: \<open>clk i\<close> is the method's i-th reading.

  \<open>pruning\<close> holds the key of the prune pass that runs, where the code has a flag and the pass its key:
  the flag is set when there is one. The budget is its charge and its limit.

  An error is a value: a protocol status, a store error, an error wrapped with a message, a message,
  or a panic.
\<close>

datatype err =
    EStatus status
  | EStore serr
  | EWrap string err
  | EMsg string
  | EPanic

type_synonym clock = "nat \<Rightarrow> gotime"

text \<open>\<open>errors.Is\<close> of a store error.\<close>

fun err_is :: "serr \<Rightarrow> err \<Rightarrow> bool" where
  "err_is s (EStore e) = (e = s)"
| "err_is s (EWrap _ e) = err_is s e"
| "err_is s _ = False"

text \<open>A write buffer: its contents and the capacity it is resident at.\<close>

record buf =
  b_data :: bytes
  b_cap :: nat

record trimReq =
  tr_to :: nat
  tr_ref :: chunkRef

record openFile =
  of_dirty :: "(nat, buf) fmap"
  of_pendingTrim :: "(nat, trimReq) fmap"
  of_bytes :: int
  of_unsettled :: bool

definition new_openFile :: openFile where
  "new_openFile = \<lparr>of_dirty = fmempty, of_pendingTrim = fmempty, of_bytes = 0, of_unsettled = False\<rparr>"

record fs =
  chunkSize :: nat
  ownerUID :: u32
  ownerGID :: u32
  skipVerify :: bool
  allowUnconditionalRoot :: bool
  maxFileSize :: nat
  perm :: policy
  inodes :: "(u64, inode) fmap"
  nextIno :: u64
  epoch :: nat
  fsid :: u64
  rootETag :: string
  dirty :: bool
  lastCommit :: gotime
  changes :: u64
  mode :: mountMode
  rootKnowledge :: rootState
  rootSnapshot :: string
  doubtKey :: string
  retention :: int
  pruning :: "string option"
  fopen :: "(u64, openFile) fmap"
  budget_used :: int
  budget_limit :: int
  cache :: chunk_cache
  writerID :: string
  knownChunks :: "string fset"
  writeVerf :: bytes

definition maxFileChunks :: nat where "maxFileChunks = 2 ^ 20"

definition defaultChunkSize :: nat where "defaultChunkSize = 2 ^ 20"

section \<open>Updates through a pointer\<close>

text \<open>
  A write through an \<open>*inode\<close>: it shows in the table as long as the table holds the inode, and is
  lost to every later reader once the inode has left it.
\<close>

definition upd_inode :: "u64 \<Rightarrow> (inode \<Rightarrow> inode) \<Rightarrow> fs \<Rightarrow> fs" where
  "upd_inode i g N =
     (case fmlookup (inodes N) i of
        None \<Rightarrow> N
      | Some n \<Rightarrow> N\<lparr>inodes := fmupd i (g n) (inodes N)\<rparr>)"

definition put_open :: "u64 \<Rightarrow> openFile \<Rightarrow> fs \<Rightarrow> fs" where
  "put_open i x N = (if i |\<in>| fmdom (fopen N) then N\<lparr>fopen := fmupd i x (fopen N)\<rparr> else N)"

definition budget_add :: "int \<Rightarrow> fs \<Rightarrow> fs" where
  "budget_add n N = N\<lparr>budget_used := budget_used N + n\<rparr>"

definition budget_release :: "int \<Rightarrow> fs \<Rightarrow> fs" where
  "budget_release n N = N\<lparr>budget_used := budget_used N - n\<rparr>"

definition markDirty :: "fs \<Rightarrow> fs" where
  "markDirty N = N\<lparr>dirty := True, changes := changes N + 1\<rparr>"

definition mutable :: "fs \<Rightarrow> status option" where
  "mutable N = mode_error (mode N)"

lemma fmlookup_upd_inode:
  "fmlookup (inodes (upd_inode i g N)) j =
     (if j = i then map_option g (fmlookup (inodes N) i) else fmlookup (inodes N) j)"
  by (auto simp: upd_inode_def split: option.splits)

lemma fmdom_upd_inode [simp]: "fmdom (inodes (upd_inode i g N)) = fmdom (inodes N)"
  by (rule fset_eqI) (simp add: fmlookup_dom_iff fmlookup_upd_inode)

lemma upd_inode_sel [simp]:
  "nextIno (upd_inode i g N) = nextIno N" "fopen (upd_inode i g N) = fopen N"
  "mode (upd_inode i g N) = mode N" "dirty (upd_inode i g N) = dirty N"
  "changes (upd_inode i g N) = changes N" "fsid (upd_inode i g N) = fsid N"
  "perm (upd_inode i g N) = perm N" "budget_used (upd_inode i g N) = budget_used N"
  "chunkSize (upd_inode i g N) = chunkSize N" "maxFileSize (upd_inode i g N) = maxFileSize N"
  "cache (upd_inode i g N) = cache N" "knownChunks (upd_inode i g N) = knownChunks N"
  "skipVerify (upd_inode i g N) = skipVerify N"
  by (simp_all add: upd_inode_def split: option.splits)

lemma markDirty_sel [simp]:
  "inodes (markDirty N) = inodes N" "nextIno (markDirty N) = nextIno N"
  "fopen (markDirty N) = fopen N" "mode (markDirty N) = mode N" "dirty (markDirty N)"
  "changes (markDirty N) = changes N + 1" "fsid (markDirty N) = fsid N"
  "perm (markDirty N) = perm N" "budget_used (markDirty N) = budget_used N"
  "chunkSize (markDirty N) = chunkSize N" "maxFileSize (markDirty N) = maxFileSize N"
  "cache (markDirty N) = cache N" "knownChunks (markDirty N) = knownChunks N"
  "skipVerify (markDirty N) = skipVerify N"
  by (simp_all add: markDirty_def)

lemma budget_sel [simp]:
  "inodes (budget_add k N) = inodes N" "nextIno (budget_add k N) = nextIno N"
  "fopen (budget_add k N) = fopen N" "mode (budget_add k N) = mode N"
  "inodes (budget_release k N) = inodes N" "nextIno (budget_release k N) = nextIno N"
  "fopen (budget_release k N) = fopen N" "mode (budget_release k N) = mode N"
  "budget_used (budget_add k N) = budget_used N + k"
  "budget_used (budget_release k N) = budget_used N - k"
  "chunkSize (budget_add k N) = chunkSize N" "chunkSize (budget_release k N) = chunkSize N"
  "cache (budget_add k N) = cache N" "cache (budget_release k N) = cache N"
  "knownChunks (budget_add k N) = knownChunks N" "knownChunks (budget_release k N) = knownChunks N"
  "skipVerify (budget_add k N) = skipVerify N" "skipVerify (budget_release k N) = skipVerify N"
  "perm (budget_add k N) = perm N" "perm (budget_release k N) = perm N"
  "fsid (budget_add k N) = fsid N" "fsid (budget_release k N) = fsid N"
  by (simp_all add: budget_add_def budget_release_def)

lemma mutable_None [simp]: "mutable N = None \<longleftrightarrow> mode N = mountWritable"
  by (simp add: mutable_def)

section \<open>Early returns\<close>

text \<open>
  The three shapes of a guard: a check that answers an error or nil, a call that answers an error or
  a value, and a map lookup whose absence is an error. Each returns with the state as it was.
\<close>

definition or_fail :: "status option \<Rightarrow> fs \<Rightarrow> (err + 'a) \<times> fs \<Rightarrow> (err + 'a) \<times> fs" where
  "or_fail e N k = (case e of Some s \<Rightarrow> (Inl (EStatus s), N) | None \<Rightarrow> k)"

definition with_ok :: "status + 'b \<Rightarrow> fs \<Rightarrow> ('b \<Rightarrow> (err + 'a) \<times> fs) \<Rightarrow> (err + 'a) \<times> fs" where
  "with_ok r N k = (case r of Inl s \<Rightarrow> (Inl (EStatus s), N) | Inr x \<Rightarrow> k x)"

definition with_some :: "'b option \<Rightarrow> status \<Rightarrow> fs \<Rightarrow> ('b \<Rightarrow> (err + 'a) \<times> fs) \<Rightarrow> (err + 'a) \<times> fs" where
  "with_some v s N k = (case v of None \<Rightarrow> (Inl (EStatus s), N) | Some x \<Rightarrow> k x)"

lemma guard_simps [simp]:
  "or_fail (Some s) N k = (Inl (EStatus s), N)" "or_fail None N k = k"
  "with_ok (Inl s) N f = (Inl (EStatus s), N)" "with_ok (Inr x) N f = f x"
  "with_some None s N g = (Inl (EStatus s), N)" "with_some (Some y) s N g = g y"
  by (simp_all add: or_fail_def with_ok_def with_some_def)

lemma guard_ok:
  "or_fail e N k = (Inr x, N') \<longleftrightarrow> e = None \<and> k = (Inr x, N')"
  "with_ok r N f = (Inr x, N') \<longleftrightarrow> (\<exists>y. r = Inr y \<and> f y = (Inr x, N'))"
  "with_some v s N g = (Inr x, N') \<longleftrightarrow> (\<exists>y. v = Some y \<and> g y = (Inr x, N'))"
  by (cases e; cases r; cases v; simp)+

text \<open>A property of every answer: it holds of the early returns if it holds of an error at \<open>N\<close>.\<close>

lemma guard_cases:
  "(\<And>s. P (Inl (EStatus s), N)) \<Longrightarrow> (e = None \<Longrightarrow> P k) \<Longrightarrow> P (or_fail e N k)"
  "(\<And>s. P (Inl (EStatus s), N)) \<Longrightarrow> (\<And>y. r = Inr y \<Longrightarrow> P (f y)) \<Longrightarrow> P (with_ok r N f)"
  "(\<And>s. P (Inl (EStatus s), N)) \<Longrightarrow> (\<And>y. v = Some y \<Longrightarrow> P (g y)) \<Longrightarrow> P (with_some v s N g)"
  by (cases e; cases r; cases v; simp)+

section \<open>Handles\<close>

definition encodeHandle :: "u64 \<Rightarrow> u64 \<Rightarrow> handle" where
  "encodeHandle i gen = put_be64 i @ put_be64 gen"

definition decodeHandle :: "handle \<Rightarrow> (u64 \<times> u64) option" where
  "decodeHandle h =
     (if length h \<noteq> 16 then None else Some (get_be64 (slice 0 8 h), get_be64 (slice 8 16 h)))"

text \<open>\<open>resolve\<close> returns the inode; the pointer it gives is the inode's key, \<open>ID\<close> of the result's place.\<close>

definition resolve :: "fs \<Rightarrow> handle \<Rightarrow> status + u64 \<times> inode" where
  "resolve N h =
     (case decodeHandle h of
        None \<Rightarrow> Inl ErrBadHandle
      | Some (i, gen) \<Rightarrow>
          (case fmlookup (inodes N) i of
             None \<Rightarrow> Inl ErrStale
           | Some n \<Rightarrow> if Gen n \<noteq> gen then Inl ErrStale else Inr (i, n)))"

definition Root :: "fs \<Rightarrow> err + handle" where
  "Root N = (case fmlookup (inodes N) rootInodeID of
               None \<Rightarrow> Inl EPanic
             | Some n \<Rightarrow> Inr (encodeHandle rootInodeID (Gen n)))"

lemma decode_encodeHandle [simp]: "decodeHandle (encodeHandle i gen) = Some (i, gen)"
  by (simp add: decodeHandle_def encodeHandle_def slice_def)

lemma resolve_Inr:
  "resolve N h = Inr (i, n) \<longleftrightarrow> decodeHandle h = Some (i, Gen n) \<and> fmlookup (inodes N) i = Some n"
proof (cases "decodeHandle h")
  case (Some p)
  obtain j g where p: "p = (j, g)" by (cases p)
  show ?thesis
  proof (cases "fmlookup (inodes N) j")
    case None
    then show ?thesis using Some p by (cases "j = i") (simp_all add: resolve_def)
  next
    case (Some a)
    then show ?thesis
      using \<open>decodeHandle h = Some p\<close> p by (cases "j = i"; simp add: resolve_def; blast)
  qed
qed (simp add: resolve_def)

lemma resolve_Inr_lookup [dest]: "resolve N h = Inr (i, n) \<Longrightarrow> fmlookup (inodes N) i = Some n"
  by (simp add: resolve_Inr)

section \<open>Permissions\<close>

definition objectOf :: "inode \<Rightarrow> object" where
  "objectOf n = \<lparr>o_Type = Type n, o_Mode = Mode n, o_UID = UID n, o_GID = GID n\<rparr>"

text \<open>
  The \<open>policy.Object\<close> of a request that leaves \<open>Dst\<close> unset. Its type is 0 in the code, which is
  no file type; only \<open>OpRename\<close> reads \<open>Dst\<close>, and it always sets it.
\<close>

definition no_object :: object where
  "no_object = \<lparr>o_Type = TypeReg, o_Mode = 0, o_UID = 0, o_GID = 0\<rparr>"

definition checkPerm :: "fs \<Rightarrow> op \<Rightarrow> caller \<Rightarrow> inode \<Rightarrow> status option" where
  "checkPerm N k c n =
     perm N \<lparr>r_Op = k, r_Caller = c, r_Object = objectOf n, r_Dst = no_object, r_UID = 0, r_GID = 0\<rparr>"

end
