(* ===== verification/Namespace.thy ===== *)
theory Namespace
  imports FsState
begin

text \<open>
  The namespace methods of \<open>internal/blobfs/fs.go\<close>: attributes, lookup, creation, removal, rename
  and directory reading. Every method that changes something returns the new state next to its
  answer. \<open>range\<close> over a map is taken in key order where the order cannot show in the result.
\<close>

section \<open>Attributes\<close>

fun first_err :: "status option list \<Rightarrow> status option" where
  "first_err [] = None"
| "first_err (Some e # _) = Some e"
| "first_err (None # es) = first_err es"

definition setAttrRequests :: "fs \<Rightarrow> caller \<Rightarrow> inode \<Rightarrow> set_attr \<Rightarrow> status option" where
  "setAttrRequests N c n sa =
     (let ask = (\<lambda>k u g. perm N \<lparr>r_Op = k, r_Caller = c, r_Object = objectOf n, r_Dst = no_object,
                               r_UID = u, r_GID = g\<rparr>)
      in first_err
        [if s_Size sa \<noteq> None then ask OpTruncate 0 0 else None,
         if s_Mode sa \<noteq> None then ask OpChmod 0 0 else None,
         case s_UID sa of Some u \<Rightarrow> ask OpChown u 0 | None \<Rightarrow> None,
         case s_GID sa of Some g \<Rightarrow> ask OpChgrp 0 g | None \<Rightarrow> None,
         if s_ATime sa \<noteq> None then ask OpSetTimes 0 0 else None,
         if s_MTime sa \<noteq> None then ask OpSetTimes 0 0 else None])"

definition apply_opt :: "'a option \<Rightarrow> ('a \<Rightarrow> inode \<Rightarrow> inode) \<Rightarrow> inode \<times> bool \<Rightarrow> inode \<times> bool" where
  "apply_opt v g x = (case v of None \<Rightarrow> x | Some a \<Rightarrow> (g a (fst x), True))"

definition applySetAttr :: "inode \<Rightarrow> set_attr \<Rightarrow> gotime \<Rightarrow> inode \<times> bool" where
  "applySetAttr n sa now =
     apply_opt (s_MTime sa) (\<lambda>t n. touchC now (n\<lparr>MTimeNS := t\<rparr>))
     (apply_opt (s_ATime sa) (\<lambda>t n. touchC now (n\<lparr>ATimeNS := t\<rparr>))
      (apply_opt (s_GID sa) (\<lambda>g n. touchC now (n\<lparr>GID := g\<rparr>))
       (apply_opt (s_UID sa) (\<lambda>u n. touchC now (n\<lparr>UID := u\<rparr>))
        (apply_opt (s_Mode sa) (\<lambda>m n. touchC now (n\<lparr>Mode := m AND 0xFFF\<rparr>)) (n, False)))))"

definition maxNameLen :: nat where "maxNameLen = 255"

definition validName :: "string \<Rightarrow> status option" where
  "validName name =
     (if name = [] \<or> name = ''.'' \<or> name = ''..'' then Some ErrInval
      else if length name > maxNameLen then Some ErrNameTooLong
      else if CHR ''/'' \<in> set name \<or> CHR 0x00 \<in> set name then Some ErrInval
      else None)"

definition GetAttr :: "fs \<Rightarrow> handle \<Rightarrow> err + attr" where
  "GetAttr N h =
     (case resolve N h of Inl e \<Rightarrow> Inl (EStatus e) | Inr (i, n) \<Rightarrow> Inr (inode_attr n (fsid N)))"

definition Access :: "fs \<Rightarrow> caller \<Rightarrow> handle \<Rightarrow> u32 \<Rightarrow> err + u32" where
  "Access N c h want =
     (case resolve N h of
        Inl e \<Rightarrow> Inl (EStatus e)
      | Inr (i, n) \<Rightarrow>
          (let granted = AccessBits c (objectOf n);
               granted = (if mode N = mountReadOnly
                          then granted AND NOT (AccessModify OR AccessExtend OR AccessDelete)
                          else granted)
           in Inr (granted AND want)))"

definition lookup_target :: "fs \<Rightarrow> inode \<Rightarrow> string \<Rightarrow> inode option" where
  "lookup_target N d name =
     (if name = ''.'' then Some d
      else if name = ''..''
      then fmlookup (inodes N) (if Parent d = 0 then rootInodeID else Parent d)
      else (case fmlookup (entries d) name of
              None \<Rightarrow> None
            | Some j \<Rightarrow> fmlookup (inodes N) j))"

definition Lookup :: "fs \<Rightarrow> caller \<Rightarrow> handle \<Rightarrow> string \<Rightarrow> err + handle \<times> attr" where
  "Lookup N c dir name =
     (case resolve N dir of
        Inl e \<Rightarrow> Inl (EStatus e)
      | Inr (i, d) \<Rightarrow>
          (case checkPerm N OpLookup c d of
             Some e \<Rightarrow> Inl (EStatus e)
           | None \<Rightarrow>
               (case lookup_target N d name of
                  None \<Rightarrow> Inl (EStatus ErrNoEnt)
                | Some target \<Rightarrow>
                    Inr (encodeHandle (ID target) (Gen target), inode_attr target (fsid N)))))"

definition ReadLink :: "fs \<Rightarrow> handle \<Rightarrow> err + string" where
  "ReadLink N h =
     (case resolve N h of
        Inl e \<Rightarrow> Inl (EStatus e)
      | Inr (i, n) \<Rightarrow> if \<not> isLink n then Inl (EStatus ErrInval) else Inr (Target n))"

definition table_inodes :: "fs \<Rightarrow> inode list" where
  "table_inodes N = map (\<lambda>i. the (fmlookup (inodes N) i)) (sorted_list_of_fset (fmdom (inodes N)))"

definition FSStat :: "fs \<Rightarrow> handle \<Rightarrow> err + fs_stat" where
  "FSStat N h =
     (case resolve N h of
        Inl e \<Rightarrow> Inl (EStatus e)
      | Inr (i, n) \<Rightarrow>
          (let total_used = fold (\<lambda>n u. wrap64 (u + used n)) (table_inodes N) 0;
               headroom = 2 ^ 50
           in Inr \<lparr>TotalBytes = wrap64 (total_used + headroom), FreeBytes = headroom, AvailBytes = headroom,
                  TotalFiles = wrap64 (fcard (fmdom (inodes N)) + 2 ^ 30), FreeFiles = 2 ^ 30\<rparr>))"

section \<open>Creation\<close>

definition set_entry :: "string \<Rightarrow> u64 \<Rightarrow> inode \<Rightarrow> inode" where
  "set_entry name i n = n\<lparr>Entries := map_option (fmupd name i) (Entries n)\<rparr>"

definition del_entry :: "string \<Rightarrow> inode \<Rightarrow> inode" where
  "del_entry name n = n\<lparr>Entries := map_option (fmdrop name) (Entries n)\<rparr>"

definition new_inode :: "gotime \<Rightarrow> file_type \<Rightarrow> u32 \<Rightarrow> caller \<Rightarrow> u64 \<Rightarrow> u64 \<Rightarrow> inode" where
  "new_inode now t m c parent i =
     \<lparr>ID = i, Gen = of_int now, Type = t, Mode = m AND 0xFFF, UID = c_UID c, GID = c_GID c,
      NLink = (if t = TypeDir then 2 else 1), Size = 0,
      ATimeNS = now, MTimeNS = now, CTimeNS = now,
      Entries = (if t = TypeDir then Some fmempty else None), Parent = parent,
      Chunks = [], Target = []\<rparr>"

definition allocInode :: "gotime \<Rightarrow> file_type \<Rightarrow> u32 \<Rightarrow> caller \<Rightarrow> u64 \<Rightarrow> fs \<Rightarrow> inode \<times> fs" where
  "allocInode now t m c parent N =
     (let n = new_inode now t m c parent (nextIno N)
      in (n, markDirty (N\<lparr>nextIno := nextIno N + 1, inodes := fmupd (nextIno N) n (inodes N)\<rparr>)))"

definition default_mode :: "file_type \<Rightarrow> u32" where
  "default_mode t = (if t = TypeLnk then 0x1FF else if t = TypeDir then 0x1ED else 0x1A4)"

text \<open>
  The second half of \<open>createEntry\<close>, once the name is known to be free: the new inode with what the
  call sets on it, then the name.
\<close>

definition entry_attrs :: "fs \<Rightarrow> caller \<Rightarrow> file_type \<Rightarrow> set_attr \<Rightarrow> string \<Rightarrow> inode \<Rightarrow> inode" where
  "entry_attrs N c t sa tgt n0 =
     (let n1 = (case s_UID sa of
                  Some u \<Rightarrow>
                    if perm N \<lparr>r_Op = OpChown, r_Caller = c, r_Object = objectOf n0, r_Dst = no_object,
                               r_UID = u, r_GID = 0\<rparr> = None
                    then n0\<lparr>UID := u\<rparr> else n0
                | None \<Rightarrow> n0);
          n2 = (case s_GID sa of Some g \<Rightarrow> n1\<lparr>GID := g\<rparr> | None \<Rightarrow> n1)
      in if t = TypeLnk then n2\<lparr>Target := tgt, Size := length tgt\<rparr> else n2)"

definition addEntry ::
  "clock \<Rightarrow> fs \<Rightarrow> caller \<Rightarrow> u64 \<Rightarrow> inode \<Rightarrow> string \<Rightarrow> file_type \<Rightarrow> set_attr \<Rightarrow> string
   \<Rightarrow> (err + handle \<times> attr) \<times> fs" where
  "addEntry clk N c di d name t sa tgt =
     (let m = (case s_Mode sa of Some m \<Rightarrow> m | None \<Rightarrow> default_mode t);
          (n0, N1) = allocInode (clk 0) t m c (ID d) N;
          n = entry_attrs N c t sa tgt n0;
          N2 = upd_inode (ID n0) (\<lambda>_. n) N1
      in if Entries d = None then (Inl EPanic, N2)
         else let N3 = upd_inode di (set_entry name (ID n)) N2;
                  N4 = (if t = TypeDir then upd_inode di (\<lambda>d. d\<lparr>NLink := NLink d + 1\<rparr>) N3 else N3);
                  N5 = upd_inode di (touchM (clk 1)) N4
              in (Inr (encodeHandle (ID n) (Gen n), inode_attr n (fsid N)), markDirty N5))"

definition createEntry ::
  "clock \<Rightarrow> fs \<Rightarrow> caller \<Rightarrow> handle \<Rightarrow> string \<Rightarrow> file_type \<Rightarrow> set_attr \<Rightarrow> string \<Rightarrow> bool
   \<Rightarrow> (err + handle \<times> attr) \<times> fs" where
  "createEntry clk N c dir name t sa tgt excl =
     or_fail (mutable N) N (
     or_fail (validName name) N (
     if t = TypeReg \<and> (case s_Size sa of Some sz \<Rightarrow> sz > maxFileSize N | None \<Rightarrow> False)
     then (Inl (EStatus ErrFBig), N)
     else
     with_ok (resolve N dir) N (\<lambda>(di, d).
     or_fail (checkPerm N OpAddEntry c d) N (
     case fmlookup (entries d) name of
       Some existing \<Rightarrow>
         if t = TypeReg \<and> \<not> excl
         then with_some (fmlookup (inodes N) existing) ErrNoEnt N (\<lambda>n.
                if isDir n then (Inl (EStatus ErrExist), N)
                else (Inr (encodeHandle (ID n) (Gen n), inode_attr n (fsid N)), N))
         else (Inl (EStatus ErrExist), N)
     | None \<Rightarrow> addEntry clk N c di d name t sa tgt))))"

definition Create where
  "Create clk N c dir name sa excl = createEntry clk N c dir name TypeReg sa [] excl"

definition Mkdir where
  "Mkdir clk N c dir name sa = createEntry clk N c dir name TypeDir sa [] True"

definition Symlink where
  "Symlink clk N c dir name tgt sa =
     (if tgt = [] then (Inl (EStatus ErrInval), N)
      else createEntry clk N c dir name TypeLnk sa tgt True)"

section \<open>Removal\<close>

text \<open>
  \<open>relink\<close> gets its inodes as (pointer, value) pairs: the updates go through the pointers, the
  decisions read the values, which nothing changes between the caller's read and the call.
\<close>

definition relink :: "u64 \<times> inode \<Rightarrow> u64 \<times> inode \<Rightarrow> (u64 \<times> inode) option \<Rightarrow> fs \<Rightarrow> bool \<times> fs" where
  "relink n from to N =
     (case to of
        None \<Rightarrow>
          if isDir (snd n)
          then (True, upd_inode (fst n) (\<lambda>x. x\<lparr>NLink := 0\<rparr>)
                        (upd_inode (fst from) (\<lambda>x. x\<lparr>NLink := NLink x - 1\<rparr>) N))
          else (let l = (if NLink (snd n) > 0 then NLink (snd n) - 1 else NLink (snd n))
                in (l = 0, upd_inode (fst n) (\<lambda>x. x\<lparr>NLink := l\<rparr>) N))
      | Some t \<Rightarrow>
          if isDir (snd n) \<and> ID (snd from) \<noteq> ID (snd t)
          then (False, upd_inode (fst t) (\<lambda>x. x\<lparr>NLink := NLink x + 1\<rparr>)
                         (upd_inode (fst from) (\<lambda>x. x\<lparr>NLink := NLink x - 1\<rparr>) N))
          else (False, N))"

definition dropOpen :: "u64 \<Rightarrow> fs \<Rightarrow> fs" where
  "dropOpen i N =
     (let N1 = (case fmlookup (fopen N) i of
                  Some x \<Rightarrow> budget_release (of_bytes x) N
                | None \<Rightarrow> N)
      in N1\<lparr>fopen := fmdrop i (fopen N1)\<rparr>)"

definition drop_inode :: "u64 \<Rightarrow> fs \<Rightarrow> fs" where
  "drop_inode i N = dropOpen i (N\<lparr>inodes := fmdrop i (inodes N)\<rparr>)"

definition unlink ::
  "clock \<Rightarrow> fs \<Rightarrow> caller \<Rightarrow> handle \<Rightarrow> string \<Rightarrow> bool \<Rightarrow> (err + unit) \<times> fs" where
  "unlink clk N c dir name wantDir =
     or_fail (mutable N) N (
     or_fail (validName name) N (
     with_ok (resolve N dir) N (\<lambda>(di, d).
     or_fail (checkPerm N OpRemoveEntry c d) N (
     with_some (fmlookup (entries d) name) ErrNoEnt N (\<lambda>i.
     with_some (fmlookup (inodes N) i) ErrNoEnt N (\<lambda>n.
     if wantDir \<and> \<not> isDir n then (Inl (EStatus ErrNotDir), N)
     else if \<not> wantDir \<and> isDir n then (Inl (EStatus ErrIsDir), N)
     else if wantDir \<and> fmdom (entries n) \<noteq> {||} then (Inl (EStatus ErrNotEmpty), N)
     else
       let N1 = upd_inode di (touchM (clk 0) \<circ> del_entry name) N;
           (gone, N2) = relink (i, n) (di, d) None N1;
           N3 = (if gone then drop_inode i N2 else N2)
       in (Inr (), markDirty N3)))))))"

definition Remove where "Remove clk N c dir name = unlink clk N c dir name False"

definition Rmdir where "Rmdir clk N c dir name = unlink clk N c dir name True"

section \<open>Rename\<close>

text \<open>
  The loop of \<open>isAncestor\<close>. The code counts its steps and gives up beyond \<open>len(f.inodes)+1\<close>; the
  fuel is the steps left.
\<close>

fun isAncestor_loop :: "nat \<Rightarrow> fs \<Rightarrow> u64 \<Rightarrow> u64 \<Rightarrow> bool" where
  "isAncestor_loop fuel N ancestor i =
     (if i = 0 then False
      else if i = ancestor then True
      else case fmlookup (inodes N) i of
          None \<Rightarrow> False
        | Some n \<Rightarrow>
            if i = rootInodeID then False
            else (case fuel of 0 \<Rightarrow> False | Suc k \<Rightarrow> isAncestor_loop k N ancestor (Parent n)))"

declare isAncestor_loop.simps [simp del]

definition isAncestor :: "fs \<Rightarrow> u64 \<Rightarrow> u64 \<Rightarrow> bool" where
  "isAncestor N ancestor node = isAncestor_loop (fcard (fmdom (inodes N)) + 1) N ancestor node"

definition do_rename ::
  "clock \<Rightarrow> u64 \<times> inode \<Rightarrow> string \<Rightarrow> u64 \<times> inode \<Rightarrow> string \<Rightarrow> u64 \<times> inode \<Rightarrow> fs \<Rightarrow> (err + unit) \<times> fs" where
  "do_rename clk src fromName dst toName moving N =
     (let N1 = upd_inode (fst src) (del_entry fromName) N
      in if Entries (snd dst) = None then (Inl EPanic, N1)
         else let N2 = upd_inode (fst dst) (set_entry toName (fst moving)) N1;
                  N3 = snd (relink moving src (Some dst) N2);
                  N4 = upd_inode (fst moving) (\<lambda>x. touchC (clk 0) (x\<lparr>Parent := ID (snd dst)\<rparr>)) N3;
                  N5 = upd_inode (fst src) (touchM (clk 1)) N4;
                  N6 = upd_inode (fst dst) (touchM (clk 2)) N5
              in (Inr (), markDirty N6))"

definition Rename ::
  "clock \<Rightarrow> fs \<Rightarrow> caller \<Rightarrow> handle \<Rightarrow> string \<Rightarrow> handle \<Rightarrow> string \<Rightarrow> (err + unit) \<times> fs" where
  "Rename clk N c fromDir fromName toDir toName =
     or_fail (mutable N) N (
     or_fail (validName fromName) N (
     or_fail (validName toName) N (
     with_ok (resolve N fromDir) N (\<lambda>src.
     with_ok (resolve N toDir) N (\<lambda>dst.
     or_fail (perm N \<lparr>r_Op = OpRename, r_Caller = c, r_Object = objectOf (snd src),
                      r_Dst = objectOf (snd dst), r_UID = 0, r_GID = 0\<rparr>) N (
     with_some (fmlookup (entries (snd src)) fromName) ErrNoEnt N (\<lambda>i.
     with_some (fmlookup (inodes N) i) ErrNoEnt N (\<lambda>moving.
     if isDir moving \<and> isAncestor N i (ID (snd dst)) then (Inl (EStatus ErrInval), N)
     else case fmlookup (entries (snd dst)) toName of
       None \<Rightarrow> do_rename clk src fromName dst toName (i, moving) N
     | Some vi \<Rightarrow>
         if vi = i then (Inr (), N)
         else (case fmlookup (inodes N) vi of
                 None \<Rightarrow> do_rename clk src fromName dst toName (i, moving) N
               | Some victim \<Rightarrow>
                   if isDir victim \<and> \<not> isDir moving then (Inl (EStatus ErrIsDir), N)
                   else if \<not> isDir victim \<and> isDir moving then (Inl (EStatus ErrNotDir), N)
                   else if isDir victim \<and> fmdom (entries victim) \<noteq> {||} then (Inl (EStatus ErrNotEmpty), N)
                   else let (gone, N1) = relink (vi, victim) dst None N;
                            N2 = (if gone then drop_inode vi N1 else N1)
                        in do_rename clk src fromName dst toName (i, moving) N2)))))))))"

section \<open>Directory reading\<close>

text \<open>FNV-1a, 64 bits (\<open>hash/fnv\<close>).\<close>

definition fnv64a :: "bytes \<Rightarrow> u64 \<Rightarrow> u64" where
  "fnv64a bs h = fold (\<lambda>b h. (h XOR ucast b) * 0x100000001B3) bs h"

definition fnv64a_init :: u64 where "fnv64a_init = 0xCBF29CE484222325"

definition dirVerifier :: "string list \<Rightarrow> bytes" where
  "dirVerifier names =
     put_be64 (fold (\<lambda>n h. fnv64a [0] (fnv64a (bytes_of_string n) h)) names fnv64a_init)"

definition zero_verf :: bytes where "zero_verf = replicate 8 0"

definition dir_names :: "inode \<Rightarrow> string list" where
  "dir_names d = sorted_list_of_fset (fmdom (entries d))"

definition dir_all :: "inode \<Rightarrow> (string \<times> u64) list" where
  "dir_all d =
     [(''.'', ID d), (''..'', if Parent d = 0 then rootInodeID else Parent d)] @
     map (\<lambda>nm. (nm, the (fmlookup (entries d) nm))) (dir_names d)"

definition mk_dir_entry :: "fs \<Rightarrow> bool \<Rightarrow> nat \<Rightarrow> string \<Rightarrow> inode \<Rightarrow> dir_entry" where
  "mk_dir_entry N pl i nm n =
     \<lparr>d_FileID = ID n, d_Name = nm, d_Cookie = i + 1,
      d_Handle = (if pl then Some (encodeHandle (ID n) (Gen n)) else None),
      d_Attr = (if pl then Some (inode_attr n (fsid N)) else None)\<rparr>"

fun readdir_loop ::
  "fs \<Rightarrow> bool \<Rightarrow> nat \<Rightarrow> nat \<Rightarrow> (string \<times> u64) list \<Rightarrow> nat \<Rightarrow> dir_entry list \<Rightarrow> nat
   \<Rightarrow> dir_entry list \<times> nat" where
  "readdir_loop N pl perEntry budget [] i out u = (out, i)"
| "readdir_loop N pl perEntry budget ((nm, j) # rest) i out u =
     (case fmlookup (inodes N) j of
        None \<Rightarrow> readdir_loop N pl perEntry budget rest (i + 1) out u
      | Some n \<Rightarrow>
          (let cost = wrap32 (perEntry + wrap32 (length nm))
           in if wrap32 (u + cost) > budget \<and> out \<noteq> [] then (out, i)
              else readdir_loop N pl perEntry budget rest (i + 1)
                     (out @ [mk_dir_entry N pl i nm n]) (wrap32 (u + cost))))"

definition ReadDir ::
  "fs \<Rightarrow> caller \<Rightarrow> handle \<Rightarrow> nat \<Rightarrow> bytes \<Rightarrow> nat \<Rightarrow> bool \<Rightarrow> err + dir_entry list \<times> bool \<times> bytes" where
  "ReadDir N c dir cookie verf mx pl =
     (case resolve N dir of
        Inl e \<Rightarrow> Inl (EStatus e)
      | Inr (di, d) \<Rightarrow>
          (case checkPerm N OpReadDir c d of
             Some e \<Rightarrow> Inl (EStatus e)
           | None \<Rightarrow>
               (let cur = dirVerifier (dir_names d) in
                if cookie \<noteq> 0 \<and> verf \<noteq> zero_verf \<and> verf \<noteq> cur then Inl (EStatus ErrBadCookie)
                else if cookie > length (dir_all d) then Inl (EStatus ErrBadCookie)
                else let perEntry = (if pl then 160 else 32);
                         budget = (if mx < perEntry * 2 then perEntry * 2 else mx);
                         (out, i) = readdir_loop N pl perEntry budget (drop cookie (dir_all d)) cookie [] 0
                     in Inr (out, i \<ge> length (dir_all d), cur))))"

end
