(* ===== verification/Tree.thy ===== *)
theory Tree
  imports Prelude
begin

text \<open>
  The abstract namespace the inode table implements: a tree of directories and leaves, each node
  knowing the directory it is in. \<open>tree_wf\<close> is what makes it a tree rooted at inode 1: every name
  resolves to a node whose parent is the naming directory, every node but the root has exactly one
  name, and every node reaches the root through its parents. The three changes of the namespace, to
  add a name, to remove a leaf and to move a name, keep it.
\<close>

record node =
  nd_dir :: bool
  nd_ents :: "string \<Rightarrow> u64 option"
  nd_par :: u64

type_synonym tree = "u64 \<Rightarrow> node option"

definition named :: "tree \<Rightarrow> u64 \<Rightarrow> string \<Rightarrow> u64 \<Rightarrow> bool" where
  "named T d nm i \<longleftrightarrow> (\<exists>x. T d = Some x \<and> nd_ents x nm = Some i)"

definition par_rel :: "tree \<Rightarrow> (u64 \<times> u64) set" where
  "par_rel T = {(i, nd_par x) | i x. T i = Some x \<and> i \<noteq> 1}"

definition subdirs :: "tree \<Rightarrow> u64 \<Rightarrow> u64 set" where
  "subdirs T d = {i. \<exists>x. T i = Some x \<and> nd_dir x \<and> nd_par x = d \<and> i \<noteq> 1}"

definition links :: "tree \<Rightarrow> u64 \<Rightarrow> nat" where
  "links T i = (case T i of Some x \<Rightarrow> if nd_dir x then 2 + card (subdirs T i) else 1 | None \<Rightarrow> 0)"

definition tree_wf :: "tree \<Rightarrow> bool" where
  "tree_wf T \<longleftrightarrow>
     finite (dom T) \<and>
     (\<exists>r. T 1 = Some r \<and> nd_dir r \<and> nd_par r = 0) \<and>
     T 0 = None \<and>
     (\<forall>d nm i. named T d nm i \<longrightarrow> i \<noteq> 1 \<and> (\<exists>x. T i = Some x \<and> nd_par x = d)) \<and>
     (\<forall>d x nm i. T d = Some x \<longrightarrow> nd_ents x nm = Some i \<longrightarrow> nd_dir x) \<and>
     (\<forall>i x. T i = Some x \<longrightarrow> i \<noteq> 1 \<longrightarrow> (\<exists>nm. named T (nd_par x) nm i)) \<and>
     (\<forall>d nm nm' i. named T d nm i \<longrightarrow> named T d nm' i \<longrightarrow> nm = nm') \<and>
     (\<forall>i. i \<in> dom T \<longrightarrow> (i, 1) \<in> (par_rel T)\<^sup>*)"

lemma tree_wfI:
  assumes "finite (dom T)" "\<exists>r. T 1 = Some r \<and> nd_dir r \<and> nd_par r = 0" "T 0 = None"
    "\<And>d nm i. named T d nm i \<Longrightarrow> i \<noteq> 1 \<and> (\<exists>x. T i = Some x \<and> nd_par x = d)"
    "\<And>d x nm i. T d = Some x \<Longrightarrow> nd_ents x nm = Some i \<Longrightarrow> nd_dir x"
    "\<And>i x. T i = Some x \<Longrightarrow> i \<noteq> 1 \<Longrightarrow> \<exists>nm. named T (nd_par x) nm i"
    "\<And>d nm nm' i. named T d nm i \<Longrightarrow> named T d nm' i \<Longrightarrow> nm = nm'"
    "\<And>i. i \<in> dom T \<Longrightarrow> (i, 1) \<in> (par_rel T)\<^sup>*"
  shows "tree_wf T"
  using assms unfolding tree_wf_def by blast

lemma tree_wfD:
  assumes "tree_wf T"
  shows "finite (dom T)" "\<exists>r. T 1 = Some r \<and> nd_dir r \<and> nd_par r = 0" "T 0 = None"
    "\<And>d nm i. named T d nm i \<Longrightarrow> i \<noteq> 1 \<and> (\<exists>x. T i = Some x \<and> nd_par x = d)"
    "\<And>d x nm i. T d = Some x \<Longrightarrow> nd_ents x nm = Some i \<Longrightarrow> nd_dir x"
    "\<And>i x. T i = Some x \<Longrightarrow> i \<noteq> 1 \<Longrightarrow> \<exists>nm. named T (nd_par x) nm i"
    "\<And>d nm nm' i. named T d nm i \<Longrightarrow> named T d nm' i \<Longrightarrow> nm = nm'"
    "\<And>i. i \<in> dom T \<Longrightarrow> (i, 1) \<in> (par_rel T)\<^sup>*"
  using assms unfolding tree_wf_def by blast+

section \<open>Paths to the root\<close>

lemma par_rel_iff: "(i, p) \<in> par_rel T \<longleftrightarrow> i \<noteq> 1 \<and> (\<exists>x. T i = Some x \<and> nd_par x = p)"
  by (auto simp: par_rel_def)

text \<open>The root has no way up, so what is above the root is the root alone.\<close>

lemma above_root: "(1, j) \<in> (par_rel T)\<^sup>* \<Longrightarrow> j = 1"
  by (erule converse_rtranclE) (auto simp: par_rel_iff)

text \<open>A path up that does not meet \<open>m\<close> survives every change that leaves the other nodes' parents.\<close>

lemma path_avoiding:
  assumes "(x, z) \<in> R\<^sup>*" "(x, m) \<notin> R\<^sup>*" "\<And>a b. (a, b) \<in> R \<Longrightarrow> a \<noteq> m \<Longrightarrow> (a, b) \<in> S"
  shows "(x, z) \<in> S\<^sup>*"
  using assms(1,2)
proof (induction rule: converse_rtrancl_induct)
  case (step y w)
  then have "y \<noteq> m" by auto
  with step assms(3) have "(y, w) \<in> S" by blast
  moreover have "(w, m) \<notin> R\<^sup>*" using step by (meson converse_rtrancl_into_rtrancl)
  ultimately show ?case using step.IH by (meson converse_rtrancl_into_rtrancl)
qed simp

text \<open>A path up either avoids \<open>m\<close> or reaches it.\<close>

lemma path_or_meet:
  assumes "(x, z) \<in> R\<^sup>*" "\<And>a b. (a, b) \<in> R \<Longrightarrow> a \<noteq> m \<Longrightarrow> (a, b) \<in> S"
  shows "(x, z) \<in> S\<^sup>* \<or> (x, m) \<in> S\<^sup>*"
  using assms(1)
proof (induction rule: converse_rtrancl_induct)
  case (step y w)
  then show ?case
    using assms(2) by (cases "y = m") (auto intro: converse_rtrancl_into_rtrancl)
qed simp

text \<open>Nothing is above itself: a node's parent is never below it.\<close>

lemma no_cycle:
  assumes "tree_wf T" "i \<in> dom T" "(i, j) \<in> (par_rel T)\<^sup>+"
  shows "i \<noteq> j"
proof
  assume "i = j"
  with assms(3) have c: "(j, j) \<in> (par_rel T)\<^sup>+" by simp
  have "(j, 1) \<in> (par_rel T)\<^sup>*" using assms tree_wfD(8) \<open>i = j\<close> by blast
  moreover have "(a, j) \<in> (par_rel T)\<^sup>+" if "(j, a) \<in> (par_rel T)\<^sup>*" for a
    using that c
  proof (induction rule: rtrancl_induct)
    case (step y z)
    then have "(y, j) \<in> (par_rel T)\<^sup>+" by blast
    then obtain w where "(y, w) \<in> par_rel T" "(w, j) \<in> (par_rel T)\<^sup>*" by (meson tranclD)
    moreover from this have "w = z" using step(2) by (auto simp: par_rel_iff)
    ultimately have "(z, j) \<in> (par_rel T)\<^sup>*" by simp
    from this c show ?case by (rule rtrancl_trancl_trancl)
  qed
  ultimately have "(1, j) \<in> (par_rel T)\<^sup>+" by blast
  then show False by (auto simp: par_rel_iff dest: tranclD)
qed

lemma not_own_parent: "tree_wf T \<Longrightarrow> T i = Some x \<Longrightarrow> i \<noteq> 1 \<Longrightarrow> nd_par x \<noteq> i"
  using no_cycle [of T i i] by (metis domI par_rel_iff r_into_trancl)

text \<open>Only a directory that names something is above anything.\<close>

lemma above_is_dir:
  assumes "tree_wf T" "(x, m) \<in> (par_rel T)\<^sup>+"
  shows "\<exists>n nm j. T m = Some n \<and> nd_dir n \<and> nd_ents n nm = Some j"
proof -
  from assms(2) obtain y where "(y, m) \<in> par_rel T" by (meson tranclD2)
  then obtain n where "T y = Some n" "nd_par n = m" "y \<noteq> 1" by (auto simp: par_rel_iff)
  then obtain nm where "named T m nm y" using tree_wfD(6) [OF assms(1)] by blast
  then show ?thesis using tree_wfD(5) [OF assms(1)] unfolding named_def by blast
qed

section \<open>Adding a name\<close>

definition tree_add :: "u64 \<Rightarrow> string \<Rightarrow> u64 \<Rightarrow> bool \<Rightarrow> tree \<Rightarrow> tree" where
  "tree_add d nm i dir T =
     T(d := map_option (\<lambda>x. x\<lparr>nd_ents := (nd_ents x)(nm \<mapsto> i)\<rparr>) (T d),
       i \<mapsto> \<lparr>nd_dir = dir, nd_ents = Map.empty, nd_par = d\<rparr>)"

lemma named_add:
  assumes "T i = None" "T d = Some x"
  shows "named (tree_add d nm i dir T) e k j \<longleftrightarrow> (if e = d \<and> k = nm then j = i else named T e k j)"
  using assms by (auto simp: named_def tree_add_def)

lemma tree_add_wf:
  assumes wf: "tree_wf T" and i: "T i = None" "i \<noteq> 0" and d: "T d = Some x" "nd_dir x" "nd_ents x nm = None"
  shows "tree_wf (tree_add d nm i dir T)"
proof -
  note W = tree_wfD [OF wf]
  note nd = named_add [OF i(1) d(1)]
  let ?T = "tree_add d nm i dir T"
  have di: "d \<noteq> i" using i d by auto
  have i1: "i \<noteq> 1" using W(2) i by auto
  have free: "\<not> named T e k i" for e k using W(4) [of e k i] i by auto
  have keep: "T j = Some y \<Longrightarrow> \<exists>z. ?T j = Some z \<and> nd_par z = nd_par y \<and> nd_dir z = nd_dir y" for j y
    using i d di by (auto simp: tree_add_def)
  have new: "?T i = Some \<lparr>nd_dir = dir, nd_ents = Map.empty, nd_par = d\<rparr>" by (simp add: tree_add_def)
  have old: "?T j = Some y \<Longrightarrow> j \<noteq> i \<Longrightarrow> \<exists>z. T j = Some z \<and> nd_par y = nd_par z" for j y
    using d di by (auto simp: tree_add_def split: if_splits)
  have sub: "par_rel T \<subseteq> par_rel ?T" using keep by (auto simp: par_rel_iff) metis
  have dom: "dom ?T = insert i (dom T)" using d di by (auto simp: tree_add_def split: if_splits)
  show ?thesis
  proof (rule tree_wfI)
    show "finite (dom ?T)" using W(1) dom by simp
    show "\<exists>r. ?T 1 = Some r \<and> nd_dir r \<and> nd_par r = 0" using W(2) keep by metis
    show "?T 0 = None" using W(3) i d by (auto simp: tree_add_def)
  next
    fix e k j assume "named ?T e k j"
    then show "j \<noteq> 1 \<and> (\<exists>y. ?T j = Some y \<and> nd_par y = e)"
      using W(4) [of e k j] keep new i1 unfolding nd by (auto split: if_splits)
  next
    fix e y k j assume "?T e = Some y" "nd_ents y k = Some j"
    then show "nd_dir y"
      using W(5) d di by (auto simp: tree_add_def split: if_splits)
  next
    fix j y assume y: "?T j = Some y" "j \<noteq> 1"
    show "\<exists>k. named ?T (nd_par y) k j"
    proof (cases "j = i")
      case True
      with y new show ?thesis unfolding nd by auto
    next
      case False
      with y old obtain z where z: "T j = Some z" "nd_par y = nd_par z" by blast
      then obtain k where "named T (nd_par y) k j" using W(6) y(2) by metis
      moreover have "\<not> (nd_par y = d \<and> k = nm)" using \<open>named T (nd_par y) k j\<close> d by (auto simp: named_def)
      ultimately show ?thesis unfolding nd by metis
    qed
  next
    fix e k k' j assume "named ?T e k j" "named ?T e k' j"
    then show "k = k'" using W(7) [of e k j k'] free unfolding nd by (auto split: if_splits)
  next
    fix j assume "j \<in> dom ?T"
    then consider "j = i" | "j \<in> dom T" using dom by blast
    then show "(j, 1) \<in> (par_rel ?T)\<^sup>*"
    proof cases
      case 1
      have "(i, d) \<in> par_rel ?T" using new i1 by (simp add: par_rel_iff)
      moreover have "(d, 1) \<in> (par_rel ?T)\<^sup>*" using W(8) d rtrancl_mono [OF sub] by blast
      ultimately show ?thesis using 1 by (simp add: converse_rtrancl_into_rtrancl)
    next
      case 2
      then show ?thesis using W(8) rtrancl_mono [OF sub] by blast
    qed
  qed
qed

lemma subdirs_add:
  assumes "T i = None" "T d = Some x" "i \<noteq> 1"
  shows "subdirs (tree_add d nm i dir T) e = (if e = d \<and> dir then insert i (subdirs T e) else subdirs T e)"
  using assms by (auto simp: subdirs_def tree_add_def split: if_splits)

lemma finite_subdirs: "tree_wf T \<Longrightarrow> finite (subdirs T d)"
  by (rule finite_subset [OF _ tree_wfD(1)]) (auto simp: subdirs_def)

lemma links_add:
  assumes "tree_wf T" "T i = None" "T d = Some x" "nd_dir x"
  shows "links (tree_add d nm i dir T) e =
     (if e = i then (if dir then 2 else 1) else if e = d \<and> dir then links T d + 1 else links T e)"
proof -
  have i1: "i \<noteq> 1" and di: "d \<noteq> i" using tree_wfD(2) [OF assms(1)] assms(2,3) by auto
  have none: "subdirs T i = {}"
    using assms(1,2) tree_wfD(6) [OF assms(1)] by (fastforce simp: subdirs_def named_def)
  have "i \<notin> subdirs T d" using assms(2) by (simp add: subdirs_def)
  moreover have "tree_add d nm i dir T e =
      (if e = i then Some \<lparr>nd_dir = dir, nd_ents = Map.empty, nd_par = d\<rparr>
       else if e = d then Some (x\<lparr>nd_ents := (nd_ents x)(nm \<mapsto> i)\<rparr>) else T e)" for e
    using assms(3) di by (simp add: tree_add_def)
  ultimately show ?thesis
    using assms di none finite_subdirs [OF assms(1), of d]
    by (simp add: links_def subdirs_add [OF assms(2,3) i1] split: option.split)
qed

section \<open>Removing a leaf\<close>

definition tree_rm :: "u64 \<Rightarrow> string \<Rightarrow> u64 \<Rightarrow> tree \<Rightarrow> tree" where
  "tree_rm d nm i T =
     T(d := map_option (\<lambda>x. x\<lparr>nd_ents := (nd_ents x)(nm := None)\<rparr>) (T d), i := None)"

lemma tree_rm_at:
  assumes "T d = Some x" "d \<noteq> i"
  shows "tree_rm d nm i T e =
    (if e = i then None else if e = d then Some (x\<lparr>nd_ents := (nd_ents x)(nm := None)\<rparr>) else T e)"
  using assms by (simp add: tree_rm_def)

lemma leaf_unused:
  assumes "tree_wf T" "T i = Some n" "nd_ents n = Map.empty" "T j = Some y" "j \<noteq> 1"
  shows "nd_par y \<noteq> i"
proof
  assume "nd_par y = i"
  then obtain k where "named T i k j" using tree_wfD(6) [OF assms(1,4,5)] by blast
  with assms(2,3) show False by (simp add: named_def)
qed

lemma tree_rm_wf:
  assumes wf: "tree_wf T" and d: "named T d nm i" and n: "T i = Some n" "nd_ents n = Map.empty"
  shows "tree_wf (tree_rm d nm i T)"
proof -
  note W = tree_wfD [OF wf]
  let ?T = "tree_rm d nm i T"
  from d obtain x where x: "T d = Some x" "nd_ents x nm = Some i" by (auto simp: named_def)
  from W(4) [OF d] n have i1: "i \<noteq> 1" and par: "nd_par n = d" by auto
  have di: "d \<noteq> i" using x n by auto
  note at = tree_rm_at [of T d x i nm, OF x(1) di]
  have nd: "named ?T e k j \<longleftrightarrow> named T e k j \<and> \<not> (e = d \<and> k = nm)" for e k j
    using x n by (auto simp: named_def at)
  have keep: "T j = Some y \<Longrightarrow> j \<noteq> i \<Longrightarrow> \<exists>z. ?T j = Some z \<and> nd_par z = nd_par y \<and> nd_dir z = nd_dir y" for j y
    using x by (auto simp: at)
  have old: "?T j = Some y \<Longrightarrow> j \<noteq> i \<and> (\<exists>z. T j = Some z \<and> nd_par y = nd_par z)" for j y
    using x by (auto simp: at split: if_splits)
  have once: "named T e k i \<Longrightarrow> e = d \<and> k = nm" for e k
    using W(4) [of e k i] W(7) [of d k i nm] n par d by auto
  have up: "(j, 1) \<in> (par_rel ?T)\<^sup>*" if "j \<in> dom T" "j \<noteq> i" for j
  proof (rule path_avoiding)
    show "(j, 1) \<in> (par_rel T)\<^sup>*" using W(8) that by blast
    show "(j, i) \<notin> (par_rel T)\<^sup>*"
    proof
      assume "(j, i) \<in> (par_rel T)\<^sup>*"
      then have "(j, i) \<in> (par_rel T)\<^sup>+" using that by (simp add: rtrancl_eq_or_trancl)
      from above_is_dir [OF wf this] n show False by auto
    qed
    show "\<And>a b. (a, b) \<in> par_rel T \<Longrightarrow> a \<noteq> i \<Longrightarrow> (a, b) \<in> par_rel ?T"
      unfolding par_rel_iff using keep by metis
  qed
  show ?thesis
  proof (rule tree_wfI)
    show "finite (dom ?T)" by (rule finite_subset [OF _ W(1)]) (use old in blast)
    show "\<exists>r. ?T 1 = Some r \<and> nd_dir r \<and> nd_par r = 0" using W(2) keep i1 by metis
    show "?T 0 = None" using W(3) x by (auto simp: at)
  next
    fix e k j assume a: "named ?T e k j"
    then have "j \<noteq> i" using once by (auto simp: nd)
    with a W(4) [of e k j] keep show "j \<noteq> 1 \<and> (\<exists>y. ?T j = Some y \<and> nd_par y = e)"
      unfolding nd by metis
  next
    fix e y k j assume "?T e = Some y" "nd_ents y k = Some j"
    then show "nd_dir y" using W(5) x by (auto simp: at split: if_splits)
  next
    fix j y assume y: "?T j = Some y" "j \<noteq> 1"
    with old obtain z where z: "j \<noteq> i" "T j = Some z" "nd_par y = nd_par z" by blast
    then obtain k where k: "named T (nd_par y) k j" using W(6) y(2) by metis
    then have "\<not> (nd_par y = d \<and> k = nm)" using x z by (auto simp: named_def)
    with k show "\<exists>k. named ?T (nd_par y) k j" unfolding nd by blast
  next
    fix e k k' j assume "named ?T e k j" "named ?T e k' j"
    then show "k = k'" using W(7) [of e k j k'] unfolding nd by blast
  next
    fix j assume "j \<in> dom ?T"
    then show "(j, 1) \<in> (par_rel ?T)\<^sup>*" using old up by blast
  qed
qed

lemma subdirs_rm:
  assumes "T d = Some x" "d \<noteq> i"
  shows "subdirs (tree_rm d nm i T) e = subdirs T e - {i}"
  using assms by (auto simp: subdirs_def tree_rm_at split: if_splits)

lemma links_rm:
  assumes "tree_wf T" "named T d nm i" "T i = Some n"
  shows "links (tree_rm d nm i T) e =
    (if e = i then 0 else if e = d \<and> nd_dir n then links T d - 1 else links T e)"
proof -
  from assms obtain x where x: "T d = Some x" by (auto simp: named_def)
  have dx: "nd_dir x" using assms(2) x tree_wfD(5) [OF assms(1) x] by (auto simp: named_def)
  have i1: "i \<noteq> 1" and par: "nd_par n = d" using tree_wfD(4) [OF assms(1,2)] assms(3) by auto
  have di: "d \<noteq> i" using not_own_parent [OF assms(1,3) i1] par by simp
  have mem: "i \<in> subdirs T e \<longleftrightarrow> e = d \<and> nd_dir n" for e
    using i1 par assms(3) by (auto simp: subdirs_def)
  have "card (subdirs T d) > 0" if "nd_dir n"
    using mem [of d] that finite_subdirs [OF assms(1), of d] by (auto simp: card_gt_0_iff)
  then show ?thesis
    using x dx di mem finite_subdirs [OF assms(1), of d]
    by (simp add: links_def subdirs_rm [of T d x i, OF x di] tree_rm_at [of T d x i, OF x di]
        card_Diff_singleton_if split: option.split)
qed

section \<open>Moving a name\<close>

definition tree_mv :: "u64 \<Rightarrow> string \<Rightarrow> u64 \<Rightarrow> string \<Rightarrow> u64 \<Rightarrow> tree \<Rightarrow> tree" where
  "tree_mv s nm d nm' i T =
     (let T1 = T(s := map_option (\<lambda>x. x\<lparr>nd_ents := (nd_ents x)(nm := None)\<rparr>) (T s));
          T2 = T1(d := map_option (\<lambda>x. x\<lparr>nd_ents := (nd_ents x)(nm' \<mapsto> i)\<rparr>) (T1 d))
      in T2(i := map_option (\<lambda>x. x\<lparr>nd_par := d\<rparr>) (T2 i)))"

lemma tree_mv_dom: "dom (tree_mv s nm d nm' i T) = dom T"
  by (auto simp: tree_mv_def Let_def split: if_splits)

lemma tree_mv_at:
  "(\<exists>y. tree_mv s nm d nm' i T e = Some y \<and> nd_dir y = v \<and> nd_par y = p) \<longleftrightarrow>
   (\<exists>x. T e = Some x \<and> nd_dir x = v \<and> p = (if e = i then d else nd_par x))"
  by (auto simp: tree_mv_def Let_def)

lemma named_mv:
  assumes "T d = Some y" "s \<noteq> i" "d \<noteq> i"
  shows "named (tree_mv s nm d nm' i T) e k j \<longleftrightarrow>
    (if e = d \<and> k = nm' then j = i else named T e k j \<and> \<not> (e = s \<and> k = nm))"
  using assms by (cases "e = i"; cases "e = d"; cases "e = s")
    (auto simp: named_def tree_mv_def Let_def split: if_splits)

lemma par_rel_mv:
  "(a, b) \<in> par_rel (tree_mv s nm d nm' i T) \<longleftrightarrow>
     (if a = i then i \<noteq> 1 \<and> i \<in> dom T \<and> b = d else (a, b) \<in> par_rel T)"
proof -
  have "(a, b) \<in> par_rel (tree_mv s nm d nm' i T) \<longleftrightarrow>
      a \<noteq> 1 \<and> (\<exists>v y. tree_mv s nm d nm' i T a = Some y \<and> nd_dir y = v \<and> nd_par y = b)"
    by (auto simp: par_rel_iff)
  also have "\<dots> \<longleftrightarrow> a \<noteq> 1 \<and> (\<exists>x. T a = Some x \<and> b = (if a = i then d else nd_par x))"
    unfolding tree_mv_at by blast
  finally show ?thesis by (auto simp: par_rel_iff)
qed

lemma tree_mv_wf:
  assumes wf: "tree_wf T" and sn: "named T s nm i" and d: "T d = Some y" "nd_dir y" "nd_ents y nm' = None"
    and nb: "(d, i) \<notin> (par_rel T)\<^sup>*"
  shows "tree_wf (tree_mv s nm d nm' i T)"
proof -
  note W = tree_wfD [OF wf]
  let ?T = "tree_mv s nm d nm' i T"
  from W(4) [OF sn] obtain n where i1: "i \<noteq> 1" and n: "T i = Some n" "nd_par n = s" by auto
  have si: "s \<noteq> i" using not_own_parent [OF wf n(1) i1] n(2) by simp
  have di: "d \<noteq> i" using nb by auto
  note nd = named_mv [of T d y s i nm nm', OF d(1) si di]
  have once: "named T e k i \<Longrightarrow> e = s \<and> k = nm" for e k
    using W(4) [of e k i] W(7) [of s k i nm] n sn by auto
  have old: "?T e = Some z \<Longrightarrow> \<exists>x. T e = Some x \<and> nd_dir z = nd_dir x \<and> nd_par z = (if e = i then d else nd_par x)" for e z
    using tree_mv_at [of s nm d nm' i T e] by metis
  have new: "T e = Some x \<Longrightarrow> \<exists>z. ?T e = Some z \<and> nd_dir z = nd_dir x \<and> nd_par z = (if e = i then d else nd_par x)" for e x
    using tree_mv_at [of s nm d nm' i T e] by metis
  have keep: "(a, b) \<in> par_rel T \<Longrightarrow> a \<noteq> i \<Longrightarrow> (a, b) \<in> par_rel ?T" for a b
    by (simp add: par_rel_mv)
  have d1: "(d, 1) \<in> (par_rel ?T)\<^sup>*"
    by (rule path_avoiding [OF W(8) nb keep]) (use d in auto)
  have "(i, d) \<in> par_rel ?T" using i1 n by (auto simp: par_rel_mv)
  with d1 have up_i: "(i, 1) \<in> (par_rel ?T)\<^sup>*" by (rule converse_rtrancl_into_rtrancl [rotated])
  show ?thesis
  proof (rule tree_wfI)
    show "finite (dom ?T)" using W(1) by (simp add: tree_mv_dom)
    show "\<exists>r. ?T 1 = Some r \<and> nd_dir r \<and> nd_par r = 0" using W(2) new i1 by metis
    show "?T 0 = None" using W(3) tree_mv_dom [of s nm d nm' i T] by blast
  next
    fix e k j assume "named ?T e k j"
    then consider "e = d" "j = i" | "named T e k j" "j \<noteq> i" using once unfolding nd by metis
    then show "j \<noteq> 1 \<and> (\<exists>z. ?T j = Some z \<and> nd_par z = e)"
      using W(4) [of e k j] new n(1) i1 by cases metis+
  next
    fix e z k j assume "?T e = Some z" "nd_ents z k = Some j"
    then have "named ?T e k j" by (auto simp: named_def)
    with W(5) d have "\<exists>x. T e = Some x \<and> nd_dir x"
      unfolding nd by (metis named_def)
    with old \<open>?T e = Some z\<close> show "nd_dir z" by (metis option.inject)
  next
    fix j z assume z: "?T j = Some z" "j \<noteq> 1"
    show "\<exists>k. named ?T (nd_par z) k j"
    proof (cases "j = i")
      case True
      with old z show ?thesis unfolding nd by metis
    next
      case False
      with old z obtain x where x: "T j = Some x" "nd_par z = nd_par x" by metis
      then obtain k where k: "named T (nd_par z) k j" using W(6) z(2) by metis
      then have "\<not> (nd_par z = s \<and> k = nm)" "\<not> (nd_par z = d \<and> k = nm')"
        using sn False d by (auto simp: named_def)
      with k show ?thesis unfolding nd by metis
    qed
  next
    fix e k k' j assume "named ?T e k j" "named ?T e k' j"
    then show "k = k'" using W(7) [of e k j k'] once unfolding nd by metis
  next
    fix j assume "j \<in> dom ?T"
    then have "(j, 1) \<in> (par_rel T)\<^sup>*" using W(8) by (simp add: tree_mv_dom)
    from path_or_meet [OF this keep] up_i show "(j, 1) \<in> (par_rel ?T)\<^sup>*"
      by (meson rtrancl_trans)
  qed
qed

lemma subdirs_mv:
  assumes "T i = Some n" "i \<noteq> 1"
  shows "subdirs (tree_mv s nm d nm' i T) e =
    (if nd_dir n then (if e = d then insert i (subdirs T e) else subdirs T e - {i}) else subdirs T e)"
proof -
  have "j \<in> subdirs (tree_mv s nm d nm' i T) e \<longleftrightarrow>
      j \<noteq> 1 \<and> (\<exists>y. tree_mv s nm d nm' i T j = Some y \<and> nd_dir y = True \<and> nd_par y = e)" for j
    by (auto simp: subdirs_def)
  then have "j \<in> subdirs (tree_mv s nm d nm' i T) e \<longleftrightarrow>
      j \<noteq> 1 \<and> (\<exists>x. T j = Some x \<and> nd_dir x = True \<and> e = (if j = i then d else nd_par x))" for j
    unfolding tree_mv_at .
  with assms show ?thesis by (auto simp: subdirs_def)
qed

lemma links_mv:
  assumes "tree_wf T" "named T s nm i" "T i = Some n" "T d = Some y" "nd_dir y"
  shows "links (tree_mv s nm d nm' i T) e =
    (if nd_dir n \<and> s \<noteq> d
     then (if e = s then links T s - 1 else if e = d then links T d + 1 else links T e)
     else links T e)"
proof -
  from tree_wfD(4) [OF assms(1,2)] assms(3) have i1: "i \<noteq> 1" and par: "nd_par n = s" by auto
  from assms(2) obtain x where x: "T s = Some x" "nd_dir x"
    using tree_wfD(5) [OF assms(1)] by (auto simp: named_def)
  have fin: "finite (subdirs T e)" for e using assms(1) by (rule finite_subdirs)
  have mem: "i \<in> subdirs T e \<longleftrightarrow> e = s \<and> nd_dir n" for e
    using i1 par assms(3) by (auto simp: subdirs_def)
  have pos: "nd_dir n \<Longrightarrow> card (subdirs T s) > 0" using mem [of s] fin [of s] by (auto simp: card_gt_0_iff)
  have shape: "links (tree_mv s nm d nm' i T) e =
      (case T e of Some z \<Rightarrow> if nd_dir z then 2 + card (subdirs (tree_mv s nm d nm' i T) e) else 1 | None \<Rightarrow> 0)"
    by (auto simp: links_def tree_mv_def Let_def split: option.splits)
  show ?thesis
    using x pos assms(4,5) fin mem unfolding shape subdirs_mv [of T i n, OF assms(3) i1]
    by (simp add: links_def insert_absorb card_Diff_singleton_if split: option.split)
qed

end
