(* ===== verification/NamespaceInv.thy ===== *)
theory NamespaceInv
  imports Namespace Tree
begin

text \<open>
  The namespace invariant and what the namespace methods do to it. \<open>tree_of\<close> reads the inode table
  as the abstract tree of \<open>Tree\<close>; \<open>ns_wf\<close> says that the table is a well-formed tree, that each inode
  carries its own number and the link count the tree gives it, that numbers are handed out in order,
  that only live inodes have open-file buffers, and that the policy is the one \<open>New\<close> sets.
\<close>

definition node_of :: "inode \<Rightarrow> node" where
  "node_of n = \<lparr>nd_dir = isDir n, nd_ents = fmlookup (entries n), nd_par = Parent n\<rparr>"

definition tree_of :: "fs \<Rightarrow> tree" where
  "tree_of N = (\<lambda>i. map_option node_of (fmlookup (inodes N) i))"

definition inode_ok :: "tree \<Rightarrow> u64 \<Rightarrow> inode \<Rightarrow> bool" where
  "inode_ok T i n \<longleftrightarrow>
     ID n = i \<and> (Entries n = None \<longleftrightarrow> \<not> isDir n) \<and> NLink n = of_nat (links T i)"

definition ns_wf :: "fs \<Rightarrow> bool" where
  "ns_wf N \<longleftrightarrow>
     tree_wf (tree_of N) \<and>
     (\<forall>i n. fmlookup (inodes N) i = Some n \<longrightarrow> inode_ok (tree_of N) i n \<and> i < nextIno N) \<and>
     (\<forall>d nm i. named (tree_of N) d nm i \<longrightarrow> validName nm = None) \<and>
     fmdom (fopen N) |\<subseteq>| fmdom (inodes N) \<and>
     perm N = unix_Check"

lemma ns_wfI:
  assumes "tree_wf (tree_of N)"
    "\<And>i n. fmlookup (inodes N) i = Some n \<Longrightarrow> inode_ok (tree_of N) i n"
    "\<And>i n. fmlookup (inodes N) i = Some n \<Longrightarrow> i < nextIno N"
    "\<And>d nm i. named (tree_of N) d nm i \<Longrightarrow> validName nm = None"
    "fmdom (fopen N) |\<subseteq>| fmdom (inodes N)" "perm N = unix_Check"
  shows "ns_wf N"
  using assms unfolding ns_wf_def by blast

lemma ns_wfD:
  assumes "ns_wf N"
  shows "tree_wf (tree_of N)"
    "\<And>i n. fmlookup (inodes N) i = Some n \<Longrightarrow> ID n = i"
    "\<And>i n. fmlookup (inodes N) i = Some n \<Longrightarrow> Entries n = None \<longleftrightarrow> \<not> isDir n"
    "\<And>i n. fmlookup (inodes N) i = Some n \<Longrightarrow> NLink n = of_nat (links (tree_of N) i)"
    "\<And>i n. fmlookup (inodes N) i = Some n \<Longrightarrow> i < nextIno N"
    "\<And>d nm i. named (tree_of N) d nm i \<Longrightarrow> validName nm = None"
    "fmdom (fopen N) |\<subseteq>| fmdom (inodes N)" "perm N = unix_Check"
  using assms unfolding ns_wf_def inode_ok_def by blast+

lemma node_of_sel [simp]:
  "nd_dir (node_of n) = isDir n" "nd_ents (node_of n) = fmlookup (entries n)" "nd_par (node_of n) = Parent n"
  by (simp_all add: node_of_def)

lemma tree_of_Some: "tree_of N i = Some x \<longleftrightarrow> (\<exists>n. fmlookup (inodes N) i = Some n \<and> x = node_of n)"
  by (cases "fmlookup (inodes N) i") (auto simp: tree_of_def)

lemma named_tree_of:
  "named (tree_of N) d nm i \<longleftrightarrow> (\<exists>n. fmlookup (inodes N) d = Some n \<and> fmlookup (entries n) nm = Some i)"
  unfolding named_def tree_of_Some by (metis node_of_sel(2))

lemma tree_of_cong: "inodes N = inodes N' \<Longrightarrow> tree_of N = tree_of N'"
  by (simp add: tree_of_def)

lemma entries_Some: "Entries n = Some m \<Longrightarrow> entries n = m"
  by (simp add: entries_def)

text \<open>The next number is free, and above the root's.\<close>

lemma nextIno_free: "ns_wf N \<Longrightarrow> fmlookup (inodes N) (nextIno N) = None"
  using ns_wfD(5) [of N "nextIno N"] by (cases "fmlookup (inodes N) (nextIno N)") auto

lemma root_lookup:
  assumes "ns_wf N"
  obtains r where "fmlookup (inodes N) 1 = Some r" "isDir r" "Parent r = 0"
proof -
  from tree_wfD(2) [OF ns_wfD(1) [OF assms]] obtain x
    where x: "tree_of N 1 = Some x" "nd_dir x" "nd_par x = 0" by blast
  then obtain r where "fmlookup (inodes N) 1 = Some r" "x = node_of r" by (auto simp: tree_of_Some)
  with x that show ?thesis by simp
qed

lemma Root_ok: "ns_wf N \<Longrightarrow> \<exists>h n. Root N = Inr h \<and> resolve N h = Inr (1, n) \<and> isDir n"
  by (erule root_lookup) (auto simp: Root_def rootInodeID_def resolve_Inr)

section \<open>Creation\<close>

text \<open>A directory that may be written has its entry map.\<close>

lemma dir_has_entries: "ns_wf N \<Longrightarrow> fmlookup (inodes N) i = Some d \<Longrightarrow> isDir d \<Longrightarrow> Entries d \<noteq> None"
  using ns_wfD(3) by blast

definition fresh_inode ::
  "clock \<Rightarrow> fs \<Rightarrow> caller \<Rightarrow> inode \<Rightarrow> file_type \<Rightarrow> set_attr \<Rightarrow> string \<Rightarrow> inode" where
  "fresh_inode clk N c d t sa tgt =
     entry_attrs N c t sa tgt
       (new_inode (clk 0) t (case s_Mode sa of Some m \<Rightarrow> m | None \<Rightarrow> default_mode t) c (ID d) (nextIno N))"

lemma fresh_inode_sel [simp]:
  "ID (fresh_inode clk N c d t sa tgt) = nextIno N"
  "Type (fresh_inode clk N c d t sa tgt) = t"
  "Entries (fresh_inode clk N c d t sa tgt) = (if t = TypeDir then Some fmempty else None)"
  "Parent (fresh_inode clk N c d t sa tgt) = ID d"
  "NLink (fresh_inode clk N c d t sa tgt) = (if t = TypeDir then 2 else 1)"
  "Chunks (fresh_inode clk N c d t sa tgt) = []"
  by (simp_all add: fresh_inode_def entry_attrs_def new_inode_def Let_def split: option.splits)

definition named_dir :: "gotime \<Rightarrow> string \<Rightarrow> u64 \<Rightarrow> bool \<Rightarrow> inode \<Rightarrow> inode" where
  "named_dir t nm i dir d =
     touchM t (let d1 = set_entry nm i d in if dir then d1\<lparr>NLink := NLink d1 + 1\<rparr> else d1)"

lemma named_dir_sel [simp]:
  "ID (named_dir t nm i dir d) = ID d" "Type (named_dir t nm i dir d) = Type d"
  "Entries (named_dir t nm i dir d) = map_option (fmupd nm i) (Entries d)"
  "Parent (named_dir t nm i dir d) = Parent d"
  "NLink (named_dir t nm i dir d) = (if dir then NLink d + 1 else NLink d)"
  by (simp_all add: named_dir_def set_entry_def Let_def)

lemma addEntry_ok:
  assumes "fmlookup (inodes N) di = Some d" "di \<noteq> nextIno N" "Entries d \<noteq> None"
  shows "fst (addEntry clk N c di d name t sa tgt) =
      Inr (encodeHandle (nextIno N) (Gen (fresh_inode clk N c d t sa tgt)),
           inode_attr (fresh_inode clk N c d t sa tgt) (fsid N))"
    and "fmlookup (inodes (snd (addEntry clk N c di d name t sa tgt))) j =
      (if j = nextIno N then Some (fresh_inode clk N c d t sa tgt)
       else if j = di then Some (named_dir (clk 1) name (nextIno N) (t = TypeDir) d)
       else fmlookup (inodes N) j)"
    and "nextIno (snd (addEntry clk N c di d name t sa tgt)) = nextIno N + 1"
    and "fopen (snd (addEntry clk N c di d name t sa tgt)) = fopen N"
    and "perm (snd (addEntry clk N c di d name t sa tgt)) = perm N"
    and "fsid (snd (addEntry clk N c di d name t sa tgt)) = fsid N"
    and "dirty (snd (addEntry clk N c di d name t sa tgt))"
proof -
  let ?n = "fresh_inode clk N c d t sa tgt"
  let ?N1 = "markDirty (N\<lparr>nextIno := nextIno N + 1, inodes := fmupd (nextIno N)
     (new_inode (clk 0) t (case s_Mode sa of Some m \<Rightarrow> m | None \<Rightarrow> default_mode t) c (ID d) (nextIno N)) (inodes N)\<rparr>)"
  have eq: "addEntry clk N c di d name t sa tgt =
      (Inr (encodeHandle (nextIno N) (Gen ?n), inode_attr ?n (fsid N)),
       markDirty (upd_inode di (touchM (clk 1))
         (let N3 = upd_inode di (set_entry name (nextIno N)) (upd_inode (nextIno N) (\<lambda>_. ?n) ?N1)
          in if t = TypeDir then upd_inode di (\<lambda>d. d\<lparr>NLink := NLink d + 1\<rparr>) N3 else N3)))"
    using assms(3) fresh_inode_sel(1) [of clk N c d t sa tgt]
    by (simp add: addEntry_def allocInode_def Let_def fresh_inode_def new_inode_def)
  show "fst (addEntry clk N c di d name t sa tgt) =
      Inr (encodeHandle (nextIno N) (Gen ?n), inode_attr ?n (fsid N))"
    and "nextIno (snd (addEntry clk N c di d name t sa tgt)) = nextIno N + 1"
    and "fopen (snd (addEntry clk N c di d name t sa tgt)) = fopen N"
    and "perm (snd (addEntry clk N c di d name t sa tgt)) = perm N"
    and "fsid (snd (addEntry clk N c di d name t sa tgt)) = fsid N"
    and "dirty (snd (addEntry clk N c di d name t sa tgt))"
    by (simp_all add: eq Let_def)
  show "fmlookup (inodes (snd (addEntry clk N c di d name t sa tgt))) j =
      (if j = nextIno N then Some ?n
       else if j = di then Some (named_dir (clk 1) name (nextIno N) (t = TypeDir) d)
       else fmlookup (inodes N) j)"
    using assms(1,2) by (simp add: eq Let_def fmlookup_upd_inode named_dir_def)
qed

lemma unix_dir_ops:
  assumes "perm N = unix_Check"
  shows "checkPerm N OpAddEntry c d = None \<Longrightarrow> isDir d"
    "checkPerm N OpRemoveEntry c d = None \<Longrightarrow> isDir d"
    "checkPerm N OpLookup c d = None \<Longrightarrow> isDir d"
    "checkPerm N OpReadDir c d = None \<Longrightarrow> isDir d"
  using assms
  by (simp_all add: checkPerm_def unix_Check_def dirAccess_def objectOf_def isDir_def split: if_splits)

lemma addEntry_tree:
  assumes "fmlookup (inodes N) di = Some d" "ID d = di" "di \<noteq> nextIno N" "Entries d \<noteq> None"
  shows "tree_of (snd (addEntry clk N c di d name t sa tgt)) =
    tree_add di name (nextIno N) (t = TypeDir) (tree_of N)"
proof
  fix j
  from assms(4) obtain m where m: "Entries d = Some m" by blast
  have "node_of (named_dir (clk 1) name (nextIno N) (t = TypeDir) d) =
      (node_of d)\<lparr>nd_ents := (nd_ents (node_of d))(name \<mapsto> nextIno N)\<rparr>"
    by (simp add: node_of_def isDir_def entries_def m fun_eq_iff)
  moreover have "node_of (fresh_inode clk N c d t sa tgt) =
      \<lparr>nd_dir = (t = TypeDir), nd_ents = Map.empty, nd_par = di\<rparr>"
    by (simp add: node_of_def isDir_def entries_def assms(2) fun_eq_iff)
  ultimately show "tree_of (snd (addEntry clk N c di d name t sa tgt)) j =
      tree_add di name (nextIno N) (t = TypeDir) (tree_of N) j"
    using assms(1,3) by (simp add: tree_of_def addEntry_ok(2) [OF assms(1,3,4)] tree_add_def)
qed

lemma addEntry_wf:
  assumes wf: "ns_wf N" and room: "nextIno N \<noteq> - 1"
    and d: "fmlookup (inodes N) di = Some d" "isDir d" and nm: "fmlookup (entries d) name = None" "validName name = None"
  shows "ns_wf (snd (addEntry clk N c di d name t sa tgt))"
proof -
  let ?N = "snd (addEntry clk N c di d name t sa tgt)"
  have free: "fmlookup (inodes N) (nextIno N) = None" using wf by (rule nextIno_free)
  then have ne: "di \<noteq> nextIno N" using d by auto
  have en: "Entries d \<noteq> None" using dir_has_entries [OF wf d] .
  have did: "ID d = di" using ns_wfD(2) [OF wf d(1)] .
  note look = addEntry_ok(2) [OF d(1) ne en] and tree = addEntry_tree [OF d(1) did ne en]
  have T: "tree_of N (nextIno N) = None" "tree_of N di = Some (node_of d)"
    using free d by (simp_all add: tree_of_def)
  have pos: "nextIno N \<noteq> 0"
    using ns_wfD(5) [OF wf d(1)] by (metis word_not_simps(1))
  have lk: "links (tree_of ?N) e = (if e = nextIno N then (if t = TypeDir then 2 else 1)
      else if e = di \<and> t = TypeDir then links (tree_of N) di + 1 else links (tree_of N) e)" for e
    using links_add [OF ns_wfD(1) [OF wf] T] d(2) unfolding tree by simp
  show ?thesis
  proof (rule ns_wfI)
    show "tree_wf (tree_of ?N)"
      unfolding tree using tree_add_wf [OF ns_wfD(1) [OF wf] T(1) pos T(2)] d nm by simp
  next
    fix i n assume n: "fmlookup (inodes ?N) i = Some n"
    show "inode_ok (tree_of ?N) i n"
    proof (cases "i = nextIno N \<or> i = di")
      case True
      with n ne did d(2) en ns_wfD(4) [OF wf d(1)] show ?thesis
        unfolding inode_ok_def lk look by (auto simp: isDir_def)
    next
      case False
      with n have "fmlookup (inodes N) i = Some n" by (simp add: look)
      from ns_wfD(2,3,4) [OF wf this] False show ?thesis unfolding inode_ok_def lk by simp
    qed
    have "nextIno N < nextIno N + 1" using room by (rule next_word_less)
    moreover have "i \<noteq> nextIno N \<Longrightarrow> i < nextIno N"
      using n ns_wfD(5) [OF wf] d(1) by (auto simp: look split: if_splits)
    ultimately show "i < nextIno ?N"
      unfolding addEntry_ok(3) [OF d(1) ne en] by (metis less_trans)
  next
    fix e k i assume "named (tree_of ?N) e k i"
    then show "validName k = None"
      using ns_wfD(6) [OF wf] nm(2) unfolding tree named_add [OF T] by (auto split: if_splits)
  next
    show "fmdom (fopen ?N) |\<subseteq>| fmdom (inodes ?N)"
    proof
      fix i assume "i |\<in>| fmdom (fopen ?N)"
      then have "i |\<in>| fmdom (inodes N)"
        using ns_wfD(7) [OF wf] by (auto simp: addEntry_ok(4) [OF d(1) ne en])
      then show "i |\<in>| fmdom (inodes ?N)" by (simp add: fmlookup_dom_iff look)
    qed
    show "perm ?N = unix_Check"
      using ns_wfD(8) [OF wf] by (simp add: addEntry_ok(5) [OF d(1) ne en])
  qed
qed

text \<open>The two ways a creation succeeds: the name was there and is opened, or it is added.\<close>

lemma createEntry_shape:
  "(\<exists>e. createEntry clk N c dir name t sa tgt excl = (Inl (EStatus e), N)) \<or>
   (\<exists>di d i n. resolve N dir = Inr (di, d) \<and> fmlookup (entries d) name = Some i \<and>
      fmlookup (inodes N) i = Some n \<and> \<not> isDir n \<and> t = TypeReg \<and> \<not> excl \<and>
      createEntry clk N c dir name t sa tgt excl =
        (Inr (encodeHandle (ID n) (Gen n), inode_attr n (fsid N)), N)) \<or>
   (\<exists>di d. resolve N dir = Inr (di, d) \<and> fmlookup (entries d) name = None \<and>
      validName name = None \<and> checkPerm N OpAddEntry c d = None \<and> mode N = mountWritable \<and>
      createEntry clk N c dir name t sa tgt excl = addEntry clk N c di d name t sa tgt)"
  unfolding createEntry_def or_fail_def with_ok_def with_some_def
  by (auto split: option.splits sum.splits if_splits)

lemma createEntry_cases:
  assumes "createEntry clk N c dir name t sa tgt excl = (r, N')"
  obtains (refused) e where "r = Inl (EStatus e)" "N' = N"
  | (opened) di d i n where "resolve N dir = Inr (di, d)" "fmlookup (entries d) name = Some i"
      "fmlookup (inodes N) i = Some n" "\<not> isDir n" "t = TypeReg" "\<not> excl"
      "r = Inr (encodeHandle (ID n) (Gen n), inode_attr n (fsid N))" "N' = N"
  | (added) di d where "resolve N dir = Inr (di, d)" "fmlookup (entries d) name = None"
      "validName name = None" "checkPerm N OpAddEntry c d = None" "mode N = mountWritable"
      "(r, N') = addEntry clk N c di d name t sa tgt"
proof -
  from createEntry_shape [of clk N c dir name t sa tgt excl] show thesis
  proof (elim disjE exE conjE, goal_cases)
    case (1 e)
    with assms show thesis by (intro refused [of e]) simp_all
  next
    case (2 di d i n)
    with assms show thesis by (intro opened [of di d i n]) simp_all
  next
    case (3 di d)
    with assms show thesis by (intro added [of di d]) simp_all
  qed
qed

lemma createEntry_wf:
  assumes "ns_wf N" "nextIno N \<noteq> - 1" "createEntry clk N c dir name t sa tgt excl = (r, N')"
  shows "ns_wf N' \<and> (\<forall>e. r = Inl e \<longrightarrow> N' = N \<and> e \<noteq> EPanic)"
  using assms(3)
proof (cases rule: createEntry_cases)
  case (added di d)
  have d: "fmlookup (inodes N) di = Some d" using added(1) by (rule resolve_Inr_lookup)
  have dir: "isDir d" using unix_dir_ops(1) [OF ns_wfD(8) [OF assms(1)] added(4)] .
  have "di \<noteq> nextIno N" using d nextIno_free [OF assms(1)] by auto
  from addEntry_ok(1) [OF d this dir_has_entries [OF assms(1) d dir]] addEntry_wf [OF assms(1,2) d dir added(2,3)]
  show ?thesis unfolding added(6) [symmetric] by (metis Inl_Inr_False added(6) fst_conv snd_conv)
qed (use assms(1) in auto)

section \<open>Removal\<close>

lemma drop_inode_sel [simp]:
  "inodes (drop_inode i N) = fmdrop i (inodes N)" "fopen (drop_inode i N) = fmdrop i (fopen N)"
  "nextIno (drop_inode i N) = nextIno N" "perm (drop_inode i N) = perm N" "mode (drop_inode i N) = mode N"
  "changes (drop_inode i N) = changes N"
  "budget_used (drop_inode i N) =
     budget_used N - (case fmlookup (fopen N) i of Some x \<Rightarrow> of_bytes x | None \<Rightarrow> 0)"
  by (simp_all add: drop_inode_def dropOpen_def Let_def budget_release_def split: option.splits)

definition unnamed_dir :: "gotime \<Rightarrow> string \<Rightarrow> bool \<Rightarrow> inode \<Rightarrow> inode" where
  "unnamed_dir t nm dir d =
     (let d1 = touchM t (del_entry nm d) in if dir then d1\<lparr>NLink := NLink d1 - 1\<rparr> else d1)"

lemma unnamed_dir_sel [simp]:
  "ID (unnamed_dir t nm dir d) = ID d" "Type (unnamed_dir t nm dir d) = Type d"
  "Entries (unnamed_dir t nm dir d) = map_option (fmdrop nm) (Entries d)"
  "Parent (unnamed_dir t nm dir d) = Parent d"
  "NLink (unnamed_dir t nm dir d) = (if dir then NLink d - 1 else NLink d)"
  by (simp_all add: unnamed_dir_def del_entry_def Let_def)

text \<open>What a removal's second half computes, when the inode's link count is the tree's.\<close>

definition removed :: "clock \<Rightarrow> fs \<Rightarrow> u64 \<Rightarrow> inode \<Rightarrow> string \<Rightarrow> u64 \<Rightarrow> inode \<Rightarrow> fs" where
  "removed clk N di d name i n =
     (let (gone, N2) = relink (i, n) (di, d) None (upd_inode di (touchM (clk 0) \<circ> del_entry name) N)
      in markDirty (if gone then drop_inode i N2 else N2))"

lemma removed_eq:
  assumes "isDir n \<or> NLink n = 1" "fmlookup (inodes N) di = Some d" "di \<noteq> i"
  shows "fmlookup (inodes (removed clk N di d name i n)) j =
      (if j = i then None else if j = di then Some (unnamed_dir (clk 0) name (isDir n) d)
       else fmlookup (inodes N) j)"
    and "nextIno (removed clk N di d name i n) = nextIno N"
    and "fopen (removed clk N di d name i n) = fmdrop i (fopen N)"
    and "perm (removed clk N di d name i n) = perm N"
  using assms
  by (auto simp: removed_def relink_def Let_def fmlookup_upd_inode unnamed_dir_def)

lemma unlink_shape:
  "(\<exists>e. unlink clk N c dir name wantDir = (Inl (EStatus e), N)) \<or>
   (\<exists>di d i n. resolve N dir = Inr (di, d) \<and> checkPerm N OpRemoveEntry c d = None \<and>
      fmlookup (entries d) name = Some i \<and> fmlookup (inodes N) i = Some n \<and>
      isDir n = wantDir \<and> (wantDir \<longrightarrow> fmdom (entries n) = {||}) \<and> mode N = mountWritable \<and>
      unlink clk N c dir name wantDir = (Inr (), removed clk N di d name i n))"
  unfolding unlink_def or_fail_def with_ok_def with_some_def removed_def
  by (auto simp: Let_def split: option.splits sum.splits if_splits prod.splits)

lemma unlink_cases:
  assumes "unlink clk N c dir name wantDir = (r, N')"
  obtains (refused) e where "r = Inl (EStatus e)" "N' = N"
  | (removed) di d i n where "resolve N dir = Inr (di, d)" "checkPerm N OpRemoveEntry c d = None"
      "fmlookup (entries d) name = Some i" "fmlookup (inodes N) i = Some n" "isDir n = wantDir"
      "wantDir \<longrightarrow> fmdom (entries n) = {||}" "mode N = mountWritable"
      "r = Inr ()" "N' = removed clk N di d name i n"
proof -
  from unlink_shape [of clk N c dir name wantDir] show thesis
  proof (elim disjE exE conjE, goal_cases)
    case (1 e)
    with assms show thesis by (intro refused [of e]) simp_all
  next
    case (2 di d i n)
    with assms show thesis by (intro removed [of di d i n]) simp_all
  qed
qed

lemma leaf_links:
  assumes "ns_wf N" "fmlookup (inodes N) i = Some n"
  shows "isDir n \<or> NLink n = 1"
  using ns_wfD(4) [OF assms] assms(2) by (auto simp: links_def tree_of_def)

lemma removed_tree:
  assumes wf: "ns_wf N" and d: "fmlookup (inodes N) di = Some d" "fmlookup (entries d) name = Some i"
    and n: "fmlookup (inodes N) i = Some n"
  shows "di \<noteq> i" "tree_of (removed clk N di d name i n) = tree_rm di name i (tree_of N)"
proof -
  have nm: "named (tree_of N) di name i" using d by (auto simp: named_tree_of)
  have "i \<noteq> 1" "Parent n = di" using tree_wfD(4) [OF ns_wfD(1) [OF wf] nm] n by (auto simp: tree_of_def)
  then show ne: "di \<noteq> i"
    using not_own_parent [OF ns_wfD(1) [OF wf], of i "node_of n"] n by (auto simp: tree_of_def)
  obtain m where m: "Entries d = Some m" using d(2) by (cases "Entries d") (auto simp: entries_def)
  have "node_of (unnamed_dir (clk 0) name (isDir n) d) =
      (node_of d)\<lparr>nd_ents := (nd_ents (node_of d))(name := None)\<rparr>"
    by (simp add: node_of_def isDir_def entries_def m fun_eq_iff)
  then show "tree_of (removed clk N di d name i n) = tree_rm di name i (tree_of N)"
    using d(1) ne removed_eq(1) [OF leaf_links [OF wf n] d(1) ne]
    by (intro ext) (simp add: tree_of_def tree_rm_def)
qed

lemma removed_wf:
  assumes wf: "ns_wf N" and d: "fmlookup (inodes N) di = Some d" "fmlookup (entries d) name = Some i"
    and n: "fmlookup (inodes N) i = Some n" and leaf: "isDir n \<longrightarrow> fmdom (entries n) = {||}"
  shows "ns_wf (removed clk N di d name i n)"
proof -
  let ?N = "removed clk N di d name i n"
  note W = ns_wfD(1) [OF wf] and ne = removed_tree(1) [OF wf d n] and tree = removed_tree(2) [OF wf d n, of clk]
  note look = removed_eq [OF leaf_links [OF wf n] d(1) ne, of clk name]
  have nm: "named (tree_of N) di name i" using d by (auto simp: named_tree_of)
  have T: "tree_of N i = Some (node_of n)" using n by (simp add: tree_of_def)
  have "fmlookup (entries n) = Map.empty"
  proof (cases "isDir n")
    case True
    with leaf show ?thesis by (metis fmdom_notD fempty_iff)
  next
    case False
    then show ?thesis using ns_wfD(3) [OF wf n] by (simp add: entries_def fun_eq_iff)
  qed
  then have "tree_wf (tree_of ?N)" unfolding tree using tree_rm_wf [OF W nm T] by simp
  moreover have "links (tree_of ?N) e = (if e = i then 0 else if e = di \<and> isDir n
      then links (tree_of N) di - 1 else links (tree_of N) e)" for e
    unfolding tree using links_rm [OF W nm T] by simp
  moreover have "links (tree_of N) di \<ge> 1"
    using d(1) by (simp add: links_def tree_of_def)
  ultimately show ?thesis
  proof (intro ns_wfI, goal_cases)
    case (2 j x)
    then consider "j = di" "x = unnamed_dir (clk 0) name (isDir n) d" | "j \<noteq> i" "j \<noteq> di" "fmlookup (inodes N) j = Some x"
      by (auto simp: look split: if_splits)
    then show ?case
    proof cases
      case 1
      then show ?thesis
        using 2 ne ns_wfD(2,3,4) [OF wf d(1)]
        by (simp add: inode_ok_def isDir_def of_nat_diff)
    next
      case 2
      then show ?thesis using ns_wfD(2,3,4) [OF wf 2(3)] \<open>\<And>e. links (tree_of ?N) e = _ e\<close> by (simp add: inode_ok_def)
    qed
  next
    case (3 j x)
    then show ?case using ns_wfD(5) [OF wf] d(1) by (auto simp: look split: if_splits)
  next
    case (4 e k j)
    then have "named (tree_of N) e k j"
      using d(1) ne T unfolding tree named_def tree_rm_def by (auto simp: tree_of_def split: if_splits)
    then show ?case by (rule ns_wfD(6) [OF wf])
  next
    case 5
    show ?case
    proof
      fix x assume "x |\<in>| fmdom (fopen ?N)"
      then have "x \<noteq> i" "x |\<in>| fmdom (inodes N)" using ns_wfD(7) [OF wf] by (auto simp: look)
      then show "x |\<in>| fmdom (inodes ?N)" by (simp add: fmlookup_dom_iff look)
    qed
  qed (use look ns_wfD(8) [OF wf] in simp_all)
qed

lemma unlink_wf:
  assumes "ns_wf N" "unlink clk N c dir name wantDir = (r, N')"
  shows "ns_wf N' \<and> (\<forall>e. r = Inl e \<longrightarrow> N' = N \<and> e \<noteq> EPanic)"
  using assms(2)
proof (cases rule: unlink_cases)
  case (removed di d i n)
  then have "fmlookup (inodes N) di = Some d" by (auto dest: resolve_Inr_lookup)
  from removed_wf [OF assms(1) this removed(3,4)] removed show ?thesis by simp
qed (use assms(1) in auto)

section \<open>The ancestor walk\<close>

lemma par_rel_dom: "tree_wf T \<Longrightarrow> (i, p) \<in> par_rel T \<Longrightarrow> p \<in> dom T"
  using tree_wfD(6) by (fastforce simp: par_rel_iff named_def)

lemma par_rel_star_step:
  assumes "(i, p) \<in> par_rel T"
  shows "(i, a) \<in> (par_rel T)\<^sup>* \<longleftrightarrow> i = a \<or> (p, a) \<in> (par_rel T)\<^sup>*"
proof
  assume "(i, a) \<in> (par_rel T)\<^sup>*"
  then show "i = a \<or> (p, a) \<in> (par_rel T)\<^sup>*"
    by (rule converse_rtranclE) (use assms in \<open>auto simp: par_rel_iff\<close>)
qed (use assms in \<open>auto intro: converse_rtrancl_into_rtrancl\<close>)

lemma isAncestor_loop_eq:
  assumes wf: "ns_wf N" and "(i, 1) \<in> par_rel (tree_of N) ^^ k" "k \<le> fuel" "i \<in> dom (tree_of N)"
  shows "isAncestor_loop fuel N a i \<longleftrightarrow> (i, a) \<in> (par_rel (tree_of N))\<^sup>*"
  using assms(2-4)
proof (induction k arbitrary: i fuel)
  case 0
  then have "i = 1" by simp
  moreover obtain r where "fmlookup (inodes N) 1 = Some r" using root_lookup [OF wf] by blast
  ultimately show ?case
    using above_root [of a "tree_of N"]
    by (auto simp: isAncestor_loop.simps [of fuel N a 1] rootInodeID_def)
next
  case (Suc k)
  from Suc.prems(1) obtain p where p: "(i, p) \<in> par_rel (tree_of N)" "(p, 1) \<in> par_rel (tree_of N) ^^ k"
    by (meson relpow_Suc_D2)
  then obtain n where n: "fmlookup (inodes N) i = Some n" "Parent n = p" "i \<noteq> 1"
    by (auto simp: par_rel_iff tree_of_Some)
  obtain f where f: "fuel = Suc f" "k \<le> f" using Suc.prems(2) by (cases fuel) auto
  have "i \<noteq> 0" using tree_wfD(3) [OF ns_wfD(1) [OF wf]] Suc.prems(3) by auto
  moreover have "p \<in> dom (tree_of N)" using par_rel_dom [OF ns_wfD(1) [OF wf] p(1)] .
  ultimately show ?case
    using Suc.IH [OF p(2) f(2)] n par_rel_star_step [OF p(1), of a] f(1)
    by (simp add: isAncestor_loop.simps [of "Suc f" N a i] rootInodeID_def)
qed

lemma isAncestor_exact:
  assumes wf: "ns_wf N" and i: "i \<in> dom (tree_of N)"
  shows "isAncestor N a i \<longleftrightarrow> (i, a) \<in> (par_rel (tree_of N))\<^sup>*"
proof -
  let ?R = "par_rel (tree_of N)"
  note W = ns_wfD(1) [OF wf]
  have dom: "dom (tree_of N) = fset (fmdom (inodes N))"
    by (auto simp: tree_of_def fmlookup_dom_iff)
  have inj: "inj_on fst ?R" by (auto simp: inj_on_def par_rel_iff)
  have sub: "fst ` ?R \<subseteq> dom (tree_of N)" by (auto simp: par_rel_iff)
  have fin: "finite ?R"
    using inj sub tree_wfD(1) [OF W] by (meson finite_imageD finite_subset)
  have "card ?R \<le> fcard (fmdom (inodes N))"
    using card_inj_on_le [OF inj sub tree_wfD(1) [OF W]] by (simp add: dom fcard.rep_eq)
  moreover obtain k where "k \<le> card ?R" "(i, 1) \<in> ?R ^^ k"
    using tree_wfD(8) [OF W i] unfolding rtrancl_finite_eq_relpow [OF fin] by blast
  ultimately show ?thesis
    unfolding isAncestor_def using isAncestor_loop_eq [OF wf _ _ i, of k] by simp
qed

section \<open>Rename\<close>

lemma touchM_twice [simp]: "touchM t (touchM u n) = touchM t n"
  by (simp add: touchM_def)

definition moved :: "gotime \<Rightarrow> u64 \<Rightarrow> inode \<Rightarrow> inode" where
  "moved t d n = touchC t (n\<lparr>Parent := d\<rparr>)"

definition left_dir :: "gotime \<Rightarrow> string \<Rightarrow> bool \<Rightarrow> inode \<Rightarrow> inode" where
  "left_dir t nm dir d = touchM t (let d1 = del_entry nm d in if dir then d1\<lparr>NLink := NLink d1 - 1\<rparr> else d1)"

definition joined_dir :: "gotime \<Rightarrow> string \<Rightarrow> u64 \<Rightarrow> bool \<Rightarrow> inode \<Rightarrow> inode" where
  "joined_dir t nm i dir d =
     touchM t (let d1 = set_entry nm i d in if dir then d1\<lparr>NLink := NLink d1 + 1\<rparr> else d1)"

definition kept_dir :: "gotime \<Rightarrow> string \<Rightarrow> string \<Rightarrow> u64 \<Rightarrow> inode \<Rightarrow> inode" where
  "kept_dir t nm nm' i d = touchM t (set_entry nm' i (del_entry nm d))"

lemma moved_sel [simp]:
  "ID (moved t p n) = ID n" "Type (moved t p n) = Type n" "Entries (moved t p n) = Entries n"
  "Parent (moved t p n) = p" "NLink (moved t p n) = NLink n"
  "ID (left_dir t nm dir d) = ID d" "Type (left_dir t nm dir d) = Type d"
  "Entries (left_dir t nm dir d) = map_option (fmdrop nm) (Entries d)"
  "Parent (left_dir t nm dir d) = Parent d" "NLink (left_dir t nm dir d) = (if dir then NLink d - 1 else NLink d)"
  "ID (joined_dir t nm i dir d) = ID d" "Type (joined_dir t nm i dir d) = Type d"
  "Entries (joined_dir t nm i dir d) = map_option (fmupd nm i) (Entries d)"
  "Parent (joined_dir t nm i dir d) = Parent d" "NLink (joined_dir t nm i dir d) = (if dir then NLink d + 1 else NLink d)"
  "ID (kept_dir t nm nm' i d) = ID d" "Type (kept_dir t nm nm' i d) = Type d"
  "Entries (kept_dir t nm nm' i d) = map_option (fmupd nm' i \<circ> fmdrop nm) (Entries d)"
  "Parent (kept_dir t nm nm' i d) = Parent d" "NLink (kept_dir t nm nm' i d) = NLink d"
  by (simp_all add: moved_def left_dir_def joined_dir_def kept_dir_def set_entry_def del_entry_def Let_def
      option.map_comp)

lemma do_rename_eq:
  assumes "ID src = si" "ID dst = di" "Entries dst \<noteq> None" "si \<noteq> i" "di \<noteq> i"
    and "fmlookup (inodes M) si = Some s" "fmlookup (inodes M) di = Some d" "fmlookup (inodes M) i = Some n"
  shows "fst (do_rename clk (si, src) nm (di, dst) nm' (i, mv) M) = Inr ()"
    and "fmlookup (inodes (snd (do_rename clk (si, src) nm (di, dst) nm' (i, mv) M))) j =
      (if j = i then Some (moved (clk 0) di n)
       else if j = di then Some (if si = di then kept_dir (clk 2) nm nm' i d else joined_dir (clk 2) nm' i (isDir mv) d)
       else if j = si then Some (left_dir (clk 1) nm (isDir mv) s)
       else fmlookup (inodes M) j)"
    and "nextIno (snd (do_rename clk (si, src) nm (di, dst) nm' (i, mv) M)) = nextIno M"
    and "fopen (snd (do_rename clk (si, src) nm (di, dst) nm' (i, mv) M)) = fopen M"
    and "perm (snd (do_rename clk (si, src) nm (di, dst) nm' (i, mv) M)) = perm M"
  using assms
  by (auto simp: do_rename_def relink_def Let_def fmlookup_upd_inode moved_def left_dir_def joined_dir_def kept_dir_def)

lemma do_rename_tree:
  assumes "ID src = si" "ID dst = di" "Entries dst \<noteq> None" "si \<noteq> i" "di \<noteq> i" "isDir mv = isDir n"
    and s: "fmlookup (inodes M) si = Some s" "Entries s \<noteq> None"
    and d: "fmlookup (inodes M) di = Some d" "Entries d \<noteq> None" and n: "fmlookup (inodes M) i = Some n"
  shows "tree_of (snd (do_rename clk (si, src) nm (di, dst) nm' (i, mv) M)) = tree_mv si nm di nm' i (tree_of M)"
proof
  fix j
  obtain ms md where m: "Entries s = Some ms" "Entries d = Some md" using s d by auto
  have "node_of (moved (clk 0) di n) = (node_of n)\<lparr>nd_par := di\<rparr>"
    "node_of (left_dir (clk 1) nm v s) = (node_of s)\<lparr>nd_ents := (nd_ents (node_of s))(nm := None)\<rparr>"
    "node_of (joined_dir (clk 2) nm' i v d) = (node_of d)\<lparr>nd_ents := (nd_ents (node_of d))(nm' \<mapsto> i)\<rparr>"
    "node_of (kept_dir (clk 2) nm nm' i d) =
       (node_of d)\<lparr>nd_ents := ((nd_ents (node_of d))(nm := None))(nm' \<mapsto> i)\<rparr>" for v
    by (simp_all add: node_of_def isDir_def entries_def m fun_eq_iff)
  moreover have "si = di \<Longrightarrow> s = d" using s(1) d(1) by simp
  ultimately show "tree_of (snd (do_rename clk (si, src) nm (di, dst) nm' (i, mv) M)) j = tree_mv si nm di nm' i (tree_of M) j"
    using assms(4,5) s(1) d(1) n
    unfolding tree_of_def tree_mv_def Let_def do_rename_eq(2) [OF assms(1-5) s(1) d(1) n]
    by (cases "si = di") simp_all
qed

lemma do_rename_wf:
  assumes wf: "ns_wf M" and ids: "ID src = si" "ID dst = di" "Entries dst \<noteq> None" "isDir mv = isDir n"
    and s: "fmlookup (inodes M) si = Some s" "fmlookup (entries s) nm = Some i"
    and d: "fmlookup (inodes M) di = Some d" "isDir d" "fmlookup (entries d) nm' = None" "validName nm' = None"
    and n: "fmlookup (inodes M) i = Some n" and na: "(di, i) \<notin> (par_rel (tree_of M))\<^sup>*"
  shows "ns_wf (snd (do_rename clk (si, src) nm (di, dst) nm' (i, mv) M))"
proof -
  let ?N = "snd (do_rename clk (si, src) nm (di, dst) nm' (i, mv) M)"
  note W = ns_wfD(1) [OF wf]
  have nmd: "named (tree_of M) si nm i" using s by (auto simp: named_tree_of)
  have i1: "i \<noteq> 1" and par: "Parent n = si" using tree_wfD(4) [OF W nmd] n by (auto simp: tree_of_def)
  have si: "si \<noteq> i" using not_own_parent [OF W, of i "node_of n"] i1 par n by (auto simp: tree_of_def)
  have di: "di \<noteq> i" using na by auto
  have es: "Entries s \<noteq> None" using s(2) by (cases "Entries s") (auto simp: entries_def)
  have ed: "Entries d \<noteq> None" using dir_has_entries [OF wf d(1,2)] .
  note look = do_rename_eq [OF ids(1-3) si di s(1) d(1) n, of clk nm nm' mv]
  have tree: "tree_of ?N = tree_mv si nm di nm' i (tree_of M)"
    by (rule do_rename_tree [OF ids(1-3) si di ids(4) s(1) es d(1) ed n])
  have T: "tree_of M di = Some (node_of d)" "tree_of M i = Some (node_of n)"
    using d(1) n by (simp_all add: tree_of_def)
  have tw: "tree_wf (tree_of ?N)"
    unfolding tree by (rule tree_mv_wf [OF W nmd T(1) _ _ na]) (use d in simp_all)
  have lk: "links (tree_of ?N) e =
    (if isDir n \<and> si \<noteq> di
     then (if e = si then links (tree_of M) si - 1 else if e = di then links (tree_of M) di + 1 else links (tree_of M) e)
     else links (tree_of M) e)" for e
    unfolding tree using links_mv [OF W nmd T(2,1)] d(2) by simp
  have pos: "links (tree_of M) si \<ge> 1"
    using s(1) by (simp add: links_def tree_of_def)
  show ?thesis
  proof (rule ns_wfI [OF tw])
    fix j x assume x: "fmlookup (inodes ?N) j = Some x"
    consider "j = i" "x = moved (clk 0) di n" | "j = di" "si = di" "x = kept_dir (clk 2) nm nm' i d"
      | "j = di" "si \<noteq> di" "x = joined_dir (clk 2) nm' i (isDir n) d"
      | "j = si" "si \<noteq> di" "x = left_dir (clk 1) nm (isDir n) s"
      | "j \<noteq> i" "j \<noteq> di" "j \<noteq> si" "fmlookup (inodes M) j = Some x"
      using x ids(4) unfolding look(2) by (simp split: if_splits)
    then show "inode_ok (tree_of ?N) j x"
    proof cases
      case 1
      with si di ns_wfD(2,3,4) [OF wf n] show ?thesis unfolding inode_ok_def lk by (simp add: isDir_def)
    next
      case 2
      with di ns_wfD(2,3,4) [OF wf d(1)] show ?thesis unfolding inode_ok_def lk by (simp add: isDir_def)
    next
      case 3
      with ns_wfD(2,3,4) [OF wf d(1)] show ?thesis unfolding inode_ok_def lk by (simp add: isDir_def)
    next
      case 4
      with pos ns_wfD(2,3,4) [OF wf s(1)] show ?thesis unfolding inode_ok_def lk by (simp add: isDir_def of_nat_diff)
    next
      case 5
      from ns_wfD(2,3,4) [OF wf 5(4)] 5 show ?thesis unfolding inode_ok_def lk by simp
    qed
    show "j < nextIno ?N"
      using x ns_wfD(5) [OF wf] s(1) d(1) n unfolding look by (simp split: if_splits)
  next
    fix e k j assume "named (tree_of ?N) e k j"
    then show "validName k = None"
      using ns_wfD(6) [OF wf] d(4) unfolding tree named_mv [of "tree_of M" di "node_of d" si i nm nm', OF T(1) si di]
      by (metis (full_types))
  next
    show "fmdom (fopen ?N) |\<subseteq>| fmdom (inodes ?N)"
    proof
      fix x assume "x |\<in>| fmdom (fopen ?N)"
      then have "x |\<in>| fmdom (inodes M)" using ns_wfD(7) [OF wf] by (auto simp: look)
      then show "x |\<in>| fmdom (inodes ?N)" by (simp add: fmlookup_dom_iff look)
    qed
    show "perm ?N = unix_Check" using ns_wfD(8) [OF wf] by (simp add: look)
  qed
qed

text \<open>The state after a rename's target is unlinked, before its name is taken over.\<close>

definition evicted :: "fs \<Rightarrow> u64 \<Rightarrow> inode \<Rightarrow> u64 \<times> inode \<Rightarrow> fs" where
  "evicted N vi victim dst =
     (let (gone, N1) = relink (vi, victim) dst None N in if gone then drop_inode vi N1 else N1)"

lemma evicted_eq:
  assumes "isDir v \<or> NLink v = 1" "fmlookup (inodes N) di = Some d" "di \<noteq> vi"
  shows "fmlookup (inodes (evicted N vi v (di, d))) j =
      (if j = vi then None
       else if j = di then Some (if isDir v then d\<lparr>NLink := NLink d - 1\<rparr> else d)
       else fmlookup (inodes N) j)"
    and "nextIno (evicted N vi v (di, d)) = nextIno N"
    and "fopen (evicted N vi v (di, d)) = fmdrop vi (fopen N)"
    and "perm (evicted N vi v (di, d)) = perm N"
  using assms by (auto simp: evicted_def relink_def Let_def fmlookup_upd_inode)

lemma ns_wf_cong:
  assumes "\<And>j. fmlookup (inodes N) j = fmlookup (inodes M) j" "nextIno N = nextIno M" "fopen N = fopen M" "perm N = perm M"
  shows "ns_wf N = ns_wf M" "tree_of N = tree_of M"
proof -
  have "inodes N = inodes M" using assms(1) by (rule fmap_ext)
  with assms show "ns_wf N = ns_wf M" "tree_of N = tree_of M"
    by (simp_all add: ns_wf_def tree_of_def)
qed

lemma fmupd_fmdrop_same: "fmupd k v (fmdrop k m) = fmupd k v m" "fmupd k v (fmdrop j (fmdrop k m)) = fmupd k v (fmdrop j m)"
  by (rule fmap_ext; simp)+

text \<open>
  Unlinking the target first or taking its name over directly gives the same table, so a rename onto
  a target is a removal followed by a move.
\<close>

lemma takeover_eq:
  assumes "joined_dir t nm i dir (if v then d\<lparr>NLink := NLink d - 1\<rparr> else d) = x"
  shows "joined_dir t nm i dir (unnamed_dir u nm v d) = x"
  using assms unfolding joined_dir_def unnamed_dir_def set_entry_def del_entry_def touchM_def
  by (cases "Entries d") (auto simp: Let_def fmupd_fmdrop_same)

lemma takeover_kept_eq:
  assumes "kept_dir t nm nm' i (if v then d\<lparr>NLink := NLink d - 1\<rparr> else d) = x"
  shows "kept_dir t nm nm' i (unnamed_dir u nm' v d) = x"
  using assms unfolding kept_dir_def unnamed_dir_def set_entry_def del_entry_def touchM_def
  by (cases "Entries d") (auto simp: Let_def fmupd_fmdrop_same)

lemma evict_rename_eq:
  assumes wf: "ns_wf N" and ids: "ID src = si" "ID dst = di" "Entries dst \<noteq> None" "si \<noteq> i" "di \<noteq> i"
    and s: "fmlookup (inodes N) si = Some s" "si \<noteq> vi"
    and d: "fmlookup (inodes N) di = Some dst" "fmlookup (entries dst) nm' = Some vi"
    and n: "fmlookup (inodes N) i = Some n" "vi \<noteq> i" and v: "fmlookup (inodes N) vi = Some v"
  shows "ns_wf (snd (do_rename clk (si, src) nm (di, dst) nm' (i, mv) (evicted N vi v (di, dst)))) =
         ns_wf (snd (do_rename clk (si, src) nm (di, dst) nm' (i, mv) (removed clk N di dst nm' vi v)))"
    and "tree_of (snd (do_rename clk (si, src) nm (di, dst) nm' (i, mv) (evicted N vi v (di, dst)))) =
         tree_of (snd (do_rename clk (si, src) nm (di, dst) nm' (i, mv) (removed clk N di dst nm' vi v)))"
    and "fst (do_rename clk (si, src) nm (di, dst) nm' (i, mv) (evicted N vi v (di, dst))) = Inr ()"
proof -
  note ne = removed_tree(1) [OF wf d v]
  note lf = leaf_links [OF wf v]
  let ?E = "evicted N vi v (di, dst)" and ?R = "removed clk N di dst nm' vi v"
  note le = evicted_eq [OF lf d(1) ne] and lr = removed_eq [OF lf d(1) ne, of clk nm']
  obtain sE where sE: "fmlookup (inodes ?E) si = Some sE" "si \<noteq> di \<longrightarrow> sE = s"
    using s ne by (cases "si = di") (auto simp: le)
  obtain sR where sR: "fmlookup (inodes ?R) si = Some sR" "si \<noteq> di \<longrightarrow> sR = s"
    using s ne by (cases "si = di") (auto simp: lr)
  have dE: "fmlookup (inodes ?E) di = Some (if isDir v then dst\<lparr>NLink := NLink dst - 1\<rparr> else dst)"
    using ne by (simp add: le)
  have dR: "fmlookup (inodes ?R) di = Some (unnamed_dir (clk 0) nm' (isDir v) dst)"
    using ne by (simp add: lr)
  have nE: "fmlookup (inodes ?E) i = Some n" and nR: "fmlookup (inodes ?R) i = Some n"
    using n ids(5) by (auto simp: le lr)
  note rE = do_rename_eq [OF ids sE(1) dE nE, of clk nm nm' mv] and rR = do_rename_eq [OF ids sR(1) dR nR, of clk nm nm' mv]
  have "fmlookup (inodes (snd (do_rename clk (si, src) nm (di, dst) nm' (i, mv) ?E))) j =
      fmlookup (inodes (snd (do_rename clk (si, src) nm (di, dst) nm' (i, mv) ?R))) j" for j
    unfolding rE(2) rR(2) takeover_eq [OF refl] takeover_kept_eq [OF refl]
    using sE(2) sR(2) by (simp add: le lr)
  from ns_wf_cong [OF this] show
    "ns_wf (snd (do_rename clk (si, src) nm (di, dst) nm' (i, mv) ?E)) =
     ns_wf (snd (do_rename clk (si, src) nm (di, dst) nm' (i, mv) ?R))"
    "tree_of (snd (do_rename clk (si, src) nm (di, dst) nm' (i, mv) ?E)) =
     tree_of (snd (do_rename clk (si, src) nm (di, dst) nm' (i, mv) ?R))"
    unfolding rE(3-5) rR(3-5) le(2-4) lr(2-4) by blast+
  show "fst (do_rename clk (si, src) nm (di, dst) nm' (i, mv) ?E) = Inr ()" by (rule rE(1))
qed

end
