(* ===== verification/NamespaceSpec.thy ===== *)
theory NamespaceSpec
  imports NamespaceInv
begin

text \<open>
  The properties of the namespace methods: each succeeds exactly as one change of the abstract tree
  or changes nothing, every one keeps the invariant, handles of removed inodes stay stale for good,
  and paging through a directory shows each of its entries once.
\<close>

section \<open>Rename as a move\<close>

lemma Rename_shape:
  "(\<exists>e. Rename clk N c fromDir nm toDir nm' = (Inl (EStatus e), N)) \<or>
   (\<exists>si src di dst i mv.
      resolve N fromDir = Inr (si, src) \<and> resolve N toDir = Inr (di, dst) \<and>
      perm N \<lparr>r_Op = OpRename, r_Caller = c, r_Object = objectOf src,
              r_Dst = objectOf dst, r_UID = 0, r_GID = 0\<rparr> = None \<and>
      validName nm' = None \<and> mode N = mountWritable \<and>
      fmlookup (entries src) nm = Some i \<and> fmlookup (inodes N) i = Some mv \<and>
      \<not> (isDir mv \<and> isAncestor N i (ID dst)) \<and>
      (fmlookup (entries dst) nm' = Some i \<and> Rename clk N c fromDir nm toDir nm' = (Inr (), N) \<or>
       (case fmlookup (entries dst) nm' of None \<Rightarrow> True | Some vi \<Rightarrow> vi \<noteq> i \<and> fmlookup (inodes N) vi = None) \<and>
       Rename clk N c fromDir nm toDir nm' = do_rename clk (si, src) nm (di, dst) nm' (i, mv) N \<or>
       (\<exists>vi v. fmlookup (entries dst) nm' = Some vi \<and> vi \<noteq> i \<and> fmlookup (inodes N) vi = Some v \<and>
          isDir v = isDir mv \<and> (isDir v \<longrightarrow> fmdom (entries v) = {||}) \<and>
          Rename clk N c fromDir nm toDir nm' =
            do_rename clk (si, src) nm (di, dst) nm' (i, mv) (evicted N vi v (di, dst)))))"
proof -
  let ?P = "\<lambda>q. (\<exists>e. q = (Inl (EStatus e), N)) \<or>
   (\<exists>si src di dst i mv.
      resolve N fromDir = Inr (si, src) \<and> resolve N toDir = Inr (di, dst) \<and>
      perm N \<lparr>r_Op = OpRename, r_Caller = c, r_Object = objectOf src,
              r_Dst = objectOf dst, r_UID = 0, r_GID = 0\<rparr> = None \<and>
      validName nm' = None \<and> mode N = mountWritable \<and>
      fmlookup (entries src) nm = Some i \<and> fmlookup (inodes N) i = Some mv \<and>
      \<not> (isDir mv \<and> isAncestor N i (ID dst)) \<and>
      (fmlookup (entries dst) nm' = Some i \<and> q = (Inr (), N) \<or>
       (case fmlookup (entries dst) nm' of None \<Rightarrow> True | Some vi \<Rightarrow> vi \<noteq> i \<and> fmlookup (inodes N) vi = None) \<and>
       q = do_rename clk (si, src) nm (di, dst) nm' (i, mv) N \<or>
       (\<exists>vi v. fmlookup (entries dst) nm' = Some vi \<and> vi \<noteq> i \<and> fmlookup (inodes N) vi = Some v \<and>
          isDir v = isDir mv \<and> (isDir v \<longrightarrow> fmdom (entries v) = {||}) \<and>
          q = do_rename clk (si, src) nm (di, dst) nm' (i, mv) (evicted N vi v (di, dst)))))"
  have "?P (Rename clk N c fromDir nm toDir nm')"
    unfolding Rename_def
  proof (rule guard_cases(1), simp, rule guard_cases(1), simp, rule guard_cases(1), simp,
      rule guard_cases(2), simp, rule guard_cases(2), simp, rule guard_cases(1), simp,
      rule guard_cases(3), simp, rule guard_cases(3), simp, goal_cases)
    case (1 src dst i mv)
    obtain si s di d where eq: "src = (si, s)" "dst = (di, d)" by (cases src; cases dst)
    show ?case
    proof (cases "isDir mv \<and> isAncestor N i (ID d)")
      case False
      then show ?thesis
        using 1 unfolding eq evicted_def
        by (cases "fmlookup (entries d) nm'")
          (auto simp: Let_def split: option.splits if_splits prod.splits)
    qed (use eq in simp)
  qed
  then show ?thesis .
qed

lemma unix_rename_dirs:
  assumes "perm N = unix_Check" "perm N \<lparr>r_Op = OpRename, r_Caller = c, r_Object = objectOf s,
              r_Dst = objectOf d, r_UID = 0, r_GID = 0\<rparr> = None"
  shows "isDir s \<and> isDir d"
  using assms by (auto simp: unix_Check_def objectOf_def isDir_def Let_def split: if_splits)

text \<open>A file is above nothing, so the ancestor test of a directory move is the whole of it.\<close>

lemma not_above:
  assumes wf: "ns_wf N" and d: "fmlookup (inodes N) di = Some d" "isDir d"
    and n: "fmlookup (inodes N) i = Some n" and na: "\<not> (isDir n \<and> isAncestor N i di)"
  shows "(di, i) \<notin> (par_rel (tree_of N))\<^sup>*"
proof
  assume r: "(di, i) \<in> (par_rel (tree_of N))\<^sup>*"
  have dom: "di \<in> dom (tree_of N)" using d by (auto simp: tree_of_def)
  have "isDir n"
  proof (cases "di = i")
    case True
    then show ?thesis using d n by simp
  next
    case False
    with r have "(di, i) \<in> (par_rel (tree_of N))\<^sup>+" by (simp add: rtrancl_eq_or_trancl)
    from above_is_dir [OF ns_wfD(1) [OF wf] this] n show ?thesis by (auto simp: tree_of_def)
  qed
  with na r isAncestor_exact [OF wf dom, of i] show False by simp
qed

definition rename_spec :: "u64 \<Rightarrow> string \<Rightarrow> u64 \<Rightarrow> string \<Rightarrow> u64 \<Rightarrow> tree \<Rightarrow> tree" where
  "rename_spec s nm d nm' i T =
     (case T d of
        None \<Rightarrow> T
      | Some x \<Rightarrow>
          (case nd_ents x nm' of
             None \<Rightarrow> tree_mv s nm d nm' i T
           | Some v \<Rightarrow> if v = i then T else tree_mv s nm d nm' i (tree_rm d nm' v T)))"

lemma par_rel_rm:
  assumes "T d = Some x" "d \<noteq> i"
  shows "par_rel (tree_rm d nm i T) \<subseteq> par_rel T"
  using assms by (auto simp: par_rel_iff tree_rm_at split: if_splits)

text \<open>What the checks of \<open>Rename\<close> establish about the three inodes it works on.\<close>

definition may_move :: "fs \<Rightarrow> u64 \<Rightarrow> inode \<Rightarrow> string \<Rightarrow> u64 \<Rightarrow> inode \<Rightarrow> string \<Rightarrow> u64 \<Rightarrow> inode \<Rightarrow> bool" where
  "may_move N si src nm di dst nm' i mv \<longleftrightarrow>
     fmlookup (inodes N) si = Some src \<and> fmlookup (inodes N) di = Some dst \<and> fmlookup (inodes N) i = Some mv \<and>
     isDir src \<and> isDir dst \<and> ID src = si \<and> ID dst = di \<and> Entries src \<noteq> None \<and> Entries dst \<noteq> None \<and>
     fmlookup (entries src) nm = Some i \<and> si \<noteq> i \<and> di \<noteq> i \<and> (di, i) \<notin> (par_rel (tree_of N))\<^sup>* \<and>
     validName nm' = None"

lemma may_moveI:
  assumes wf: "ns_wf N" and r: "resolve N fromDir = Inr (si, src)" "resolve N toDir = Inr (di, dst)"
    and p: "perm N \<lparr>r_Op = OpRename, r_Caller = c, r_Object = objectOf src,
              r_Dst = objectOf dst, r_UID = 0, r_GID = 0\<rparr> = None"
    and v: "validName nm' = None" and e: "fmlookup (entries src) nm = Some i" "fmlookup (inodes N) i = Some mv"
    and a: "\<not> (isDir mv \<and> isAncestor N i (ID dst))"
  shows "may_move N si src nm di dst nm' i mv"
proof -
  have s: "fmlookup (inodes N) si = Some src" and d: "fmlookup (inodes N) di = Some dst"
    using r by (auto simp: resolve_Inr)
  have dirs: "isDir src" "isDir dst" using unix_rename_dirs [OF ns_wfD(8) [OF wf] p] by auto
  have ids: "ID src = si" "ID dst = di" using ns_wfD(2) [OF wf] s d by auto
  have nm: "named (tree_of N) si nm i" using s e(1) by (auto simp: named_tree_of)
  have na: "(di, i) \<notin> (par_rel (tree_of N))\<^sup>*" using not_above [OF wf d dirs(2) e(2)] a ids by simp
  have "si \<noteq> i"
    using not_own_parent [OF ns_wfD(1) [OF wf], of i "node_of mv"] tree_wfD(4) [OF ns_wfD(1) [OF wf] nm] e(2)
    by (auto simp: tree_of_def)
  with na s d dirs ids e v dir_has_entries [OF wf s dirs(1)] dir_has_entries [OF wf d dirs(2)]
  show ?thesis unfolding may_move_def by auto
qed

lemma rename_free:
  assumes wf: "ns_wf N" and m: "may_move N si src nm di dst nm' i mv" and free: "fmlookup (entries dst) nm' = None"
    and R: "do_rename clk (si, src) nm (di, dst) nm' (i, mv) N = (r, N')"
  shows "r = Inr ()" "ns_wf N'" "tree_of N' = rename_spec si nm di nm' i (tree_of N)"
proof -
  from m have ids: "ID src = si" "ID dst = di" "Entries dst \<noteq> None" "si \<noteq> i" "di \<noteq> i" and
    l: "fmlookup (inodes N) si = Some src" "fmlookup (inodes N) di = Some dst" "fmlookup (inodes N) i = Some mv"
    and es: "Entries src \<noteq> None" and d: "isDir dst"
    and rest: "fmlookup (entries src) nm = Some i" "validName nm' = None" "(di, i) \<notin> (par_rel (tree_of N))\<^sup>*"
    unfolding may_move_def by blast+
  show "r = Inr ()" using do_rename_eq(1) [OF ids l, of clk nm nm' mv] R by simp
  show "ns_wf N'"
    using do_rename_wf [OF wf ids(1-3) refl l(1) rest(1) l(2) d free rest(2) l(3) rest(3), of clk] R by simp
  have "tree_of N' = tree_mv si nm di nm' i (tree_of N)"
    using do_rename_tree [OF ids refl l(1) es l(2) ids(3) l(3), of clk nm nm'] R by simp
  then show "tree_of N' = rename_spec si nm di nm' i (tree_of N)"
    using l(2) free by (simp add: rename_spec_def tree_of_def)
qed

text \<open>Onto a target: the move, made where the target has been removed.\<close>

lemma rename_onto:
  assumes wf: "ns_wf N" and m: "may_move N si src nm di dst nm' i mv"
    and v: "fmlookup (entries dst) nm' = Some vi" "vi \<noteq> i" "fmlookup (inodes N) vi = Some v"
      "isDir v \<longrightarrow> fmdom (entries v) = {||}"
    and R: "do_rename clk (si, src) nm (di, dst) nm' (i, mv) (evicted N vi v (di, dst)) = (r, N')"
  shows "r = Inr ()" "ns_wf N'" "tree_of N' = rename_spec si nm di nm' i (tree_of N)"
proof -
  from m have ids: "ID src = si" "ID dst = di" "Entries dst \<noteq> None" "si \<noteq> i" "di \<noteq> i" and
    l: "fmlookup (inodes N) si = Some src" "fmlookup (inodes N) di = Some dst" "fmlookup (inodes N) i = Some mv"
    and es: "Entries src \<noteq> None" and dirs: "isDir src" "isDir dst"
    and rest: "fmlookup (entries src) nm = Some i" "validName nm' = None" "(di, i) \<notin> (par_rel (tree_of N))\<^sup>*"
    unfolding may_move_def by blast+
  have siv: "si \<noteq> vi"
    using l(1) v(3,4) dirs(1) rest(1) by (metis fempty_iff fmdomI option.inject)
  let ?R = "removed clk N di dst nm' vi v" and ?d = "unnamed_dir (clk 0) nm' (isDir v) dst"
  let ?s = "if si = di then ?d else src"
  note ne = removed_tree(1) [OF wf l(2) v(1,3)] and tr = removed_tree(2) [OF wf l(2) v(1,3), of clk]
  note lr = removed_eq [OF leaf_links [OF wf v(3)] l(2) ne, of clk nm']
  have wfR: "ns_wf ?R" by (rule removed_wf [OF wf l(2) v(1,3,4)])
  have "si = di \<Longrightarrow> nm \<noteq> nm'" using rest(1) v(1,2) l by auto
  then have "fmlookup (entries ?s) nm = Some i" using rest(1) l ids(3) by (auto simp: entries_def)
  moreover have "(di, i) \<notin> (par_rel (tree_of ?R))\<^sup>*"
    using rest(3) rtrancl_mono [OF par_rel_rm [of "tree_of N" di "node_of dst" vi nm']] l(2) ne
    unfolding tr by (auto simp: tree_of_def)
  moreover have lR: "fmlookup (inodes ?R) si = Some ?s" "fmlookup (inodes ?R) di = Some ?d" "fmlookup (inodes ?R) i = Some mv"
    using l siv ne ids v(2) by (auto simp: lr)
  moreover have dR: "isDir ?d" "fmlookup (entries ?d) nm' = None" "isDir ?s"
    using dirs ids(3) by (auto simp: isDir_def entries_def)
  moreover note ev = evict_rename_eq [OF wf ids l(1) siv l(2) v(1) l(3) v(2,3), of clk nm mv]
  ultimately show "ns_wf N'"
    using do_rename_wf [OF wfR ids(1-3) refl lR(1) _ lR(2) _ _ rest(2) lR(3), of nm clk] R by simp
  show "r = Inr ()" using ev(3) R by simp
  have "tree_of N' = tree_mv si nm di nm' i (tree_rm di nm' vi (tree_of N))"
    using do_rename_tree [OF ids refl lR(1) dir_has_entries [OF wfR lR(1) dR(3)] lR(2)
        dir_has_entries [OF wfR lR(2) dR(1)] lR(3), of clk nm nm'] ev(2) tr R by simp
  then show "tree_of N' = rename_spec si nm di nm' i (tree_of N)"
    using v(1,2) l(2) by (simp add: rename_spec_def tree_of_def)
qed

lemma Rename_ok:
  assumes wf: "ns_wf N" and R: "Rename clk N c fromDir nm toDir nm' = (r, N')"
  shows "ns_wf N' \<and> ((\<exists>e. r = Inl (EStatus e) \<and> N' = N) \<or>
      r = Inr () \<and> (\<exists>si src di dst i. resolve N fromDir = Inr (si, src) \<and> resolve N toDir = Inr (di, dst) \<and>
        named (tree_of N) si nm i \<and> (di, i) \<notin> (par_rel (tree_of N))\<^sup>* \<and>
        tree_of N' = rename_spec si nm di nm' i (tree_of N)))"
  using Rename_shape [of clk N c fromDir nm toDir nm']
proof (elim disjE exE conjE, goal_cases)
  case (1 e)
  then show ?case using wf R by simp
next
  case (2 si src di dst i mv)
  have m: "may_move N si src nm di dst nm' i mv" by (rule may_moveI [OF wf 2(1-4,6-8)])
  have "r = Inr ()" "N' = N" using 2(10) R by simp_all
  moreover have "named (tree_of N) si nm i" using 2(1,6) by (auto simp: named_tree_of resolve_Inr)
  moreover have "rename_spec si nm di nm' i (tree_of N) = tree_of N"
    using 2(2,9) by (auto simp: tree_of_def rename_spec_def resolve_Inr)
  ultimately show ?case using wf 2(1,2) m unfolding may_move_def by metis
next
  case (3 si src di dst i mv)
  have m: "may_move N si src nm di dst nm' i mv" by (rule may_moveI [OF wf 3(1-4,6-8)])
  have free: "fmlookup (entries dst) nm' = None"
    using 3(2,9) tree_wfD(4) [OF ns_wfD(1) [OF wf], of di nm']
    by (cases "fmlookup (entries dst) nm'") (auto simp: named_tree_of tree_of_Some resolve_Inr)
  have "named (tree_of N) si nm i" "(di, i) \<notin> (par_rel (tree_of N))\<^sup>*"
    using 3(1,6) m by (auto simp: named_tree_of resolve_Inr may_move_def)
  with rename_free [OF wf m free, of clk r N'] 3(1,2,10) R show ?case by metis
next
  case (4 si src di dst i mv vi v)
  have m: "may_move N si src nm di dst nm' i mv" by (rule may_moveI [OF wf 4(1-4,6-8)])
  have "named (tree_of N) si nm i" "(di, i) \<notin> (par_rel (tree_of N))\<^sup>*"
    using 4(1,6) m by (auto simp: named_tree_of resolve_Inr may_move_def)
  with rename_onto [OF wf m 4(9-11,13), of clk r N'] 4(1,2,14) R show ?case by metis
qed

section \<open>One call\<close>

datatype ns_op =
    NCreate handle string set_attr bool
  | NMkdir handle string set_attr
  | NSymlink handle string string set_attr
  | NRemove handle string
  | NRmdir handle string
  | NRename handle string handle string

definition drop_answer :: "(err + 'a) \<times> fs \<Rightarrow> (err + unit) \<times> fs" where
  "drop_answer q = (map_sum (\<lambda>e. e) (\<lambda>_. ()) (fst q), snd q)"

fun ns_exec :: "clock \<Rightarrow> caller \<Rightarrow> ns_op \<Rightarrow> fs \<Rightarrow> (err + unit) \<times> fs" where
  "ns_exec clk c (NCreate dir nm sa excl) N = drop_answer (Create clk N c dir nm sa excl)"
| "ns_exec clk c (NMkdir dir nm sa) N = drop_answer (Mkdir clk N c dir nm sa)"
| "ns_exec clk c (NSymlink dir nm tgt sa) N = drop_answer (Symlink clk N c dir nm tgt sa)"
| "ns_exec clk c (NRemove dir nm) N = Remove clk N c dir nm"
| "ns_exec clk c (NRmdir dir nm) N = Rmdir clk N c dir nm"
| "ns_exec clk c (NRename d nm d' nm') N = Rename clk N c d nm d' nm'"

lemma drop_answer_sel [simp]:
  "fst (drop_answer q) = Inl e \<longleftrightarrow> fst q = Inl e" "snd (drop_answer q) = snd q"
  by (cases "fst q"; simp add: drop_answer_def)+

definition good_step :: "fs \<Rightarrow> (err + 'a) \<times> fs \<Rightarrow> bool" where
  "good_step N q \<longleftrightarrow> ns_wf (snd q) \<and> (\<forall>e. fst q = Inl e \<longrightarrow> snd q = N \<and> e \<noteq> EPanic)"

lemma createEntry_good:
  "ns_wf N \<Longrightarrow> nextIno N \<noteq> - 1 \<Longrightarrow> good_step N (createEntry clk N c dir nm t sa tgt excl)"
  unfolding good_step_def using createEntry_wf [OF _ _ surjective_pairing] by blast

lemma unlink_good: "ns_wf N \<Longrightarrow> good_step N (unlink clk N c dir nm v)"
  unfolding good_step_def using unlink_wf [OF _ surjective_pairing] by blast

lemma Rename_good: "ns_wf N \<Longrightarrow> good_step N (Rename clk N c d nm d' nm')"
proof -
  assume wf: "ns_wf N"
  let ?q = "Rename clk N c d nm d' nm'"
  have "ns_wf (snd ?q)" "(\<exists>e. fst ?q = Inl (EStatus e) \<and> snd ?q = N) \<or> fst ?q = Inr ()"
    using Rename_ok [OF wf surjective_pairing, of clk c d nm d' nm'] by blast+
  then show ?thesis unfolding good_step_def by (elim disjE exE) simp_all
qed

lemma good_refusal: "ns_wf N \<Longrightarrow> good_step N (Inl (EStatus e), N)"
  by (simp add: good_step_def)

lemma good_drop: "good_step N (drop_answer q) = good_step N q"
  by (simp add: good_step_def)

lemma ns_exec_good:
  assumes "ns_wf N" "nextIno N \<noteq> - 1"
  shows "good_step N (ns_exec clk c k N)"
  using assms
  by (cases k) (simp_all add: good_drop Create_def Mkdir_def Symlink_def Remove_def Rmdir_def createEntry_good
      unlink_good Rename_good good_refusal)

section \<open>The invariant of the namespace\<close>

text \<open>
  C7. Every namespace call, whatever its arguments and caller, keeps the namespace a tree: inode 1 is
  the root directory, every name resolves, every other inode has exactly one name and reaches the
  root, link counts are what the tree says, no buffer outlives its inode. A call that answers an
  error has changed nothing at all, and no call panics.
\<close>

theorem namespace_invariant:
  assumes "ns_wf N" "nextIno N \<noteq> - 1"
  shows "ns_wf (snd (ns_exec clk c k N)) \<and>
    (\<forall>e. fst (ns_exec clk c k N) = Inl e \<longrightarrow> snd (ns_exec clk c k N) = N \<and> e \<noteq> EPanic)"
  using ns_exec_good [OF assms] by (simp add: good_step_def)

text \<open>The freshly made filesystem: a root directory alone, owned by user 0.\<close>

definition root_inode :: inode where
  "root_inode = \<lparr>ID = 1, Gen = 1, Type = TypeDir, Mode = 0x1ED, UID = 0, GID = 0, NLink = 2, Size = 0,
     ATimeNS = 0, MTimeNS = 0, CTimeNS = 0, Entries = Some fmempty, Parent = 0, Chunks = [], Target = []\<rparr>"

definition fresh_fs :: fs where
  "fresh_fs = \<lparr>chunkSize = 4096, ownerUID = 0, ownerGID = 0, skipVerify = False, allowUnconditionalRoot = False,
     maxFileSize = 4096 * 2 ^ 20, perm = unix_Check, inodes = fmupd 1 root_inode fmempty, nextIno = 2,
     epoch = 0, fsid = 7, rootETag = [], dirty = False, lastCommit = 0, changes = 0, mode = mountWritable,
     rootKnowledge = rootKnown, rootSnapshot = [], doubtKey = [], retention = 10, pruning = None,
     fopen = fmempty, budget_used = 0, budget_limit = 0, cache = newChunkCache 0, writerID = ''w'', knownChunks = {||},
     writeVerf = replicate 8 0\<rparr>"

lemma fresh_sel [simp]:
  "perm fresh_fs = unix_Check" "inodes fresh_fs = fmupd 1 root_inode fmempty" "nextIno fresh_fs = 2"
  "fopen fresh_fs = fmempty" "mode fresh_fs = mountWritable" "fsid fresh_fs = 7" "chunkSize fresh_fs = 4096"
  "maxFileSize fresh_fs = 4096 * 2 ^ 20" "budget_used fresh_fs = 0" "dirty fresh_fs = False"
  by (simp_all add: fresh_fs_def)

lemma fresh_tree: "tree_of fresh_fs = [1 \<mapsto> \<lparr>nd_dir = True, nd_ents = Map.empty, nd_par = 0\<rparr>]"
  by (auto simp: tree_of_def root_inode_def node_of_def isDir_def entries_def fun_eq_iff)

lemma fresh_fs_wf: "ns_wf fresh_fs"
proof (rule ns_wfI)
  show "tree_wf (tree_of fresh_fs)"
    unfolding fresh_tree tree_wf_def named_def by auto
  fix i n assume n: "fmlookup (inodes fresh_fs) i = Some n"
  then have i: "i = 1" "n = root_inode" by (simp_all split: if_splits)
  have "subdirs (tree_of fresh_fs) 1 = {}" unfolding fresh_tree by (simp add: subdirs_def)
  then show "inode_ok (tree_of fresh_fs) i n"
    unfolding inode_ok_def i links_def by (simp add: fresh_tree root_inode_def isDir_def)
  show "i < nextIno fresh_fs" by (simp add: i)
qed (auto simp: fresh_tree named_def split: if_splits)

lemma fresh_fs_room: "nextIno fresh_fs \<noteq> - 1"
  by simp

abbreviation superuser :: caller where
  "superuser \<equiv> \<lparr>c_UID = 0, c_GID = 0, c_GIDs = []\<rparr>"

theorem namespace_invariant_witness:
  "ns_wf (snd (ns_exec (\<lambda>_. 5) superuser
     (NMkdir (encodeHandle 1 1) ''d'' no_attrs) fresh_fs))"
  using namespace_invariant [OF fresh_fs_wf fresh_fs_room] by blast

section \<open>Creation, removal and renaming against the tree\<close>

lemma checkPerm_cong:
  "perm N = perm M \<Longrightarrow> Type n = Type m \<Longrightarrow> Mode n = Mode m \<Longrightarrow> UID n = UID m \<Longrightarrow> GID n = GID m \<Longrightarrow>
   checkPerm N k c n = checkPerm M k c m"
  by (simp add: checkPerm_def objectOf_def)

lemma named_dir_obj:
  "Gen (named_dir t nm i v d) = Gen d" "Mode (named_dir t nm i v d) = Mode d"
  "UID (named_dir t nm i v d) = UID d" "GID (named_dir t nm i v d) = GID d"
  by (simp_all add: named_dir_def set_entry_def touchM_def Let_def)

text \<open>
  C14. CREATE, MKDIR and SYMLINK. A success either opened the file the name already had, changing
  nothing, or added exactly that one name to the tree, for a new inode of the asked type whose number
  was never used; either way a LOOKUP of the name then gives the same handle and attributes.
\<close>

theorem createEntry_adds:
  assumes wf: "ns_wf N" "nextIno N \<noteq> - 1"
    and ok: "createEntry clk N c dir name t sa tgt excl = (Inr (h, a), N')"
  shows "\<exists>di d n. resolve N dir = Inr (di, d) \<and> resolve N' h = Inr (ID n, n) \<and>
     a = inode_attr n (fsid N') \<and>
     (if fmlookup (entries d) name = None
      then tree_of N' = tree_add di name (nextIno N) (t = TypeDir) (tree_of N) \<and>
           ID n = nextIno N \<and> Type n = t \<and> tree_of N (ID n) = None \<and> dirty N'
      else N' = N \<and> t = TypeReg \<and> \<not> excl \<and> named (tree_of N) di name (ID n)) \<and>
     (\<forall>c'. checkPerm N OpLookup c' d = None \<longrightarrow> Lookup N' c' dir name = Inr (h, a))"
  using ok
proof (cases rule: createEntry_cases)
  case (opened di d i n)
  have v: "name \<noteq> ''.''" "name \<noteq> ''..''"
    using ns_wfD(6) [OF wf(1), of di name i] opened(1,2)
    by (auto simp: named_tree_of resolve_Inr validName_def split: if_splits)
  have i: "ID n = i" using ns_wfD(2) [OF wf(1) opened(3)] .
  have "resolve N h = Inr (ID n, n)" using opened(3,7) i by (simp add: resolve_Inr)
  moreover have "named (tree_of N) di name (ID n)" using opened(1,2) i by (auto simp: named_tree_of resolve_Inr)
  moreover have "Lookup N c' dir name = Inr (h, a)" if "checkPerm N OpLookup c' d = None" for c'
    using opened v that by (simp add: Lookup_def lookup_target_def)
  ultimately show ?thesis using opened by (intro exI [of _ di] exI [of _ d] exI [of _ n]) simp
next
  case (added di d)
  let ?n = "fresh_inode clk N c d t sa tgt"
  have d: "fmlookup (inodes N) di = Some d" using added(1) by (rule resolve_Inr_lookup)
  have dir: "isDir d" using unix_dir_ops(1) [OF ns_wfD(8) [OF wf(1)] added(4)] .
  have free: "fmlookup (inodes N) (nextIno N) = None" by (rule nextIno_free [OF wf(1)])
  then have ne: "di \<noteq> nextIno N" using d by auto
  have en: "Entries d \<noteq> None" by (rule dir_has_entries [OF wf(1) d dir])
  note ad = addEntry_ok [OF d ne en, of clk c name t sa tgt, folded added(6), simplified]
  note fs = ad(6) ad(5) ad(7)
  have h: "h = encodeHandle (nextIno N) (Gen ?n)" "a = inode_attr ?n (fsid N)" using ad(1) by auto
  have r: "resolve N' h = Inr (nextIno N, ?n)" by (simp add: resolve_Inr h ad(2))
  let ?d = "named_dir (clk 1) name (nextIno N) (t = TypeDir) d"
  have rd: "resolve N' dir = Inr (di, ?d)"
    using added(1) ne by (simp add: resolve_Inr ad(2) named_dir_obj)
  have v: "name \<noteq> ''.''" "name \<noteq> ''..''" using added(3) by (auto simp: validName_def split: if_splits)
  obtain m where m: "Entries d = Some m" using en by blast
  have "Lookup N' c' dir name = Inr (h, a)" if "checkPerm N OpLookup c' d = None" for c'
    using that rd v m h fs checkPerm_cong [of N' N ?d d OpLookup c']
    by (simp add: Lookup_def lookup_target_def named_dir_obj entries_def ad(2))
  moreover have "tree_of N' = tree_add di name (nextIno N) (t = TypeDir) (tree_of N)"
    using addEntry_tree [OF d ns_wfD(2) [OF wf(1) d] ne en, of clk c name t sa tgt] added(6) by (metis snd_conv)
  ultimately show ?thesis
    using added(1,2) r h fs free by (intro exI [of _ di] exI [of _ d] exI [of _ ?n]) (simp add: tree_of_def)
qed simp

text \<open>A filesystem with one directory \<open>d\<close> in its root, for the witnesses.\<close>

definition one_dir :: fs where
  "one_dir = snd (addEntry (\<lambda>_. 5) fresh_fs superuser 1 root_inode ''d'' TypeDir no_attrs [])"

abbreviation dir_d :: inode where
  "dir_d \<equiv> fresh_inode (\<lambda>_. 5) fresh_fs superuser root_inode TypeDir no_attrs []"

lemma root_inode_sel [simp]:
  "ID root_inode = 1" "Gen root_inode = 1" "isDir root_inode" "Type root_inode = TypeDir"
  "Entries root_inode = Some fmempty" "fmlookup (entries root_inode) nm = None" "Mode root_inode = 0x1ED"
  "UID root_inode = 0" "GID root_inode = 0" "Parent root_inode = 0"
  by (simp_all add: root_inode_def isDir_def entries_def)

lemma superuser_may [simp]:
  assumes "perm N = unix_Check" "Type n = TypeDir"
  shows "checkPerm N OpAddEntry superuser n = None" "checkPerm N OpRemoveEntry superuser n = None"
    "checkPerm N OpLookup superuser n = None" "checkPerm N OpReadDir superuser n = None"
  using assms
  by (simp_all add: checkPerm_def objectOf_def unix_Check_def dirAccess_def Permits_def permAll_def perm_defs)

lemma create_d:
  "createEntry (\<lambda>_. 5) fresh_fs superuser (encodeHandle 1 1) ''d'' TypeDir no_attrs [] True =
     (Inr (encodeHandle 2 (Gen dir_d), inode_attr dir_d 7), one_dir)"
proof -
  have r: "resolve fresh_fs (encodeHandle 1 1) = Inr (1, root_inode)"
    by (simp add: resolve_Inr)
  have "createEntry (\<lambda>_. 5) fresh_fs superuser (encodeHandle 1 1) ''d'' TypeDir no_attrs [] True =
      addEntry (\<lambda>_. 5) fresh_fs superuser 1 root_inode ''d'' TypeDir no_attrs []"
    by (simp add: createEntry_def r validName_def maxNameLen_def or_fail_def mutable_def)
  moreover have "fst (addEntry (\<lambda>_. 5) fresh_fs superuser 1 root_inode ''d'' TypeDir no_attrs []) =
      Inr (encodeHandle 2 (Gen dir_d), inode_attr dir_d 7)"
    using addEntry_ok(1) [of fresh_fs 1 root_inode] by simp
  ultimately show ?thesis unfolding one_dir_def by (metis prod.collapse)
qed

lemma one_dir_wf: "ns_wf one_dir" and one_dir_room: "nextIno one_dir \<noteq> - 1"
  using createEntry_good [OF fresh_fs_wf fresh_fs_room, of "\<lambda>_. 5" superuser "encodeHandle 1 1" "''d''" TypeDir no_attrs "[]" True]
    addEntry_ok(3) [of fresh_fs 1 root_inode "\<lambda>_. 5" superuser "''d''" TypeDir no_attrs "[]"]
  by (simp_all add: create_d good_step_def one_dir_def)

lemma one_dir_look [simp]:
  "fmlookup (inodes one_dir) j =
     (if j = 2 then Some dir_d else if j = 1 then Some (named_dir 5 ''d'' 2 True root_inode) else None)"
  "perm one_dir = unix_Check" "fsid one_dir = 7" "nextIno one_dir = 3" "fopen one_dir = fmempty"
  using addEntry_ok [of fresh_fs 1 root_inode "\<lambda>_. 5" superuser "''d''" TypeDir no_attrs "[]"]
  by (simp_all add: one_dir_def)

lemma one_dir_mode [simp]: "mode one_dir = mountWritable"
  by (simp add: one_dir_def addEntry_def allocInode_def Let_def entry_attrs_def no_attrs_def)

theorem createEntry_adds_witness:
  "\<exists>h a N'. createEntry (\<lambda>_. 5) fresh_fs superuser (encodeHandle 1 1) ''d'' TypeDir no_attrs [] True = (Inr (h, a), N') \<and>
     tree_of N' = tree_add 1 ''d'' 2 True (tree_of fresh_fs)"
  using createEntry_adds [OF fresh_fs_wf fresh_fs_room create_d] create_d
  by (auto simp: resolve_Inr split: if_splits)

lemma unlink_effect:
  assumes wf: "ns_wf N"
    and ok: "unlink clk N c dir name wantDir = (Inr (), N')"
  shows "\<exists>di d i n. resolve N dir = Inr (di, d) \<and> fmlookup (entries d) name = Some i \<and>
     fmlookup (inodes N) i = Some n \<and> isDir n = wantDir \<and> (isDir n \<longrightarrow> fmdom (entries n) = {||}) \<and>
     tree_of N' = tree_rm di name i (tree_of N) \<and>
     resolve N' (encodeHandle i (Gen n)) = Inl ErrStale \<and>
     fopen N' = fmdrop i (fopen N) \<and>
     budget_used N' = budget_used N - (case fmlookup (fopen N) i of Some x \<Rightarrow> of_bytes x | None \<Rightarrow> 0)"
  using ok
proof (cases rule: unlink_cases)
  case (removed di d i n)
  have d: "fmlookup (inodes N) di = Some d" using removed(1) by (rule resolve_Inr_lookup)
  note ne = removed_tree(1) [OF wf d removed(3,4)] and lf = leaf_links [OF wf removed(4)]
  note lr = removed_eq [OF lf d ne, of clk name, folded removed(9)]
  have "tree_of N' = tree_rm di name i (tree_of N)"
    unfolding removed(9) by (rule removed_tree(2) [OF wf d removed(3,4)])
  moreover have "resolve N' (encodeHandle i (Gen n)) = Inl ErrStale" by (simp add: resolve_def lr)
  moreover have "budget_used N' = budget_used N - (case fmlookup (fopen N) i of Some x \<Rightarrow> of_bytes x | None \<Rightarrow> 0)"
    using lf by (auto simp: removed(9) removed_def relink_def Let_def)
  ultimately show ?thesis
    using removed(1-6) lr(3) by (intro exI [of _ di] exI [of _ d] exI [of _ i] exI [of _ n]) simp
qed simp

text \<open>
  C15. REMOVE and RMDIR. A success removed exactly the named leaf, of the asked kind and, for a
  directory, empty, with its name and its buffers, whose charge is returned to the budget; the inode's
  handle is stale afterwards.
\<close>

theorem unlink_removes:
  assumes wf: "ns_wf N"
    and ok: "unlink clk N c dir name wantDir = (Inr (), N')"
  shows "\<exists>di d i n. resolve N dir = Inr (di, d) \<and> fmlookup (entries d) name = Some i \<and>
     fmlookup (inodes N) i = Some n \<and> isDir n = wantDir \<and> (isDir n \<longrightarrow> fmdom (entries n) = {||}) \<and>
     tree_of N' = tree_rm di name i (tree_of N) \<and>
     resolve N' (encodeHandle i (Gen n)) = Inl ErrStale \<and>
     fopen N' = fmdrop i (fopen N) \<and>
     budget_used N' = budget_used N - (case fmlookup (fopen N) i of Some x \<Rightarrow> of_bytes x | None \<Rightarrow> 0)"
  by (rule unlink_effect [OF assms])

lemma rmdir_d: "\<exists>N'. unlink (\<lambda>_. 6) one_dir superuser (encodeHandle 1 1) ''d'' True = (Inr (), N')"
proof -
  have "resolve one_dir (encodeHandle 1 1) = Inr (1, named_dir 5 ''d'' 2 True root_inode)"
    by (simp add: resolve_Inr named_dir_obj)
  then show ?thesis
    by (simp add: unlink_def validName_def maxNameLen_def or_fail_def mutable_def entries_def isDir_def Let_def
        split: prod.split)
qed

theorem unlink_removes_witness:
  "\<exists>N'. unlink (\<lambda>_. 6) one_dir superuser (encodeHandle 1 1) ''d'' True = (Inr (), N') \<and>
     tree_of N' = tree_rm 1 ''d'' 2 (tree_of one_dir)"
proof -
  obtain N' where N': "unlink (\<lambda>_. 6) one_dir superuser (encodeHandle 1 1) ''d'' True = (Inr (), N')"
    using rmdir_d by blast
  from unlink_removes [OF one_dir_wf N'] have "tree_of N' = tree_rm 1 ''d'' 2 (tree_of one_dir)"
    by (auto simp: resolve_Inr entries_def)
  with N' show ?thesis by blast
qed

text \<open>
  C13. RENAME. A success moved exactly the one name: the inode leaves its old directory and name and
  takes the new ones, a target already there is removed first, and renaming a name to itself changes
  nothing. It never moves a directory into its own subtree: the destination is never the moved inode
  nor below it, so no part of the tree is cut off.
\<close>

theorem Rename_moves:
  assumes "ns_wf N" "Rename clk N c fromDir nm toDir nm' = (Inr (), N')"
  shows "\<exists>si src di dst i. resolve N fromDir = Inr (si, src) \<and> resolve N toDir = Inr (di, dst) \<and>
     named (tree_of N) si nm i \<and> (di, i) \<notin> (par_rel (tree_of N))\<^sup>* \<and>
     tree_of N' = (case fmlookup (entries dst) nm' of
         None \<Rightarrow> tree_mv si nm di nm' i (tree_of N)
       | Some v \<Rightarrow> if v = i then tree_of N else tree_mv si nm di nm' i (tree_rm di nm' v (tree_of N)))"
proof -
  from Rename_ok [OF assms] obtain si src di dst i where *: "resolve N fromDir = Inr (si, src)"
    "resolve N toDir = Inr (di, dst)" "named (tree_of N) si nm i" "(di, i) \<notin> (par_rel (tree_of N))\<^sup>*"
    "tree_of N' = rename_spec si nm di nm' i (tree_of N)" by auto
  moreover have "tree_of N di = Some (node_of dst)" using *(2) by (simp add: resolve_Inr tree_of_def)
  ultimately show ?thesis
    by (intro exI [of _ si] exI [of _ src] exI [of _ di] exI [of _ dst] exI [of _ i]) (simp add: rename_spec_def)
qed

theorem Rename_moves_witness:
  "\<exists>N'. Rename (\<lambda>_. 6) one_dir superuser (encodeHandle 1 1) ''d'' (encodeHandle 1 1) ''e'' = (Inr (), N') \<and>
     tree_of N' = tree_mv 1 ''d'' 1 ''e'' 2 (tree_of one_dir)"
proof -
  let ?r = "named_dir 5 ''d'' 2 True root_inode"
  have r: "resolve one_dir (encodeHandle 1 1) = Inr (1, ?r)" by (simp add: resolve_Inr named_dir_obj)
  have na: "\<not> isAncestor one_dir 2 1"
    by (simp add: isAncestor_def isAncestor_loop.simps [of _ _ 2 1] rootInodeID_def)
  have p: "perm one_dir \<lparr>r_Op = OpRename, r_Caller = superuser, r_Object = objectOf ?r,
              r_Dst = objectOf ?r, r_UID = 0, r_GID = 0\<rparr> = None"
    by (simp add: unix_Check_def objectOf_def Permits_def permAll_def perm_defs)
  have e: "fmlookup (entries ?r) ''d'' = Some 2" "fmlookup (entries ?r) ''e'' = None"
    by (simp_all add: entries_def)
  have "Rename (\<lambda>_. 6) one_dir superuser (encodeHandle 1 1) ''d'' (encodeHandle 1 1) ''e'' =
      do_rename (\<lambda>_. 6) (1, ?r) ''d'' (1, ?r) ''e'' (2, dir_d) one_dir"
    using na p r e by (simp add: Rename_def validName_def maxNameLen_def or_fail_def mutable_def)
  then obtain N' where N': "Rename (\<lambda>_. 6) one_dir superuser (encodeHandle 1 1) ''d'' (encodeHandle 1 1) ''e'' = (Inr (), N')"
    using do_rename_eq(1) [of ?r 1 ?r 1 2 one_dir ?r ?r dir_d "\<lambda>_. 6" "''d''" "''e''" dir_d]
    by (cases "do_rename (\<lambda>_. 6) (1, ?r) ''d'' (1, ?r) ''e'' (2, dir_d) one_dir") simp
  from Rename_moves [OF one_dir_wf N'] have "tree_of N' = tree_mv 1 ''d'' 1 ''e'' 2 (tree_of one_dir)"
    using r e by (auto simp: named_tree_of)
  with N' show ?thesis by blast
qed

text \<open>
  C39. The ancestor test of RENAME is exact: its bounded walk answers whether one inode is at or above
  another in the tree, and the bound, there against corrupt metadata, never cuts a walk short.
\<close>

theorem isAncestor_correct:
  assumes "ns_wf N" "fmlookup (inodes N) node = Some n"
  shows "isAncestor N ancestor node \<longleftrightarrow> (node, ancestor) \<in> (par_rel (tree_of N))\<^sup>*"
  using isAncestor_exact [OF assms(1), of node ancestor] assms(2) by (auto simp: tree_of_def)

theorem isAncestor_correct_witness:
  "isAncestor one_dir 1 2 \<longleftrightarrow> (2, 1) \<in> (par_rel (tree_of one_dir))\<^sup>*"
  using isAncestor_correct [OF one_dir_wf, of 2 dir_d 1] by simp

section \<open>Handles\<close>

text \<open>
  What no namespace call does: it never lowers the next inode number and never puts a number it has
  passed back in the table, and an inode that stays keeps its generation and its type.
\<close>

definition evolves :: "fs \<Rightarrow> fs \<Rightarrow> bool" where
  "evolves N M \<longleftrightarrow>
     nextIno N \<le> nextIno M \<and> unat (nextIno M) \<le> unat (nextIno N) + 1 \<and>
     (\<forall>j m. j < nextIno N \<longrightarrow> fmlookup (inodes M) j = Some m \<longrightarrow>
        (\<exists>n. fmlookup (inodes N) j = Some n \<and> Gen m = Gen n \<and> Type m = Type n))"

lemma evolves_refl [simp]: "evolves N N"
  by (simp add: evolves_def)

lemma evolves_upd [intro]:
  assumes "evolves N M" "\<And>n. Gen (g n) = Gen n \<and> Type (g n) = Type n"
  shows "evolves N (upd_inode i g M)"
  using assms unfolding evolves_def by (auto simp: fmlookup_upd_inode split: if_splits)

lemma evolves_drop [intro]: "evolves N M \<Longrightarrow> evolves N (drop_inode i M)"
  unfolding evolves_def by auto

lemma evolves_mark [intro]: "evolves N M \<Longrightarrow> evolves N (markDirty M)"
  unfolding evolves_def by simp

lemma evolves_relink [intro]: "evolves N M \<Longrightarrow> evolves N (snd (relink a b t M))"
  unfolding relink_def by (auto simp: Let_def split: option.splits intro!: evolves_upd)

lemma entry_upd_gen [simp]:
  "Gen (set_entry nm i n) = Gen n" "Type (set_entry nm i n) = Type n"
  "Gen (del_entry nm n) = Gen n" "Type (del_entry nm n) = Type n"
  by (simp_all add: set_entry_def del_entry_def)

lemma evolves_do_rename [intro]:
  "evolves N M \<Longrightarrow> evolves N (snd (do_rename clk a nm b nm' mv M))"
  unfolding do_rename_def Let_def
  by (auto intro!: evolves_upd evolves_mark evolves_relink simp: touchC_def)

lemma evolves_evicted: "evolves N (evicted N vi v d)"
  using evolves_relink [OF evolves_refl, of N "(vi, v)" d None]
  unfolding evicted_def by (auto simp: Let_def split: prod.splits)

lemma evolves_removed: "evolves N (removed clk N di d nm i n)"
proof -
  have "evolves N (upd_inode di (touchM (clk 0) \<circ> del_entry nm) N)" by (rule evolves_upd) simp_all
  from evolves_relink [OF this, of "(i, n)" "(di, d)" None] show ?thesis
    unfolding removed_def by (auto simp: Let_def intro!: evolves_mark evolves_drop split: prod.splits)
qed

lemma evolves_unlink: "evolves N (snd (unlink clk N c dir nm v))"
  using unlink_shape [of clk N c dir nm v] evolves_removed by (elim disjE exE conjE) simp_all

lemma evolves_Rename: "evolves N (snd (Rename clk N c d nm d' nm'))"
  using Rename_shape [of clk N c d nm d' nm'] evolves_evicted evolves_do_rename
  by (elim disjE exE conjE) simp_all

lemma evolves_createEntry:
  assumes "ns_wf N" "nextIno N \<noteq> - 1"
  shows "evolves N (snd (createEntry clk N c dir nm t sa tgt excl))"
  using surjective_pairing [of "createEntry clk N c dir nm t sa tgt excl"]
proof (cases rule: createEntry_cases)
  case (added di d)
  have d: "fmlookup (inodes N) di = Some d" using added(1) by (rule resolve_Inr_lookup)
  have dir: "isDir d" using unix_dir_ops(1) [OF ns_wfD(8) [OF assms(1)] added(4)] .
  have ne: "di \<noteq> nextIno N" using d nextIno_free [OF assms(1)] by auto
  note ad = addEntry_ok [OF d ne dir_has_entries [OF assms(1) d dir], of clk c nm t sa tgt, folded added(6), simplified]
  have "nextIno N < nextIno N + 1" using assms(2) by (rule next_word_less)
  moreover have "unat (nextIno N + 1) \<le> unat (nextIno N) + 1" by (simp add: unat_word_ariths)
  ultimately show ?thesis
    unfolding evolves_def ad(2,3) using d by (auto simp: named_dir_obj)
qed simp_all

lemma evolves_ns_exec:
  assumes "ns_wf N" "nextIno N \<noteq> - 1"
  shows "evolves N (snd (ns_exec clk c k N))"
  using assms evolves_createEntry evolves_unlink evolves_Rename
  by (cases k) (simp_all add: Create_def Mkdir_def Symlink_def Remove_def Rmdir_def)

fun ns_run :: "(clock \<times> caller \<times> ns_op) list \<Rightarrow> fs \<Rightarrow> fs" where
  "ns_run [] N = N"
| "ns_run ((clk, c, k) # ks) N = ns_run ks (snd (ns_exec clk c k N))"

text \<open>What a run keeps of an inode number handed out before it: gone stays gone.\<close>

lemma ns_run_keeps:
  assumes "ns_wf N" "unat (nextIno N) + length ks < 2 ^ 64" "j < nextIno N"
  shows "ns_wf (ns_run ks N) \<and> unat (nextIno (ns_run ks N)) \<le> unat (nextIno N) + length ks \<and> j < nextIno (ns_run ks N) \<and>
    (\<forall>m. fmlookup (inodes (ns_run ks N)) j = Some m \<longrightarrow>
       (\<exists>n. fmlookup (inodes N) j = Some n \<and> Gen m = Gen n \<and> Type m = Type n))"
  using assms
proof (induction ks arbitrary: N)
  case (Cons x ks)
  obtain clk c k where x: "x = (clk, c, k)" by (cases x)
  let ?N = "snd (ns_exec clk c k N)"
  have room: "nextIno N \<noteq> - 1"
  proof
    assume "nextIno N = - 1"
    then have "unat (nextIno N + 1) = 0" by simp
    moreover have "unat (nextIno N + 1) = (unat (nextIno N) + 1) mod 2 ^ 64" by (simp add: unat_word_ariths)
    ultimately show False using Cons.prems(2) by simp
  qed
  have wf: "ns_wf ?N" using ns_exec_good [OF Cons.prems(1) room] by (simp add: good_step_def)
  note ev = evolves_ns_exec [OF Cons.prems(1) room, of clk c k, unfolded evolves_def]
  have "unat (nextIno ?N) + length ks < 2 ^ 64" "j < nextIno ?N"
    using ev Cons.prems(2,3) by (auto intro: less_le_trans)
  note IH = Cons.IH [OF wf this]
  have "\<exists>n. fmlookup (inodes N) j = Some n \<and> Gen m = Gen n \<and> Type m = Type n"
    if "fmlookup (inodes (ns_run ks ?N)) j = Some m" for m
    using IH that ev Cons.prems(3) by metis
  moreover have "unat (nextIno (ns_run ks ?N)) \<le> unat (nextIno N) + length (x # ks)" using IH ev by auto
  ultimately show ?case using IH by (simp add: x)
qed simp

lemma ns_run_append: "ns_run (a @ b) N = ns_run b (ns_run a N)"
  by (induction a N rule: ns_run.induct) simp_all

text \<open>
  C16. A handle never changes what it means. After any sequence of namespace calls, a handle that once
  named an inode names that same inode, of the same type, or is stale; and once stale it is stale for
  good, whatever is created afterwards. (Inode numbers are 64 bits: the calls must not exhaust them.)
\<close>

theorem handle_never_reused:
  assumes "ns_wf N" "resolve N h = Inr (i, n)" "unat (nextIno N) + length ks + length ks' < 2 ^ 64"
  shows "(case resolve (ns_run ks N) h of
            Inr (j, m) \<Rightarrow> j = i \<and> Type m = Type n
          | Inl e \<Rightarrow> e = ErrStale \<and> resolve (ns_run (ks @ ks') N) h = Inl ErrStale)"
proof -
  have h: "decodeHandle h = Some (i, Gen n)" and n: "fmlookup (inodes N) i = Some n"
    using assms(2) by (simp_all add: resolve_Inr)
  have lt: "i < nextIno N" using ns_wfD(5) [OF assms(1) n] .
  let ?M = "ns_run ks N"
  from ns_run_keeps [OF assms(1) _ lt, of ks] assms(3) have M: "ns_wf ?M" "i < nextIno ?M"
    "unat (nextIno ?M) \<le> unat (nextIno N) + length ks"
    "\<And>m. fmlookup (inodes ?M) i = Some m \<Longrightarrow> Gen m = Gen n \<and> Type m = Type n" using n by auto
  show ?thesis
  proof (cases "fmlookup (inodes ?M) i")
    case (Some m)
    then show ?thesis using M(4) h by (simp add: resolve_def)
  next
    case None
    have "unat (nextIno ?M) + length ks' < 2 ^ 64" using M(3) assms(3) by linarith
    from ns_run_keeps [OF M(1) this M(2)] None have "fmlookup (inodes (ns_run (ks @ ks') N)) i = None"
      unfolding ns_run_append by (metis option.distinct(1) option.exhaust)
    with None h show ?thesis by (simp add: resolve_def)
  qed
qed

theorem handle_never_reused_witness:
  "resolve (ns_run ([(\<lambda>_. 6, superuser, NRmdir (encodeHandle 1 1) ''d'')]
      @ [(\<lambda>_. 7, superuser, NMkdir (encodeHandle 1 1) ''d'' no_attrs)]) one_dir)
     (encodeHandle 2 (Gen dir_d)) = Inl ErrStale"
proof -
  have r: "resolve one_dir (encodeHandle 2 (Gen dir_d)) = Inr (2, dir_d)" by (simp add: resolve_Inr)
  obtain N' where N': "unlink (\<lambda>_. 6) one_dir superuser (encodeHandle 1 1) ''d'' True = (Inr (), N')"
    using rmdir_d by blast
  then have "ns_run [(\<lambda>_. 6, superuser, NRmdir (encodeHandle 1 1) ''d'')] one_dir = N'"
    by (simp add: Rmdir_def)
  moreover have "resolve N' (encodeHandle 2 (Gen dir_d)) = Inl ErrStale"
    using unlink_effect [OF one_dir_wf N'] by (auto simp: resolve_Inr entries_def)
  ultimately show ?thesis
    using handle_never_reused [OF one_dir_wf r, of "[(\<lambda>_. 6, superuser, NRmdir (encodeHandle 1 1) ''d'')]"
        "[(\<lambda>_. 7, superuser, NMkdir (encodeHandle 1 1) ''d'' no_attrs)]"] by simp
qed

end
