(* ===== verification/DirListing.thy ===== *)
theory DirListing
  imports NamespaceSpec
begin

text \<open>
  Reading a directory in pages. A client calls READDIR with cookie 0, then with the last cookie it
  got, until the server says end of directory; \<open>read_all\<close> is that client.
\<close>

lemma sorted_names: "sorted (dir_names d)" "distinct (dir_names d)" "set (dir_names d) = fset (fmdom (entries d))"
  by (simp_all add: dir_names_def sorted_list_of_fset.rep_eq)

definition entry_at :: "fs \<Rightarrow> bool \<Rightarrow> nat \<times> string \<times> u64 \<Rightarrow> dir_entry" where
  "entry_at N pl x = (case x of (i, nm, j) \<Rightarrow> mk_dir_entry N pl i nm (the (fmlookup (inodes N) j)))"

lemma entry_at_sel [simp]:
  "d_Name (entry_at N pl (i, nm, j)) = nm" "d_Cookie (entry_at N pl (i, nm, j)) = i + 1"
  "d_FileID (entry_at N pl (i, nm, j)) = ID (the (fmlookup (inodes N) j))"
  by (simp_all add: entry_at_def mk_dir_entry_def)

text \<open>The loop takes some entries from where it starts, and at least one if the reply is still empty.\<close>

lemma readdir_loop_takes:
  assumes "\<forall>(nm, j) \<in> set rest. fmlookup (inodes N) j \<noteq> None"
  shows "\<exists>k \<le> length rest.
     readdir_loop N pl pe b rest i out u = (out @ map (entry_at N pl) (enumerate i (take k rest)), i + k) \<and>
     (out = [] \<and> rest \<noteq> [] \<longrightarrow> k > 0)"
  using assms
proof (induction rest arbitrary: i out u)
  case (Cons x rest)
  obtain nm j where x: "x = (nm, j)" by (cases x)
  then obtain n where n: "fmlookup (inodes N) j = Some n" using Cons.prems by auto
  let ?cost = "wrap32 (pe + wrap32 (length nm))"
  show ?case
  proof (cases "wrap32 (u + ?cost) > b \<and> out \<noteq> []")
    case True
    then show ?thesis using x n by (intro exI [of _ 0]) (simp add: Let_def)
  next
    case False
    obtain k where "k \<le> length rest"
      "readdir_loop N pl pe b rest (i + 1) (out @ [mk_dir_entry N pl i nm n]) (wrap32 (u + ?cost)) =
        (out @ [mk_dir_entry N pl i nm n] @ map (entry_at N pl) (enumerate (i + 1) (take k rest)), i + 1 + k)"
      using Cons.IH [of "i + 1" "out @ [mk_dir_entry N pl i nm n]" "wrap32 (u + ?cost)"] Cons.prems by auto
    with False x n show ?thesis
      by (intro exI [of _ "Suc k"]) (simp add: Let_def entry_at_def)
  qed
qed simp

lemma dir_all_resolves:
  assumes wf: "ns_wf N" and d: "fmlookup (inodes N) di = Some d"
  shows "\<forall>(nm, j) \<in> set (dir_all d). fmlookup (inodes N) j \<noteq> None"
proof -
  note W = tree_wfD [OF ns_wfD(1) [OF wf]]
  have "fmlookup (inodes N) (ID d) \<noteq> None" using ns_wfD(2) [OF wf d] d by simp
  moreover have "fmlookup (inodes N) (if Parent d = 0 then rootInodeID else Parent d) \<noteq> None"
  proof (cases "di = 1")
    case True
    with d root_lookup [OF wf] show ?thesis by (auto simp: rootInodeID_def)
  next
    case False
    with W(6) [of di "node_of d"] d obtain nm where "named (tree_of N) (Parent d) nm di"
      by (auto simp: tree_of_def)
    then show ?thesis using root_lookup [OF wf] by (auto simp: named_tree_of rootInodeID_def)
  qed
  moreover have "fmlookup (inodes N) j \<noteq> None" if "fmlookup (entries d) nm = Some j" for nm j
    using W(4) [of di nm j] d that by (auto simp: named_tree_of tree_of_Some)
  moreover have "fmlookup (entries d) nm \<noteq> None" if "nm \<in> set (dir_names d)" for nm
    using that by (auto simp: sorted_names fmlookup_dom_iff)
  ultimately show ?thesis unfolding dir_all_def by auto
qed

lemma ReadDir_page:
  assumes wf: "ns_wf N" and r: "resolve N dir = Inr (di, d)" and p: "checkPerm N OpReadDir c d = None"
    and ck: "cookie \<le> length (dir_all d)" and v: "cookie = 0 \<or> verf = dirVerifier (dir_names d)"
  shows "\<exists>k. cookie + k \<le> length (dir_all d) \<and> (cookie < length (dir_all d) \<longrightarrow> k > 0) \<and>
     ReadDir N c dir cookie verf mx pl =
       Inr (map (entry_at N pl) (enumerate cookie (take k (drop cookie (dir_all d)))),
            cookie + k = length (dir_all d), dirVerifier (dir_names d))"
proof -
  have d: "fmlookup (inodes N) di = Some d" using r by (rule resolve_Inr_lookup)
  let ?pe = "if pl then 160 else 32" and ?rest = "drop cookie (dir_all d)"
  let ?b = "if mx < ?pe * 2 then ?pe * 2 else mx"
  have "\<forall>(nm, j) \<in> set ?rest. fmlookup (inodes N) j \<noteq> None"
    using dir_all_resolves [OF wf d] by (meson in_set_dropD)
  from readdir_loop_takes [OF this, of pl ?pe ?b cookie "[]" 0] obtain k where
    k: "k \<le> length ?rest" "?rest \<noteq> [] \<longrightarrow> k > 0"
    "readdir_loop N pl ?pe ?b ?rest cookie [] 0 = (map (entry_at N pl) (enumerate cookie (take k ?rest)), cookie + k)"
    by auto
  have "(length (dir_all d) \<le> cookie + k) = (cookie + k = length (dir_all d))" using k(1) ck by auto
  with k ck v r p show ?thesis
    by (intro exI [of _ k]) (auto simp: ReadDir_def Let_def simp del: enumerate_simps)
qed

fun read_all :: "nat \<Rightarrow> fs \<Rightarrow> caller \<Rightarrow> handle \<Rightarrow> bool \<Rightarrow> (nat \<Rightarrow> nat) \<Rightarrow> nat \<Rightarrow> bytes \<Rightarrow> dir_entry list option" where
  "read_all 0 N c dir pl mx cookie verf = None"
| "read_all (Suc k) N c dir pl mx cookie verf =
     (case ReadDir N c dir cookie verf (mx k) pl of
        Inl e \<Rightarrow> None
      | Inr (es, eof, v) \<Rightarrow>
          if eof then Some es
          else map_option ((@) es) (read_all k N c dir pl mx (d_Cookie (last es)) v))"

lemma read_all_rest:
  assumes wf: "ns_wf N" and r: "resolve N dir = Inr (di, d)" and p: "checkPerm N OpReadDir c d = None"
    and "cookie \<le> length (dir_all d)" "cookie = 0 \<or> verf = dirVerifier (dir_names d)"
    and "length (dir_all d) - cookie < fuel"
  shows "read_all fuel N c dir pl mx cookie verf =
     Some (map (entry_at N pl) (enumerate cookie (drop cookie (dir_all d))))"
  using assms(4-6)
proof (induction fuel arbitrary: cookie verf)
  case (Suc fuel)
  let ?A = "dir_all d"
  obtain k where k: "cookie + k \<le> length ?A" "cookie < length ?A \<longrightarrow> k > 0"
    "ReadDir N c dir cookie verf (mx fuel) pl =
       Inr (map (entry_at N pl) (enumerate cookie (take k (drop cookie ?A))),
            cookie + k = length ?A, dirVerifier (dir_names d))"
    using ReadDir_page [OF wf r p Suc.prems(1,2), of "mx fuel" pl] by blast
  let ?es = "map (entry_at N pl) (enumerate cookie (take k (drop cookie ?A)))"
  show ?case
  proof (cases "cookie + k = length ?A")
    case True
    then show ?thesis using k(3) by simp
  next
    case False
    then have kp: "k > 0" "cookie + k < length ?A" using k(1,2) by auto
    have len: "length ?es = k" using kp by simp
    obtain nm j where nj: "drop cookie ?A ! (k - 1) = (nm, j)" by (cases "drop cookie ?A ! (k - 1)")
    have "?es \<noteq> []" using len kp by force
    then have "last ?es = ?es ! (k - 1)" using last_conv_nth [of ?es] len by metis
    also have "\<dots> = entry_at N pl (cookie + (k - 1), nm, j)"
      using kp nj by (simp add: nth_enumerate_eq)
    finally have last: "d_Cookie (last ?es) = cookie + k" using kp by simp
    have "read_all fuel N c dir pl mx (cookie + k) (dirVerifier (dir_names d)) =
        Some (map (entry_at N pl) (enumerate (cookie + k) (drop (cookie + k) ?A)))"
      by (rule Suc.IH) (use kp Suc.prems(3) in auto)
    moreover have "enumerate cookie (drop cookie ?A) =
        enumerate cookie (take k (drop cookie ?A)) @ enumerate (cookie + k) (drop (cookie + k) ?A)"
      using kp by (subst append_take_drop_id [of k "drop cookie ?A", symmetric], subst enumerate_append_eq)
        (simp add: add.commute)
    ultimately show ?thesis using k(3) False last by simp
  qed
qed simp

text \<open>
  C17. Paging through a directory shows everything once. A client that follows the cookies from 0 to
  the end of the directory, with any reply sizes, however small, and with or without attributes, gets
  within a bounded number of calls \<open>.\<close>, \<open>..\<close> and then every name of the directory, sorted, each
  exactly once and with its own file number, provided the directory does not change meanwhile.
\<close>

theorem ReadDir_pages:
  assumes "ns_wf N" "resolve N dir = Inr (di, d)" "checkPerm N OpReadDir c d = None"
  shows "\<exists>es. read_all (length (dir_all d) + 1) N c dir pl mx 0 zero_verf = Some es \<and>
     map d_Name es = [''.'', ''..''] @ dir_names d \<and>
     sorted (dir_names d) \<and> distinct (dir_names d) \<and> set (dir_names d) = fset (fmdom (entries d)) \<and>
     map d_FileID es = map snd (dir_all d)"
proof -
  have d: "fmlookup (inodes N) di = Some d" using assms(2) by (rule resolve_Inr_lookup)
  let ?es = "map (entry_at N pl) (enumerate 0 (dir_all d))"
  have "read_all (length (dir_all d) + 1) N c dir pl mx 0 zero_verf = Some ?es"
    using read_all_rest [OF assms, of 0 zero_verf "length (dir_all d) + 1"] by (simp del: read_all.simps)
  moreover have "d_Name \<circ> entry_at N pl = fst \<circ> snd"
    "d_FileID \<circ> entry_at N pl = (\<lambda>x. ID (the (fmlookup (inodes N) (snd x)))) \<circ> snd"
    by (auto simp: fun_eq_iff)
  moreover from this have "map d_Name ?es = map fst (map snd (enumerate 0 (dir_all d)))"
    "map d_FileID ?es = map (\<lambda>x. ID (the (fmlookup (inodes N) (snd x)))) (map snd (enumerate 0 (dir_all d)))"
    by (simp_all only: map_map comp_assoc)
  moreover have "map fst (dir_all d) = [''.'', ''..''] @ dir_names d" by (simp add: dir_all_def comp_def)
  moreover have "map (\<lambda>x. ID (the (fmlookup (inodes N) (snd x)))) (dir_all d) = map snd (dir_all d)"
    using dir_all_resolves [OF assms(1) d] ns_wfD(2) [OF assms(1)] by fastforce
  ultimately show ?thesis
    using sorted_names [of d] by (intro exI [of _ ?es]) (simp add: map_snd_enumerate)
qed

theorem ReadDir_pages_witness:
  "\<exists>es. read_all 4 one_dir superuser (encodeHandle 1 1) True (\<lambda>_. 0) 0 zero_verf = Some es \<and>
     map d_Name es = [''.'', ''..'', ''d''] \<and> map d_FileID es = [1, 1, 2]"
proof -
  let ?r = "named_dir 5 ''d'' 2 True root_inode"
  have r: "resolve one_dir (encodeHandle 1 1) = Inr (1, ?r)" by (simp add: resolve_Inr named_dir_obj)
  have names: "dir_names ?r = [''d'']" by (simp add: dir_names_def entries_def sorted_list_of_fset.rep_eq)
  have all: "dir_all ?r = [(''.'', 1), (''..'', 1), (''d'', 2)]"
    by (simp add: dir_all_def names rootInodeID_def entries_def)
  from ReadDir_pages [OF one_dir_wf r, of superuser True "\<lambda>_. 0"] obtain es where
    "read_all (length (dir_all ?r) + 1) one_dir superuser (encodeHandle 1 1) True (\<lambda>_. 0) 0 zero_verf = Some es"
    "map d_Name es = [''.'', ''..''] @ dir_names ?r" "map d_FileID es = map snd (dir_all ?r)" by auto
  then show ?thesis unfolding names all by (intro exI [of _ es]) (simp add: numeral_eq_Suc del: read_all.simps)
qed

end
