(* ===== verification/LocalStore.thy ===== *)
theory LocalStore
  imports Store
begin

text \<open>
  \<open>internal/store/local.go\<close>: the directory-backed store, over a model of the operating system's
  files. A path is its list of components below the store's root directory. The world says, for each
  operating-system call in turn, whether it fails, how much of a failing write got out, and which
  random name a temporary file gets; a call that fails answers an error that is not \<open>ErrNotExist\<close>.
  \<open>md5\<close> stands for the hexadecimal MD5 sum.
\<close>

section \<open>Files\<close>

datatype fnode = File bytes | Dir

datatype errno = ENOENT | EOTHER string

type_synonym path = "string list"

record local_world =
  disk :: "(path, fnode) fmap"
  fails :: "nat \<Rightarrow> bool"
  partial :: "nat \<Rightarrow> nat"
  random :: "nat \<Rightarrow> string"
  calls :: nat

definition tick :: "local_world \<Rightarrow> bool \<times> local_world" where
  "tick w = (fails w (calls w), w\<lparr>calls := calls w + 1\<rparr>)"

definition under_file :: "local_world \<Rightarrow> path \<Rightarrow> bool" where
  "under_file w p \<longleftrightarrow> list_ex (\<lambda>k. case fmlookup (disk w) (take k p) of Some (File _) \<Rightarrow> True | _ \<Rightarrow> False) [0..<length p]"

definition missing :: "local_world \<Rightarrow> path \<Rightarrow> errno" where
  "missing w p = (if under_file w p then EOTHER ''not a directory'' else ENOENT)"

definition os_ReadFile :: "path \<Rightarrow> local_world \<Rightarrow> (errno + bytes) \<times> local_world" where
  "os_ReadFile p w =
     (let (bad, w1) = tick w
      in if bad then (Inl (EOTHER ''input/output error''), w1)
         else (case fmlookup (disk w1) p of
                 Some (File b) \<Rightarrow> (Inr b, w1)
               | Some Dir \<Rightarrow> (Inl (EOTHER ''is a directory''), w1)
               | None \<Rightarrow> (Inl (missing w1 p), w1)))"

text \<open>\<open>os.Stat\<close>, for the size alone.\<close>

definition os_Stat :: "path \<Rightarrow> local_world \<Rightarrow> (errno + nat) \<times> local_world" where
  "os_Stat p w =
     (let (bad, w1) = tick w
      in if bad then (Inl (EOTHER ''input/output error''), w1)
         else (case fmlookup (disk w1) p of
                 Some (File b) \<Rightarrow> (Inr (length b), w1)
               | Some Dir \<Rightarrow> (Inr 0, w1)
               | None \<Rightarrow> (Inl (missing w1 p), w1)))"

fun os_mkdirs :: "path list \<Rightarrow> local_world \<Rightarrow> errno option \<times> local_world" where
  "os_mkdirs [] w = (None, w)"
| "os_mkdirs (p # ps) w =
     (case fmlookup (disk w) p of
        Some Dir \<Rightarrow> os_mkdirs ps w
      | Some (File _) \<Rightarrow> (Some (EOTHER ''not a directory''), w)
      | None \<Rightarrow>
          (let (bad, w1) = tick w
           in if bad then (Some (EOTHER ''input/output error''), w1)
              else os_mkdirs ps (w1\<lparr>disk := fmupd p Dir (disk w1)\<rparr>)))"

definition os_MkdirAll :: "path \<Rightarrow> local_world \<Rightarrow> errno option \<times> local_world" where
  "os_MkdirAll p w = os_mkdirs (map (\<lambda>k. take k p) [0..<Suc (length p)]) w"

text \<open>\<open>os.CreateTemp(dir, ".tmp-*")\<close>. A random name already taken is a failed call here; the library tries again.\<close>

definition os_CreateTemp :: "path \<Rightarrow> local_world \<Rightarrow> (errno + path) \<times> local_world" where
  "os_CreateTemp dir w =
     (let (bad, w1) = tick w; p = dir @ [''.tmp-'' @ random w (calls w)]
      in if bad \<or> fmlookup (disk w1) dir \<noteq> Some Dir \<or> fmlookup (disk w1) p \<noteq> None
         then (Inl (EOTHER ''createtemp''), w1)
         else (Inr p, w1\<lparr>disk := fmupd p (File []) (disk w1)\<rparr>))"

definition os_Write :: "path \<Rightarrow> bytes \<Rightarrow> local_world \<Rightarrow> errno option \<times> local_world" where
  "os_Write p b w =
     (let (bad, w1) = tick w
      in if bad then (Some (EOTHER ''write''), w1\<lparr>disk := fmupd p (File (take (partial w (calls w)) b)) (disk w1)\<rparr>)
         else (None, w1\<lparr>disk := fmupd p (File b) (disk w1)\<rparr>))"

definition os_Close :: "local_world \<Rightarrow> errno option \<times> local_world" where
  "os_Close w = (let (bad, w1) = tick w in (if bad then Some (EOTHER ''close'') else None, w1))"

definition os_Rename :: "path \<Rightarrow> path \<Rightarrow> local_world \<Rightarrow> errno option \<times> local_world" where
  "os_Rename p q w =
     (let (bad, w1) = tick w
      in if bad \<or> fmlookup (disk w1) q = Some Dir then (Some (EOTHER ''rename''), w1)
         else (case fmlookup (disk w1) p of
                 Some x \<Rightarrow> (None, w1\<lparr>disk := fmupd q x (fmdrop p (disk w1))\<rparr>)
               | None \<Rightarrow> (Some (missing w1 p), w1)))"

definition has_children :: "local_world \<Rightarrow> path \<Rightarrow> bool" where
  "has_children w p \<longleftrightarrow> fBex (fmdom (disk w)) (\<lambda>q. q \<noteq> [] \<and> butlast q = p)"

definition os_Remove :: "path \<Rightarrow> local_world \<Rightarrow> errno option \<times> local_world" where
  "os_Remove p w =
     (let (bad, w1) = tick w
      in if bad then (Some (EOTHER ''input/output error''), w1)
         else (case fmlookup (disk w1) p of
                 None \<Rightarrow> (Some (missing w1 p), w1)
               | Some Dir \<Rightarrow> if has_children w1 p then (Some (EOTHER ''directory not empty''), w1)
                             else (None, w1\<lparr>disk := fmdrop p (disk w1)\<rparr>)
               | Some (File _) \<Rightarrow> (None, w1\<lparr>disk := fmdrop p (disk w1)\<rparr>)))"

section \<open>Keys\<close>

fun split_slash :: "string \<Rightarrow> string list" where
  "split_slash [] = [[]]"
| "split_slash (ch # cs) =
     (if ch = CHR ''/'' then [] # split_slash cs
      else (case split_slash cs of [] \<Rightarrow> [[ch]] | x # xs \<Rightarrow> (ch # x) # xs))"

fun join_slash :: "string list \<Rightarrow> string" where
  "join_slash [] = []"
| "join_slash [p] = p"
| "join_slash (p # ps) = p @ CHR ''/'' # join_slash ps"

text \<open>\<open>filepath.Clean\<close> of a rooted path, on its components.\<close>

fun clean_comps :: "path \<Rightarrow> path \<Rightarrow> path" where
  "clean_comps acc [] = acc"
| "clean_comps acc (x # xs) =
     (if x = [] \<or> x = ''.'' then clean_comps acc xs
      else if x = ''..'' then clean_comps (butlast acc) xs
      else clean_comps (acc @ [x]) xs)"

fun contains_dots :: "string \<Rightarrow> bool" where
  "contains_dots (a # b # cs) \<longleftrightarrow> a = CHR ''.'' \<and> b = CHR ''.'' \<or> contains_dots (b # cs)"
| "contains_dots _ \<longleftrightarrow> False"

definition local_path :: "string \<Rightarrow> serr + path" where
  "local_path key =
     (if key = [] then Inl (ErrOther ''store: empty key'')
      else let clean = clean_comps [] (split_slash (CHR ''/'' # key))
           in if contains_dots (CHR ''/'' # join_slash clean) then Inl (ErrOther (''store: invalid key '' @ key))
              else Inr clean)"

section \<open>The store\<close>

definition os_err :: "errno \<Rightarrow> serr" where
  "os_err e = (case e of ENOENT \<Rightarrow> ErrOther ''file does not exist'' | EOTHER m \<Rightarrow> ErrOther m)"

definition local_Get :: "string \<Rightarrow> local_world \<Rightarrow> (serr + bytes) \<times> local_world" where
  "local_Get key w =
     (case local_path key of
        Inl e \<Rightarrow> (Inl e, w)
      | Inr p \<Rightarrow>
          (case os_ReadFile p w of
             (Inl ENOENT, w1) \<Rightarrow> (Inl ErrNotFound, w1)
           | (Inl e, w1) \<Rightarrow> (Inl (os_err e), w1)
           | (Inr b, w1) \<Rightarrow> (Inr b, w1)))"

definition local_GetWithETag ::
  "(bytes \<Rightarrow> string) \<Rightarrow> string \<Rightarrow> local_world \<Rightarrow> (serr + bytes \<times> string) \<times> local_world" where
  "local_GetWithETag md5 key w =
     (case local_path key of
        Inl e \<Rightarrow> (Inl e, w)
      | Inr p \<Rightarrow>
          (case os_ReadFile p w of
             (Inl ENOENT, w1) \<Rightarrow> (Inl ErrNotFound, w1)
           | (Inl e, w1) \<Rightarrow> (Inl (os_err e), w1)
           | (Inr b, w1) \<Rightarrow> (Inr (b, md5 b), w1)))"

definition local_GetRange :: "string \<Rightarrow> nat \<Rightarrow> nat \<Rightarrow> local_world \<Rightarrow> (serr + bytes) \<times> local_world" where
  "local_GetRange key off n w =
     (case local_path key of
        Inl e \<Rightarrow> (Inl e, w)
      | Inr p \<Rightarrow>
          (case os_ReadFile p w of
             (Inl ENOENT, w1) \<Rightarrow> (Inl ErrNotFound, w1)
           | (Inl e, w1) \<Rightarrow> (Inl (os_err e), w1)
           | (Inr b, w1) \<Rightarrow> (Inr (slice off (off + n) b), w1)))"

definition local_Head ::
  "(bytes \<Rightarrow> string) \<Rightarrow> string \<Rightarrow> local_world \<Rightarrow> (serr + object_info) \<times> local_world" where
  "local_Head md5 key w =
     (case local_path key of
        Inl e \<Rightarrow> (Inl e, w)
      | Inr p \<Rightarrow>
          (case os_Stat p w of
             (Inl ENOENT, w1) \<Rightarrow> (Inl ErrNotFound, w1)
           | (Inl e, w1) \<Rightarrow> (Inl (os_err e), w1)
           | (Inr sz, w1) \<Rightarrow>
               (case os_ReadFile p w1 of
                  (Inl e, w2) \<Rightarrow> (Inl (os_err e), w2)
                | (Inr b, w2) \<Rightarrow> (Inr \<lparr>oi_Key = key, oi_Size = sz, oi_ETag = md5 b\<rparr>, w2))))"

text \<open>The part of \<open>Put\<close> that runs while the deferred \<open>os.Remove(tmp.Name())\<close> is pending.\<close>

definition local_write :: "path \<Rightarrow> path \<Rightarrow> bytes \<Rightarrow> local_world \<Rightarrow> errno option \<times> local_world" where
  "local_write tmp p data w =
     (case os_Write tmp data w of
        (Some e, w1) \<Rightarrow> (Some e, snd (os_Close w1))
      | (None, w1) \<Rightarrow>
          (case os_Close w1 of
             (Some e, w2) \<Rightarrow> (Some e, w2)
           | (None, w2) \<Rightarrow> os_Rename tmp p w2))"

definition local_Put :: "string \<Rightarrow> bytes \<Rightarrow> local_world \<Rightarrow> serr option \<times> local_world" where
  "local_Put key data w =
     (case local_path key of
        Inl e \<Rightarrow> (Some e, w)
      | Inr p \<Rightarrow>
          (case os_MkdirAll (butlast p) w of
             (Some e, w1) \<Rightarrow> (Some (os_err e), w1)
           | (None, w1) \<Rightarrow>
               (case os_CreateTemp (butlast p) w1 of
                  (Inl e, w2) \<Rightarrow> (Some (os_err e), w2)
                | (Inr tmp, w2) \<Rightarrow>
                    (case local_write tmp p data w2 of
                       (r, w3) \<Rightarrow> (map_option os_err r, snd (os_Remove tmp w3))))))"

definition local_Delete :: "string \<Rightarrow> local_world \<Rightarrow> serr option \<times> local_world" where
  "local_Delete key w =
     (case local_path key of
        Inl e \<Rightarrow> (Some e, w)
      | Inr p \<Rightarrow>
          (case os_Remove p w of
             (Some ENOENT, w1) \<Rightarrow> (None, w1)
           | (r, w1) \<Rightarrow> (map_option os_err r, w1)))"

definition local_PutIfMatch ::
  "(bytes \<Rightarrow> string) \<Rightarrow> string \<Rightarrow> bytes \<Rightarrow> string \<Rightarrow> local_world \<Rightarrow> (serr + string) \<times> local_world" where
  "local_PutIfMatch md5 key data etag w =
     (case local_Head md5 key w of
        (r, w1) \<Rightarrow>
          (let refusal = (case r of
                 Inl ErrNotFound \<Rightarrow> if etag \<noteq> [] then Some ErrPrecondition else None
               | Inl e \<Rightarrow> Some e
               | Inr cur \<Rightarrow> if etag = [] \<or> oi_ETag cur \<noteq> etag then Some ErrPrecondition else None)
           in case refusal of
                Some e \<Rightarrow> (Inl e, w1)
              | None \<Rightarrow>
                  (case local_Put key data w1 of
                     (Some e, w2) \<Rightarrow> (Inl e, w2)
                   | (None, w2) \<Rightarrow> (Inr (md5 data), w2))))"

definition tmp_name :: "path \<Rightarrow> bool" where
  "tmp_name p \<longleftrightarrow> p \<noteq> [] \<and> starts_with ''.tmp-'' (last p)"

definition file_size :: "fnode option \<Rightarrow> nat option" where
  "file_size x = (case x of Some (File b) \<Rightarrow> Some (length b) | _ \<Rightarrow> None)"

text \<open>
  The walk visits every file; its order does not show, since the result is sorted. A failing call
  anywhere in it fails the whole.
\<close>

definition local_List ::
  "string \<Rightarrow> string \<Rightarrow> int \<Rightarrow> local_world \<Rightarrow> (serr + object_info list) \<times> local_world" where
  "local_List prefix after mx w =
     (let (bad, w1) = tick w
      in if bad then (Inl (ErrOther ''walk''), w1)
         else let files = ffilter (\<lambda>p. file_size (fmlookup (disk w1) p) \<noteq> None \<and> \<not> tmp_name p) (fmdom (disk w1));
                  keys = ffilter (\<lambda>k. starts_with prefix k \<and> after < k) (join_slash |`| files);
                  out = map (\<lambda>k. \<lparr>oi_Key = k, oi_Size = the (file_size (fmlookup (disk w1) (split_slash k))), oi_ETag = []\<rparr>)
                          (sorted_list_of_fset keys)
              in (Inr (if mx > 0 \<and> int (length out) > mx then take (nat mx) out else out), w1))"

definition Local_ops :: "(bytes \<Rightarrow> string) \<Rightarrow> string \<Rightarrow> local_world store_ops" where
  "Local_ops md5 root =
     \<lparr>Get = local_Get, GetRange = local_GetRange, Head = local_Head md5, Put = local_Put,
      Delete = local_Delete, List = local_List, PutIfMatch = local_PutIfMatch md5,
      Name = ''local:'' @ root, GetWithETag = local_GetWithETag md5\<rparr>"

definition NewLocal :: "local_world \<Rightarrow> errno option \<times> local_world" where
  "NewLocal w = os_MkdirAll [] w"

end
