(* ===== verification/LocalContract.thy ===== *)
theory LocalContract
  imports LocalStore
begin

text \<open>
  The directory-backed store keeps the contract of \<open>Store\<close>: the interpretation \<open>local_store\<close> of the
  locale \<open>object_store\<close> on the model of \<open>local.go\<close>, for every operating-system behaviour, including
  calls that fail half-way.
\<close>

section \<open>Keys and paths\<close>

definition good_comp :: "string \<Rightarrow> bool" where
  "good_comp x \<longleftrightarrow> x \<noteq> [] \<and> x \<noteq> ''.'' \<and> CHR ''/'' \<notin> set x \<and> \<not> contains_dots x"

text \<open>The keys the store keeps as they are: clean relative paths, not named like a temporary file.\<close>

definition local_key_ok :: "string \<Rightarrow> bool" where
  "local_key_ok k \<longleftrightarrow> list_all good_comp (split_slash k) \<and> \<not> tmp_name (split_slash k)"

lemma split_slash_ne [simp]: "split_slash k \<noteq> []"
  by (induction k) (auto split: list.splits)

lemma join_split [simp]: "join_slash (split_slash k) = k"
proof (induction k)
  case (Cons ch cs)
  obtain x xs where x: "split_slash cs = x # xs" by (cases "split_slash cs") auto
  with Cons show ?case by (cases xs) auto
qed simp

lemma split_no_slash: "CHR ''/'' \<notin> set x \<Longrightarrow> split_slash x = [x]"
  by (induction x) auto

lemma split_append: "CHR ''/'' \<notin> set x \<Longrightarrow> split_slash (x @ CHR ''/'' # k) = x # split_slash k"
  by (induction x) auto

lemma split_join: "ps \<noteq> [] \<Longrightarrow> \<forall>p \<in> set ps. CHR ''/'' \<notin> set p \<Longrightarrow> split_slash (join_slash ps) = ps"
  by (induction ps rule: join_slash.induct) (auto simp: split_no_slash split_append)

lemma contains_dots_slash:
  "contains_dots (x @ CHR ''/'' # y) \<longleftrightarrow> contains_dots x \<or> contains_dots y"
proof (induction x rule: contains_dots.induct, goal_cases)
  case 2
  then show ?case by (cases y) auto
next
  case (3 v)
  then show ?case by (cases y) auto
qed auto

lemma good_join_dots: "list_all good_comp ps \<Longrightarrow> \<not> contains_dots (join_slash ps)"
  by (induction ps rule: join_slash.induct) (auto simp: good_comp_def contains_dots_slash)

lemma good_not_dotdot: "good_comp x \<Longrightarrow> x \<noteq> ''..''"
  by (auto simp: good_comp_def)

lemma clean_good: "list_all good_comp ps \<Longrightarrow> clean_comps acc ps = acc @ ps"
  by (induction ps arbitrary: acc) (auto simp: good_comp_def dest: good_not_dotdot)

lemma local_path_ok:
  assumes "local_key_ok k" shows "local_path k = Inr (split_slash k)"
proof -
  have g: "list_all good_comp (split_slash k)" using assms by (simp add: local_key_ok_def)
  have "k \<noteq> []" using g by (auto simp: good_comp_def)
  moreover have "\<not> contains_dots (CHR ''/'' # k)"
    using contains_dots_slash [of "[]" k] good_join_dots [OF g] by simp
  ultimately show ?thesis using clean_good [OF g] by (simp add: local_path_def)
qed

section \<open>What each operating-system call leaves of the files\<close>

definition file_of :: "local_world \<Rightarrow> path \<Rightarrow> bytes option" where
  "file_of w p = (case fmlookup (disk w) p of Some (File b) \<Rightarrow> Some b | _ \<Rightarrow> None)"

definition local_objs :: "local_world \<Rightarrow> string \<Rightarrow> bytes option" where
  "local_objs w k = (if local_key_ok k then file_of w (split_slash k) else None)"

definition local_etag :: "(bytes \<Rightarrow> string) \<Rightarrow> local_world \<Rightarrow> string \<Rightarrow> string" where
  "local_etag md5 w k = (case local_objs w k of Some b \<Rightarrow> md5 b | None \<Rightarrow> [])"

definition local_good :: "local_world \<Rightarrow> bool" where
  "local_good w \<longleftrightarrow> (\<forall>p. file_of w p \<noteq> None \<longrightarrow> \<not> tmp_name p \<longrightarrow> p \<noteq> [] \<and> list_all good_comp p)"

text \<open>Two worlds with the same files but for temporaries, and but for one path.\<close>

definition same_but :: "path option \<Rightarrow> local_world \<Rightarrow> local_world \<Rightarrow> bool" where
  "same_but q w w' \<longleftrightarrow> (\<forall>p. \<not> tmp_name p \<longrightarrow> Some p \<noteq> q \<longrightarrow> file_of w' p = file_of w p)"

lemma same_but_refl [simp]: "same_but q w w"
  by (simp add: same_but_def)

lemma same_but_trans: "same_but q w w1 \<Longrightarrow> same_but q w1 w2 \<Longrightarrow> same_but q w w2"
  by (simp add: same_but_def)

lemma same_but_weaken: "same_but None w w1 \<Longrightarrow> same_but q w w1"
  by (simp add: same_but_def)

lemma file_of_disk: "disk w = disk w' \<Longrightarrow> file_of w = file_of w'"
  by (simp add: file_of_def fun_eq_iff)

lemma tick_disk [simp]: "disk (snd (tick w)) = disk w"
  by (simp add: tick_def)

lemma os_ReadFile_eq:
  "os_ReadFile p w = (r, w') \<Longrightarrow>
   disk w' = disk w \<and> (case r of Inr b \<Rightarrow> file_of w p = Some b | Inl e \<Rightarrow> e = ENOENT \<longrightarrow> file_of w p = None)"
  by (auto simp: os_ReadFile_def tick_def file_of_def Let_def split: if_splits option.splits fnode.splits)

lemma os_Stat_eq:
  "os_Stat p w = (r, w') \<Longrightarrow>
   disk w' = disk w \<and> (case r of Inr n \<Rightarrow> (\<forall>b. file_of w p = Some b \<longrightarrow> n = length b)
                                   | Inl e \<Rightarrow> e = ENOENT \<longrightarrow> file_of w p = None)"
  by (auto simp: os_Stat_def tick_def file_of_def Let_def split: if_splits option.splits fnode.splits)

lemma os_mkdirs_files: "file_of (snd (os_mkdirs ps w)) = file_of w"
proof (induction ps arbitrary: w)
  case (Cons p ps)
  have "fmlookup (disk w) p = None \<Longrightarrow> file_of (w\<lparr>calls := n, disk := fmupd p Dir (disk w)\<rparr>) = file_of w" for n
    by (auto simp: file_of_def fun_eq_iff)
  moreover have "file_of (w\<lparr>calls := n\<rparr>) = file_of w" for n by (simp add: file_of_def fun_eq_iff)
  ultimately show ?case
    using Cons by (cases "fmlookup (disk w) p") (auto simp: tick_def split: fnode.splits)
qed simp

lemma os_CreateTemp_eq:
  assumes "os_CreateTemp d w = (r, w')"
  shows "same_but None w w'" "r = Inr tmp \<Longrightarrow> tmp_name tmp"
proof -
  have t: "tmp_name (d @ [''.tmp-'' @ random w (calls w)])" by (simp add: tmp_name_def starts_with_def)
  then show "r = Inr tmp \<Longrightarrow> tmp_name tmp"
    using assms by (auto simp: os_CreateTemp_def Let_def tick_def split: if_splits)
  show "same_but None w w'"
    using assms t by (auto simp: os_CreateTemp_def Let_def tick_def same_but_def file_of_def split: if_splits)
qed

lemma os_Write_eq:
  assumes "os_Write tmp b w = (r, w')" "tmp_name tmp"
  shows "same_but None w w'" "r = None \<Longrightarrow> fmlookup (disk w') tmp = Some (File b)"
  using assms by (auto simp: os_Write_def Let_def tick_def same_but_def file_of_def split: if_splits)

lemma os_Close_eq: "disk (snd (os_Close w)) = disk w"
  by (simp add: os_Close_def Let_def tick_def)

lemma os_Rename_eq:
  assumes "os_Rename tmp p w = (r, w')" "tmp_name tmp" "\<not> tmp_name p" "fmlookup (disk w) tmp = Some (File b)"
  shows "same_but (Some p) w w'" "file_of w' p = (if r = None then Some b else file_of w p)"
  using assms by (auto simp: os_Rename_def Let_def tick_def same_but_def file_of_def split: if_splits)

lemma os_Remove_eq:
  assumes "os_Remove p w = (r, w')"
  shows "same_but (Some p) w w'" "file_of w' p = None \<or> file_of w' p = file_of w p \<and> r \<noteq> None"
    and "r = None \<Longrightarrow> file_of w' p = None" "r = Some ENOENT \<Longrightarrow> file_of w' p = None"
  using assms
  by (auto simp: os_Remove_def Let_def tick_def same_but_def file_of_def split: if_splits option.splits fnode.splits)

lemma os_Remove_tmp: "tmp_name tmp \<Longrightarrow> same_but None w (snd (os_Remove tmp w))"
  using os_Remove_eq(1) [of tmp w "fst (os_Remove tmp w)" "snd (os_Remove tmp w)"]
  by (auto simp: same_but_def)

lemma local_write_eq:
  assumes "local_write tmp p data w = (r, w')" "tmp_name tmp" "\<not> tmp_name p"
  shows "same_but (Some p) w w' \<and> file_of w' p = (if r = None then Some data else file_of w p)"
proof -
  obtain r1 w1 where w1: "os_Write tmp data w = (r1, w1)" by force
  obtain r2 w2 where w2: "os_Close w1 = (r2, w2)" by force
  note a = os_Write_eq [OF w1 assms(2)]
  have d2: "disk w2 = disk w1" using os_Close_eq [of w1] w2 by simp
  have p1: "file_of w2 p = file_of w p" "same_but (Some p) w w2"
    using a(1) assms(3) file_of_disk [OF d2] by (auto simp: same_but_def)
  show ?thesis
  proof (cases "r1 = None \<and> r2 = None")
    case True
    with assms(1) w1 w2 have "os_Rename tmp p w2 = (r, w')" by (simp add: local_write_def)
    from os_Rename_eq [OF this assms(2,3)] a(2) d2 True p1 show ?thesis
      by (auto intro: same_but_trans)
  next
    case False
    with assms(1) w1 w2 have "r \<noteq> None" "w' = w2" by (auto simp: local_write_def split: option.splits)
    with p1 show ?thesis by auto
  qed
qed

text \<open>The whole of \<open>Put\<close>: on success the object is there, on an error the files are as they were.\<close>

lemma local_Put_eq:
  assumes "local_Put k d w = (r, w')" "local_key_ok k"
  shows "same_but (Some (split_slash k)) w w' \<and>
    file_of w' (split_slash k) = (if r = None then Some d else file_of w (split_slash k))"
proof -
  let ?p = "split_slash k"
  have nt: "\<not> tmp_name ?p" using assms(2) by (simp add: local_key_ok_def)
  obtain r1 w1 where w1: "os_MkdirAll (butlast ?p) w = (r1, w1)" by force
  have f1: "file_of w1 = file_of w" using os_mkdirs_files w1 unfolding os_MkdirAll_def by (metis snd_conv)
  obtain r2 w2 where w2: "os_CreateTemp (butlast ?p) w1 = (r2, w2)" by force
  have f2: "same_but None w w2" using os_CreateTemp_eq(1) [OF w2] f1 by (simp add: same_but_def)
  show ?thesis
  proof (cases r1)
    case (Some e)
    with assms local_path_ok [OF assms(2)] w1 f1 show ?thesis by (auto simp: local_Put_def same_but_def)
  next
    case None
    show ?thesis
    proof (cases r2)
      case (Inl e)
      with None assms local_path_ok [OF assms(2)] w1 w2 f2 nt show ?thesis
        by (auto simp: local_Put_def same_but_def)
    next
      case (Inr tmp)
      have t: "tmp_name tmp" using os_CreateTemp_eq(2) [OF w2 Inr] .
      obtain r3 w3 where w3: "local_write tmp ?p d w2 = (r3, w3)" by force
      have "r = map_option os_err r3" "w' = snd (os_Remove tmp w3)"
        using None Inr assms local_path_ok [OF assms(2)] w1 w2 w3 by (auto simp: local_Put_def)
      with local_write_eq [OF w3 t nt] os_Remove_tmp [OF t, of w3] f2 nt show ?thesis
        by (auto simp: same_but_def)
    qed
  qed
qed

section \<open>The contract\<close>

lemma key_ok_path: "local_key_ok k \<Longrightarrow> local_key_ok k' \<Longrightarrow> split_slash k = split_slash k' \<longleftrightarrow> k = k'"
  by (metis join_split)

lemma good_same_but:
  assumes "local_good w" "same_but (Some p) w w'" "p \<noteq> [] \<and> list_all good_comp p"
  shows "local_good w'"
  unfolding local_good_def
proof (intro allI impI)
  fix q assume q: "file_of w' q \<noteq> None" "\<not> tmp_name q"
  show "q \<noteq> [] \<and> list_all good_comp q"
  proof (cases "q = p")
    case False
    with q assms(2) have "file_of w q \<noteq> None" by (simp add: same_but_def)
    with q assms(1) show ?thesis by (simp add: local_good_def)
  qed (use assms(3) in simp)
qed

lemma objs_same_but:
  assumes "same_but (Some (split_slash k)) w w'" "local_key_ok k" "k' \<noteq> k"
  shows "local_objs w' k' = local_objs w k'" "local_etag md5 w' k' = local_etag md5 w k'"
proof -
  show *: "local_objs w' k' = local_objs w k'"
    using assms key_ok_path [of k' k] by (auto simp: same_but_def local_objs_def local_key_ok_def)
  show "local_etag md5 w' k' = local_etag md5 w k'" by (simp add: local_etag_def *)
qed

lemma disk_same: "disk w' = disk w \<Longrightarrow> local_objs w' = local_objs w \<and> local_etag md5 w' = local_etag md5 w \<and>
    (local_good w' \<longleftrightarrow> local_good w)"
  by (simp add: local_objs_def local_etag_def local_good_def file_of_def fun_eq_iff)

lemma local_Get_law:
  assumes "local_key_ok k" "local_Get k w = (r, w')"
  shows "disk w' = disk w \<and> (case r of Inr d \<Rightarrow> local_objs w k = Some d | Inl e \<Rightarrow> e = ErrNotFound \<longrightarrow> local_objs w k = None)"
proof -
  obtain r1 w1 where w1: "os_ReadFile (split_slash k) w = (r1, w1)" by force
  from os_ReadFile_eq [OF w1] assms w1 local_path_ok [OF assms(1)] show ?thesis
    by (auto simp: local_Get_def local_objs_def os_err_def split: sum.splits errno.splits)
qed

lemma local_GetRange_law:
  assumes "local_key_ok k" "local_GetRange k off n w = (r, w')"
  shows "disk w' = disk w \<and> (case r of Inr d \<Rightarrow> map_option (slice off (off + n)) (local_objs w k) = Some d
     | Inl e \<Rightarrow> e = ErrNotFound \<longrightarrow> local_objs w k = None)"
proof -
  obtain r1 w1 where w1: "os_ReadFile (split_slash k) w = (r1, w1)" by force
  from os_ReadFile_eq [OF w1] assms w1 local_path_ok [OF assms(1)] show ?thesis
    by (auto simp: local_GetRange_def local_objs_def os_err_def split: sum.splits errno.splits)
qed

lemma local_GetWithETag_law:
  assumes "local_key_ok k" "local_GetWithETag md5 k w = (r, w')"
  shows "disk w' = disk w \<and> (case r of Inr (d, e) \<Rightarrow> local_objs w k = Some d \<and> e = local_etag md5 w k
     | Inl e \<Rightarrow> e = ErrNotFound \<longrightarrow> local_objs w k = None)"
proof -
  obtain r1 w1 where w1: "os_ReadFile (split_slash k) w = (r1, w1)" by force
  from os_ReadFile_eq [OF w1] assms w1 local_path_ok [OF assms(1)] show ?thesis
    by (auto simp: local_GetWithETag_def local_objs_def local_etag_def os_err_def split: sum.splits errno.splits)
qed

lemma local_Head_law:
  assumes "local_key_ok k" "local_Head md5 k w = (r, w')"
  shows "disk w' = disk w \<and> (case r of Inr i \<Rightarrow> oi_Key i = k \<and> map_option length (local_objs w k) = Some (oi_Size i) \<and>
       oi_ETag i = local_etag md5 w k
     | Inl e \<Rightarrow> e = ErrNotFound \<longrightarrow> local_objs w k = None)"
proof -
  obtain r1 w1 where w1: "os_Stat (split_slash k) w = (r1, w1)" by force
  obtain r2 w2 where w2: "os_ReadFile (split_slash k) w1 = (r2, w2)" by force
  note S = os_Stat_eq [OF w1] and R = os_ReadFile_eq [OF w2] and p = local_path_ok [OF assms(1)]
  have f: "file_of w1 = file_of w" by (rule file_of_disk) (use S in simp)
  show ?thesis
  proof (cases r1)
    case (Inl e)
    with S assms w1 p show ?thesis
      by (cases e) (auto simp: local_Head_def local_objs_def os_err_def)
  next
    case (Inr n)
    with S R assms w1 w2 p f show ?thesis
      by (cases r2) (auto simp: local_Head_def local_objs_def local_etag_def os_err_def split: errno.splits)
  qed
qed

lemma local_Put_law:
  assumes "local_good w" "local_key_ok k" "local_Put k d w = (r, w')"
  shows "local_good w' \<and> (\<forall>k'. k' \<noteq> k \<longrightarrow> local_objs w' k' = local_objs w k' \<and> local_etag md5 w' k' = local_etag md5 w k') \<and>
    local_objs w' k = (if r = None then Some d else local_objs w k)"
proof -
  from local_Put_eq [OF assms(3,2)] have s: "same_but (Some (split_slash k)) w w'"
    "file_of w' (split_slash k) = (if r = None then Some d else file_of w (split_slash k))" by auto
  have "local_good w'" by (rule good_same_but [OF assms(1) s(1)]) (use assms(2) in \<open>simp add: local_key_ok_def\<close>)
  with objs_same_but [OF s(1) assms(2)] s(2) assms(2) show ?thesis by (simp add: local_objs_def)
qed

lemma local_Delete_law:
  assumes "local_good w" "local_key_ok k" "local_Delete k w = (r, w')"
  shows "local_good w' \<and> (\<forall>k'. k' \<noteq> k \<longrightarrow> local_objs w' k' = local_objs w k' \<and> local_etag md5 w' k' = local_etag md5 w k') \<and>
    (local_objs w' k = None \<or> r \<noteq> None \<and> local_objs w' k = local_objs w k)"
proof -
  obtain r1 w1 where w1: "os_Remove (split_slash k) w = (r1, w1)" by force
  have w': "w' = w1" "r = None \<longrightarrow> r1 = None \<or> r1 = Some ENOENT"
    using assms(3) w1 local_path_ok [OF assms(2)]
    by (auto simp: local_Delete_def split: option.splits errno.splits)
  have s: "same_but (Some (split_slash k)) w w'" using os_Remove_eq(1) [OF w1] w' by simp
  have "local_good w'" by (rule good_same_but [OF assms(1) s]) (use assms(2) in \<open>simp add: local_key_ok_def\<close>)
  with objs_same_but [OF s assms(2)] os_Remove_eq(2-4) [OF w1] w' assms(2) show ?thesis
    by (auto simp: local_objs_def)
qed

lemma local_PutIfMatch_law:
  assumes "local_good w" "local_key_ok k" "local_PutIfMatch md5 k d e w = (r, w')"
  shows "local_good w' \<and> (\<forall>k'. k' \<noteq> k \<longrightarrow> local_objs w' k' = local_objs w k' \<and> local_etag md5 w' k' = local_etag md5 w k') \<and>
      (local_objs w' k = Some d \<and> (if local_objs w k = None then e = [] else e \<noteq> [] \<and> e = local_etag md5 w k) \<and>
         (case r of Inr e' \<Rightarrow> e' = [] \<or> e' = local_etag md5 w' k | Inl _ \<Rightarrow> True) \<or>
       (\<exists>x. r = Inl x) \<and> local_objs w' k = local_objs w k \<and> local_etag md5 w' k = local_etag md5 w k)"
proof -
  obtain r1 w1 where w1: "local_Head md5 k w = (r1, w1)" by force
  obtain r2 w2 where w2: "local_Put k d w1 = (r2, w2)" by force
  note H = local_Head_law [OF assms(2) w1]
  have D: "local_objs w1 = local_objs w" "local_etag md5 w1 = local_etag md5 w" "local_good w1"
    using disk_same [of w1 w md5] H assms(1) by auto
  note P = local_Put_law [OF D(3) assms(2) w2, of md5]
  consider (refused) "\<exists>x. r = Inl x" "w' = w1"
    | (put) "r = (case r2 of Some x \<Rightarrow> Inl x | None \<Rightarrow> Inr (md5 d))" "w' = w2"
      "if local_objs w k = None then e = [] else e \<noteq> [] \<and> e = local_etag md5 w k"
    using assms(3) w1 w2 H
    by (auto simp: local_PutIfMatch_def Let_def split: sum.splits serr.splits if_splits option.splits)
  then show ?thesis
  proof cases
    case refused
    with D show ?thesis by simp
  next
    case put
    show ?thesis
    proof (cases r2)
      case None
      with put P D have "local_etag md5 w' k = md5 d" by (simp add: local_etag_def)
      with None put P D show ?thesis by simp
    next
      case (Some x)
      with put P D have "local_etag md5 w' k = local_etag md5 w k" by (simp add: local_etag_def)
      with Some put P D show ?thesis by simp
    qed
  qed
qed

lemma file_size_of: "file_size (fmlookup (disk w) p) = map_option length (file_of w p)"
  by (simp add: file_size_def file_of_def split: option.splits fnode.splits)

lemma local_List_law:
  assumes "local_good w" "local_List p a mx w = (r, w')"
  shows "disk w' = disk w \<and>
      (\<forall>is. r = Inr is \<longrightarrow>
         (\<exists>ks. sorted_wrt (<) ks \<and> set ks = {k. local_objs w k \<noteq> None \<and> starts_with p k \<and> a < k} \<and>
               map oi_Key is = (if mx > 0 then take (nat mx) ks else ks)) \<and>
         (\<forall>i \<in> set is. local_key_ok (oi_Key i)))"
proof (cases "fails w (calls w)")
  case True
  with assms(2) show ?thesis by (auto simp: local_List_def tick_def)
next
  case False
  let ?files = "ffilter (\<lambda>p. file_size (fmlookup (disk w) p) \<noteq> None \<and> \<not> tmp_name p) (fmdom (disk w))"
  let ?keys = "ffilter (\<lambda>k. starts_with p k \<and> a < k) (join_slash |`| ?files)"
  let ?info = "\<lambda>k. \<lparr>oi_Key = k, oi_Size = the (file_size (fmlookup (disk w) (split_slash k))), oi_ETag = []\<rparr>"
  let ?out = "map ?info (sorted_list_of_fset ?keys)"
  have r: "r = Inr (if mx > 0 \<and> int (length ?out) > mx then take (nat mx) ?out else ?out)" "disk w' = disk w"
    using assms(2) False by (auto simp: local_List_def tick_def Let_def)
  have isfile: "q |\<in>| ?files \<longleftrightarrow> file_of w q \<noteq> None \<and> \<not> tmp_name q" for q
    by (auto simp: file_size_of file_of_def fmlookup_dom_iff split: option.splits)
  have "k \<in> fset ?keys \<longleftrightarrow> local_objs w k \<noteq> None \<and> starts_with p k \<and> a < k" for k
  proof -
    have "(\<exists>q. q |\<in>| ?files \<and> k = join_slash q) \<longleftrightarrow> local_objs w k \<noteq> None"
    proof
      assume "\<exists>q. q |\<in>| ?files \<and> k = join_slash q"
      then obtain q where q: "file_of w q \<noteq> None" "\<not> tmp_name q" "k = join_slash q" unfolding isfile by blast
      with assms(1) have g: "q \<noteq> []" "list_all good_comp q" by (auto simp: local_good_def)
      then have "split_slash k = q" using q(3) split_join [of q] by (auto simp: list_all_iff good_comp_def)
      with q g show "local_objs w k \<noteq> None" by (simp add: local_objs_def local_key_ok_def)
    next
      assume o: "local_objs w k \<noteq> None"
      then have "file_of w (split_slash k) \<noteq> None" "\<not> tmp_name (split_slash k)"
        by (auto simp: local_objs_def local_key_ok_def split: if_splits)
      then show "\<exists>q. q |\<in>| ?files \<and> k = join_slash q" unfolding isfile by (intro exI [of _ "split_slash k"]) simp
    qed
    then show ?thesis by auto
  qed
  then have "fset ?keys = {k. local_objs w k \<noteq> None \<and> starts_with p k \<and> a < k}" by blast
  moreover have "set (sorted_list_of_fset X) = fset X" for X :: "string fset"
    by (simp add: sorted_list_of_fset.rep_eq)
  ultimately have set: "set (sorted_list_of_fset ?keys) = {k. local_objs w k \<noteq> None \<and> starts_with p k \<and> a < k}"
    by metis
  have sorted: "sorted_wrt (<) (sorted_list_of_fset ?keys)"
    by (simp add: sorted_list_of_fset.rep_eq strict_sorted_list_of_set)
  define ks where "ks = sorted_list_of_fset ?keys"
  define lim where "lim = (if mx > 0 \<and> int (length ks) > mx then take (nat mx) ks else ks)"
  have "r = Inr (map ?info lim)"
    unfolding r(1) lim_def ks_def by (simp add: take_map)
  moreover have "map oi_Key (map ?info lim) = lim" by (simp add: comp_def)
  moreover have "lim = (if mx > 0 then take (nat mx) ks else ks)" by (auto simp: lim_def)
  moreover have "local_key_ok k" if "k \<in> set lim" for k
  proof -
    have "k \<in> set ks" using that by (auto simp: lim_def split: if_splits dest: in_set_takeD)
    then show ?thesis using set unfolding ks_def by (auto simp: local_objs_def split: if_splits)
  qed
  ultimately show ?thesis using r(2) set sorted unfolding ks_def [symmetric]
    by (intro conjI allI impI exI [of _ ks]) (auto simp del: map_map)
qed

text \<open>The interpretation: everything proved of an \<open>object_store\<close> holds of the directory-backed one.\<close>

lemma Local_sel [simp]:
  "Get (Local_ops md5 root) = local_Get" "GetRange (Local_ops md5 root) = local_GetRange"
  "Head (Local_ops md5 root) = local_Head md5" "Put (Local_ops md5 root) = local_Put"
  "Delete (Local_ops md5 root) = local_Delete" "List (Local_ops md5 root) = local_List"
  "PutIfMatch (Local_ops md5 root) = local_PutIfMatch md5"
  "GetWithETag (Local_ops md5 root) = local_GetWithETag md5" "Name (Local_ops md5 root) = ''local:'' @ root"
  by (simp_all add: Local_ops_def)

interpretation local_store: object_store "Local_ops md5 root" local_objs "local_etag md5" local_good local_key_ok
  for md5 root
proof (unfold_locales, unfold Local_sel, goal_cases)
  case (1 w k r w')
  then show ?case using local_Get_law [OF 1(2,3)] disk_same [of w' w md5] by simp
next
  case (2 w k off n r w')
  then show ?case using local_GetRange_law [OF 2(2,4)] disk_same [of w' w md5] by (auto split: sum.splits)
next
  case (3 w k r w')
  then show ?case using local_Head_law [OF 3(2,3)] disk_same [of w' w md5] by (auto split: sum.splits)
next
  case (4 w k r w')
  then show ?case using local_GetWithETag_law [OF 4(2,3)] disk_same [of w' w md5] by (auto split: sum.splits)
next
  case (5 w k d r w')
  from local_Put_law [OF this, of md5] show ?case by (auto simp: local_etag_def split: if_splits)
next
  case (6 w k r w')
  from local_Delete_law [OF this, of md5] show ?case by (auto simp: local_etag_def)
next
  case (7 w k d e r w')
  from local_PutIfMatch_law [OF this] show ?case .
next
  case (8 w p a mx r w')
  note L = local_List_law [OF 8]
  have "\<exists>ks. sorted_wrt (<) ks \<and> set ks = {k. local_objs w k \<noteq> None \<and> starts_with p k \<and> a < k} \<and>
      (\<exists>m. map oi_Key is = take m ks \<and> (mx > 0 \<longrightarrow> m \<le> nat mx)) \<and> (is = [] \<longrightarrow> ks = [])" if ri: "r = Inr is" for "is"
  proof -
    obtain ks where "sorted_wrt (<) ks" "set ks = {k. local_objs w k \<noteq> None \<and> starts_with p k \<and> a < k}"
        "map oi_Key is = (if mx > 0 then take (nat mx) ks else ks)"
      using L ri by blast
    then show ?thesis using page_of_limit [of "is" mx ks] by blast
  qed
  then show ?case using L 8 disk_same [of w' w md5] by simp
qed

text \<open>
  C18. A local directory is an object store: under any fault of the operating system's calls, short
  writes and failed renames included, every verb keeps the contract the filesystem relies on. A read
  answers the object there is; a put or a delete that reports success has taken effect, one that
  reports an error has taken effect whole or not at all, and neither touches another key; the
  conditional put replaces only the object whose ETag it was given; a listing is the stored keys in
  order.
\<close>

theorem local_store_contract:
  "object_store (Local_ops md5 root) local_objs (local_etag md5) local_good local_key_ok"
  by (rule local_store.object_store_axioms)

end
