(* ===== verification/ReplyCache.thy ===== *)
theory ReplyCache
  imports Prelude "HOL-Library.Finite_Map"
begin

text \<open>
  The duplicate request cache of \<open>internal/sunrpc/cache.go\<close>. Every method holds \<open>mu\<close> from start to end,
  so a method is a function on the cache. A stored reply is \<open>Some\<close>, an in-flight marker, Go's nil slice,
  is \<open>None\<close>. Times are readings of the monotonic clock.
\<close>

record replyKey =
  rk_conn :: u64
  rk_xid :: u32
  rk_prog :: u32
  rk_vers :: u32
  rk_proc :: u32

datatype cacheState = cacheMiss | cacheInFlight | cacheHit

record doneRef =
  dr_key :: replyKey
  dr_at :: int

record replyCache =
  rc_maxEntries :: int
  rc_maxAge :: int
  rc_entries :: "(replyKey, bytes option) fmap"
  rc_done :: "doneRef list"

definition replyCacheMaxEntries :: int where "replyCacheMaxEntries = 4096"
definition replyCacheMaxAge :: int where "replyCacheMaxAge = 120 * 10 ^ 9"

definition newReplyCache :: "int \<Rightarrow> int \<Rightarrow> replyCache" where
  "newReplyCache mx age = \<lparr>rc_maxEntries = mx, rc_maxAge = age, rc_entries = fmempty, rc_done = []\<rparr>"

definition popDone :: "replyCache \<Rightarrow> replyCache" where
  "popDone c = c\<lparr>rc_entries := fmdrop (dr_key (hd (rc_done c))) (rc_entries c), rc_done := tl (rc_done c)\<rparr>"

definition rc_len :: "replyCache \<Rightarrow> int" where
  "rc_len c = int (fcard (fmdom (rc_entries c)))"

function purge :: "int \<Rightarrow> replyCache \<Rightarrow> replyCache" where
  "purge now c =
     (if rc_done c \<noteq> [] \<and> now - dr_at (hd (rc_done c)) > rc_maxAge c then purge now (popDone c) else c)"
  by auto
termination by (relation "measure (\<lambda>(_, c). length (rc_done c))") (auto simp: popDone_def)

function make_room :: "replyCache \<Rightarrow> replyCache" where
  "make_room c = (if rc_len c \<ge> rc_maxEntries c \<and> rc_done c \<noteq> [] then make_room (popDone c) else c)"
  by auto
termination by (relation "measure (\<lambda>c. length (rc_done c))") (auto simp: popDone_def)

declare purge.simps [simp del] make_room.simps [simp del]

text \<open>\<open>begin\<close>: the reply to replay, if any, and what the cache knows of the key.\<close>

definition rc_begin :: "int \<Rightarrow> replyKey \<Rightarrow> replyCache \<Rightarrow> (bytes option \<times> cacheState) \<times> replyCache" where
  "rc_begin now k c0 =
     (let c = purge now c0 in
      case fmlookup (rc_entries c) k of
        Some (Some stored) \<Rightarrow> ((Some stored, cacheHit), c)
      | Some None \<Rightarrow> ((None, cacheInFlight), c)
      | None \<Rightarrow>
          (let c1 = make_room c
           in ((None, cacheMiss),
               if rc_len c1 < rc_maxEntries c1 then c1\<lparr>rc_entries := fmupd k None (rc_entries c1)\<rparr> else c1)))"

definition abandonLocked :: "replyKey \<Rightarrow> replyCache \<Rightarrow> replyCache" where
  "abandonLocked k c =
     (if fmlookup (rc_entries c) k = Some None then c\<lparr>rc_entries := fmdrop k (rc_entries c)\<rparr> else c)"

definition rc_abandon :: "replyKey \<Rightarrow> replyCache \<Rightarrow> replyCache" where
  "rc_abandon k c = abandonLocked k c"

definition rc_finish :: "int \<Rightarrow> replyKey \<Rightarrow> bytes \<Rightarrow> replyCache \<Rightarrow> replyCache" where
  "rc_finish now k reply c =
     (if reply = [] then abandonLocked k c
      else (case fmlookup (rc_entries c) k of
              Some None \<Rightarrow>
                c\<lparr>rc_entries := fmupd k (Some reply) (rc_entries c),
                  rc_done := rc_done c @ [\<lparr>dr_key = k, dr_at = now\<rparr>]\<rparr>
            | _ \<Rightarrow> c))"

section \<open>The invariant\<close>

text \<open>
  The queue holds each done entry once, oldest first, and nothing else; a stored reply is never empty;
  the number of entries stays within the limit.
\<close>

definition rc_ok :: "replyCache \<Rightarrow> bool" where
  "rc_ok c \<longleftrightarrow>
     distinct (map dr_key (rc_done c)) \<and>
     dr_key ` set (rc_done c) = {k. \<exists>r. fmlookup (rc_entries c) k = Some (Some r)} \<and>
     (\<forall>k r. fmlookup (rc_entries c) k = Some (Some r) \<longrightarrow> r \<noteq> []) \<and>
     sorted (map dr_at (rc_done c)) \<and>
     rc_len c \<le> max 0 (rc_maxEntries c)"

text \<open>What taking the \<open>n\<close> oldest done entries off the queue leaves.\<close>

definition pops :: "nat \<Rightarrow> replyCache \<Rightarrow> replyCache" where
  "pops n c = c\<lparr>rc_entries := fmfilter (\<lambda>k. k \<notin> dr_key ` set (take n (rc_done c))) (rc_entries c),
                rc_done := drop n (rc_done c)\<rparr>"

lemma pops_sel [simp]:
  "rc_maxEntries (pops n c) = rc_maxEntries c" "rc_maxAge (pops n c) = rc_maxAge c"
  "rc_done (pops n c) = drop n (rc_done c)"
  "fmlookup (rc_entries (pops n c)) k =
     (if k \<in> dr_key ` set (take n (rc_done c)) then None else fmlookup (rc_entries c) k)"
  by (simp_all add: pops_def)

lemma pops_0 [simp]: "pops 0 c = c"
proof -
  have "fmfilter (\<lambda>k. True) (rc_entries c) = rc_entries c" by (rule fmap_ext) simp
  then show ?thesis by (simp add: pops_def)
qed

lemma pops_Suc: "rc_done c = d # ds \<Longrightarrow> pops n (popDone c) = pops (Suc n) c"
proof -
  assume d: "rc_done c = d # ds"
  have "fmfilter (\<lambda>k. k \<notin> dr_key ` set (take n ds)) (fmdrop (dr_key d) (rc_entries c)) =
      fmfilter (\<lambda>k. k \<notin> dr_key ` set (take (Suc n) (d # ds))) (rc_entries c)"
    by (rule fmap_ext) auto
  then show ?thesis by (simp add: pops_def popDone_def d cong del: fmfilter_cong)
qed

lemma rc_len_pops: "rc_len (pops n c) \<le> rc_len c"
proof -
  have "fmdom (rc_entries (pops n c)) |\<subseteq>| fmdom (rc_entries c)"
    by (auto simp: pops_def)
  then show ?thesis unfolding rc_len_def by (simp add: fcard_mono)
qed

lemma purge_pops:
  "\<exists>n \<le> length (rc_done c). purge now c = pops n c \<and>
     (\<forall>d \<in> set (take n (rc_done c)). now - dr_at d > rc_maxAge c) \<and>
     (n < length (rc_done c) \<longrightarrow> now - dr_at (rc_done c ! n) \<le> rc_maxAge c)"
proof (induction now c rule: purge.induct)
  case (1 now c)
  show ?case
  proof (cases "rc_done c \<noteq> [] \<and> now - dr_at (hd (rc_done c)) > rc_maxAge c")
    case True
    then obtain d ds where d: "rc_done c = d # ds" by (cases "rc_done c") auto
    from 1 [OF True] obtain n where n: "n \<le> length ds" "purge now (popDone c) = pops n (popDone c)"
        "\<forall>d \<in> set (take n ds). now - dr_at d > rc_maxAge c" "n < length ds \<longrightarrow> now - dr_at (ds ! n) \<le> rc_maxAge c"
      by (auto simp: popDone_def d)
    then show ?thesis
      using True d by (intro exI [of _ "Suc n"]) (simp add: purge.simps [of now c] pops_Suc [OF d])
  next
    case False
    then have "purge now c = c" by (subst purge.simps) (rule if_not_P)
    moreover have "0 < length (rc_done c) \<longrightarrow> now - dr_at (rc_done c ! 0) \<le> rc_maxAge c"
      using False by (auto simp: hd_conv_nth)
    ultimately show ?thesis by (intro exI [of _ 0]) simp
  qed
qed

lemma make_room_pops:
  "\<exists>n \<le> length (rc_done c). make_room c = pops n c \<and>
     (\<forall>m < n. rc_maxEntries c \<le> rc_len (pops m c)) \<and>
     (rc_len (pops n c) < rc_maxEntries c \<or> n = length (rc_done c))"
proof (induction c rule: make_room.induct)
  case (1 c)
  show ?case
  proof (cases "rc_len c \<ge> rc_maxEntries c \<and> rc_done c \<noteq> []")
    case True
    then obtain d ds where d: "rc_done c = d # ds" by (cases "rc_done c") auto
    from 1 [OF True] obtain n where n: "n \<le> length ds" "make_room (popDone c) = pops n (popDone c)"
        "\<forall>m < n. rc_maxEntries c \<le> rc_len (pops m (popDone c))"
        "rc_len (pops n (popDone c)) < rc_maxEntries c \<or> n = length ds"
      by (auto simp: popDone_def d)
    have "rc_maxEntries c \<le> rc_len (pops m c)" if "m < Suc n" for m
      using that True n(3) by (cases m) (auto simp: pops_Suc [OF d])
    then show ?thesis
      using True d n by (intro exI [of _ "Suc n"]) (simp add: make_room.simps [of c] pops_Suc [OF d])
  next
    case False
    then show ?thesis by (intro exI [of _ 0]) (auto simp: make_room.simps [of c])
  qed
qed

lemma pops_ok: "rc_ok c \<Longrightarrow> rc_ok (pops n c)"
proof -
  assume ok: "rc_ok c"
  define A B where "A = take n (rc_done c)" and "B = drop n (rc_done c)"
  have AB: "rc_done c = A @ B" by (simp add: A_def B_def)
  have dis: "distinct (map dr_key B)" "dr_key ` set A \<inter> dr_key ` set B = {}"
      and srt: "sorted (map dr_at B)"
      and keys: "dr_key ` set A \<union> dr_key ` set B = {k. \<exists>r. fmlookup (rc_entries c) k = Some (Some r)}"
    using ok unfolding rc_ok_def AB by (auto simp: sorted_append)
  have "dr_key ` set B = {k. k \<notin> dr_key ` set A \<and> (\<exists>r. fmlookup (rc_entries c) k = Some (Some r))}"
    using dis(2) keys by blast
  then have "dr_key ` set B = {k. \<exists>r. fmlookup (rc_entries (pops n c)) k = Some (Some r)}"
    by (auto simp: A_def [symmetric])
  then show ?thesis
    using ok dis srt rc_len_pops [of n c] unfolding rc_ok_def
    by (auto simp: A_def [symmetric] B_def [symmetric] split: if_splits)
qed

section \<open>Runs\<close>

datatype rc_event = RBegin replyKey | RFinish replyKey bytes | RAbandon replyKey

fun rc_exec :: "int \<Rightarrow> rc_event \<Rightarrow> replyCache \<Rightarrow> replyCache" where
  "rc_exec t (RBegin k) c = snd (rc_begin t k c)"
| "rc_exec t (RFinish k r) c = rc_finish t k r c"
| "rc_exec t (RAbandon k) c = rc_abandon k c"

text \<open>The caches a server can come to, with the time of the last call: the clock does not run back.\<close>

inductive rc_reach :: "int \<Rightarrow> int \<Rightarrow> int \<Rightarrow> replyCache \<Rightarrow> bool" for mx age where
  new: "rc_reach mx age t (newReplyCache mx age)"
| step: "rc_reach mx age t c \<Longrightarrow> t \<le> t' \<Longrightarrow> rc_reach mx age t' (rc_exec t' e c)"

definition rc_inv :: "int \<Rightarrow> int \<Rightarrow> int \<Rightarrow> replyCache \<Rightarrow> bool" where
  "rc_inv mx age t c \<longleftrightarrow>
     rc_ok c \<and> rc_maxEntries c = mx \<and> rc_maxAge c = age \<and> (\<forall>d \<in> set (rc_done c). dr_at d \<le> t)"

lemma rc_len_upd:
  "rc_len (c\<lparr>rc_entries := fmupd k v (rc_entries c)\<rparr>) \<le> rc_len c + 1"
  "k |\<in>| fmdom (rc_entries c) \<Longrightarrow> rc_len (c\<lparr>rc_entries := fmupd k v (rc_entries c), rc_done := q\<rparr>) = rc_len c"
  "rc_len (c\<lparr>rc_entries := fmdrop k (rc_entries c)\<rparr>) \<le> rc_len c"
proof -
  show "rc_len (c\<lparr>rc_entries := fmupd k v (rc_entries c)\<rparr>) \<le> rc_len c + 1"
    by (simp add: rc_len_def fcard_finsert_if)
  show "k |\<in>| fmdom (rc_entries c) \<Longrightarrow> rc_len (c\<lparr>rc_entries := fmupd k v (rc_entries c), rc_done := q\<rparr>) = rc_len c"
    by (simp add: rc_len_def finsert_absorb)
  have "fmdom (fmdrop k (rc_entries c)) |\<subseteq>| fmdom (rc_entries c)" by auto
  then show "rc_len (c\<lparr>rc_entries := fmdrop k (rc_entries c)\<rparr>) \<le> rc_len c"
    by (simp add: rc_len_def fcard_mono)
qed

lemma pops_inv: "rc_inv mx age t c \<Longrightarrow> rc_inv mx age t (pops n c)"
  using pops_ok [of c n] by (auto simp: rc_inv_def dest: in_set_dropD)

lemma rc_begin_inv:
  assumes "rc_inv mx age t c" "t \<le> t'"
  shows "rc_inv mx age t' (snd (rc_begin t' k c))"
proof -
  have later: "rc_inv mx age t' x" if "rc_inv mx age t x" for x
    using that assms(2) unfolding rc_inv_def by fastforce
  obtain n where n: "purge t' c = pops n c" using purge_pops by blast
  let ?c1 = "pops n c"
  have i1: "rc_inv mx age t' ?c1" using pops_inv [OF assms(1)] later by blast
  obtain m where m: "make_room ?c1 = pops m ?c1" using make_room_pops by blast
  let ?c2 = "pops m ?c1"
  have i2: "rc_inv mx age t' ?c2" using pops_inv [OF i1] .
  have "rc_inv mx age t' (?c2\<lparr>rc_entries := fmupd k None (rc_entries ?c2)\<rparr>)"
    if "rc_len ?c2 < rc_maxEntries ?c2" "fmlookup (rc_entries ?c1) k = None"
  proof -
    have k: "fmlookup (rc_entries ?c2) k = None" using that(2) by simp
    then have "{j. \<exists>r. fmlookup (fmupd k None (rc_entries ?c2)) j = Some (Some r)} =
        {j. \<exists>r. fmlookup (rc_entries ?c2) j = Some (Some r)}" by auto
    then show ?thesis
      using i2 that(1) k rc_len_upd(1) [where c = ?c2 and k = k and v = None] unfolding rc_inv_def rc_ok_def
      by (simp del: pops_sel(4))
  qed
  then show ?thesis
    using i1 i2 unfolding rc_begin_def n Let_def m
    by (cases "fmlookup (rc_entries ?c1) k") (auto simp del: pops_sel split: option.splits)
qed

lemma rc_abandon_inv:
  assumes "rc_inv mx age t c"
  shows "rc_inv mx age t (abandonLocked k c)"
proof (cases "fmlookup (rc_entries c) k = Some None")
  case True
  then have "{j. \<exists>r. fmlookup (fmdrop k (rc_entries c)) j = Some (Some r)} =
      {j. \<exists>r. fmlookup (rc_entries c) j = Some (Some r)}" by auto
  then show ?thesis
    using assms True rc_len_upd(3) [where c = c and k = k] unfolding rc_inv_def rc_ok_def abandonLocked_def by auto
next
  case False
  with assms show ?thesis by (simp add: abandonLocked_def)
qed

lemma rc_finish_inv:
  assumes "rc_inv mx age t c" "t \<le> t'"
  shows "rc_inv mx age t' (rc_finish t' k r c)"
proof -
  have later: "rc_inv mx age t' x" if "rc_inv mx age t x" for x
    using that assms(2) unfolding rc_inv_def by fastforce
  show ?thesis
  proof (cases "r = [] \<or> fmlookup (rc_entries c) k \<noteq> Some None")
    case True
    then show ?thesis using assms later rc_abandon_inv [of mx age t c k]
      by (auto simp: rc_finish_def split: option.splits)
  next
    case False
    let ?c1 = "c\<lparr>rc_entries := fmupd k (Some r) (rc_entries c),
                 rc_done := rc_done c @ [\<lparr>dr_key = k, dr_at = t'\<rparr>]\<rparr>"
    have e: "rc_finish t' k r c = ?c1" using False by (simp add: rc_finish_def)
    have nk: "k \<notin> dr_key ` set (rc_done c)" using False assms(1) unfolding rc_inv_def rc_ok_def by auto
    have "{j. \<exists>q. fmlookup (rc_entries ?c1) j = Some (Some q)} =
        insert k {j. \<exists>q. fmlookup (rc_entries c) j = Some (Some q)}" by auto
    moreover have "k |\<in>| fmdom (rc_entries c)" using False by (simp add: fmlookup_dom_iff)
    moreover have "sorted (map dr_at (rc_done c) @ [t'])"
      using assms unfolding rc_inv_def rc_ok_def by (fastforce simp: sorted_append)
    ultimately show ?thesis
      using assms False nk rc_len_upd(2) [where c = c and k = k and v = "Some r"] unfolding e rc_inv_def rc_ok_def
      by (auto simp: image_iff)
  qed
qed

lemma rc_exec_inv: "rc_inv mx age t c \<Longrightarrow> t \<le> t' \<Longrightarrow> rc_inv mx age t' (rc_exec t' e c)"
proof (cases e)
  case (RAbandon k)
  assume "rc_inv mx age t c" "t \<le> t'"
  then have "rc_inv mx age t' c" unfolding rc_inv_def by fastforce
  then show ?thesis using RAbandon rc_abandon_inv by (simp add: rc_abandon_def)
qed (simp_all add: rc_begin_inv rc_finish_inv)

lemma rc_reach_inv: "rc_reach mx age t c \<Longrightarrow> rc_inv mx age t c"
proof (induction rule: rc_reach.induct)
  case (new t)
  then show ?case by (simp add: rc_inv_def rc_ok_def newReplyCache_def rc_len_def fcard.rep_eq)
qed (rule rc_exec_inv)

section \<open>Properties\<close>

text \<open>
  C33. The reply cache keeps within its bound: after any calls of \<open>begin\<close>, \<open>finish\<close> and \<open>abandon\<close>, in any
  order and with a clock that does not run back, it holds at most its limit of entries, in flight and
  done alike; the eviction queue holds exactly the done entries, each once, oldest first; no stored
  reply is empty.
\<close>

theorem reply_cache_bounded:
  assumes "rc_reach mx age t c"
  shows "rc_len c \<le> max 0 mx \<and> distinct (map dr_key (rc_done c)) \<and> sorted (map dr_at (rc_done c)) \<and>
    dr_key ` set (rc_done c) = {k. \<exists>r. fmlookup (rc_entries c) k = Some (Some r)} \<and>
    (\<forall>k. fmlookup (rc_entries c) k \<noteq> Some (Some []))"
  using rc_reach_inv [OF assms] unfolding rc_inv_def rc_ok_def by auto

lemma pops_add: "a \<le> length (rc_done c) \<Longrightarrow> pops b (pops a c) = pops (a + b) c"
proof -
  have "take (a + b) (rc_done c) = take a (rc_done c) @ take b (drop a (rc_done c))" by (simp add: take_add)
  then have "fmfilter (\<lambda>k. k \<notin> dr_key ` set (take b (drop a (rc_done c))))
        (fmfilter (\<lambda>k. k \<notin> dr_key ` set (take a (rc_done c))) (rc_entries c)) =
      fmfilter (\<lambda>k. k \<notin> dr_key ` set (take (a + b) (rc_done c))) (rc_entries c)"
    by (intro fmap_ext) (auto simp: image_Un)
  then show ?thesis by (simp add: pops_def add.commute cong del: fmfilter_cong)
qed

text \<open>
  What one \<open>begin\<close> takes off the queue: the expired entries, and then, for a key it does not know, the
  oldest ones while the cache is full.
\<close>

lemma rc_begin_drops:
  assumes "rc_inv mx age t c" "fmlookup (rc_entries c) k = Some v"
    "fmlookup (rc_entries (snd (rc_begin t' k' c))) k \<noteq> Some v"
  shows "v \<noteq> None \<and> (\<exists>j < length (rc_done c). dr_key (rc_done c ! j) = k \<and>
    (age < t' - dr_at (rc_done c ! j) \<or> k' \<noteq> k \<and> mx \<le> rc_len (pops j c)))"
proof -
  have par: "rc_maxEntries c = mx" "rc_maxAge c = age" using assms(1) by (simp_all add: rc_inv_def)
  obtain n where n: "n \<le> length (rc_done c)" "purge t' c = pops n c"
      "\<forall>d \<in> set (take n (rc_done c)). t' - dr_at d > age"
    using purge_pops [of c t'] par by auto
  obtain m where m: "m \<le> length (rc_done (pops n c))" "make_room (pops n c) = pops m (pops n c)"
      "\<forall>i < m. mx \<le> rc_len (pops i (pops n c))"
    using make_room_pops [of "pops n c"] par by auto
  have mn: "pops i (pops n c) = pops (n + i) c" for i using n(1) by (rule pops_add)
  have keys: "v \<noteq> None \<and> (\<exists>j < length (rc_done c). j < q \<and> dr_key (rc_done c ! j) = k)"
    if "k \<in> dr_key ` set (take q (rc_done c))" for q
  proof -
    from that obtain j where "j < q" "j < length (rc_done c)" "dr_key (rc_done c ! j) = k"
      by (auto simp: in_set_conv_nth)
    moreover from this have "k \<in> dr_key ` set (rc_done c)" by auto
    ultimately show ?thesis using assms(1,2) unfolding rc_inv_def rc_ok_def by auto
  qed
  have expired: ?thesis if "k \<in> dr_key ` set (take n (rc_done c))"
  proof -
    from keys [OF that] obtain j where j: "j < length (rc_done c)" "j < n" "dr_key (rc_done c ! j) = k" "v \<noteq> None" by blast
    then have "rc_done c ! j \<in> set (take n (rc_done c))" by (auto simp: in_set_conv_nth)
    with n(3) j show ?thesis by blast
  qed
  show ?thesis
  proof (cases "k \<in> dr_key ` set (take n (rc_done c))")
    case True
    then show ?thesis by (rule expired)
  next
    case False
    then have k1: "fmlookup (rc_entries (pops n c)) k = Some v" using assms(2) by simp
    have kk: "k' \<noteq> k \<and> fmlookup (rc_entries (pops n c)) k' = None"
      using assms(3) k1 unfolding rc_begin_def n(2) Let_def by (auto split: option.splits simp del: pops_sel)
    then have "fmlookup (rc_entries (pops m (pops n c))) k \<noteq> Some v"
      using assms(3) unfolding rc_begin_def n(2) Let_def m(2) by (auto split: if_splits simp del: pops_sel)
    then have "k \<in> dr_key ` set (take (n + m) (rc_done c))" unfolding mn using assms(2) by (auto split: if_splits)
    from keys [OF this] obtain j where j: "j < length (rc_done c)" "j < n + m" "dr_key (rc_done c ! j) = k" "v \<noteq> None" by blast
    have "n \<le> j"
    proof (rule ccontr)
      assume "\<not> n \<le> j"
      then have "rc_done c ! j \<in> set (take n (rc_done c))" using j(1) by (auto simp: in_set_conv_nth)
      with False j(3) show False by blast
    qed
    then have "mx \<le> rc_len (pops j c)" using m(3) [rule_format, of "j - n"] j(2) unfolding mn by auto
    with j kk show ?thesis by blast
  qed
qed

lemma rc_begin_answers:
  assumes "rc_inv mx age t c" "fmlookup (rc_entries c) k = Some v"
  shows "v = None \<Longrightarrow> fst (rc_begin t' k c) = (None, cacheInFlight)"
    and "v = Some r \<Longrightarrow> j < length (rc_done c) \<Longrightarrow> dr_key (rc_done c ! j) = k \<Longrightarrow>
      t' - dr_at (rc_done c ! j) \<le> age \<Longrightarrow> fst (rc_begin t' k c) = (Some r, cacheHit)"
proof -
  obtain n where n: "n \<le> length (rc_done c)" "purge t' c = pops n c"
      "\<forall>d \<in> set (take n (rc_done c)). t' - dr_at d > age"
    using purge_pops [of c t'] assms(1) by (auto simp: rc_inv_def)
  have dk: "distinct (map dr_key (rc_done c))"
      "dr_key ` set (rc_done c) = {k. \<exists>r. fmlookup (rc_entries c) k = Some (Some r)}"
    using assms(1) by (simp_all add: rc_inv_def rc_ok_def)
  have still: "fst (rc_begin t' k c) = (case v of None \<Rightarrow> (None, cacheInFlight) | Some r \<Rightarrow> (Some r, cacheHit))"
    if "k \<notin> dr_key ` set (take n (rc_done c))"
    using that assms(2) unfolding rc_begin_def n(2) Let_def by (simp split: option.splits)
  show "fst (rc_begin t' k c) = (None, cacheInFlight)" if "v = None"
  proof -
    have "k \<notin> dr_key ` set (rc_done c)" using that assms(2) dk(2) by auto
    then show ?thesis using still that by (auto dest: in_set_takeD)
  qed
  show "fst (rc_begin t' k c) = (Some r, cacheHit)"
    if "v = Some r" "j < length (rc_done c)" "dr_key (rc_done c ! j) = k" "t' - dr_at (rc_done c ! j) \<le> age"
  proof -
    have "k \<notin> dr_key ` set (take n (rc_done c))"
    proof
      assume "k \<in> dr_key ` set (take n (rc_done c))"
      then obtain i where i: "i < n" "i < length (rc_done c)" "dr_key (rc_done c ! i) = k"
        by (auto simp: in_set_conv_nth)
      then have "i = j" using dk(1) that(2,3) by (metis distinct_conv_nth length_map nth_map)
      moreover have "rc_done c ! i \<in> set (take n (rc_done c))" using i by (auto simp: in_set_conv_nth)
      ultimately show False using n(3) that(4) by auto
    qed
    then show ?thesis using still that(1) by simp
  qed
qed

text \<open>
  C21. A call is executed at most once while its entry lives. A duplicate of a call still executing is
  told so, and a duplicate of a finished one gets the very bytes the original produced, as long as the
  reply is no older than the maximum age. Whatever call follows, an entry changes only in three ways:
  its own \<open>finish\<close> or \<open>abandon\<close> ends it while it is in flight, a \<open>begin\<close> finds it expired, or a \<open>begin\<close> of
  another key evicts it from a cache in which the entries in flight or finished no earlier than it
  already reach the limit. An in-flight marker is never evicted.
\<close>

theorem reply_cache_at_most_once:
  assumes "rc_reach mx age t c" "fmlookup (rc_entries c) k = Some v"
  shows "(v = None \<longrightarrow> fst (rc_begin t' k c) = (None, cacheInFlight)) \<and>
    (\<forall>r j. v = Some r \<and> j < length (rc_done c) \<and> dr_key (rc_done c ! j) = k \<and> t' - dr_at (rc_done c ! j) \<le> age \<longrightarrow>
       fst (rc_begin t' k c) = (Some r, cacheHit)) \<and>
    (fmlookup (rc_entries (rc_exec t' e c)) k \<noteq> Some v \<longrightarrow>
       v = None \<and> (e = RAbandon k \<or> (\<exists>r. e = RFinish k r)) \<or>
       v \<noteq> None \<and> (\<exists>k' j. e = RBegin k' \<and> j < length (rc_done c) \<and> dr_key (rc_done c ! j) = k \<and>
         (age < t' - dr_at (rc_done c ! j) \<or> k' \<noteq> k \<and> mx \<le> rc_len (pops j c))))"
proof (intro conjI impI allI)
  have I: "rc_inv mx age t c" using assms(1) by (rule rc_reach_inv)
  show "fst (rc_begin t' k c) = (None, cacheInFlight)" if "v = None"
    using rc_begin_answers(1) [OF I assms(2) that] .
  show "fst (rc_begin t' k c) = (Some r, cacheHit)"
    if "v = Some r \<and> j < length (rc_done c) \<and> dr_key (rc_done c ! j) = k \<and> t' - dr_at (rc_done c ! j) \<le> age" for r j
    using rc_begin_answers(2) [OF I assms(2)] that by blast
  assume ch: "fmlookup (rc_entries (rc_exec t' e c)) k \<noteq> Some v"
  show "v = None \<and> (e = RAbandon k \<or> (\<exists>r. e = RFinish k r)) \<or>
       v \<noteq> None \<and> (\<exists>k' j. e = RBegin k' \<and> j < length (rc_done c) \<and> dr_key (rc_done c ! j) = k \<and>
         (age < t' - dr_at (rc_done c ! j) \<or> k' \<noteq> k \<and> mx \<le> rc_len (pops j c)))"
  proof (cases e)
    case (RBegin k')
    with ch rc_begin_drops [OF I assms(2), of t' k'] show ?thesis by auto
  next
    case (RFinish k' r)
    with ch assms(2) show ?thesis
      by (cases "k' = k") (auto simp: rc_finish_def abandonLocked_def split: option.splits if_splits)
  next
    case (RAbandon k')
    with ch assms(2) show ?thesis by (cases "k' = k") (auto simp: rc_abandon_def abandonLocked_def split: if_splits)
  qed
qed

text \<open>
  A call the cache does not know, with fewer calls in flight than the limit: \<open>begin\<close> reserves its key,
  and after \<open>finish\<close> a duplicate gets the reply until it expires.
\<close>

definition in_flight :: "replyCache \<Rightarrow> replyKey fset" where
  "in_flight c = ffilter (\<lambda>k. fmlookup (rc_entries c) k = Some None) (fmdom (rc_entries c))"

lemma in_flight_pops:
  assumes "rc_inv mx age t c"
  shows "in_flight (pops n c) = in_flight c"
proof -
  have "k \<notin> dr_key ` set (take n (rc_done c))" if "fmlookup (rc_entries c) k = Some None" for k
  proof -
    have "k \<notin> dr_key ` set (rc_done c)" using assms that unfolding rc_inv_def rc_ok_def by simp
    then show ?thesis by (auto dest: in_set_takeD)
  qed
  then show ?thesis
    by (intro fset_eqI) (auto simp: in_flight_def fmlookup_dom_iff split: if_splits)
qed

lemma in_flight_all:
  assumes "rc_inv mx age t c" "rc_done c = []"
  shows "rc_len c = int (fcard (in_flight c))"
proof -
  have "in_flight c = fmdom (rc_entries c)"
    using assms unfolding rc_inv_def rc_ok_def
    by (intro fset_eqI) (auto simp: in_flight_def fmlookup_dom_iff, metis option.exhaust)
  then show ?thesis by (simp add: rc_len_def)
qed

lemma rc_begin_reserves:
  assumes I: "rc_inv mx age t c" and k: "fmlookup (rc_entries c) k = None" and few: "int (fcard (in_flight c)) < mx"
  obtains c1 where "rc_begin t1 k c = ((None, cacheMiss), c1)" "fmlookup (rc_entries c1) k = Some None"
proof -
  obtain n where n: "purge t1 c = pops n c" using purge_pops by blast
  obtain m where m: "make_room (pops n c) = pops m (pops n c)"
      "rc_len (pops m (pops n c)) < mx \<or> m = length (rc_done (pops n c))"
    using make_room_pops [of "pops n c"] I by (auto simp: rc_inv_def)
  let ?c2 = "pops m (pops n c)"
  have I1: "rc_inv mx age t (pops n c)" using pops_inv [OF I] .
  have I2: "rc_inv mx age t ?c2" using pops_inv [OF I1] .
  have len: "rc_len ?c2 < mx"
  proof (cases "rc_len ?c2 < mx")
    case False
    then have "rc_done ?c2 = []" using m(2) by simp
    from in_flight_all [OF I2 this] show ?thesis using few in_flight_pops [OF I1] in_flight_pops [OF I] by simp
  qed
  have "rc_begin t1 k c = ((None, cacheMiss), ?c2\<lparr>rc_entries := fmupd k None (rc_entries ?c2)\<rparr>)"
    using k len I unfolding rc_begin_def n Let_def m(1) by (simp add: rc_inv_def)
  then show thesis by (rule that) simp
qed

section \<open>How long a stored reply stays\<close>

text \<open>
  The entries that stand between a stored reply and its eviction: those in flight, and those finished no
  earlier than it. Only a \<open>begin\<close> can add one.
\<close>

definition from_key :: "replyKey \<Rightarrow> replyCache \<Rightarrow> doneRef list" where
  "from_key k c = dropWhile (\<lambda>d. dr_key d \<noteq> k) (rc_done c)"

definition younger :: "replyKey \<Rightarrow> replyCache \<Rightarrow> nat" where
  "younger k c = fcard (in_flight c) + length (from_key k c)"

definition begins :: "(int \<times> rc_event) list \<Rightarrow> nat" where
  "begins evs = length (filter (\<lambda>(_, e). \<exists>k. e = RBegin k) evs)"

fun rc_run :: "(int \<times> rc_event) list \<Rightarrow> replyCache \<Rightarrow> replyCache" where
  "rc_run [] c = c"
| "rc_run ((t, e) # evs) c = rc_run evs (rc_exec t e c)"

definition stored_at :: "replyKey \<Rightarrow> int \<Rightarrow> bytes \<Rightarrow> replyCache \<Rightarrow> bool" where
  "stored_at k t r c \<longleftrightarrow> fmlookup (rc_entries c) k = Some (Some r) \<and> \<lparr>dr_key = k, dr_at = t\<rparr> \<in> set (rc_done c)"

lemma rc_len_split:
  assumes "rc_inv mx age t c"
  shows "rc_len c = int (fcard (in_flight c) + length (rc_done c))"
proof -
  have D: "distinct (map dr_key (rc_done c))" "set (map dr_key (rc_done c)) = {k. \<exists>r. fmlookup (rc_entries c) k = Some (Some r)}"
    using assms by (simp_all add: rc_inv_def rc_ok_def)
  have in_D: "dr_key d \<in> {k. \<exists>r. fmlookup (rc_entries c) k = Some (Some r)}" if "d \<in> set (rc_done c)" for d
    using that D(2) by auto
  have ex: "\<exists>d \<in> set (rc_done c). k = dr_key d" if "fmlookup (rc_entries c) k = Some (Some r)" for k r
    using that D(2) by (metis (mono_tags, lifting) imageE list.set_map mem_Collect_eq)
  have e: "fmdom (rc_entries c) = in_flight c |\<union>| fset_of_list (map dr_key (rc_done c))"
  proof (rule fset_eqI)
    fix k
    show "k |\<in>| fmdom (rc_entries c) \<longleftrightarrow> k |\<in>| in_flight c |\<union>| fset_of_list (map dr_key (rc_done c))"
      using in_D ex by (cases "fmlookup (rc_entries c) k"; cases "the (fmlookup (rc_entries c) k)")
        (fastforce simp: in_flight_def fmlookup_dom_iff fset_of_list_elem)+
  qed
  have "in_flight c |\<inter>| fset_of_list (map dr_key (rc_done c)) = {||}"
    using in_D by (fastforce simp: in_flight_def fset_of_list_elem)
  then have "fcard (fmdom (rc_entries c)) = fcard (in_flight c) + fcard (fset_of_list (map dr_key (rc_done c)))"
    unfolding e by (rule fcard_funion_disjoint)
  also have "fcard (fset_of_list (map dr_key (rc_done c))) = length (rc_done c)"
    using distinct_card [OF D(1)] by (simp add: fcard.rep_eq fset_of_list.rep_eq)
  finally show ?thesis by (simp add: rc_len_def)
qed

lemma from_key_nth:
  assumes "distinct (map dr_key (rc_done c))" "j < length (rc_done c)" "dr_key (rc_done c ! j) = k"
  shows "from_key k c = drop j (rc_done c)"
proof -
  have "dr_key d \<noteq> k" if "d \<in> set (take j (rc_done c))" for d
  proof -
    from that obtain i where "i < j" "d = rc_done c ! i" by (auto simp: in_set_conv_nth)
    then show ?thesis using assms by (metis (no_types, lifting) distinct_conv_nth length_map nth_map less_irrefl less_trans)
  qed
  then have "dropWhile (\<lambda>d. dr_key d \<noteq> k) (take j (rc_done c) @ drop j (rc_done c)) = dropWhile (\<lambda>d. dr_key d \<noteq> k) (drop j (rc_done c))"
    by (intro dropWhile_append2) auto
  note dw = this [unfolded append_take_drop_id]
  have "drop j (rc_done c) = rc_done c ! j # drop (Suc j) (rc_done c)" using assms(2) by (simp add: Cons_nth_drop_Suc)
  then show ?thesis using assms(3) dw by (simp add: from_key_def)
qed

lemma younger_nth:
  assumes "rc_inv mx age t c" "j < length (rc_done c)" "dr_key (rc_done c ! j) = k"
  shows "rc_len (pops j c) = int (younger k c)"
proof -
  have "distinct (map dr_key (rc_done c))" using assms(1) by (simp add: rc_inv_def rc_ok_def)
  then show ?thesis
    using rc_len_split [OF pops_inv [OF assms(1), of j]] in_flight_pops [OF assms(1), of j] from_key_nth assms(2,3)
    by (simp add: younger_def)
qed

lemma from_key_pops: "k \<notin> dr_key ` set (take n (rc_done c)) \<Longrightarrow> from_key k (pops n c) = from_key k c"
proof -
  assume n: "k \<notin> dr_key ` set (take n (rc_done c))"
  have "dropWhile (\<lambda>d. dr_key d \<noteq> k) (take n (rc_done c) @ drop n (rc_done c)) = dropWhile (\<lambda>d. dr_key d \<noteq> k) (drop n (rc_done c))"
    using n by (intro dropWhile_append2) auto
  then show ?thesis by (simp add: from_key_def)
qed

lemma in_flight_upd: "fcard (in_flight (c\<lparr>rc_entries := fmupd k None (rc_entries c)\<rparr>)) \<le> Suc (fcard (in_flight c))"
proof -
  have "in_flight (c\<lparr>rc_entries := fmupd k None (rc_entries c)\<rparr>) |\<subseteq>| finsert k (in_flight c)"
    by (auto simp: in_flight_def split: if_splits)
  then have "fcard (in_flight (c\<lparr>rc_entries := fmupd k None (rc_entries c)\<rparr>)) \<le> fcard (finsert k (in_flight c))" by (rule fcard_mono)
  then show ?thesis by (simp add: fcard_finsert_if split: if_splits)
qed

text \<open>A \<open>begin\<close> takes entries off the queue and adds at most its own.\<close>

lemma rc_begin_pops:
  assumes "rc_inv mx age t c"
  obtains n where "snd (rc_begin t' k' c) = pops n c \<or>
    fmlookup (rc_entries (pops n c)) k' = None \<and> snd (rc_begin t' k' c) = (pops n c)\<lparr>rc_entries := fmupd k' None (rc_entries (pops n c))\<rparr>"
proof -
  obtain n where n: "n \<le> length (rc_done c)" "purge t' c = pops n c" using purge_pops by blast
  obtain m where m: "make_room (pops n c) = pops m (pops n c)" using make_room_pops by blast
  have mn: "pops m (pops n c) = pops (n + m) c" using n(1) by (rule pops_add)
  show thesis
  proof (cases "fmlookup (rc_entries (pops n c)) k'")
    case None
    moreover from None have "fmlookup (rc_entries (pops (n + m) c)) k' = None" unfolding mn [symmetric] by simp
    ultimately show ?thesis using that [of "n + m"] unfolding rc_begin_def n(2) Let_def m mn by (auto split: if_splits)
  next
    case (Some v)
    then show ?thesis using that [of n] unfolding rc_begin_def n(2) Let_def by (auto split: option.splits)
  qed
qed

lemma rc_begin_younger:
  assumes "rc_inv mx age t c" "fmlookup (rc_entries c) k = Some (Some r)"
    "fmlookup (rc_entries (snd (rc_begin t' k' c))) k = Some (Some r)"
  shows "younger k (snd (rc_begin t' k' c)) \<le> Suc (younger k c)" "set (rc_done (snd (rc_begin t' k' c))) \<subseteq> set (rc_done c)"
proof -
  obtain n where n: "snd (rc_begin t' k' c) = pops n c \<or>
    fmlookup (rc_entries (pops n c)) k' = None \<and> snd (rc_begin t' k' c) = (pops n c)\<lparr>rc_entries := fmupd k' None (rc_entries (pops n c))\<rparr>"
    by (rule rc_begin_pops [OF assms(1)])
  have "fmlookup (rc_entries (pops n c)) k = Some (Some r)" using n assms(3) by (auto split: if_splits)
  then have k: "k \<notin> dr_key ` set (take n (rc_done c))" by (auto split: if_splits)
  have "from_key k ((pops n c)\<lparr>rc_entries := x\<rparr>) = from_key k c" for x
    using from_key_pops [OF k] by (simp add: from_key_def)
  then show "younger k (snd (rc_begin t' k' c)) \<le> Suc (younger k c)"
    using n from_key_pops [OF k] in_flight_pops [OF assms(1), of n] in_flight_upd [where c = "pops n c" and k = k']
    unfolding younger_def by auto
  show "set (rc_done (snd (rc_begin t' k' c))) \<subseteq> set (rc_done c)" using n by (auto dest: in_set_dropD)
qed

lemma rc_begin_in_flight:
  assumes "rc_inv mx age t c"
  shows "fcard (in_flight (snd (rc_begin t' k' c))) \<le> Suc (fcard (in_flight c))"
proof -
  obtain n where n: "snd (rc_begin t' k' c) = pops n c \<or>
    fmlookup (rc_entries (pops n c)) k' = None \<and> snd (rc_begin t' k' c) = (pops n c)\<lparr>rc_entries := fmupd k' None (rc_entries (pops n c))\<rparr>"
    by (rule rc_begin_pops [OF assms])
  then show ?thesis using in_flight_pops [OF assms, of n] in_flight_upd [where c = "pops n c" and k = k'] by auto
qed

lemma abandon_younger: "younger k (abandonLocked k' c) \<le> younger k c" "rc_done (abandonLocked k' c) = rc_done c"
proof -
  have "in_flight (abandonLocked k' c) |\<subseteq>| in_flight c" by (auto simp: in_flight_def abandonLocked_def split: if_splits)
  then have "fcard (in_flight (abandonLocked k' c)) \<le> fcard (in_flight c)" by (rule fcard_mono)
  moreover show d: "rc_done (abandonLocked k' c) = rc_done c" by (simp add: abandonLocked_def)
  ultimately show "younger k (abandonLocked k' c) \<le> younger k c" by (simp add: younger_def from_key_def d)
qed

lemma finish_younger:
  assumes "fmlookup (rc_entries c) k' = Some None" "r' \<noteq> []"
  shows "younger k (rc_finish t' k' r' c) \<le> younger k c"
proof -
  let ?c = "rc_finish t' k' r' c"
  have "in_flight ?c = in_flight c |-| {|k'|}"
    using assms by (intro fset_eqI) (auto simp: in_flight_def rc_finish_def)
  moreover have "k' |\<in>| in_flight c" using assms(1) by (simp add: in_flight_def fmlookup_dom_iff)
  ultimately have "Suc (fcard (in_flight ?c)) = fcard (in_flight c)" by (metis fcard_Suc_fminus1)
  moreover have "length (from_key k ?c) \<le> Suc (length (from_key k c))"
    using assms by (simp add: from_key_def rc_finish_def dropWhile_append split: if_splits)
  ultimately show ?thesis by (simp add: younger_def)
qed

lemma rc_exec_stored:
  assumes I: "rc_inv mx age t c" and k: "stored_at k t2 r c" and t: "t \<le> t'" "t' - t2 \<le> age"
    and few: "int (younger k c) < mx \<or> (\<forall>k'. e \<noteq> RBegin k')"
  shows "stored_at k t2 r (rc_exec t' e c) \<and>
    younger k (rc_exec t' e c) \<le> younger k c + (if \<exists>k'. e = RBegin k' then 1 else 0)"
proof (cases e)
  case (RBegin k')
  have lk: "fmlookup (rc_entries c) k = Some (Some r)" using k by (simp add: stored_at_def)
  obtain j where j: "j < length (rc_done c)" "rc_done c ! j = \<lparr>dr_key = k, dr_at = t2\<rparr>"
    using k by (auto simp: stored_at_def in_set_conv_nth)
  have dist: "distinct (map dr_key (rc_done c))" using I by (simp add: rc_inv_def rc_ok_def)
  have same: "i = j" if "i < length (rc_done c)" "dr_key (rc_done c ! i) = k" for i
    using that j dist by (metis distinct_conv_nth doneRef.select_convs(1) length_map nth_map)
  have "fmlookup (rc_entries (snd (rc_begin t' k' c))) k = Some (Some r)"
  proof (rule ccontr)
    assume "\<not> ?thesis"
    from rc_begin_drops [OF I lk this] obtain i where i: "i < length (rc_done c)" "dr_key (rc_done c ! i) = k"
        "age < t' - dr_at (rc_done c ! i) \<or> mx \<le> rc_len (pops i c)" by blast
    then show False using same [OF i(1,2)] j t(2) few RBegin younger_nth [OF I i(1,2)] by auto
  qed
  note keep = this rc_begin_younger [OF I lk this]
  have "rc_inv mx age t' (snd (rc_begin t' k' c))" using rc_begin_inv [OF I t(1)] .
  then have "k \<in> dr_key ` set (rc_done (snd (rc_begin t' k' c)))" using keep(1) by (auto simp: rc_inv_def rc_ok_def)
  then obtain d where d: "d \<in> set (rc_done (snd (rc_begin t' k' c)))" "dr_key d = k" by auto
  then obtain i where "i < length (rc_done c)" "rc_done c ! i = d" using keep(3) by (meson in_set_conv_nth subsetD)
  then have "d = \<lparr>dr_key = k, dr_at = t2\<rparr>" using same [of i] d(2) j(2) by auto
  then show ?thesis using keep(1,2) d(1) RBegin by (simp add: stored_at_def)
next
  case (RFinish k' r')
  show ?thesis
  proof (cases "r' = [] \<or> fmlookup (rc_entries c) k' \<noteq> Some None")
    case True
    then show ?thesis using RFinish k abandon_younger(1) [of k k' c]
      by (auto simp: rc_finish_def stored_at_def abandonLocked_def split: option.splits)
  next
    case False
    then show ?thesis using RFinish k finish_younger [of c k' r' k t']
      by (auto simp: rc_finish_def stored_at_def)
  qed
next
  case (RAbandon k')
  then show ?thesis using k abandon_younger(1) [of k k' c] by (auto simp: rc_abandon_def stored_at_def abandonLocked_def)
qed

lemma begins_Cons: "begins ((t, e) # evs) = (if \<exists>k. e = RBegin k then 1 else 0) + begins evs"
  by (simp add: begins_def)

lemma rc_run_stored:
  assumes "rc_inv mx age t c" "stored_at k t2 r c" "sorted (t # map fst evs)" "\<forall>x \<in> fst ` set evs. x - t2 \<le> age"
    and "int (younger k c + begins evs) \<le> mx"
  shows "\<exists>t' \<in> insert t (fst ` set evs). rc_inv mx age t' (rc_run evs c) \<and> stored_at k t2 r (rc_run evs c)"
  using assms
proof (induction evs arbitrary: t c)
  case (Cons ev evs)
  obtain t1 e where ev: "ev = (t1, e)" by fastforce
  have t1: "t \<le> t1" "t1 - t2 \<le> age" using Cons.prems(3,4) ev by auto
  have "int (younger k c) < mx \<or> (\<forall>k'. e \<noteq> RBegin k')" using Cons.prems(5) unfolding ev begins_Cons by auto
  note st = rc_exec_stored [OF Cons.prems(1,2) t1 this]
  have I: "rc_inv mx age t1 (rc_exec t1 e c)" using rc_exec_inv [OF Cons.prems(1) t1(1)] .
  have "int (younger k (rc_exec t1 e c) + begins evs) \<le> mx" using st Cons.prems(5) unfolding ev begins_Cons by auto
  then have "\<exists>t' \<in> insert t1 (fst ` set evs). rc_inv mx age t' (rc_run evs (rc_exec t1 e c)) \<and> stored_at k t2 r (rc_run evs (rc_exec t1 e c))"
    using Cons.IH [OF I conjunct1 [OF st]] Cons.prems(3,4) ev by auto
  then show ?case using ev by auto
qed auto

lemma rc_finish_stored:
  assumes "fmlookup (rc_entries c) k = Some None" "r \<noteq> []" "rc_inv mx age t c"
  shows "stored_at k t2 r (rc_finish t2 k r c)" "younger k (rc_finish t2 k r c) = fcard (in_flight c)"
proof -
  show "stored_at k t2 r (rc_finish t2 k r c)" using assms(1,2) by (simp add: stored_at_def rc_finish_def)
  have "k \<notin> dr_key ` set (rc_done c)" using assms(1,3) by (simp add: rc_inv_def rc_ok_def)
  then have "dropWhile (\<lambda>d. dr_key d \<noteq> k) (rc_done c @ [\<lparr>dr_key = k, dr_at = t2\<rparr>]) = [\<lparr>dr_key = k, dr_at = t2\<rparr>]"
    by (subst dropWhile_append2) auto
  moreover have "in_flight (rc_finish t2 k r c) = in_flight c |-| {|k|}"
    using assms by (intro fset_eqI) (auto simp: in_flight_def rc_finish_def)
  moreover have "k |\<in>| in_flight c" using assms(1) by (simp add: in_flight_def fmlookup_dom_iff)
  ultimately show "younger k (rc_finish t2 k r c) = fcard (in_flight c)"
    using assms(1,2) fcard_Suc_fminus1 [of k "in_flight c"] by (simp add: younger_def from_key_def rc_finish_def)
qed

text \<open>
  What \<open>finish\<close> stored is replayed, whatever calls of the cache are made in between, as long as the reply has
  not expired and the calls begun since, with those that were in flight, do not fill the cache.
\<close>

lemma rc_replays:
  assumes I: "rc_inv mx age t c" and k: "fmlookup (rc_entries c) k = Some None" and r: "r \<noteq> []"
    and t: "t \<le> t2" "sorted (t2 # map fst evs @ [t3])" "t3 - t2 \<le> age"
    and few: "int (fcard (in_flight c) + begins evs) \<le> mx"
  shows "fst (rc_begin t3 k (rc_run evs (rc_finish t2 k r c))) = (Some r, cacheHit)"
proof -
  let ?c = "rc_finish t2 k r c"
  have "rc_inv mx age t2 ?c" using rc_finish_inv [OF I t(1)] .
  moreover have "\<forall>x \<in> fst ` set evs. x - t2 \<le> age" using t(2,3) by (fastforce simp: sorted_append)
  moreover have "int (younger k ?c + begins evs) \<le> mx" using few by (simp add: rc_finish_stored(2) [OF k r I])
  moreover have "sorted (t2 # map fst evs)" using t(2) by (auto simp: sorted_append)
  ultimately obtain t' where R: "rc_inv mx age t' (rc_run evs ?c)" "stored_at k t2 r (rc_run evs ?c)"
    using rc_run_stored [OF _ rc_finish_stored(1) [OF k r I]] by blast
  then obtain j where "j < length (rc_done (rc_run evs ?c))" "rc_done (rc_run evs ?c) ! j = \<lparr>dr_key = k, dr_at = t2\<rparr>"
      "fmlookup (rc_entries (rc_run evs ?c)) k = Some (Some r)"
    by (auto simp: stored_at_def in_set_conv_nth)
  then show ?thesis using rc_begin_answers(2) [OF R(1), of k "Some r" r j t3] t(3) by simp
qed

text \<open>A cache of one entry in which a RENAME has been answered at time 7.\<close>

definition rename_key :: replyKey where
  "rename_key = \<lparr>rk_conn = 1, rk_xid = 77, rk_prog = 100003, rk_vers = 3, rk_proc = 14\<rparr>"

definition answered :: replyCache where
  "answered = rc_exec 7 (RFinish rename_key [1, 2]) (rc_exec 5 (RBegin rename_key) (newReplyCache 1 120))"

lemma answered_reached: "rc_reach 1 120 7 answered"
proof -
  have "rc_reach 1 120 5 (rc_exec 5 (RBegin rename_key) (newReplyCache 1 120))"
    by (rule rc_reach.step [OF rc_reach.new, of 0]) simp
  then show ?thesis unfolding answered_def by (rule rc_reach.step) simp
qed

lemma answered_eq:
  "answered = \<lparr>rc_maxEntries = 1, rc_maxAge = 120, rc_entries = fmupd rename_key (Some [1, 2]) (fmupd rename_key None fmempty),
     rc_done = [\<lparr>dr_key = rename_key, dr_at = 7\<rparr>]\<rparr>"
  by (simp add: answered_def rc_begin_def rc_finish_def newReplyCache_def purge.simps make_room.simps rc_len_def fcard.rep_eq)

theorem reply_cache_bounded_witness:
  "rc_len answered \<le> 1 \<and> dr_key ` set (rc_done answered) = {rename_key}"
  using reply_cache_bounded [OF answered_reached] by (simp add: answered_eq)

theorem reply_cache_at_most_once_witness:
  "fst (rc_begin 127 rename_key answered) = (Some [1, 2], cacheHit)"
proof -
  have "fmlookup (rc_entries answered) rename_key = Some (Some [1, 2])" by (simp add: answered_eq)
  from reply_cache_at_most_once [OF answered_reached this, of 127] show ?thesis
    by (auto simp: answered_eq)
qed

end
