(* ===== verification/Rpc.thy ===== *)
theory Rpc
  imports Xdr ReplyCache
begin

text \<open>
  The ONC RPC server of \<open>internal/sunrpc/rpc.go\<close>: record marking, the call and reply headers, AUTH_SYS
  credentials, and dispatch through the duplicate request cache. A handler acts on the state \<open>'s\<close> of the
  program it serves; \<open>None\<close> is a call that never returns. A panic in a handler is an error of its call.
\<close>

section \<open>Record marking\<close>

definition maxRecord :: nat where "maxRecord = 8 * 2 ^ 20"

datatype io_error = EOF | UnexpectedEOF | RecordTooLong

text \<open>\<open>io.ReadFull\<close> of \<open>n\<close> bytes from the bytes the peer sends before it closes.\<close>

definition readFull :: "nat \<Rightarrow> bytes \<Rightarrow> io_error + bytes \<times> bytes" where
  "readFull n s =
     (if n \<le> length s then Inr (take n s, drop n s)
      else if s = [] then Inl EOF else Inl UnexpectedEOF)"

function readRecord :: "bytes \<Rightarrow> bytes \<Rightarrow> io_error + bytes \<times> bytes" where
  "readRecord out s =
     (case readFull 4 s of
        Inl e \<Rightarrow> Inl e
      | Inr (hdr, s1) \<Rightarrow>
          let h = get_be32 hdr;
              n = unat (h AND 0x7FFFFFFF)
          in if length out + n > maxRecord then Inl RecordTooLong
             else (case readFull n s1 of
                     Inl e \<Rightarrow> Inl e
                   | Inr (frag, s2) \<Rightarrow>
                       if h AND 0x80000000 \<noteq> 0 then Inr (out @ frag, s2) else readRecord (out @ frag) s2))"
  by pat_completeness auto
termination
  by (relation "measure (\<lambda>(out, s). length s)") (auto simp: readFull_def split: if_splits)

declare readRecord.simps [simp del]

lemma readRecord_shorter: "readRecord out s = Inr (m, rest) \<Longrightarrow> length rest < length s"
proof (induction "length s" arbitrary: out s rule: less_induct)
  case less
  let ?n = "unat (get_be32 (take 4 s) AND 0x7FFFFFFF)"
  let ?out = "out @ take ?n (drop 4 s)" and ?s2 = "drop ?n (drop 4 s)"
  have l: "4 \<le> length s" and "?n \<le> length s - 4"
    and r: "(m, rest) = (?out, ?s2) \<or> readRecord ?out ?s2 = Inr (m, rest)"
    using less.prems by (subst (asm) readRecord.simps;
        auto simp: Let_def readFull_def split: if_splits)+
  from r show ?case
  proof
    assume "(m, rest) = (?out, ?s2)"
    then show ?thesis using l by simp
  next
    assume "readRecord ?out ?s2 = Inr (m, rest)"
    moreover have "length ?s2 < length s" using l by simp
    ultimately show ?thesis using less.hyps by fastforce
  qed
qed

definition writeRecord :: "bytes \<Rightarrow> bytes" where
  "writeRecord body = put_be32 (of_nat (length body) OR 0x80000000) @ body"

section \<open>Messages\<close>

definition callMsg :: u32 where "callMsg = 0"
definition replyMsg :: u32 where "replyMsg = 1"
definition msgAccepted :: u32 where "msgAccepted = 0"
definition msgDenied :: u32 where "msgDenied = 1"
definition rpc_success :: u32 where "rpc_success = 0"
definition progUnavail :: u32 where "progUnavail = 1"
definition progMismatch :: u32 where "progMismatch = 2"
definition procUnavail :: u32 where "procUnavail = 3"
definition garbageArgs :: u32 where "garbageArgs = 4"
definition systemErr :: u32 where "systemErr = 5"
definition rpcMismatch :: u32 where "rpcMismatch = 0"
definition authError :: u32 where "authError = 1"
definition authNone :: u32 where "authNone = 0"
definition authSys :: u32 where "authSys = 1"
definition rpcVersion :: u32 where "rpcVersion = 2"

record cred =
  cr_UID :: u32
  cr_GID :: u32
  cr_GIDs :: "u32 list"
  cr_Machine :: string

definition replyHeader :: "u32 \<Rightarrow> u32 \<Rightarrow> writer \<Rightarrow> writer" where
  "replyHeader xid stat w =
     W_Uint32 stat (W_Uint32 0 (W_Uint32 authNone (W_Uint32 msgAccepted (W_Uint32 replyMsg (W_Uint32 xid w)))))"

definition acceptedErr :: "u32 \<Rightarrow> u32 \<Rightarrow> (writer \<Rightarrow> writer) option \<Rightarrow> bytes" where
  "acceptedErr xid stat extra =
     (let w = replyHeader xid stat NewWriter in case extra of None \<Rightarrow> w | Some f \<Rightarrow> f w)"

definition rejectAuth :: "u32 \<Rightarrow> bytes" where
  "rejectAuth xid =
     W_Uint32 1 (W_Uint32 authError (W_Uint32 msgDenied (W_Uint32 replyMsg (W_Uint32 xid NewWriter))))"

definition rejectMismatch :: "u32 \<Rightarrow> u32 \<Rightarrow> u32 \<Rightarrow> bytes" where
  "rejectMismatch xid lo hi =
     W_Uint32 hi (W_Uint32 lo (W_Uint32 rpcMismatch (W_Uint32 msgDenied (W_Uint32 replyMsg (W_Uint32 xid NewWriter)))))"

definition readOpaqueAuth :: "reader \<Rightarrow> (xdr_error + u32) \<times> reader" where
  "readOpaqueAuth r =
     (case R_Uint32 r of (flavor, r1) \<Rightarrow>
      case R_Opaque r1 of (body, r2) \<Rightarrow>
        ((case err r2 of Some e \<Rightarrow> Inl e | None \<Rightarrow> Inr flavor), r2))"

fun read_gids :: "nat \<Rightarrow> reader \<Rightarrow> u32 list \<times> reader" where
  "read_gids 0 r = ([], r)"
| "read_gids (Suc n) r =
     (case R_Uint32 r of (g, r1) \<Rightarrow> case read_gids n r1 of (gs, r2) \<Rightarrow> (g # gs, r2))"

definition readSysCred :: "bytes \<Rightarrow> xdr_error + cred" where
  "readSysCred body =
     (case R_Uint32 (NewReader body) of (stamp, b1) \<Rightarrow>
      case R_String b1 of (machine, b2) \<Rightarrow>
      case R_Uint32 b2 of (uid, b3) \<Rightarrow>
      case R_Uint32 b3 of (gid, b4) \<Rightarrow>
      case R_Uint32 b4 of (n, b5) \<Rightarrow>
        (case err b5 of
           Some e \<Rightarrow> Inl e
         | None \<Rightarrow>
             (case read_gids (if n > 16 then 16 else unat n) b5 of
                (gids, b6) \<Rightarrow>
                  (case err b6 of
                     Some e \<Rightarrow> Inl e
                   | None \<Rightarrow> Inr \<lparr>cr_UID = uid, cr_GID = gid, cr_GIDs = gids, cr_Machine = machine\<rparr>))))"

definition readCred :: "reader \<Rightarrow> (xdr_error + cred) \<times> reader" where
  "readCred r =
     (case R_Uint32 r of (flavor, r1) \<Rightarrow>
      case R_Opaque r1 of (body, r2) \<Rightarrow>
        ((case err r2 of
            Some e \<Rightarrow> Inl e
          | None \<Rightarrow>
              if flavor \<noteq> authSys
              then Inr \<lparr>cr_UID = 65534, cr_GID = 65534, cr_GIDs = [], cr_Machine = []\<rparr>
              else readSysCred (case body of Some b \<Rightarrow> b | None \<Rightarrow> [])), r2))"

section \<open>The server\<close>

datatype call_result = CallOk bytes | CallGarbage | CallError

record 's handler =
  hd_HasProc :: "u32 \<Rightarrow> bool"
  hd_Idempotent :: "u32 \<Rightarrow> bool"
  hd_Call :: "u32 \<Rightarrow> cred \<Rightarrow> reader \<Rightarrow> 's \<Rightarrow> (call_result \<times> 's) option"

record 's server =
  sv_programs :: "(u32 \<times> u32, 's handler) fmap"
  sv_versions :: "(u32, u32 list) fmap"
  sv_cache :: replyCache
  sv_connSerial :: u64
  sv_app :: 's

definition NewServer :: "'s \<Rightarrow> 's server" where
  "NewServer a = \<lparr>sv_programs = fmempty, sv_versions = fmempty,
     sv_cache = newReplyCache replyCacheMaxEntries replyCacheMaxAge, sv_connSerial = 0, sv_app = a\<rparr>"

definition versions_of :: "'s server \<Rightarrow> u32 \<Rightarrow> u32 list" where
  "versions_of s prog = (case fmlookup (sv_versions s) prog of Some vs \<Rightarrow> vs | None \<Rightarrow> [])"

definition Register :: "u32 \<Rightarrow> u32 \<Rightarrow> 's handler \<Rightarrow> 's server \<Rightarrow> 's server" where
  "Register prog vers h s =
     s\<lparr>sv_programs := fmupd (prog, vers) h (sv_programs s),
       sv_versions := fmupd prog (versions_of s prog @ [vers]) (sv_versions s)\<rparr>"

text \<open>What the call header decides, before the cache and the handler: an answer, or none, or a call to run.\<close>

datatype 's plan = Answer "bytes option" | Execute u32 u32 u32 u32 "'s handler" cred reader

fun min_max :: "u32 \<Rightarrow> u32 \<Rightarrow> u32 list \<Rightarrow> u32 \<times> u32" where
  "min_max lo hi [] = (lo, hi)"
| "min_max lo hi (v # vs) = min_max (if v < lo then v else lo) (if v > hi then v else hi) vs"

definition plan_program :: "'s server \<Rightarrow> u32 \<Rightarrow> u32 \<Rightarrow> u32 \<Rightarrow> u32 \<Rightarrow> cred \<Rightarrow> reader \<Rightarrow> 's plan" where
  "plan_program s xid prog vers proc c r =
     (case fmlookup (sv_programs s) (prog, vers) of
        None \<Rightarrow>
          (case versions_of s prog of
             [] \<Rightarrow> Answer (Some (acceptedErr xid progUnavail None))
           | v # vs \<Rightarrow>
               (case min_max v v (v # vs) of
                  (lo, hi) \<Rightarrow> Answer (Some (acceptedErr xid progMismatch (Some (\<lambda>w. W_Uint32 hi (W_Uint32 lo w)))))))
      | Some h \<Rightarrow>
          if \<not> hd_HasProc h proc then Answer (Some (acceptedErr xid procUnavail None))
          else Execute xid prog vers proc h c r)"

definition plan_call :: "'s server \<Rightarrow> bytes \<Rightarrow> 's plan" where
  "plan_call s msg =
     (case R_Uint32 (NewReader msg) of (xid, r1) \<Rightarrow>
      case R_Uint32 r1 of (mtype, r2) \<Rightarrow>
      if err r2 \<noteq> None \<or> mtype \<noteq> callMsg then Answer None
      else case R_Uint32 r2 of (rpcvers, r3) \<Rightarrow>
      case R_Uint32 r3 of (prog, r4) \<Rightarrow>
      case R_Uint32 r4 of (vers, r5) \<Rightarrow>
      case R_Uint32 r5 of (proc, r6) \<Rightarrow>
      if err r6 \<noteq> None then Answer None
      else if rpcvers \<noteq> rpcVersion then Answer (Some (rejectMismatch xid rpcVersion rpcVersion))
      else (case readCred r6 of
              (Inl _, _) \<Rightarrow> Answer (Some (rejectAuth xid))
            | (Inr c, r7) \<Rightarrow>
                (case readOpaqueAuth r7 of
                   (Inl _, _) \<Rightarrow> Answer (Some (rejectAuth xid))
                 | (Inr _, r8) \<Rightarrow> plan_program s xid prog vers proc c r8)))"

definition run_call :: "'s handler \<Rightarrow> u32 \<Rightarrow> u32 \<Rightarrow> cred \<Rightarrow> reader \<Rightarrow> 's \<Rightarrow> (bytes \<times> 's) option" where
  "run_call h xid proc c r a =
     (case hd_Call h proc c r a of
        None \<Rightarrow> None
      | Some (CallGarbage, a1) \<Rightarrow> Some (acceptedErr xid garbageArgs None, a1)
      | Some (CallError, a1) \<Rightarrow> Some (acceptedErr xid systemErr None, a1)
      | Some (CallOk body, a1) \<Rightarrow> Some (W_Fixed body (replyHeader xid rpc_success NewWriter), a1))"

definition call_key :: "u64 \<Rightarrow> u32 \<Rightarrow> u32 \<Rightarrow> u32 \<Rightarrow> u32 \<Rightarrow> replyKey" where
  "call_key conn xid prog vers proc =
     \<lparr>rk_conn = conn, rk_xid = xid, rk_prog = prog, rk_vers = vers, rk_proc = proc\<rparr>"

text \<open>\<open>dispatch\<close>, with the two readings of the clock its cache calls make.\<close>

definition dispatch :: "int \<Rightarrow> int \<Rightarrow> u64 \<Rightarrow> bytes \<Rightarrow> 's server \<Rightarrow> (bytes option \<times> 's server) option" where
  "dispatch t1 t2 conn msg s =
     (case plan_call s msg of
        Answer b \<Rightarrow> Some (b, s)
      | Execute xid prog vers proc h c r \<Rightarrow>
          if hd_Idempotent h proc
          then map_option (\<lambda>(reply, a). (Some reply, s\<lparr>sv_app := a\<rparr>)) (run_call h xid proc c r (sv_app s))
          else (let k = call_key conn xid prog vers proc in
                case rc_begin t1 k (sv_cache s) of
                  ((prior, cacheHit), c1) \<Rightarrow> Some (prior, s\<lparr>sv_cache := c1\<rparr>)
                | ((_, cacheInFlight), c1) \<Rightarrow> Some (None, s\<lparr>sv_cache := c1\<rparr>)
                | ((_, cacheMiss), c1) \<Rightarrow>
                    map_option (\<lambda>(reply, a).
                        (Some reply, s\<lparr>sv_app := a,
                           sv_cache := (if reply = [] then rc_abandon k c1 else rc_finish t2 k reply c1)\<rparr>))
                      (run_call h xid proc c r (sv_app s))))"

section \<open>Serving\<close>

text \<open>Durations are in nanoseconds.\<close>

definition acceptDelay :: "int \<Rightarrow> int" where
  "acceptDelay prev =
     (let first = 5 * 10 ^ 6; limit = 10 ^ 9 in
      if prev \<le> 0 then first
      else if prev \<ge> limit div 2 then limit
      else if 2 * prev > first then 2 * prev else first)"

text \<open>
  One connection, its requests served one after another: the bytes the peer sends, the pairs of clock
  readings of its calls, and the bytes sent back. A reply that cannot be written closes the connection;
  here every write succeeds.
\<close>

function serve_loop ::
  "u64 \<Rightarrow> (nat \<Rightarrow> int \<times> int) \<Rightarrow> nat \<Rightarrow> bytes \<Rightarrow> 's server \<Rightarrow> (bytes \<times> 's server) option" where
  "serve_loop conn ts k input s =
     (case readRecord [] input of
        Inl e \<Rightarrow> Some ([], s)
      | Inr (msg, rest) \<Rightarrow>
          (case dispatch (fst (ts k)) (snd (ts k)) conn msg s of
             None \<Rightarrow> None
           | Some (reply, s1) \<Rightarrow>
               map_option (\<lambda>(out, s2). ((case reply of None \<Rightarrow> [] | Some b \<Rightarrow> writeRecord b) @ out, s2))
                 (serve_loop conn ts (Suc k) rest s1)))"
  by pat_completeness auto
termination
  by (relation "measure (\<lambda>(_, _, _, input, _). length input)") (auto dest: readRecord_shorter)

declare serve_loop.simps [simp del]

definition serveConn ::
  "(nat \<Rightarrow> int \<times> int) \<Rightarrow> bytes \<Rightarrow> 's server \<Rightarrow> (bytes \<times> 's server) option" where
  "serveConn ts input s =
     (let conn = sv_connSerial s + 1 in serve_loop conn ts 0 input (s\<lparr>sv_connSerial := conn\<rparr>))"

text \<open>
  \<open>Serve\<close>: what each call of \<open>Accept\<close> came to, with whether the context had ended when it failed and
  whether it ended during the wait that follows a temporary failure. The connections handed to
  \<open>serveConn\<close> and the waits made are collected in order. The list is as long as the listener lasts: it
  runs out only where the server is still accepting, and then there is no result yet.
\<close>

datatype 'c accepted = Conn 'c | AcceptFailed string bool bool bool

fun Serve :: "'c accepted list \<Rightarrow> int \<Rightarrow> string option option \<times> 'c list \<times> int list" where
  "Serve [] wait = (None, [], [])"
| "Serve (Conn c # evs) wait = (case Serve evs 0 of (r, cs, ws) \<Rightarrow> (r, c # cs, ws))"
| "Serve (AcceptFailed e ended temporary endedWaiting # evs) wait =
     (if ended then (Some None, [], [])
      else if temporary
      then let d = acceptDelay wait
           in if endedWaiting then (Some None, [], [d])
              else (case Serve evs d of (r, cs, ws) \<Rightarrow> (r, cs, d # ws))
      else (Some (Some e), [], []))"

text \<open>A listener in trouble is neither hammered nor abandoned: every wait is between 5 ms and 1 s.\<close>

lemma acceptDelay_bounds: "5 * 10 ^ 6 \<le> acceptDelay p \<and> acceptDelay p \<le> 10 ^ 9"
  by (simp add: acceptDelay_def Let_def)

lemma Serve_waits: "d \<in> set (snd (snd (Serve evs wait))) \<Longrightarrow> 5 * 10 ^ 6 \<le> d \<and> d \<le> 10 ^ 9"
  using acceptDelay_bounds
  by (induction evs wait rule: Serve.induct) (auto simp: Let_def split: prod.splits if_splits)

section \<open>Records\<close>

lemma mask31: "(0x7FFFFFFF :: u32) = mask 31"
  by (simp add: mask_eq_exp_minus_1)

lemma top_bit: "h AND 0x80000000 \<noteq> 0 \<longleftrightarrow> bit h 31" for h :: u32
proof -
  have "(0x80000000 :: u32) = push_bit 31 1" by simp
  then show ?thesis by (simp only: bit_iff_and_push_bit_not_eq_0)
qed

text \<open>The header of a fragment: its length, and the top bit for the last one.\<close>

definition frag_header :: "bool \<Rightarrow> bytes \<Rightarrow> u32" where
  "frag_header fin f = of_nat (length f) OR (if fin then 0x80000000 else 0)"

lemma frag_header:
  assumes "length f < 2 ^ 31"
  shows "unat (frag_header fin f AND 0x7FFFFFFF) = length f" "frag_header fin f AND 0x80000000 \<noteq> 0 \<longleftrightarrow> fin"
proof -
  have n: "take_bit 31 (of_nat (length f) :: u32) = of_nat (length f)"
    using assms by (simp add: take_bit_of_nat take_bit_nat_eq_self)
  then have nb: "\<not> bit (of_nat (length f) :: u32) 31"
    by (metis bit_take_bit_iff less_irrefl)
  have t: "take_bit 31 (0x80000000 :: u32) = 0" by (simp add: take_bit_eq_mod)
  have "frag_header fin f AND 0x7FFFFFFF = of_nat (length f)"
    unfolding frag_header_def mask31 take_bit_eq_mask [symmetric] take_bit_or using n t by simp
  then show "unat (frag_header fin f AND 0x7FFFFFFF) = length f"
    using assms by (simp add: unat_of_nat)
  have "bit (0x80000000 :: u32) 31" by (simp flip: top_bit)
  then show "frag_header fin f AND 0x80000000 \<noteq> 0 \<longleftrightarrow> fin"
    unfolding top_bit frag_header_def by (simp add: bit_or_iff nb)
qed

fun send_record :: "bytes list \<Rightarrow> bytes" where
  "send_record [] = []"
| "send_record [f] = put_be32 (frag_header True f) @ f"
| "send_record (f # fs) = put_be32 (frag_header False f) @ f @ send_record fs"

lemma readRecord_frag:
  assumes "length out + length f \<le> maxRecord"
  shows "readRecord out (put_be32 (frag_header fin f) @ f @ s) =
    (if fin then Inr (out @ f, s) else readRecord (out @ f) s)"
proof -
  have "length f < 2 ^ 31" using assms by (simp add: maxRecord_def)
  note h = frag_header [OF this, of fin]
  show ?thesis using assms h(2) by (subst readRecord.simps) (simp add: readFull_def h(1) Let_def)
qed

lemma readRecord_send:
  "fs \<noteq> [] \<Longrightarrow> length out + length (concat fs) \<le> maxRecord \<Longrightarrow>
   readRecord out (send_record fs @ s) = Inr (out @ concat fs, s)"
proof (induction fs arbitrary: out rule: send_record.induct)
  case (2 f)
  then show ?case by (simp add: readRecord_frag)
next
  case (3 f g fs)
  then show ?case by (simp add: readRecord_frag)
qed simp

lemma writeRecord_send: "writeRecord b = send_record [b]"
  by (simp add: writeRecord_def frag_header_def)

lemma readRecord_bound: "readRecord out s = Inr (m, rest) \<Longrightarrow> length m \<le> maxRecord"
proof (induction "length s" arbitrary: out s rule: less_induct)
  case less
  let ?n = "unat (get_be32 (take 4 s) AND 0x7FFFFFFF)"
  let ?out = "out @ take ?n (drop 4 s)" and ?s2 = "drop ?n (drop 4 s)"
  have l: "4 \<le> length s" and b: "length out + ?n \<le> maxRecord"
    and r: "m = ?out \<or> readRecord ?out ?s2 = Inr (m, rest)"
    using less.prems by (subst (asm) readRecord.simps;
        auto simp: Let_def readFull_def split: if_splits)+
  from r show ?case
  proof
    assume "m = ?out"
    then show ?thesis using b by simp
  next
    assume "readRecord ?out ?s2 = Inr (m, rest)"
    moreover have "length ?s2 < length s" using l by simp
    ultimately show ?thesis using less.hyps by blast
  qed
qed

text \<open>
  C29. Record marking is lossless and bounded. A message sent in any fragments, empty ones included, is
  reassembled exactly and the reader is left at the byte after it, as long as it fits the record limit;
  a reply as \<open>writeRecord\<close> frames it is one such message. Whatever bytes a peer sends, a record that is
  accepted is no longer than the limit, and reading it consumes input, so a connection is read in
  finitely many records.
\<close>

theorem record_marking:
  "(\<forall>fs s. fs \<noteq> [] \<and> length (concat fs) \<le> maxRecord \<longrightarrow> readRecord [] (send_record fs @ s) = Inr (concat fs, s)) \<and>
   (\<forall>b s. length b \<le> maxRecord \<longrightarrow> readRecord [] (writeRecord b @ s) = Inr (b, s)) \<and>
   (\<forall>s m rest. readRecord [] s = Inr (m, rest) \<longrightarrow> length m \<le> maxRecord \<and> length rest < length s)"
  using readRecord_send [of _ "[]"] readRecord_send [of "[b]" "[]" for b] readRecord_bound readRecord_shorter
  by (simp add: writeRecord_send)

theorem record_marking_witness:
  "readRecord [] (send_record [[1, 2], [], [3]] @ [9]) = Inr ([1, 2, 3], [9])"
  using record_marking [THEN conjunct1, rule_format, of "[[1, 2], [], [3]]" "[9]"] by (simp add: maxRecord_def)

section \<open>Dispatch\<close>

lemma plan_call_cong:
  assumes "sv_programs s' = sv_programs s" "sv_versions s' = sv_versions s"
  shows "plan_call s' msg = plan_call s msg"
proof -
  have "versions_of s' = versions_of s" using assms by (simp add: versions_of_def fun_eq_iff)
  then have "plan_program s' = plan_program s" using assms 
    by (intro ext) (auto simp: plan_program_def split: option.split)
  then show ?thesis unfolding plan_call_def by metis
qed

lemma length_writers [simp]:
  "length (W_Uint32 v w) = length w + 4" "length (replyHeader xid st w) = length w + 24"
  by (simp_all add: W_Uint32_def replyHeader_def)

lemma run_call_nonempty: "run_call h xid proc c r a = Some (reply, a') \<Longrightarrow> reply \<noteq> []"
  by (auto simp: run_call_def acceptedErr_def Let_def W_Uint32_def W_Fixed_def W_pad_def replyHeader_def
      put_be32_def split: option.splits prod.splits call_result.splits)

text \<open>
  C20. A retransmitted call is not executed again. When a call that is not idempotent has been
  dispatched, to whatever end, garbage, error or success, the same message arriving again on the same
  connection within the cache's maximum age gets the same bytes back, and the state of the served
  program is untouched. Any other calls may be served in between, on any connection and interleaved in
  any way: \<open>evs\<close> are the calls of the cache they make, at their times, and the program's state is then
  whatever they left. The first dispatch has to have found its key free, and the calls then in flight,
  this one, and the calls that began since have to be no more than the cache holds; beyond that the oldest
  replies are evicted.
\<close>

theorem retransmission_replayed:
  assumes "rc_reach mx age t0 (sv_cache s)" "t0 \<le> t1" "t1 \<le> t2"
    and "plan_call s msg = Execute xid prog vers proc h c r" "\<not> hd_Idempotent h proc"
    and "fmlookup (rc_entries (sv_cache s)) (call_key conn xid prog vers proc) = None"
    and "dispatch t1 t2 conn msg s = Some (out, s1)"
    and "sorted (t2 # map fst evs @ [t3])" "t3 - t2 \<le> age"
    and "int (fcard (in_flight (sv_cache s)) + 1 + begins evs) \<le> mx"
    and "sv_programs s2 = sv_programs s1" "sv_versions s2 = sv_versions s1" "sv_cache s2 = rc_run evs (sv_cache s1)"
  shows "out \<noteq> None \<and> (\<exists>s3. dispatch t3 t4 conn msg s2 = Some (out, s3) \<and> sv_app s3 = sv_app s2)"
proof -
  let ?k = "call_key conn xid prog vers proc"
  have I: "rc_inv mx age t0 (sv_cache s)" using assms(1) by (rule rc_reach_inv)
  have few: "int (fcard (in_flight (sv_cache s))) < mx" using assms(10) by simp
  obtain c1 where c1: "rc_begin t1 ?k (sv_cache s) = ((None, cacheMiss), c1)" "fmlookup (rc_entries c1) ?k = Some None"
    using rc_begin_reserves [OF I assms(6) few] by blast
  have I1: "rc_inv mx age t1 c1" using rc_begin_inv [OF I assms(2), of ?k] c1(1) by simp
  have few1: "int (fcard (in_flight c1) + begins evs) \<le> mx"
    using rc_begin_in_flight [OF I, of t1 ?k] c1(1) assms(10) by simp
  from assms(7) obtain reply a where rep: "run_call h xid proc c r (sv_app s) = Some (reply, a)" "out = Some reply"
      "s1 = s\<lparr>sv_app := a, sv_cache := (if reply = [] then rc_abandon ?k c1 else rc_finish t2 ?k reply c1)\<rparr>"
    using assms(4,5) c1(1) unfolding dispatch_def Let_def by auto
  have ne: "reply \<noteq> []" using run_call_nonempty [OF rep(1)] .
  obtain c3 where c3: "rc_begin t3 ?k (sv_cache s2) = ((Some reply, cacheHit), c3)"
    using rc_replays [OF I1 c1(2) ne assms(3,8,9) few1] ne rep(3) assms(13)
    by (cases "rc_begin t3 ?k (sv_cache s2)") simp
  have "plan_call s2 msg = Execute xid prog vers proc h c r"
    using plan_call_cong [of s2 s] assms(4,11,12) rep(3) by simp
  then have "dispatch t3 t4 conn msg s2 = Some (Some reply, s2\<lparr>sv_cache := c3\<rparr>)"
    using assms(5) c3 unfolding dispatch_def Let_def by simp
  then show ?thesis using rep(2) by simp
qed

text \<open>A program whose one procedure counts its calls, and a call of it with an empty credential.\<close>

definition counter :: "nat handler" where
  "counter = \<lparr>hd_HasProc = (\<lambda>p. p < 2), hd_Idempotent = (\<lambda>p. p = 0),
     hd_Call = (\<lambda>p c r n. Some (CallOk [of_nat n], Suc n))\<rparr>"

definition count_server :: "nat server" where
  "count_server = Register 9 1 counter (NewServer 5)"

definition count_call :: bytes where
  "count_call = [0, 0, 0, 77,  0, 0, 0, 0,  0, 0, 0, 2,  0, 0, 0, 9,  0, 0, 0, 1,  0, 0, 0, 1,
     0, 0, 0, 0,  0, 0, 0, 0,  0, 0, 0, 0,  0, 0, 0, 0]"

lemma count_plan:
  "\<exists>c r. plan_call count_server count_call = Execute 77 9 1 1 counter c r"
  by (simp add: plan_call_def plan_program_def count_server_def count_call_def Register_def NewServer_def
      R_Uint32_def R_take_def NewReader_def get_be32_def slice_def callMsg_def rpcVersion_def readCred_def
      R_Opaque_def maxVarLen_def R_Fixed_def R_skipPad_def readOpaqueAuth_def authSys_def counter_def Let_def)

text \<open>Between the call and its retransmission another connection begins and finishes a call that the counter takes to 7.\<close>

theorem retransmission_replayed_witness:
  "\<exists>out s1 s3. dispatch 10 11 1 count_call count_server = Some (out, s1) \<and> out \<noteq> None \<and> sv_app s1 = 6 \<and>
     dispatch 20 21 1 count_call
       (s1\<lparr>sv_app := 7, sv_cache := rc_run [(12, RBegin (call_key 2 5 9 1 1)), (13, RFinish (call_key 2 5 9 1 1) [1])] (sv_cache s1)\<rparr>) =
       Some (out, s3) \<and> sv_app s3 = 7"
proof -
  let ?evs = "[(12, RBegin (call_key 2 5 9 1 1)), (13, RFinish (call_key 2 5 9 1 1) [1])]"
  obtain c r where pl: "plan_call count_server count_call = Execute 77 9 1 1 counter c r" using count_plan by blast
  have sc: "sv_cache count_server = newReplyCache 4096 (120 * 10 ^ 9)" "sv_app count_server = 5"
    by (simp_all add: count_server_def Register_def NewServer_def replyCacheMaxEntries_def replyCacheMaxAge_def)
  have re: "rc_reach 4096 (120 * 10 ^ 9) 0 (sv_cache count_server)" unfolding sc by (rule rc_reach.new)
  have emp: "fmlookup (rc_entries (sv_cache count_server)) (call_key 1 77 9 1 1) = None"
      "int (fcard (in_flight (sv_cache count_server)) + 1 + begins ?evs) \<le> 4096"
    by (simp_all add: sc newReplyCache_def in_flight_def fcard.rep_eq begins_def)
  have nid: "\<not> hd_Idempotent counter 1" by (simp add: counter_def)
  have "int (fcard (in_flight (sv_cache count_server))) < 4096" using emp(2) by simp
  then obtain c1 where c1: "rc_begin 10 (call_key 1 77 9 1 1) (sv_cache count_server) = ((None, cacheMiss), c1)"
    using rc_begin_reserves [OF rc_reach_inv [OF re] emp(1), of 10] by blast
  obtain reply where rn: "run_call counter 77 1 c r (sv_app count_server) = Some (reply, 6)"
    by (simp add: run_call_def counter_def sc)
  obtain s1 where d: "dispatch 10 11 1 count_call count_server = Some (Some reply, s1)" "sv_app s1 = 6"
    unfolding dispatch_def pl plan.case Let_def c1 rn using nid by simp
  from retransmission_replayed [OF re _ _ pl nid emp(1) d(1) _ _ emp(2), of 20 "s1\<lparr>sv_app := 7, sv_cache := rc_run ?evs (sv_cache s1)\<rparr>" 21] d
  show ?thesis by auto
qed

end
