(* ===== verification/Wire.thy ===== *)
theory Wire
  imports Rpc FsState
begin

text \<open>
  The filesystem interface of \<open>internal/vfs/vfs.go\<close> that the NFS and MOUNT programs call, and the
  NFSv3 encoders and decoders of \<open>internal/nfs/wire.go\<close>. A filesystem is a record of functions over its
  own state. Nanosecond times are integers; \<open>zero_time\<close> is Go's zero \<open>time.Time\<close>, the year 1.
\<close>

section \<open>The filesystem interface\<close>

record 's vfs_ops =
  v_Root :: "'s \<Rightarrow> (err + handle) \<times> 's"
  v_MaxFileSize :: "'s \<Rightarrow> nat"
  v_GetAttr :: "handle \<Rightarrow> 's \<Rightarrow> (err + attr) \<times> 's"
  v_SetAttr :: "caller \<Rightarrow> handle \<Rightarrow> set_attr \<Rightarrow> 's \<Rightarrow> (err + attr) \<times> 's"
  v_Lookup :: "caller \<Rightarrow> handle \<Rightarrow> string \<Rightarrow> 's \<Rightarrow> (err + handle \<times> attr) \<times> 's"
  v_Access :: "caller \<Rightarrow> handle \<Rightarrow> u32 \<Rightarrow> 's \<Rightarrow> (err + u32) \<times> 's"
  v_Read :: "caller \<Rightarrow> handle \<Rightarrow> nat \<Rightarrow> nat \<Rightarrow> 's \<Rightarrow> (err + bytes \<times> bool) \<times> 's"
  v_Write :: "caller \<Rightarrow> handle \<Rightarrow> nat \<Rightarrow> bytes \<Rightarrow> stability \<Rightarrow> 's \<Rightarrow> ((err + nat \<times> stability) \<times> 's) option"
  v_Commit :: "handle \<Rightarrow> nat \<Rightarrow> nat \<Rightarrow> 's \<Rightarrow> err option \<times> 's"
  v_Create :: "caller \<Rightarrow> handle \<Rightarrow> string \<Rightarrow> set_attr \<Rightarrow> bool \<Rightarrow> 's \<Rightarrow> (err + handle \<times> attr) \<times> 's"
  v_Mkdir :: "caller \<Rightarrow> handle \<Rightarrow> string \<Rightarrow> set_attr \<Rightarrow> 's \<Rightarrow> (err + handle \<times> attr) \<times> 's"
  v_Symlink :: "caller \<Rightarrow> handle \<Rightarrow> string \<Rightarrow> string \<Rightarrow> set_attr \<Rightarrow> 's \<Rightarrow> (err + handle \<times> attr) \<times> 's"
  v_ReadLink :: "handle \<Rightarrow> 's \<Rightarrow> (err + string) \<times> 's"
  v_Remove :: "caller \<Rightarrow> handle \<Rightarrow> string \<Rightarrow> 's \<Rightarrow> (err + unit) \<times> 's"
  v_Rmdir :: "caller \<Rightarrow> handle \<Rightarrow> string \<Rightarrow> 's \<Rightarrow> (err + unit) \<times> 's"
  v_Rename :: "caller \<Rightarrow> handle \<Rightarrow> string \<Rightarrow> handle \<Rightarrow> string \<Rightarrow> 's \<Rightarrow> (err + unit) \<times> 's"
  v_ReadDir :: "caller \<Rightarrow> handle \<Rightarrow> nat \<Rightarrow> bytes \<Rightarrow> nat \<Rightarrow> bool \<Rightarrow> 's \<Rightarrow> (err + dir_entry list \<times> bool \<times> bytes) \<times> 's"
  v_FSStat :: "handle \<Rightarrow> 's \<Rightarrow> (err + fs_stat) \<times> 's"

section \<open>Statuses\<close>

text \<open>\<open>errors.As\<close> of a protocol status: the first one in the chain of wrapped errors.\<close>

fun err_status :: "err \<Rightarrow> status option" where
  "err_status (EStatus s) = Some s"
| "err_status (EWrap _ e) = err_status e"
| "err_status _ = None"

definition statusOf :: "err option \<Rightarrow> u32" where
  "statusOf e =
     (case e of
        None \<Rightarrow> 0
      | Some x \<Rightarrow> (case err_status x of Some s \<Rightarrow> status_code s | None \<Rightarrow> status_code ErrIO))"

section \<open>Encoders\<close>

definition zero_time :: gotime where
  "zero_time = - 62135596800 * 10 ^ 9"

definition putTime :: "gotime \<Rightarrow> writer \<Rightarrow> writer" where
  "putTime t w =
     (if t = zero_time then W_Uint32 0 (W_Uint32 0 w)
      else W_Uint32 (word_of_int (t mod 10 ^ 9)) (W_Uint32 (word_of_int (t div 10 ^ 9)) w))"

definition putFattr :: "attr \<Rightarrow> writer \<Rightarrow> writer" where
  "putFattr a w0 =
     (let w1 = W_Uint32 (type_code (a_Type a)) w0;
          w2 = W_Uint32 (a_Mode a) w1;
          w3 = W_Uint32 (a_NLink a) w2;
          w4 = W_Uint32 (a_UID a) w3;
          w5 = W_Uint32 (a_GID a) w4;
          w6 = W_Uint64 (of_nat (a_Size a)) w5;
          w7 = W_Uint64 (of_nat (a_Used a)) w6;
          w8 = W_Uint32 (fst (a_RDev a)) w7;
          w9 = W_Uint32 (snd (a_RDev a)) w8;
          w10 = W_Uint64 (a_FSID a) w9;
          w11 = W_Uint64 (a_FileID a) w10
      in putTime (a_CTime a) (putTime (a_MTime a) (putTime (a_ATime a) w11)))"

definition putPostOpAttr :: "attr option \<Rightarrow> writer \<Rightarrow> writer" where
  "putPostOpAttr a w = (case a of None \<Rightarrow> W_Bool False w | Some x \<Rightarrow> putFattr x (W_Bool True w))"

record wccAttr =
  wc_size :: nat
  wc_mtime :: gotime
  wc_ctime :: gotime
  wc_valid :: bool

definition wccFrom :: "attr option \<Rightarrow> wccAttr" where
  "wccFrom a =
     (case a of
        None \<Rightarrow> \<lparr>wc_size = 0, wc_mtime = zero_time, wc_ctime = zero_time, wc_valid = False\<rparr>
      | Some x \<Rightarrow> \<lparr>wc_size = a_Size x, wc_mtime = a_MTime x, wc_ctime = a_CTime x, wc_valid = True\<rparr>)"

definition putWccData :: "wccAttr \<Rightarrow> attr option \<Rightarrow> writer \<Rightarrow> writer" where
  "putWccData before after w =
     putPostOpAttr after
       (if wc_valid before
        then putTime (wc_ctime before) (putTime (wc_mtime before)
               (W_Uint64 (of_nat (wc_size before)) (W_Bool True w)))
        else W_Bool False w)"

definition putHandle :: "handle \<Rightarrow> writer \<Rightarrow> writer" where
  "putHandle h w = W_Opaque h w"

definition putPostOpHandle :: "handle option \<Rightarrow> writer \<Rightarrow> writer" where
  "putPostOpHandle h w = (case h of None \<Rightarrow> W_Bool False w | Some x \<Rightarrow> putHandle x (W_Bool True w))"

section \<open>Decoders\<close>

definition maxHandleLen :: nat where "maxHandleLen = 64"

text \<open>A decoder answers \<open>None\<close> for an error; which one it was does not matter to any caller.\<close>

definition getHandle :: "reader \<Rightarrow> handle option \<times> reader" where
  "getHandle r =
     (case R_Opaque r of (h, r1) \<Rightarrow>
        if err r1 \<noteq> None then (None, r1)
        else let b = (case h of Some b \<Rightarrow> b | None \<Rightarrow> [])
             in if length b > maxHandleLen then (None, r1) else (Some b, r1))"

definition getDirOpArgs :: "reader \<Rightarrow> (handle \<times> string) option \<times> reader" where
  "getDirOpArgs r =
     (case getHandle r of
        (None, r1) \<Rightarrow> (None, r1)
      | (Some h, r1) \<Rightarrow>
          (case R_String r1 of (name, r2) \<Rightarrow> if err r2 \<noteq> None then (None, r2) else (Some (h, name), r2)))"

definition dontChange :: u32 where "dontChange = 0"
definition setToServerTime :: u32 where "setToServerTime = 1"
definition setToClientTime :: u32 where "setToClientTime = 2"

definition getTime :: "reader \<Rightarrow> gotime \<times> reader" where
  "getTime r =
     (case R_Uint32 r of (sec, r1) \<Rightarrow>
      case R_Uint32 r1 of (nsec, r2) \<Rightarrow> (uint sec * 10 ^ 9 + uint nsec, r2))"

text \<open>The optional fields of a \<open>sattr3\<close>: a flag, and the value if it is set.\<close>

definition getOptional :: "(reader \<Rightarrow> 'a \<times> reader) \<Rightarrow> reader \<Rightarrow> 'a option \<times> reader" where
  "getOptional g r =
     (case R_Bool r of (b, r1) \<Rightarrow> if b then (case g r1 of (v, r2) \<Rightarrow> (Some v, r2)) else (None, r1))"

definition getHow :: "gotime \<Rightarrow> reader \<Rightarrow> gotime option \<times> reader" where
  "getHow now r =
     (case R_Uint32 r of (how, r1) \<Rightarrow>
        if how = setToServerTime then (Some now, r1)
        else if how = setToClientTime then (case getTime r1 of (t, r2) \<Rightarrow> (Some t, r2))
        else (None, r1))"

definition getSattr :: "(nat \<Rightarrow> gotime) \<Rightarrow> reader \<Rightarrow> set_attr option \<times> reader" where
  "getSattr clk r =
     (case getOptional R_Uint32 r of (md, r1) \<Rightarrow>
      case getOptional R_Uint32 r1 of (uid, r2) \<Rightarrow>
      case getOptional R_Uint32 r2 of (gid, r3) \<Rightarrow>
      case getOptional R_Uint64 r3 of (sz, r4) \<Rightarrow>
      case getHow (clk 0) r4 of (at, r5) \<Rightarrow>
      case getHow (clk 1) r5 of (mt, r6) \<Rightarrow>
        (if err r6 \<noteq> None then (None, r6)
         else (Some \<lparr>s_Mode = md, s_UID = uid, s_GID = gid, s_Size = map_option unat sz,
                    s_ATime = at, s_MTime = mt\<rparr>, r6)))"

section \<open>Times and attributes on the wire\<close>

text \<open>
  A time from the epoch until the 32-bit seconds run out survives the wire to the nanosecond.
\<close>

lemma getTime_putTime:
  assumes "0 \<le> t" "t < 2 ^ 32 * 10 ^ 9" "err r = None" "rb r = p @ putTime t [] @ q" "off r = length p"
  shows "getTime r = (t, r\<lparr>off := off r + 8\<rparr>)"
proof -
  have nz: "t \<noteq> zero_time" using assms(1) by (simp add: zero_time_def)
  let ?s = "word_of_int (t div 10 ^ 9) :: u32" and ?n = "word_of_int (t mod 10 ^ 9) :: u32"
  have b: "rb r = p @ put_be32 ?s @ put_be32 ?n @ q" using assms(4) nz by (simp add: putTime_def W_Uint32_def)
  have 1: "R_Uint32 r = (?s, r\<lparr>off := off r + 4\<rparr>)"
    using assms(3,5) b by (intro R_Uint32_exact [where p = p and q = "put_be32 ?n @ q"]) simp_all
  have 2: "R_Uint32 (r\<lparr>off := off r + 4\<rparr>) = (?n, r\<lparr>off := off r + 8\<rparr>)"
    using R_Uint32_exact [of "r\<lparr>off := off r + 4\<rparr>" "p @ put_be32 ?s" ?n q] assms(3,5) b by simp
  have s: "uint ?s = t div 10 ^ 9"
  proof -
    have "0 \<le> t div 1000000000" "t div 1000000000 < 4294967296" using assms(1,2) by simp_all
    then show ?thesis by (subst uint_word_of_int_eq) (simp add: take_bit_int_eq_self)
  qed
  have n: "uint ?n = t mod 10 ^ 9"
  proof -
    have "0 \<le> t mod 10 ^ 9" "t mod 10 ^ 9 < 10 ^ 9" by simp_all
    then show ?thesis by (subst uint_word_of_int_eq) (simp add: take_bit_int_eq_self)
  qed
  show ?thesis unfolding getTime_def 1 using s n by (simp add: 2)
qed

end
