(* ===== verification/MountProg.thy ===== *)
theory MountProg
  imports Wire
begin

text \<open>
  The MOUNT version 3 program of \<open>internal/nfs/mount.go\<close>. Its state is the filesystem's and the table of
  mounted clients; \<open>ord\<close> is the order in which \<open>range\<close> visits that table for DUMP.
\<close>

record 's mount_state =
  ms_fs :: 's
  ms_mounts :: "(string, string) fmap"

record 's mount_server =
  mt_fs :: "'s vfs_ops"
  mt_export :: string
  mt_range :: "(string, string) fmap \<Rightarrow> string list"

definition NewMountServer ::
  "'s vfs_ops \<Rightarrow> string \<Rightarrow> ((string, string) fmap \<Rightarrow> string list) \<Rightarrow> 's mount_server" where
  "NewMountServer V export ord =
     \<lparr>mt_fs = V, mt_export = (if export = [] then ''/'' else export), mt_range = ord\<rparr>"

text \<open>\<open>strings.TrimSuffix(s, "/")\<close>, and the root for what is then empty.\<close>

definition mount_norm :: "string \<Rightarrow> string" where
  "mount_norm s =
     (let t = (if s \<noteq> [] \<and> last s = CHR ''/'' then butlast s else s) in if t = [] then ''/'' else t)"

definition mount_accepts :: "'s mount_server \<Rightarrow> string \<Rightarrow> bool" where
  "mount_accepts M path \<longleftrightarrow> mount_norm path = mount_norm (mt_export M)"

definition mnt3OK :: u32 where "mnt3OK = 0"
definition mnt3ErrNoEnt :: u32 where "mnt3ErrNoEnt = 2"
definition authFlavorNone :: u32 where "authFlavorNone = 0"
definition authFlavorSys :: u32 where "authFlavorSys = 1"

definition mount_mnt :: "'s mount_server \<Rightarrow> cred \<Rightarrow> reader \<Rightarrow> 's mount_state \<Rightarrow> call_result \<times> 's mount_state" where
  "mount_mnt M cr r a =
     (case R_String r of (path, r1) \<Rightarrow>
        if err r1 \<noteq> None then (CallGarbage, a)
        else if \<not> mount_accepts M path then (CallOk (W_Uint32 mnt3ErrNoEnt NewWriter), a)
        else (case v_Root (mt_fs M) (ms_fs a) of
                (Inl _, f) \<Rightarrow> (CallError, a\<lparr>ms_mounts := fmupd (cr_Machine cr) path (ms_mounts a), ms_fs := f\<rparr>)
              | (Inr h, f) \<Rightarrow>
                  (CallOk (W_Uint32 authFlavorNone (W_Uint32 authFlavorSys (W_Uint32 2
                     (W_Opaque h (W_Uint32 mnt3OK NewWriter))))),
                   a\<lparr>ms_mounts := fmupd (cr_Machine cr) path (ms_mounts a), ms_fs := f\<rparr>)))"

definition mount_umnt :: "cred \<Rightarrow> reader \<Rightarrow> 's mount_state \<Rightarrow> call_result \<times> 's mount_state" where
  "mount_umnt cr r a =
     (case R_String r of (path, r1) \<Rightarrow>
        if err r1 \<noteq> None then (CallGarbage, a)
        else (CallOk NewWriter, a\<lparr>ms_mounts := fmdrop (cr_Machine cr) (ms_mounts a)\<rparr>))"

fun put_mounts :: "(string, string) fmap \<Rightarrow> string list \<Rightarrow> writer \<Rightarrow> writer" where
  "put_mounts m [] w = w"
| "put_mounts m (k # ks) w =
     put_mounts m ks (W_String (the (fmlookup m k)) (W_String k (W_Bool True w)))"

definition mount_dump :: "'s mount_server \<Rightarrow> 's mount_state \<Rightarrow> call_result" where
  "mount_dump M a = CallOk (W_Bool False (put_mounts (ms_mounts a) (mt_range M (ms_mounts a)) NewWriter))"

definition mount_export :: "'s mount_server \<Rightarrow> call_result" where
  "mount_export M = CallOk (W_Bool False (W_Bool False (W_String (mt_export M) (W_Bool True NewWriter))))"

definition ProgramMount :: u32 where "ProgramMount = 100005"
definition VersionMount :: u32 where "VersionMount = 3"
definition mountProcCount :: u32 where "mountProcCount = 6"

definition mount_Call ::
  "'s mount_server \<Rightarrow> u32 \<Rightarrow> cred \<Rightarrow> reader \<Rightarrow> 's mount_state \<Rightarrow> (call_result \<times> 's mount_state) option" where
  "mount_Call M p cr r a =
     Some (if p = 0 then (CallOk NewWriter, a)
           else if p = 1 then mount_mnt M cr r a
           else if p = 2 then (mount_dump M a, a)
           else if p = 3 then mount_umnt cr r a
           else if p = 4 then (CallOk NewWriter, a\<lparr>ms_mounts := fmempty\<rparr>)
           else if p = 5 then (mount_export M, a)
           else (CallGarbage, a))"

definition mount_handler :: "'s mount_server \<Rightarrow> 's mount_state handler" where
  "mount_handler M =
     \<lparr>hd_HasProc = (\<lambda>p. p < mountProcCount), hd_Idempotent = (\<lambda>p. True), hd_Call = mount_Call M\<rparr>"

text \<open>
  The paths a client may ask for when the export is \<open>e\<close>, written without the normalisation: the export
  itself, the export with one more or one less trailing slash, and, for the root, the three spellings of it.
\<close>

definition bare :: "string \<Rightarrow> bool" where
  "bare s \<longleftrightarrow> s = [] \<or> last s \<noteq> CHR ''/''"

definition names_export :: "string \<Rightarrow> string \<Rightarrow> bool" where
  "names_export e path \<longleftrightarrow>
     path = e \<or> bare e \<and> path = e @ ''/'' \<or> bare path \<and> e = path @ ''/'' \<or>
     path \<in> {[], ''/'', ''//''} \<and> e \<in> {[], ''/'', ''//''}"

lemma trim_cases:
  obtains "bare s" "mount_norm s = (if s = [] then ''/'' else s)"
  | t where "s = t @ ''/''" "mount_norm s = (if t = [] then ''/'' else t)"
proof (cases s rule: rev_cases)
  case Nil
  then show ?thesis using that(1) by (simp add: bare_def mount_norm_def)
next
  case (snoc t c)
  then show ?thesis
    using that(1) that(2) [of t] by (cases "c = CHR ''/''") (simp_all add: bare_def mount_norm_def)
qed

lemma mount_norm_eq: "mount_norm path = mount_norm e \<longleftrightarrow> names_export e path"
proof -
  have one: "bare ''/'' \<longleftrightarrow> False" "bare ''//'' \<longleftrightarrow> False" "\<And>t. bare (t @ ''/'') \<longleftrightarrow> False" by (simp_all add: bare_def)
  show ?thesis
    by (cases path rule: trim_cases; cases e rule: trim_cases)
      (auto simp: names_export_def one Cons_eq_append_conv append_eq_Cons_conv split: if_splits)
qed

text \<open>
  C40. MNT grants the root handle exactly for the export the server was made with, where one trailing slash
  more or less makes no difference and the empty path is the root, and for no other path: any other path
  is answered NOENT, and arguments that do not decode are garbage, both with the table of clients and the
  filesystem as they were. A grant records the client, and its reply is the status, the handle as an
  opaque, and the two flavors, AUTH_SYS first, so reading it back with the XDR reader gives the
  filesystem's root handle.
\<close>

theorem MNT_grants_export:
  fixes V :: "'s vfs_ops" and export :: string and ord :: "(string, string) fmap \<Rightarrow> string list"
  defines "M \<equiv> NewMountServer V export ord"
  assumes "R_String r = (path, r1)" "v_Root V (ms_fs a) = (Inr h, f)" "length h \<le> maxVarLen"
  shows "(err r1 = None \<and> names_export (if export = [] then ''/'' else export) path \<longrightarrow>
      (\<exists>body. mount_Call M 1 cr r a = Some (CallOk body, a\<lparr>ms_mounts := fmupd (cr_Machine cr) path (ms_mounts a), ms_fs := f\<rparr>) \<and>
        get_fields [FU32 0, FOpaque [], FU32 0, FU32 0, FU32 0] (NewReader body) =
          ([FU32 mnt3OK, FOpaque h, FU32 2, FU32 authFlavorSys, FU32 authFlavorNone], \<lparr>rb = body, off = length body, err = None\<rparr>))) \<and>
    (err r1 = None \<and> \<not> names_export (if export = [] then ''/'' else export) path \<longrightarrow>
      mount_Call M 1 cr r a = Some (CallOk (put_be32 mnt3ErrNoEnt), a)) \<and>
    (err r1 \<noteq> None \<longrightarrow> mount_Call M 1 cr r a = Some (CallGarbage, a))"
proof -
  let ?fs = "[FU32 mnt3OK, FOpaque h, FU32 2, FU32 authFlavorSys, FU32 authFlavorNone]"
  let ?body = "W_Uint32 authFlavorNone (W_Uint32 authFlavorSys (W_Uint32 2 (W_Opaque h (W_Uint32 mnt3OK NewWriter))))"
  have b: "?body = fold put_field ?fs []" by (simp add: NewWriter_def)
  have "get_fields ?fs (NewReader ?body) = (?fs, \<lparr>rb = ?body, off = length ?body, err = None\<rparr>)"
    using get_fields_exact [of "NewReader ?body" "[]" ?fs "[]"] assms(4) unfolding b by (simp add: NewReader_def)
  then have g: "get_fields [FU32 0, FOpaque [], FU32 0, FU32 0, FU32 0] (NewReader ?body) =
      (?fs, \<lparr>rb = ?body, off = length ?body, err = None\<rparr>)" by simp
  have "mount_accepts M path \<longleftrightarrow> names_export (if export = [] then ''/'' else export) path"
    by (simp add: mount_accepts_def mount_norm_eq M_def NewMountServer_def)
  with g assms(2,3) show ?thesis
    by (auto simp: mount_Call_def mount_mnt_def W_Uint32_def NewWriter_def M_def NewMountServer_def)
qed

definition root_only :: "unit vfs_ops" where
  "root_only = \<lparr>v_Root = (\<lambda>s. (Inr [1, 2, 3, 4], s)), v_MaxFileSize = (\<lambda>s. 0), v_GetAttr = (\<lambda>h s. (Inl (EStatus ErrStale), s)),
     v_SetAttr = (\<lambda>c h sa s. (Inl (EStatus ErrStale), s)), v_Lookup = (\<lambda>c h n s. (Inl (EStatus ErrStale), s)),
     v_Access = (\<lambda>c h m s. (Inl (EStatus ErrStale), s)), v_Read = (\<lambda>c h x n s. (Inl (EStatus ErrStale), s)),
     v_Write = (\<lambda>c h x d st s. Some (Inl (EStatus ErrStale), s)), v_Commit = (\<lambda>h x n s. (None, s)),
     v_Create = (\<lambda>c h n sa ex s. (Inl (EStatus ErrStale), s)), v_Mkdir = (\<lambda>c h n sa s. (Inl (EStatus ErrStale), s)),
     v_Symlink = (\<lambda>c h n t sa s. (Inl (EStatus ErrStale), s)), v_ReadLink = (\<lambda>h s. (Inl (EStatus ErrStale), s)),
     v_Remove = (\<lambda>c h n s. (Inr (), s)), v_Rmdir = (\<lambda>c h n s. (Inr (), s)), v_Rename = (\<lambda>c h n h' n' s. (Inr (), s)),
     v_ReadDir = (\<lambda>c h k v m pl s. (Inl (EStatus ErrStale), s)), v_FSStat = (\<lambda>h s. (Inl (EStatus ErrStale), s))\<rparr>"

theorem MNT_grants_export_witness:
  "mount_Call (NewMountServer root_only ''/data'' (\<lambda>_. [])) 1 \<lparr>cr_UID = 0, cr_GID = 0, cr_GIDs = [], cr_Machine = ''m''\<rparr>
     (NewReader [0, 0, 0, 1, 97, 0, 0, 0]) \<lparr>ms_fs = (), ms_mounts = fmempty\<rparr> =
   Some (CallOk (put_be32 mnt3ErrNoEnt), \<lparr>ms_fs = (), ms_mounts = fmempty\<rparr>)"
proof -
  have ch: "char_of (97 :: nat) = CHR ''a''" by code_simp
  obtain r1 where r: "R_String (NewReader [0, 0, 0, 1, 97, 0, 0, 0]) = (''a'', r1)" "err r1 = None"
    by (simp add: R_String_def R_Opaque_def R_Uint32_def R_take_def NewReader_def get_be32_def slice_def maxVarLen_def
        R_Fixed_def R_skipPad_def string_of_bytes_def ch)
  have h: "v_Root root_only (ms_fs \<lparr>ms_fs = (), ms_mounts = fmempty\<rparr>) = (Inr [1, 2, 3, 4], ())"
    by (simp add: root_only_def)
  from MNT_grants_export [OF r(1) h, of "''/data''" "\<lambda>_. []"] r(2) show ?thesis
    by (simp add: maxVarLen_def names_export_def)
qed

end
