(* ===== verification/Datapath.thy ===== *)
theory Datapath
  imports Namespace
begin

text \<open>
  The data path of \<open>internal/blobfs/fs.go\<close>: chunk fetch and upload, reading, buffered writing,
  truncation and flushing. \<open>sha\<close> stands for the hexadecimal SHA-256 sum, \<open>st\<close> for the store, and the
  world \<open>w\<close> for what the store acts on. Chunk indices and byte positions are natural numbers: the
  products and sums of the code stay below the file-size limit, or the clamps before them say so; the
  two that can pass 64 bits, of a write's end and of a read's end, are written with their wrap.
\<close>

section \<open>Chunks\<close>

definition loadChunk ::
  "(bytes \<Rightarrow> string) \<Rightarrow> 'w store_ops \<Rightarrow> chunkRef \<Rightarrow> fs \<Rightarrow> 'w \<Rightarrow> (err + bytes) \<times> fs \<times> 'w" where
  "loadChunk sha st ref N w =
     (if isHole ref then (Inr (replicate (ch_Size ref) 0), N, w)
      else (case cache_get (ch_Hash ref) (cache N) of
              (Some data, c1) \<Rightarrow> (Inr data, N\<lparr>cache := c1\<rparr>, w)
            | (None, c1) \<Rightarrow>
                (let N1 = N\<lparr>cache := c1\<rparr> in
                 case Get st (chunkPrefix @ ch_Hash ref) w of
                   (Inl e, w1) \<Rightarrow>
                     (Inl (if e = ErrNotFound then EStatus ErrIO
                           else EWrap (''read chunk '' @ ch_Hash ref) (EStore e)), N1, w1)
                 | (Inr data, w1) \<Rightarrow>
                     if \<not> skipVerify N1 \<and> sha data \<noteq> ch_Hash ref
                     then (Inl (EWrap (''chunk '' @ ch_Hash ref @ '' failed verification'') (EStatus ErrIO)), N1, w1)
                     else (Inr data,
                           N1\<lparr>cache := cache_put (ch_Hash ref) data (cache N1),
                              knownChunks := finsert (ch_Hash ref) (knownChunks N1)\<rparr>, w1))))"

definition putChunk ::
  "(bytes \<Rightarrow> string) \<Rightarrow> 'w store_ops \<Rightarrow> bytes \<Rightarrow> fs \<Rightarrow> 'w \<Rightarrow> (err + chunkRef) \<times> fs \<times> 'w" where
  "putChunk sha st data N w =
     (let hash = sha data;
          ref = \<lparr>ch_Hash = hash, ch_Size = wrap32 (length data)\<rparr>;
          key = chunkPrefix @ hash
      in if hash |\<in>| knownChunks N then (Inr ref, N, w)
         else (case Head st key w of
                 (Inr info, w1) \<Rightarrow> (Inr ref, N\<lparr>knownChunks := finsert hash (knownChunks N)\<rparr>, w1)
               | (Inl e, w1) \<Rightarrow>
                   (case Put st key data w1 of
                      (Some e, w2) \<Rightarrow>
                        (Inl (if e = ErrUnsupported then EStatus ErrROFS
                              else EWrap (''write chunk '' @ hash) (EStore e)), N, w2)
                    | (None, w2) \<Rightarrow>
                        (Inr ref, N\<lparr>knownChunks := finsert hash (knownChunks N),
                                   cache := cache_put hash data (cache N)\<rparr>, w2))))"

section \<open>Reading\<close>

record readRef =
  rr_idx :: nat
  rr_ref :: chunkRef
  rr_trim :: "nat option"

definition readable :: "fs \<Rightarrow> caller \<Rightarrow> handle \<Rightarrow> status + u64 \<times> inode" where
  "readable N c h =
     (case resolve N h of
        Inl e \<Rightarrow> Inl e
      | Inr (i, n) \<Rightarrow> (case checkPerm N OpRead c n of Some e \<Rightarrow> Inl e | None \<Rightarrow> Inr (i, n)))"

definition readEnd :: "nat \<Rightarrow> nat \<Rightarrow> nat \<Rightarrow> nat" where
  "readEnd off sz count = (if count < sub64 sz off then wrap64 (off + count) else sz)"

text \<open>The indices \<open>off/cs .. (end-1)/cs\<close> a non-empty range touches.\<close>

definition range_idxs :: "nat \<Rightarrow> nat \<Rightarrow> nat \<Rightarrow> nat list" where
  "range_idxs cs off end = (if end \<le> off then [] else [off div cs ..< Suc ((end - 1) div cs)])"

definition readRef_of ::
  "nat \<Rightarrow> chunkRef list \<Rightarrow> (nat, buf) fmap \<Rightarrow> (nat, trimReq) fmap \<Rightarrow> nat \<Rightarrow> nat \<Rightarrow> readRef list" where
  "readRef_of cs chunks dirt trims off idx =
     (if idx \<ge> length chunks then []
      else if fmlookup dirt idx \<noteq> None \<or> isHole (chunks ! idx) then []
      else (case fmlookup trims idx of
              None \<Rightarrow> [\<lparr>rr_idx = idx, rr_ref = chunks ! idx, rr_trim = None\<rparr>]
            | Some t \<Rightarrow>
                (let within = (if off > idx * cs then off - idx * cs else 0)
                 in if within \<ge> tr_to t then []
                    else [\<lparr>rr_idx = idx, rr_ref = chunks ! idx, rr_trim = Some (tr_to t)\<rparr>])))"

definition readRefs ::
  "nat \<Rightarrow> inode \<Rightarrow> (nat, buf) fmap \<Rightarrow> (nat, trimReq) fmap \<Rightarrow> nat \<Rightarrow> nat \<Rightarrow> readRef list" where
  "readRefs cs n dirt trims off end =
     concat (map (readRef_of cs (Chunks n) dirt trims off) (range_idxs cs off end))"

text \<open>Where chunk \<open>idx\<close> meets the range: the offset into the chunk, and the bounds of its part of the reply.\<close>

definition readSpan :: "nat \<Rightarrow> nat \<Rightarrow> nat \<Rightarrow> nat \<Rightarrow> nat \<times> nat \<times> nat" where
  "readSpan cs off end idx =
     (let base = idx * cs;
          lo = (if base < off then off else base);
          hi = (if end - base > cs then base + cs else end)
      in (lo - base, lo - off, hi - off))"

definition copy_chunk :: "nat \<Rightarrow> nat \<Rightarrow> nat \<Rightarrow> nat \<Rightarrow> bytes \<Rightarrow> bytes \<Rightarrow> bytes" where
  "copy_chunk cs off end idx data out =
     (case readSpan cs off end idx of
        (within, a, b) \<Rightarrow>
          if within < length data then copy_at a (take (b - a) (drop within data)) out else out)"

definition copy_dirty :: "nat \<Rightarrow> (nat, buf) fmap \<Rightarrow> nat \<Rightarrow> nat \<Rightarrow> bytes \<Rightarrow> bytes" where
  "copy_dirty cs dirt off end out =
     fold (\<lambda>idx out. case fmlookup dirt idx of
                       None \<Rightarrow> out
                     | Some b \<Rightarrow> copy_chunk cs off end idx (b_data b) out)
       (range_idxs cs off end) out"

text \<open>\<open>readBuffered\<close>: the size, the end, the reply with the dirty bytes in it, the references to fetch.\<close>

definition readBuffered ::
  "fs \<Rightarrow> caller \<Rightarrow> handle \<Rightarrow> openFile \<Rightarrow> nat \<Rightarrow> nat \<Rightarrow> status + nat \<times> nat \<times> bytes \<times> readRef list" where
  "readBuffered N c h x off count =
     (case readable N c h of
        Inl e \<Rightarrow> Inl e
      | Inr (i, n) \<Rightarrow>
          (let sz = Size n in
           if off \<ge> sz then Inr (sz, 0, [], [])
           else let end = readEnd off sz count;
                    refs = readRefs (chunkSize N) n (of_dirty x) (of_pendingTrim x) off end;
                    out = copy_dirty (chunkSize N) (of_dirty x) off end (replicate (end - off) 0)
                in Inr (sz, end, out, refs)))"

fun read_fetch ::
  "(bytes \<Rightarrow> string) \<Rightarrow> 'w store_ops \<Rightarrow> nat \<Rightarrow> nat \<Rightarrow> readRef list \<Rightarrow> bytes \<Rightarrow> fs \<Rightarrow> 'w
   \<Rightarrow> (err + bytes) \<times> fs \<times> 'w" where
  "read_fetch sha st off end [] out N w = (Inr out, N, w)"
| "read_fetch sha st off end (r # rs) out N w =
     (case loadChunk sha st (rr_ref r) N w of
        (Inl e, N1, w1) \<Rightarrow> (Inl e, N1, w1)
      | (Inr data, N1, w1) \<Rightarrow>
          (let data = (case rr_trim r of
                         Some t \<Rightarrow> if t < length data then take t data else data
                       | None \<Rightarrow> data)
           in read_fetch sha st off end rs (copy_chunk (chunkSize N) off end (rr_idx r) data out) N1 w1))"

definition Read ::
  "(bytes \<Rightarrow> string) \<Rightarrow> 'w store_ops \<Rightarrow> caller \<Rightarrow> handle \<Rightarrow> nat \<Rightarrow> nat \<Rightarrow> fs \<Rightarrow> 'w
   \<Rightarrow> (err + bytes \<times> bool) \<times> fs \<times> 'w" where
  "Read sha st c h off count N w =
     (case readable N c h of
        Inl e \<Rightarrow> (Inl (EStatus e), N, w)
      | Inr (i, n) \<Rightarrow>
          (case (case fmlookup (fopen N) (ID n) of
                   None \<Rightarrow>
                     (let end = (if off < Size n then readEnd off (Size n) count else 0)
                      in Inr (Size n, end, replicate (end - off) 0,
                              if off < Size n then readRefs (chunkSize N) n fmempty fmempty off end else []))
                 | Some x \<Rightarrow> readBuffered N c h x off count) of
             Inl e \<Rightarrow> (Inl (EStatus e), N, w)
           | Inr (sz, end, out, refs) \<Rightarrow>
               if off \<ge> sz then (Inr ([], True), N, w)
               else (case read_fetch sha st off end refs out N w of
                       (Inl e, N1, w1) \<Rightarrow> (Inl e, N1, w1)
                     | (Inr out1, N1, w1) \<Rightarrow> (Inr (out1, end \<ge> sz), N1, w1))))"

section \<open>Buffered writing\<close>

definition getOpen :: "u64 \<Rightarrow> fs \<Rightarrow> openFile \<times> fs" where
  "getOpen i N =
     (case fmlookup (fopen N) i of
        Some x \<Rightarrow> (x, N)
      | None \<Rightarrow> (new_openFile, N\<lparr>fopen := fmupd i new_openFile (fopen N)\<rparr>))"

definition zero_extend :: "nat \<Rightarrow> bytes \<Rightarrow> bytes" where
  "zero_extend need chunk = chunk @ replicate (need - length chunk) 0"

text \<open>
  One index of \<open>bufferWrite\<close>'s loop: the buffer the index starts from. A loaded chunk longer than the
  chunk size, which no flush stores, would make \<open>append\<close> grow its capacity to at least its length.
\<close>

definition start_buf ::
  "(bytes \<Rightarrow> string) \<Rightarrow> 'w store_ops \<Rightarrow> chunkRef list \<Rightarrow> openFile \<Rightarrow> nat \<Rightarrow> bool \<Rightarrow> fs \<Rightarrow> 'w
   \<Rightarrow> (err + buf) \<times> fs \<times> 'w" where
  "start_buf sha st refs x idx fullOverwrite N w =
     (case fmlookup (of_dirty x) idx of
        Some b \<Rightarrow> (Inr b, N, w)
      | None \<Rightarrow>
          if fullOverwrite \<or> idx \<ge> length refs
          then (Inr \<lparr>b_data = [], b_cap = chunkSize N\<rparr>, N, w)
          else (case loadChunk sha st (refs ! idx) N w of
                  (Inl e, N1, w1) \<Rightarrow> (Inl e, N1, w1)
                | (Inr loaded, N1, w1) \<Rightarrow>
                    (let loaded = (case fmlookup (of_pendingTrim x) idx of
                                     Some t \<Rightarrow> if tr_to t < length loaded then take (tr_to t) loaded else loaded
                                   | None \<Rightarrow> loaded)
                     in (Inr \<lparr>b_data = loaded, b_cap = max (chunkSize N) (length loaded)\<rparr>, N1, w1))))"

definition put_buf :: "nat \<Rightarrow> buf \<Rightarrow> openFile \<Rightarrow> openFile" where
  "put_buf idx b x =
     x\<lparr>of_dirty := fmupd idx b (of_dirty x), of_pendingTrim := fmdrop idx (of_pendingTrim x)\<rparr>"

lemma write_progress:
  "0 < c \<Longrightarrow> \<not> l \<le> k \<Longrightarrow> l - (k + min (c - p mod c) (l - k)) < l - k" for c l k p :: nat
proof -
  assume "0 < c" "\<not> l \<le> k"
  then have "0 < c - p mod c" "0 < l - k" by simp_all
  then have "0 < min (c - p mod c) (l - k)" by simp
  with \<open>\<not> l \<le> k\<close> show ?thesis by linarith
qed

function write_loop ::
  "(bytes \<Rightarrow> string) \<Rightarrow> 'w store_ops \<Rightarrow> chunkRef list \<Rightarrow> nat \<Rightarrow> bytes \<Rightarrow> nat \<Rightarrow> int \<Rightarrow> openFile \<Rightarrow> fs \<Rightarrow> 'w
   \<Rightarrow> (err + nat) \<times> int \<times> openFile \<times> fs \<times> 'w" where
  "write_loop sha st refs off data written charge x N w =
     (if written \<ge> length data then (Inr written, charge, x, N, w)
      else let cs = chunkSize N in
        if cs = 0 then (Inl EPanic, charge, x, N, w)
        else let pos = wrap64 (off + written);
                 idx = pos div cs;
                 within = pos mod cs;
                 oldCap = (case fmlookup (of_dirty x) idx of Some b \<Rightarrow> b_cap b | None \<Rightarrow> 0)
             in case start_buf sha st refs x idx (within = 0 \<and> length data - written \<ge> cs) N w of
                  (Inl e, N1, w1) \<Rightarrow>
                    ((if written > 0 then Inr written else Inl e), charge, x, N1, w1)
                | (Inr chunk, N1, w1) \<Rightarrow>
                    (let nw = min (cs - within) (length data - written);
                         d = copy_at within (slice written (written + nw) data)
                               (zero_extend (within + nw) (b_data chunk));
                         chunk1 = \<lparr>b_data = d, b_cap = max (b_cap chunk) (length d)\<rparr>
                     in write_loop sha st refs off data (written + nw)
                          (charge + (int (b_cap chunk1) - int oldCap)) (put_buf idx chunk1 x) N1 w1))"
  by pat_completeness auto
termination
proof (relation "measure (\<lambda>(sha, st, refs, off, data, written, _). length data - written)")
  show "wf (measure (\<lambda>(sha :: bytes \<Rightarrow> string, st :: 'w store_ops, refs :: chunkRef list, off :: nat,
      data :: bytes, written :: nat, rest :: int \<times> openFile \<times> fs \<times> 'w). length data - written))" by simp
qed (auto simp: write_progress)

declare write_loop.simps [simp del]

text \<open>
  \<open>bufferWrite\<close>, on the open file \<open>x\<close> of inode \<open>i\<close>: the answer, the open file after it, the state. The
  handle is resolved twice, as the code does around its loop.
\<close>

definition bufferWrite ::
  "clock \<Rightarrow> (bytes \<Rightarrow> string) \<Rightarrow> 'w store_ops \<Rightarrow> handle \<Rightarrow> openFile \<Rightarrow> nat \<Rightarrow> bytes \<Rightarrow> fs \<Rightarrow> 'w
   \<Rightarrow> (err + nat) \<times> openFile \<times> fs \<times> 'w" where
  "bufferWrite clk sha st h x off data N w =
     (let (gone, refs) = (case resolve N h of Inl e \<Rightarrow> (True, []) | Inr (i, n) \<Rightarrow> (False, Chunks n));
          written0 = (if gone then length data else 0)
      in case write_loop sha st refs off data written0 0 x N w of
           (Inl e, charge, x1, N1, w1) \<Rightarrow> (Inl e, x1, N1, w1)
         | (Inr written, charge, x1, N1, w1) \<Rightarrow>
             (let (x2, N2) = (if charge > 0 then (x1\<lparr>of_bytes := of_bytes x1 + charge\<rparr>, budget_add charge N1)
                              else (x1, N1))
              in case resolve N2 h of
                   Inr (i, n) \<Rightarrow>
                     (let endOff = wrap64 (off + written);
                          upd = (\<lambda>n. touchA (clk 0) (touchM (clk 0)
                                   (if endOff > Size n then n\<lparr>Size := endOff\<rparr> else n)))
                      in (Inr written, x2, markDirty (upd_inode i upd N2), w1))
                 | Inl e \<Rightarrow>
                     (Inr written, x2\<lparr>of_bytes := 0, of_dirty := fmempty\<rparr>,
                      budget_release (of_bytes x2) N2, w1)))"

section \<open>Truncation and SETATTR\<close>

definition cut_idx :: "nat \<Rightarrow> nat \<Rightarrow> nat \<Rightarrow> bool" where
  "cut_idx lastIdx tail idx \<longleftrightarrow> idx > lastIdx \<or> idx = lastIdx \<and> tail = 0"

definition sum_caps :: "(nat, buf) fmap \<Rightarrow> int" where
  "sum_caps m = (\<Sum>i \<leftarrow> sorted_list_of_fset (fmdom m). int (b_cap (the (fmlookup m i))))"

text \<open>The open file after the size change, given the chunk list after it was cut.\<close>

definition truncate_open :: "nat \<Rightarrow> nat \<Rightarrow> chunkRef list \<Rightarrow> openFile \<Rightarrow> openFile" where
  "truncate_open lastIdx tail chunks x =
     (let d1 = fmfilter (\<lambda>idx. \<not> cut_idx lastIdx tail idx) (of_dirty x);
          t1 = fmfilter (\<lambda>idx. \<not> cut_idx lastIdx tail idx) (of_pendingTrim x);
          d2 = (if tail \<noteq> 0
                then (case fmlookup d1 lastIdx of
                        Some b \<Rightarrow> if length (b_data b) > tail
                                  then fmupd lastIdx (b\<lparr>b_data := take tail (b_data b)\<rparr>) d1 else d1
                      | None \<Rightarrow> d1)
                else d1);
          t2 = (if tail \<noteq> 0 \<and> fmlookup d2 lastIdx = None \<and> length chunks = lastIdx + 1
                then (let ref = chunks ! lastIdx in
                      if isHole ref then t1
                      else let v = (case fmlookup t1 lastIdx of Some t \<Rightarrow> tr_to t | None \<Rightarrow> ch_Size ref)
                           in if tail < v then fmupd lastIdx \<lparr>tr_to = wrap32 tail, tr_ref = ref\<rparr> t1 else t1)
                else t1);
          uns = (if tail \<noteq> 0 \<and> length chunks = lastIdx + 1
                 then (let ref = chunks ! lastIdx in
                       if \<not> isHole ref \<and> ch_Size ref > tail then True else of_unsettled x)
                 else of_unsettled x)
      in x\<lparr>of_dirty := d2, of_pendingTrim := t2, of_unsettled := uns,
           of_bytes := of_bytes x - sum_caps (fmfilter (cut_idx lastIdx tail) (of_dirty x))\<rparr>)"

definition cut_chunks :: "nat \<Rightarrow> nat \<Rightarrow> chunkRef list \<Rightarrow> chunkRef list" where
  "cut_chunks lastIdx tail chunks =
     (if length chunks > lastIdx
      then let keep = (if tail \<noteq> 0 then lastIdx + 1 else lastIdx)
           in if length chunks > keep then take keep chunks else chunks
      else chunks)"

definition fill_holes :: "nat \<Rightarrow> nat \<Rightarrow> chunkRef list \<Rightarrow> chunkRef list" where
  "fill_holes cs len chunks = chunks @ replicate (len - length chunks) (hole cs)"

definition truncate ::
  "clock \<Rightarrow> caller \<Rightarrow> handle \<Rightarrow> set_attr \<Rightarrow> fs \<Rightarrow> (err + attr) \<times> fs" where
  "truncate clk c h sa N =
     (let sz = the (s_Size sa) in
      if sz > maxFileSize N then (Inl (EStatus ErrFBig), N)
      else
      with_ok (resolve N h) N (\<lambda>(i0, n0).
      or_fail (setAttrRequests N c n0 sa) N (
      let (x, N1) = getOpen (ID n0) N;
          cs = chunkSize N1
      in if cs = 0 then (Inl EPanic, N1)
      else let lastIdx = sz div cs;
               tail = sz mod cs
      in
      with_ok (resolve N1 h) N1 (\<lambda>(i, n).
      or_fail (setAttrRequests N1 c n sa) N1 (
      let chunks = cut_chunks lastIdx tail (Chunks n);
          freed = sum_caps (fmfilter (cut_idx lastIdx tail) (of_dirty x));
          N2 = (if freed > 0 then budget_release freed N1 else N1);
          N3 = put_open (ID n0) (truncate_open lastIdx tail chunks x) N2;
          chunks2 = (if sz > Size n then fill_holes cs lastIdx chunks else chunks);
          n1 = fst (applySetAttr (touchM (clk 0) (n\<lparr>Chunks := chunks2, Size := sz\<rparr>)) sa (clk 0));
          N4 = markDirty (upd_inode i (\<lambda>_. n1) N3)
      in (Inr (inode_attr n1 (fsid N)), N4))))))"

definition SetAttr ::
  "clock \<Rightarrow> caller \<Rightarrow> handle \<Rightarrow> set_attr \<Rightarrow> fs \<Rightarrow> (err + attr) \<times> fs" where
  "SetAttr clk c h sa N =
     or_fail (mutable N) N (
     if s_Size sa \<noteq> None then truncate clk c h sa N
     else
     with_ok (resolve N h) N (\<lambda>(i, n).
     or_fail (setAttrRequests N c n sa) N (
     let (n1, applied) = applySetAttr n sa (clk 0);
         N1 = upd_inode i (\<lambda>_. n1) N
     in (Inr (inode_attr n1 (fsid N)), if applied then markDirty N1 else N1))))"

section \<open>Flushing\<close>

definition applyTrim ::
  "(bytes \<Rightarrow> string) \<Rightarrow> 'w store_ops \<Rightarrow> trimReq \<Rightarrow> fs \<Rightarrow> 'w \<Rightarrow> (err + chunkRef) \<times> fs \<times> 'w" where
  "applyTrim sha st t N w =
     (case loadChunk sha st (tr_ref t) N w of
        (Inl e, N1, w1) \<Rightarrow> (Inl e, N1, w1)
      | (Inr data, N1, w1) \<Rightarrow>
          (let k = (if tr_to t < length data then tr_to t else length data)
           in putChunk sha st (take k data) N1 w1))"

text \<open>
  The pending trims are applied in the order of their indices, where \<open>range\<close> visits the map in any; the
  order shows only in which error is returned first and in the cache.
\<close>

fun apply_trims ::
  "(bytes \<Rightarrow> string) \<Rightarrow> 'w store_ops \<Rightarrow> (nat, trimReq) fmap \<Rightarrow> nat list \<Rightarrow> fs \<Rightarrow> 'w
   \<Rightarrow> (err + (nat \<times> chunkRef) list) \<times> fs \<times> 'w" where
  "apply_trims sha st m [] N w = (Inr [], N, w)"
| "apply_trims sha st m (i # is) N w =
     (case applyTrim sha st (the (fmlookup m i)) N w of
        (Inl e, N1, w1) \<Rightarrow> (Inl e, N1, w1)
      | (Inr ref, N1, w1) \<Rightarrow>
          (case apply_trims sha st m is N1 w1 of
             (Inl e, N2, w2) \<Rightarrow> (Inl e, N2, w2)
           | (Inr rs, N2, w2) \<Rightarrow> (Inr ((i, ref) # rs), N2, w2)))"

fun put_chunks ::
  "(bytes \<Rightarrow> string) \<Rightarrow> 'w store_ops \<Rightarrow> (nat, buf) fmap \<Rightarrow> nat list \<Rightarrow> fs \<Rightarrow> 'w
   \<Rightarrow> (err + (nat \<times> chunkRef) list) \<times> fs \<times> 'w" where
  "put_chunks sha st m [] N w = (Inr [], N, w)"
| "put_chunks sha st m (i # is) N w =
     (case putChunk sha st (b_data (the (fmlookup m i))) N w of
        (Inl e, N1, w1) \<Rightarrow> (Inl e, N1, w1)
      | (Inr ref, N1, w1) \<Rightarrow>
          (case put_chunks sha st m is N1 w1 of
             (Inl e, N2, w2) \<Rightarrow> (Inl e, N2, w2)
           | (Inr rs, N2, w2) \<Rightarrow> (Inr ((i, ref) # rs), N2, w2)))"

definition set_trimmed :: "(nat \<times> chunkRef) list \<Rightarrow> chunkRef list \<Rightarrow> chunkRef list" where
  "set_trimmed rs chunks = fold (\<lambda>(i, ref) cs. if i < length cs then cs[i := ref] else cs) rs chunks"

definition set_uploaded :: "nat \<Rightarrow> (nat \<times> chunkRef) list \<Rightarrow> chunkRef list \<Rightarrow> chunkRef list" where
  "set_uploaded cs rs chunks = fold (\<lambda>(i, ref) c. (fill_holes cs (Suc i) c)[i := ref]) rs chunks"

definition dropIfGone :: "u64 \<Rightarrow> openFile \<Rightarrow> fs \<Rightarrow> openFile \<times> fs" where
  "dropIfGone i x N =
     (if i |\<in>| fmdom (inodes N) then (x, N)
      else (x\<lparr>of_bytes := 0, of_dirty := fmempty, of_pendingTrim := fmempty\<rparr>, budget_release (of_bytes x) N))"

definition flushOpen ::
  "(bytes \<Rightarrow> string) \<Rightarrow> 'w store_ops \<Rightarrow> u64 \<Rightarrow> openFile \<Rightarrow> fs \<Rightarrow> 'w \<Rightarrow> err option \<times> openFile \<times> fs \<times> 'w" where
  "flushOpen sha st i x N w =
     (if fmdom (of_dirty x) = {||} \<and> fmdom (of_pendingTrim x) = {||}
      then (None, x\<lparr>of_unsettled := False\<rparr>, N, w)
      else case apply_trims sha st (of_pendingTrim x) (sorted_list_of_fset (fmdom (of_pendingTrim x))) N w of
        (Inl e, N1, w1) \<Rightarrow> (case dropIfGone i x N1 of (x1, N2) \<Rightarrow> (Some e, x1, N2, w1))
      | (Inr trimmed, N1, w1) \<Rightarrow>
          (case put_chunks sha st (of_dirty x) (sorted_list_of_fset (fmdom (of_dirty x))) N1 w1 of
             (Inl e, N2, w2) \<Rightarrow> (case dropIfGone i x N2 of (x1, N3) \<Rightarrow> (Some e, x1, N3, w2))
           | (Inr uploaded, N2, w2) \<Rightarrow>
               (let N3 = (if i |\<in>| fmdom (inodes N2)
                          then markDirty (upd_inode i (\<lambda>n. n\<lparr>Chunks :=
                                 set_uploaded (chunkSize N2) uploaded (set_trimmed trimmed (Chunks n))\<rparr>) N2)
                          else N2)
                in (None, x\<lparr>of_unsettled := False, of_dirty := fmempty, of_pendingTrim := fmempty, of_bytes := 0\<rparr>,
                    budget_release (of_bytes x) N3, w2))))"

definition commitFile ::
  "(bytes \<Rightarrow> string) \<Rightarrow> 'w store_ops \<Rightarrow> u64 \<Rightarrow> fs \<Rightarrow> 'w \<Rightarrow> err option \<times> fs \<times> 'w" where
  "commitFile sha st i N w =
     (case fmlookup (fopen N) i of
        None \<Rightarrow> (None, N, w)
      | Some x \<Rightarrow>
          (case flushOpen sha st i x N w of (r, x1, N1, w1) \<Rightarrow> (r, put_open i x1 N1, w1)))"

text \<open>\<open>flushAll\<close> and \<open>settleAll\<close> go through the open files in the order \<open>range\<close> gave them, \<open>ids\<close>.\<close>

fun flush_list ::
  "(bytes \<Rightarrow> string) \<Rightarrow> 'w store_ops \<Rightarrow> u64 list \<Rightarrow> fs \<Rightarrow> 'w \<Rightarrow> err option \<times> fs \<times> 'w" where
  "flush_list sha st [] N w = (None, N, w)"
| "flush_list sha st (i # is) N w =
     (case commitFile sha st i N w of
        (Some e, N1, w1) \<Rightarrow> (Some e, N1, w1)
      | (None, N1, w1) \<Rightarrow> flush_list sha st is N1 w1)"

definition flushAll ::
  "(bytes \<Rightarrow> string) \<Rightarrow> 'w store_ops \<Rightarrow> u64 list \<Rightarrow> fs \<Rightarrow> 'w \<Rightarrow> err option \<times> fs \<times> 'w" where
  "flushAll sha st ids N w = flush_list sha st ids N w"

definition settleAll ::
  "(bytes \<Rightarrow> string) \<Rightarrow> 'w store_ops \<Rightarrow> u64 list \<Rightarrow> fs \<Rightarrow> 'w \<Rightarrow> err option \<times> fs \<times> 'w" where
  "settleAll sha st ids N w =
     flush_list sha st
       (filter (\<lambda>i. case fmlookup (fopen N) i of Some x \<Rightarrow> of_unsettled x | None \<Rightarrow> False) ids) N w"

end
