(* ===== verification/Content.thy ===== *)
theory Content
  imports Datapath
begin

text \<open>
  What a file contains. \<open>content\<close> is the abstract file: the byte at each position, read through the
  dirty buffers, the pending trims and the chunk list, with the bytes a chunk hash stands for. The
  hash is taken to be injective (\<open>inj sha\<close>), the assumption under content addressing, so that a hash
  names one byte string; nothing here depends on what the bucket holds.
\<close>

section \<open>The abstract file\<close>

definition cdata :: "(bytes \<Rightarrow> string) \<Rightarrow> chunkRef \<Rightarrow> bytes" where
  "cdata sha ref = (if isHole ref then replicate (ch_Size ref) 0 else inv sha (ch_Hash ref))"

definition eff :: "(bytes \<Rightarrow> string) \<Rightarrow> chunkRef list \<Rightarrow> openFile \<Rightarrow> nat \<Rightarrow> bytes" where
  "eff sha chunks x idx =
     (case fmlookup (of_dirty x) idx of
        Some b \<Rightarrow> b_data b
      | None \<Rightarrow>
          if idx < length chunks
          then (case fmlookup (of_pendingTrim x) idx of
                  Some t \<Rightarrow> take (tr_to t) (cdata sha (chunks ! idx))
                | None \<Rightarrow> cdata sha (chunks ! idx))
          else [])"

definition byte_at :: "bytes \<Rightarrow> nat \<Rightarrow> u8" where
  "byte_at l k = (if k < length l then l ! k else 0)"

definition fbyte :: "(bytes \<Rightarrow> string) \<Rightarrow> nat \<Rightarrow> chunkRef list \<Rightarrow> openFile \<Rightarrow> nat \<Rightarrow> u8" where
  "fbyte sha cs chunks x pos = byte_at (eff sha chunks x (pos div cs)) (pos mod cs)"

definition open_of :: "fs \<Rightarrow> u64 \<Rightarrow> openFile" where
  "open_of N i = (case fmlookup (fopen N) i of Some x \<Rightarrow> x | None \<Rightarrow> new_openFile)"

definition content :: "(bytes \<Rightarrow> string) \<Rightarrow> fs \<Rightarrow> u64 \<Rightarrow> nat \<Rightarrow> u8" where
  "content sha N i pos =
     (case fmlookup (inodes N) i of
        Some n \<Rightarrow> fbyte sha (chunkSize N) (Chunks n) (open_of N i) pos
      | None \<Rightarrow> 0)"

lemma byte_at_simps [simp]:
  "byte_at [] k = 0" "byte_at (replicate n 0) k = 0"
  by (simp_all add: byte_at_def)

lemma byte_at_take: "byte_at (take t l) k = (if k < t then byte_at l k else 0)"
  by (simp add: byte_at_def)

section \<open>Loading and storing a chunk\<close>

text \<open>Loading and storing chunks changes the cache and the known set of the mount, and nothing else.\<close>

definition same_ns :: "fs \<Rightarrow> fs \<Rightarrow> bool" where
  "same_ns N N' \<longleftrightarrow> (\<exists>c k. N' = N\<lparr>cache := c, knownChunks := k\<rparr>)"

lemma same_ns_refl [simp]: "same_ns N N"
  unfolding same_ns_def by (intro exI [of _ "cache N"] exI [of _ "knownChunks N"]) simp

lemma same_ns_upd [simp]:
  "same_ns N (N\<lparr>cache := c\<rparr>)" "same_ns N (N\<lparr>knownChunks := k\<rparr>)"
  "same_ns N (N\<lparr>cache := c, knownChunks := k\<rparr>)" "same_ns N (N\<lparr>knownChunks := k, cache := c\<rparr>)"
  unfolding same_ns_def
  by (rule exI [of _ c], rule exI [of _ "knownChunks N"], simp)
    (rule exI [of _ "cache N"], rule exI [of _ k], simp,
     rule exI [of _ c], rule exI [of _ k], simp, rule exI [of _ c], rule exI [of _ k], simp)

lemma same_ns_trans: "same_ns N N1 \<Longrightarrow> same_ns N1 N2 \<Longrightarrow> same_ns N N2"
proof -
  assume "same_ns N N1" "same_ns N1 N2"
  then obtain c k c' k' where "N1 = N\<lparr>cache := c, knownChunks := k\<rparr>" "N2 = N1\<lparr>cache := c', knownChunks := k'\<rparr>"
    unfolding same_ns_def by blast
  then have "N2 = N\<lparr>cache := c', knownChunks := k'\<rparr>" by simp
  then show ?thesis unfolding same_ns_def by blast
qed

lemma same_ns_sel:
  assumes "same_ns N N'"
  shows "inodes N' = inodes N" "fopen N' = fopen N" "chunkSize N' = chunkSize N" "perm N' = perm N"
    "skipVerify N' = skipVerify N" "fsid N' = fsid N" "nextIno N' = nextIno N" "mode N' = mode N"
    "budget_used N' = budget_used N" "maxFileSize N' = maxFileSize N" "dirty N' = dirty N" "changes N' = changes N"
  using assms unfolding same_ns_def by auto

lemma same_ns_content: "same_ns N N' \<Longrightarrow> content sha N' i = content sha N i"
  by (simp add: content_def open_of_def same_ns_sel fun_eq_iff split: option.split)

lemma loadChunk_same_ns: "loadChunk sha st ref N w = (r, N', w') \<Longrightarrow> same_ns N N'"
  by (auto simp: loadChunk_def Let_def split: if_splits prod.splits option.splits sum.splits)

lemma putChunk_same_ns: "putChunk sha st d N w = (r, N', w') \<Longrightarrow> same_ns N N'"
  by (auto simp: putChunk_def Let_def split: if_splits prod.splits option.splits sum.splits)

lemma read_fetch_same_ns: "read_fetch sha st x y refs out N w = (r, N', w') \<Longrightarrow> same_ns N N'"
proof (induction refs arbitrary: out N w)
  case (Cons r0 refs)
  obtain q N1 w1 where q: "loadChunk sha st (rr_ref r0) N w = (q, N1, w1)" by (metis prod_cases3)
  have "same_ns N N1" using q by (rule loadChunk_same_ns)
  with Cons q show ?case by (cases q) (auto simp: Let_def intro: same_ns_trans)
qed simp

lemma Read_same_ns: "Read sha st c h x n N w = (r, N', w') \<Longrightarrow> same_ns N N'"
  by (auto simp: Read_def Let_def split: if_splits prod.splits option.splits sum.splits dest: read_fetch_same_ns)

text \<open>
  With verification on, a chunk is loaded whole and right or not at all, whatever the store answers.
\<close>

lemma loadChunk_right:
  assumes "loadChunk sha st ref N w = (r, N', w')" "inj sha" "cache_ok sha (cache N)" "\<not> skipVerify N"
  shows "same_ns N N' \<and> cache_ok sha (cache N') \<and> (\<forall>d. r = Inr d \<longrightarrow> d = cdata sha ref)"
proof (cases "isHole ref")
  case True
  with assms(1,3) show ?thesis by (auto simp: loadChunk_def cdata_def)
next
  case False
  let ?h = "ch_Hash ref"
  obtain g c1 where g: "cache_get ?h (cache N) = (g, c1)" by force
  have c1: "cache_ok sha c1" using cache_get_ok(1) [OF assms(3), of ?h] g by simp
  have inv: "sha d = ?h \<Longrightarrow> d = cdata sha ref" for d
    using assms(2) False by (metis cdata_def inv_f_f)
  show ?thesis
  proof (cases g)
    case (Some d)
    then have "sha d = ?h" using cache_get_ok(2) [OF assms(3), of ?h d] g by simp
    with inv Some assms(1) g False c1 show ?thesis by (auto simp: loadChunk_def)
  next
    case None
    obtain q w1 where q: "Get st (chunkPrefix @ ?h) w = (q, w1)" by force
    show ?thesis
    proof (cases q)
      case (Inl e)
      with None assms(1) g q False c1 show ?thesis by (auto simp: loadChunk_def Let_def)
    next
      case (Inr d)
      have *: "loadChunk sha st ref N w =
          (if sha d \<noteq> ?h
           then (Inl (EWrap (''chunk '' @ ?h @ '' failed verification'') (EStatus ErrIO)), N\<lparr>cache := c1\<rparr>, w1)
           else (Inr d, N\<lparr>cache := cache_put ?h d c1, knownChunks := finsert ?h (knownChunks N)\<rparr>, w1))"
        using None Inr g q False assms(4) by (simp add: loadChunk_def Let_def)
      show ?thesis
        using assms(1) inv c1 cache_put_ok [OF c1, of d ?h] unfolding * by (auto split: if_splits)
    qed
  qed
qed

section \<open>Reading\<close>

text \<open>Copying the chunks of a range into the reply, one index at a time.\<close>

definition in_range :: "nat \<Rightarrow> nat \<Rightarrow> nat \<Rightarrow> nat \<Rightarrow> bool" where
  "in_range cs off end idx \<longleftrightarrow> off div cs \<le> idx \<and> idx * cs < end"

lemma range_idxs_iff:
  assumes "0 < cs" "off < end"
  shows "idx \<in> set (range_idxs cs off end) \<longleftrightarrow> in_range cs off end idx"
proof -
  have "idx \<le> (end - 1) div cs \<longleftrightarrow> idx * cs \<le> end - 1" using assms(1) by (simp add: less_eq_div_iff_mult_less_eq)
  also have "\<dots> \<longleftrightarrow> idx * cs < end" using assms(2) by auto
  finally show ?thesis using assms by (auto simp: range_idxs_def in_range_def)
qed

lemma copy_chunk_nth:
  assumes "0 < cs" "off < end" "in_range cs off end idx" "length out = end - off" "k < end - off"
  shows "copy_chunk cs off end idx d out ! k =
    (if (off + k) div cs = idx \<and> (off + k) mod cs < length d then d ! ((off + k) mod cs) else out ! k)"
    and "length (copy_chunk cs off end idx d out) = end - off"
proof -
  let ?b = "idx * cs"
  define lo where "lo = (if ?b < off then off else ?b)"
  define hi where "hi = (if end - ?b > cs then ?b + cs else end)"
  have b: "?b < end" "off < ?b + cs"
    using assms(1,3) div_less_iff_less_mult [of cs off "Suc idx"] by (auto simp: in_range_def)
  have lh: "off \<le> lo" "lo < hi" "hi \<le> end" "?b \<le> lo" using assms(1,2) b by (auto simp: lo_def hi_def)
  have in_iff: "(off + k) div cs = idx \<longleftrightarrow> lo \<le> off + k \<and> off + k < hi"
  proof -
    have "(off + k) div cs = idx \<longleftrightarrow> ?b \<le> off + k \<and> off + k < ?b + cs"
      using assms(1) div_times_less_eq_dividend [of "off + k" cs] dividend_less_div_times [of cs "off + k"]
        div_nat_eqI [of cs idx "off + k"]
      by (auto simp: algebra_simps)
    then show ?thesis using assms(5) b by (auto simp: lo_def hi_def)
  qed
  have md: "(off + k) div cs = idx \<Longrightarrow> (off + k) mod cs = off + k - ?b"
    by (metis minus_div_mult_eq_mod)
  let ?src = "take (hi - lo) (drop (lo - ?b) d)"
  have eq: "copy_chunk cs off end idx d out =
      (if lo - ?b < length d then copy_at (lo - off) ?src out else out)"
    using lh by (simp add: copy_chunk_def readSpan_def Let_def lo_def hi_def)
  have le: "lo - off \<le> length out" using lh assms(4) by simp
  show "length (copy_chunk cs off end idx d out) = end - off" using eq le assms(4) by simp
  show "copy_chunk cs off end idx d out ! k =
    (if (off + k) div cs = idx \<and> (off + k) mod cs < length d then d ! ((off + k) mod cs) else out ! k)"
  proof (cases "(off + k) div cs = idx")
    case True
    then have r: "lo \<le> off + k" "off + k < hi" using in_iff by auto
    have m: "(off + k) mod cs = off + k - ?b" using md True by blast
    have c: "lo - off \<le> k \<and> k < lo - off + length ?src \<longleftrightarrow> off + k - ?b < length d" if "lo - ?b < length d"
      using r lh that by auto
    have v: "?src ! (k - (lo - off)) = d ! (off + k - ?b)" if "off + k - ?b < length d"
    proof -
      have "k - (lo - off) < hi - lo" "lo - ?b + (k - (lo - off)) = off + k - ?b" "lo - ?b \<le> length d"
        using r lh that by auto
      then show ?thesis by simp
    qed
    have "\<not> lo - ?b < length d \<Longrightarrow> \<not> off + k - ?b < length d" using r lh by auto
    then show ?thesis
      using True c v le assms(4,5) unfolding eq m by (cases "lo - ?b < length d") (simp_all add: nth_copy_at)
  next
    case False
    then have "\<not> (lo - off \<le> k \<and> k < lo - off + length ?src)" using in_iff lh by auto
    then have "copy_at (lo - off) ?src out ! k = out ! k"
      using nth_copy_at [OF le, of k ?src] assms(4,5) by (metis (no_types, lifting))
    then show ?thesis using False unfolding eq by simp
  qed
qed

text \<open>A list of copies, each of its own chunk.\<close>

definition copies :: "nat \<Rightarrow> nat \<Rightarrow> nat \<Rightarrow> (nat \<times> bytes) list \<Rightarrow> bytes \<Rightarrow> bytes" where
  "copies cs off end L out = fold (\<lambda>(i, d). copy_chunk cs off end i d) L out"

lemma copies_all:
  assumes "0 < cs" "off < end" "fst ` set L \<subseteq> Collect (in_range cs off end)" "distinct (map fst L)" "length out = end - off"
  shows "length (copies cs off end L out) = end - off \<and>
    (\<forall>k < end - off. copies cs off end L out ! k =
      (case map_of L ((off + k) div cs) of
         Some d \<Rightarrow> if (off + k) mod cs < length d then d ! ((off + k) mod cs) else out ! k
       | None \<Rightarrow> out ! k))"
  using assms(3-5)
proof (induction L arbitrary: out)
  case (Cons p L)
  obtain i d where p: "p = (i, d)" by (cases p)
  have ir: "in_range cs off end i" using Cons.prems(1) p by auto
  let ?o = "copy_chunk cs off end i d out"
  have lo: "length ?o = end - off" using copy_chunk_nth(2) [OF assms(1,2) ir Cons.prems(3), of 0] assms(2) by simp
  have c: "copies cs off end (p # L) out = copies cs off end L ?o" by (simp add: copies_def p)
  have IH: "length (copies cs off end L ?o) = end - off \<and>
    (\<forall>k < end - off. copies cs off end L ?o ! k =
      (case map_of L ((off + k) div cs) of
         Some d \<Rightarrow> if (off + k) mod cs < length d then d ! ((off + k) mod cs) else ?o ! k
       | None \<Rightarrow> ?o ! k))"
    using Cons.prems lo by (intro Cons.IH) auto
  have ko: "?o ! k = (if (off + k) div cs = i \<and> (off + k) mod cs < length d then d ! ((off + k) mod cs) else out ! k)"
    if "k < end - off" for k using copy_chunk_nth(1) [OF assms(1,2) ir Cons.prems(3) that] .
  have "map_of L i = None" using Cons.prems(2) p by (simp add: map_of_eq_None_iff)
  then show ?case using IH ko unfolding c by (auto simp: p split: option.splits)
qed (simp add: copies_def)

lemmas copies_length = copies_all [THEN conjunct1]
lemmas copies_nth = copies_all [THEN conjunct2, rule_format]

text \<open>The copies a function of the index picks.\<close>

definition pick :: "(nat \<Rightarrow> bytes option) \<Rightarrow> nat list \<Rightarrow> (nat \<times> bytes) list" where
  "pick g idxs = concat (map (\<lambda>i. case g i of None \<Rightarrow> [] | Some d \<Rightarrow> [(i, d)]) idxs)"

lemma pick_Cons: "pick g (i # is) = (case g i of None \<Rightarrow> [] | Some d \<Rightarrow> [(i, d)]) @ pick g is"
  by (simp add: pick_def)

lemma pick_keys: "fst ` set (pick g idxs) \<subseteq> set idxs"
  by (auto simp: pick_def split: option.splits)

lemma pick_map_of: "map_of (pick g idxs) j = (if j \<in> set idxs then g j else None)"
  by (induction idxs) (auto simp: pick_def map_add_def split: option.splits)

lemma pick_distinct: "distinct idxs \<Longrightarrow> distinct (map fst (pick g idxs))"
proof (induction idxs)
  case (Cons i idxs)
  then show ?case using pick_keys [of g idxs] by (auto simp: pick_Cons split: option.splits)
qed (simp add: pick_def)

text \<open>The copies of a read: the dirty buffers, and the stored chunks that show through.\<close>

definition g_dirty :: "openFile \<Rightarrow> nat \<Rightarrow> bytes option" where
  "g_dirty x i = map_option b_data (fmlookup (of_dirty x) i)"

definition rdata :: "(bytes \<Rightarrow> string) \<Rightarrow> readRef \<Rightarrow> bytes" where
  "rdata sha r = (case rr_trim r of None \<Rightarrow> cdata sha (rr_ref r) | Some t \<Rightarrow> take t (cdata sha (rr_ref r)))"

definition g_ref :: "(bytes \<Rightarrow> string) \<Rightarrow> nat \<Rightarrow> chunkRef list \<Rightarrow> openFile \<Rightarrow> nat \<Rightarrow> nat \<Rightarrow> bytes option" where
  "g_ref sha cs chunks x off i =
     (case readRef_of cs chunks (of_dirty x) (of_pendingTrim x) off i of
        [] \<Rightarrow> None
      | r # _ \<Rightarrow> Some (rdata sha r))"

lemma copy_dirty_copies:
  "copy_dirty cs (of_dirty x) off end out = copies cs off end (pick (g_dirty x) (range_idxs cs off end)) out"
proof -
  have "fold (\<lambda>i out. case fmlookup (of_dirty x) i of None \<Rightarrow> out | Some b \<Rightarrow> copy_chunk cs off end i (b_data b) out) is out =
      copies cs off end (pick (g_dirty x) is) out" for "is"
    by (induction "is" arbitrary: out) (simp_all add: copies_def pick_def g_dirty_def split: option.split)
  then show ?thesis by (simp add: copy_dirty_def)
qed

lemma readRef_of_shape:
  "readRef_of cs chunks dirt trims off i = [] \<or> (\<exists>r. readRef_of cs chunks dirt trims off i = [r] \<and> rr_idx r = i)"
  by (auto simp: readRef_of_def Let_def split: option.splits)

lemma refs_copies:
  "fold (\<lambda>r. copy_chunk cs off end (rr_idx r) (rdata sha r))
     (concat (map (readRef_of cs chunks (of_dirty x) (of_pendingTrim x) off) is)) out =
   copies cs off end (pick (g_ref sha cs chunks x off) is) out"
proof (induction "is" arbitrary: out)
  case (Cons i "is")
  from readRef_of_shape [of cs chunks "of_dirty x" "of_pendingTrim x" off i] show ?case
    using Cons by (auto simp: pick_Cons g_ref_def copies_def)
qed (simp add: copies_def pick_def)

lemma read_fetch_right:
  assumes "read_fetch sha st off end refs out N w = (q, N', w')" "inj sha" "cache_ok sha (cache N)" "\<not> skipVerify N"
  shows "cache_ok sha (cache N') \<and>
    (\<forall>o1. q = Inr o1 \<longrightarrow> o1 = fold (\<lambda>r. copy_chunk (chunkSize N) off end (rr_idx r) (rdata sha r)) refs out)"
  using assms
proof (induction refs arbitrary: out N w)
  case (Cons r refs)
  obtain d N1 w1 where d: "loadChunk sha st (rr_ref r) N w = (d, N1, w1)" by (metis prod_cases3)
  have r: "same_ns N N1" "cache_ok sha (cache N1)" "\<And>b. d = Inr b \<Longrightarrow> b = cdata sha (rr_ref r)"
    using loadChunk_right [OF d Cons.prems(2-4)] by auto
  show ?case
  proof (cases d)
    case (Inl e)
    then show ?thesis using Cons.prems(1) d r by auto
  next
    case (Inr b)
    let ?o = "copy_chunk (chunkSize N) off end (rr_idx r) (rdata sha r) out"
    have "(case rr_trim r of Some t \<Rightarrow> if t < length b then take t b else b | None \<Rightarrow> b) = rdata sha r"
      using r(3) [OF Inr] by (auto simp: rdata_def split: option.splits)
    then have "read_fetch sha st off end refs ?o N1 w1 = (q, N', w')"
      using Cons.prems(1) d Inr by (simp add: Let_def)
    from Cons.IH [OF this Cons.prems(2) r(2)] show ?thesis
      using Cons.prems(4) same_ns_sel [OF r(1)] by simp
  qed
qed auto

text \<open>
  Copying the dirty buffers of a range over zeros and the stored chunks that show through after them
  gives the file's bytes.
\<close>

lemma g_ref_eff:
  assumes "0 < cs" "pos div cs = i" "off \<le> pos"
  shows "byte_at (eff sha chunks x i) (pos mod cs) =
    (case g_ref sha cs chunks x off i of
       Some d \<Rightarrow> byte_at d (pos mod cs)
     | None \<Rightarrow> (case g_dirty x i of Some d \<Rightarrow> byte_at d (pos mod cs) | None \<Rightarrow> 0))"
proof -
  have "off - i * cs \<le> pos mod cs"
    using assms by (metis diff_le_mono minus_div_mult_eq_mod)
  then show ?thesis
    by (auto simp: g_ref_def g_dirty_def eff_def readRef_of_def rdata_def Let_def byte_at_take cdata_def
        split: option.splits if_splits)
qed

lemma g_ref_not_dirty: "g_ref sha cs chunks x off i = Some d \<Longrightarrow> g_dirty x i = None"
  by (auto simp: g_ref_def g_dirty_def readRef_of_def split: if_splits)

lemma read_copies:
  assumes "0 < cs" "off < end"
  shows "copies cs off end (pick (g_ref sha cs chunks x off) (range_idxs cs off end))
      (copies cs off end (pick (g_dirty x) (range_idxs cs off end)) (replicate (end - off) 0)) =
    map (fbyte sha cs chunks x) [off ..< end]"
proof (rule nth_equalityI)
  let ?is = "range_idxs cs off end" and ?z = "replicate (end - off) (0 :: u8)"
  have dis: "distinct ?is" by (simp add: range_idxs_def)
  have rng: "fst ` set (pick g ?is) \<subseteq> Collect (in_range cs off end)" for g
    using pick_keys [of g ?is] range_idxs_iff [OF assms] by auto
  let ?o = "copies cs off end (pick (g_dirty x) ?is) ?z"
  note dirt = copies_all [OF assms rng pick_distinct [OF dis], of ?z]
  have lo: "length ?o = end - off" using dirt by simp
  note ref = copies_all [OF assms rng pick_distinct [OF dis] lo]
  show "length (copies cs off end (pick (g_ref sha cs chunks x off) ?is) ?o) =
      length (map (fbyte sha cs chunks x) [off ..< end])" using ref by simp
  fix k assume "k < length (copies cs off end (pick (g_ref sha cs chunks x off) ?is) ?o)"
  then have k: "k < end - off" using ref by simp
  let ?i = "(off + k) div cs"
  have "?i * cs < end" using k div_times_less_eq_dividend [of "off + k" cs] by linarith
  then have "?i \<in> set ?is" unfolding range_idxs_iff [OF assms] in_range_def by (simp add: div_le_mono)
  then show "copies cs off end (pick (g_ref sha cs chunks x off) ?is) ?o ! k = map (fbyte sha cs chunks x) [off ..< end] ! k"
    using ref dirt k g_ref_eff [OF assms(1) refl, of off "off + k" sha chunks x] g_ref_not_dirty [of sha cs chunks x off ?i]
    by (auto simp: pick_map_of fbyte_def byte_at_def split: option.splits)
qed

lemma readEnd_min: "off < sz \<Longrightarrow> sz < 2 ^ 64 \<Longrightarrow> readEnd off sz count = min (off + count) sz"
  by (auto simp: readEnd_def sub64_le min_def)

lemma copy_dirty_empty: "copy_dirty cs fmempty off end out = out"
proof -
  have "fold (\<lambda>i out. case fmlookup fmempty i of None \<Rightarrow> out | Some b \<Rightarrow> copy_chunk cs off end i (b_data b) out) is out = out"
    for "is" and out :: bytes by (induction "is") simp_all
  then show ?thesis by (simp add: copy_dirty_def)
qed

lemma Read_eq:
  fixes count :: nat
  assumes "readable N c h = Inr (i, n)" "off < Size n"
  defines "x \<equiv> open_of N (ID n)" and "end \<equiv> readEnd off (Size n) count"
  shows "Read sha st c h off count N w =
    (case read_fetch sha st off end (readRefs (chunkSize N) n (of_dirty x) (of_pendingTrim x) off end)
            (copy_dirty (chunkSize N) (of_dirty x) off end (replicate (end - off) 0)) N w of
       (Inl e, N1, w1) \<Rightarrow> (Inl e, N1, w1)
     | (Inr out1, N1, w1) \<Rightarrow> (Inr (out1, end \<ge> Size n), N1, w1))"
proof (cases "fmlookup (fopen N) (ID n)")
  case None
  then show ?thesis using assms
    unfolding x_def end_def by (simp add: Read_def open_of_def new_openFile_def copy_dirty_empty Let_def)
next
  case (Some y)
  then show ?thesis using assms
    unfolding x_def end_def by (simp add: Read_def readBuffered_def open_of_def Let_def)
qed

lemma Read_past_end:
  assumes "readable N c h = Inr (i, n)" "Size n \<le> off"
  shows "Read sha st c h off count N w = (Inr ([], True), N, w)"
  using assms by (cases "fmlookup (fopen N) (ID n)") (simp_all add: Read_def readBuffered_def Let_def)

lemma readable_Inr:
  "readable N c h = Inr (i, n) \<longleftrightarrow> resolve N h = Inr (i, n) \<and> checkPerm N OpRead c n = None"
  by (auto simp: readable_def split: sum.splits prod.splits option.splits)

lemma Read_within:
  assumes "inj sha" "cache_ok sha (cache N)" "\<not> skipVerify N" "0 < chunkSize N"
    and "readable N c h = Inr (i, n)" "ID n = i" "off < Size n" "Size n < 2 ^ 64"
    and "Read sha st c h off count N w = (Inr (data, eof), N', w')"
  shows "data = map (content sha N i) [off ..< min (off + count) (Size n)] \<and> (eof \<longleftrightarrow> Size n \<le> off + count)"
proof -
  let ?x = "open_of N i" and ?e = "min (off + count) (Size n)" and ?cs = "chunkSize N"
  let ?o = "copy_dirty ?cs (of_dirty ?x) off ?e (replicate (?e - off) 0)"
  let ?refs = "readRefs ?cs n (of_dirty ?x) (of_pendingTrim ?x) off ?e"
  have e: "readEnd off (Size n) count = ?e" using readEnd_min [OF assms(7,8)] .
  from assms(9) obtain out1 where f: "read_fetch sha st off ?e ?refs ?o N w = (Inr out1, N', w')"
      and d: "data = out1" "eof \<longleftrightarrow> Size n \<le> ?e"
    unfolding Read_eq [OF assms(5,7)] e assms(6) by (auto split: prod.splits sum.splits)
  have out: "out1 = fold (\<lambda>r. copy_chunk ?cs off ?e (rr_idx r) (rdata sha r)) ?refs ?o"
    using read_fetch_right [OF f assms(1-3)] by blast
  have c: "content sha N i = fbyte sha ?cs (Chunks n) ?x"
    using assms(5) by (auto simp: readable_Inr resolve_Inr content_def fun_eq_iff)
  have "out1 = map (fbyte sha ?cs (Chunks n) ?x) [off ..< ?e]"
  proof (cases "off < ?e")
    case True
    show ?thesis
      unfolding out readRefs_def refs_copies copy_dirty_copies by (rule read_copies [OF assms(4) True])
  next
    case False
    then have "?e = off" using assms(7) by simp
    then show ?thesis by (simp add: out readRefs_def range_idxs_def copy_dirty_def)
  qed
  then show ?thesis using d c by auto
qed

end
