(* ===== verification/Commit.thy ===== *)
theory Commit
  imports Datapath
begin

text \<open>
  The commit protocol of \<open>internal/blobfs/commit.go\<close>: mounting, sealing a snapshot, swapping the root
  pointer, settling a root in doubt, and pruning; and the calls of \<open>fs.go\<close> that end in a commit.

  A call runs in an environment: the store as the embedder gave it, the SHA-256 of a chunk, the codecs
  of the standard library, the order in which \<open>range\<close> visits the open files, and \<open>e_others\<close>, what other
  callers do to the mount and to the bucket while this one holds no lock. \<open>e_others E k\<close> acts in the
  k-th such gap: 0 after \<open>Sync\<close>'s first pass, 1 between the top of the commit and its gate, 2 during
  the flight, 3 during the read of \<open>resolveRoot\<close>, 4 after it. With \<open>e_others E k = id\<close> a call runs alone.
\<close>

record codec =
  json_snapshot :: "snapshot \<Rightarrow> err + bytes"
  gzip :: "bytes \<Rightarrow> err + bytes"
  gunzip :: "bytes \<Rightarrow> err + bytes"
  unjson_snapshot :: "bytes \<Rightarrow> err + snapshot"
  json_root :: "rootPointer \<Rightarrow> err + bytes"
  unjson_root :: "bytes \<Rightarrow> err + rootPointer"

record 'w env =
  e_store :: "'w store_ops"
  e_readonly :: bool
  e_sha :: "bytes \<Rightarrow> string"
  e_codec :: codec
  e_range :: "(u64, openFile) fmap \<Rightarrow> u64 list"
  e_others :: "nat \<Rightarrow> fs \<times> 'w \<Rightarrow> fs \<times> 'w"

text \<open>The store of the mount: \<open>New\<close> puts the refusing wrapper around it for a read-only mount.\<close>

definition mount_store :: "'w env \<Rightarrow> 'w store_ops" where
  "mount_store E = (if e_readonly E then ReadOnly (e_store E) else e_store E)"

section \<open>Codecs and keys\<close>

definition encodeSnapshot :: "codec \<Rightarrow> snapshot \<Rightarrow> err + bytes" where
  "encodeSnapshot cd s = sum_bind (json_snapshot cd s) (gzip cd)"

definition nil_inodes :: "(u64, inode option) fmap \<Rightarrow> bool" where
  "nil_inodes m \<longleftrightarrow> (\<exists>i \<in> set (sorted_list_of_fset (fmdom m)). fmlookup m i = Some None)"

definition usable_entries :: "inode \<Rightarrow> inode" where
  "usable_entries n = (if isDir n \<and> Entries n = None then n\<lparr>Entries := Some fmempty\<rparr> else n)"

definition decodeSnapshot :: "codec \<Rightarrow> bytes \<Rightarrow> err + snapshot" where
  "decodeSnapshot cd b =
     sum_bind (sum_bind (gunzip cd b) (unjson_snapshot cd)) (\<lambda>s.
       case sn_Inodes s of
         None \<Rightarrow> Inl (EMsg ''snapshot contains no inodes'')
       | Some m \<Rightarrow>
           if nil_inodes m then Inl (EMsg ''snapshot has a nil inode'')
           else Inr (s\<lparr>sn_Inodes := Some (fmmap (map_option usable_entries) m)\<rparr>))"

text \<open>The epoch is printed by \<open>%020d\<close>: it is a 64-bit number and so has at most 20 digits.\<close>

definition snapshotKey :: "nat \<Rightarrow> bytes \<Rightarrow> string" where
  "snapshotKey ep nonce = snapshotPrefix @ pad_dec 20 ep @ ''-'' @ hex_string nonce @ ''.json.gz''"

definition fsidFor :: "string \<Rightarrow> u64" where
  "fsidFor nm = fnv64a (bytes_of_string nm) fnv64a_init"

section \<open>Settling the root pointer\<close>

datatype probeVerdict = probeOurs | probeUnchanged | probeTheirs | probeFailed

definition classifyRoot ::
  "codec \<Rightarrow> serr + bytes \<times> string \<Rightarrow> string \<Rightarrow> string \<Rightarrow> probeVerdict \<times> rootPointer" where
  "classifyRoot cd r rs dk =
     (case r of
        Inl e \<Rightarrow>
          if e = ErrNotFound then (if rs = [] then probeUnchanged else probeTheirs, zero_rootPointer)
          else (probeFailed, zero_rootPointer)
      | Inr (raw, etag) \<Rightarrow>
          (case unjson_root cd raw of
             Inl _ \<Rightarrow> (probeFailed, zero_rootPointer)
           | Inr rp \<Rightarrow>
               if rp_Version rp \<noteq> snapshotVersion \<or> rp_Snapshot rp = [] then (probeFailed, rp)
               else if rp_Snapshot rp = dk then (if etag = [] then probeFailed else probeOurs, rp)
               else if rp_Snapshot rp = rs then (if etag = [] then probeFailed else probeUnchanged, rp)
               else (probeTheirs, rp)))"

text \<open>A \<open>Fire\<close> on the mount's root knowledge: \<open>None\<close> when the table refuses the event.\<close>

definition fire_root :: "rootEvent \<Rightarrow> fs \<Rightarrow> fs option" where
  "fire_root ev N = map_option (\<lambda>s. N\<lparr>rootKnowledge := s\<rparr>) (Next rootStates (rootKnowledge N) ev)"

definition fire_mode :: "mountEvent \<Rightarrow> fs \<Rightarrow> fs" where
  "fire_mode ev N = (case Next mountModes (mode N) ev of Some m \<Rightarrow> N\<lparr>mode := m\<rparr> | None \<Rightarrow> N)"

definition etag_of :: "serr + bytes \<times> string \<Rightarrow> string" where
  "etag_of r = (case r of Inr (_, e) \<Rightarrow> e | Inl _ \<Rightarrow> [])"

definition resolveRoot :: "'w env \<Rightarrow> fs \<Rightarrow> 'w \<Rightarrow> probeVerdict \<times> fs \<times> 'w" where
  "resolveRoot E N0 w0 =
     (let (r, w1) = GetWithETag (mount_store E) rootKey w0;
          (N, w) = e_others E 3 (N0, w1);
          (verdict, rp) = classifyRoot (e_codec E) r (rootSnapshot N) (doubtKey N)
      in case verdict of
           probeOurs \<Rightarrow>
             (case fire_root rootProbeOurs N of
                None \<Rightarrow> (probeFailed, N, w)
              | Some N1 \<Rightarrow>
                  (probeOurs,
                   N1\<lparr>epoch := rp_Epoch rp, rootETag := etag_of r, rootSnapshot := doubtKey N1, doubtKey := []\<rparr>, w))
         | probeUnchanged \<Rightarrow>
             (case fire_root rootProbeUnchanged N of
                None \<Rightarrow> (probeFailed, N, w)
              | Some N1 \<Rightarrow> (probeUnchanged, N1\<lparr>rootETag := etag_of r, doubtKey := []\<rparr>, w))
         | probeTheirs \<Rightarrow> (probeTheirs, fire_mode mountDiverge N, w)
         | probeFailed \<Rightarrow> (probeFailed, N, w))"

section \<open>The seal and the flight\<close>

record sealedCommit =
  sc_epoch :: nat
  sc_key :: string
  sc_body :: bytes
  sc_rpBody :: bytes
  sc_rootETag :: string
  sc_changes :: u64

definition snapshot_of :: "gotime \<Rightarrow> fs \<Rightarrow> snapshot" where
  "snapshot_of t N =
     \<lparr>sn_Version = snapshotVersion, sn_Epoch = wrap64 (epoch N + 1), sn_NextIno = nextIno N,
      sn_ChunkSize = chunkSize N, sn_Inodes = Some (fmmap Some (inodes N)), sn_CreatedNS = t\<rparr>"

definition root_of :: "gotime \<Rightarrow> bytes \<Rightarrow> fs \<Rightarrow> rootPointer" where
  "root_of t nonce N =
     \<lparr>rp_Version = snapshotVersion, rp_Epoch = wrap64 (epoch N + 1),
      rp_Snapshot = snapshotKey (wrap64 (epoch N + 1)) nonce, rp_FSID = fsid N, rp_WrittenNS = t,
      rp_Writer = writerID N\<rparr>"

definition unsettled_files :: "'w env \<Rightarrow> fs \<Rightarrow> u64 list" where
  "unsettled_files E N =
     filter (\<lambda>i. case fmlookup (fopen N) i of Some x \<Rightarrow> of_unsettled x | None \<Rightarrow> False) (e_range E (fopen N))"

definition seal :: "'w env \<Rightarrow> clock \<Rightarrow> bytes \<Rightarrow> fs \<Rightarrow> err + sealedCommit" where
  "seal E clk nonce N =
     (if unsettled_files E N \<noteq> []
      then Inl (EMsg ''commit refused: an inode is unsettled since a truncate'')
      else (case encodeSnapshot (e_codec E) (snapshot_of (clk 0) N) of
              Inl e \<Rightarrow> Inl (EWrap ''encode snapshot'' e)
            | Inr body \<Rightarrow>
                sum_bind (json_root (e_codec E) (root_of (clk 1) nonce N)) (\<lambda>rpBody.
                  Inr \<lparr>sc_epoch = wrap64 (epoch N + 1), sc_key = snapshotKey (wrap64 (epoch N + 1)) nonce,
                       sc_body = body, sc_rpBody = rpBody, sc_rootETag = rootETag N, sc_changes = changes N\<rparr>)))"

definition schedulePrune :: "string \<Rightarrow> fs \<Rightarrow> fs" where
  "schedulePrune current N =
     (if retention N = 0 \<or> pruning N \<noteq> None then N else N\<lparr>pruning := Some current\<rparr>)"

definition applyLocked :: "gotime \<Rightarrow> sealedCommit \<Rightarrow> string \<Rightarrow> fs \<Rightarrow> fs" where
  "applyLocked now s etag N =
     schedulePrune (sc_key s)
       (N\<lparr>epoch := sc_epoch s, rootETag := etag, rootSnapshot := sc_key s,
          dirty := (changes N \<noteq> sc_changes s), lastCommit := now\<rparr>)"

definition errCommitConflict :: err where
  "errCommitConflict = EMsg ''commit conflict: another writer owns this bucket; remount to continue''"
definition errNoETagUnchanged :: err where
  "errNoETagUnchanged = EMsg ''swap root pointer: no ETag, and a read then showed it unchanged''"
definition errNoETagInDoubt :: err where
  "errNoETagInDoubt = EMsg ''swap root pointer: no ETag, so it is in doubt until a read of it succeeds''"

definition fallbackAllowed :: "fs \<Rightarrow> bool" where
  "fallbackAllowed N = allowUnconditionalRoot N"

text \<open>
  What the swap and the calls its answer leads to leave behind: the root's new ETag, an answer given
  without a probe, or a doubt with the three errors the code prepares: the one returned if the doubt
  cannot be raised (\<open>None\<close> is nil), if the root is found unchanged, and if the read decides nothing.
\<close>

datatype flight = FKnown string | FRefused err | FDoubt "err option" err err

definition reclaim :: "'w env \<Rightarrow> sealedCommit \<Rightarrow> err \<Rightarrow> 'w \<Rightarrow> flight \<times> 'w" where
  "reclaim E s refusal w =
     (case Get (mount_store E) rootKey w of
        (Inl e, w1) \<Rightarrow>
          if e = ErrNotFound then (FRefused refusal, snd (Delete (mount_store E) (sc_key s) w1))
          else (FDoubt (Some refusal) refusal refusal, w1)
      | (Inr raw, w1) \<Rightarrow>
          (case unjson_root (e_codec E) raw of
             Inl _ \<Rightarrow> (FDoubt (Some refusal) refusal refusal, w1)
           | Inr cur \<Rightarrow>
               if rp_Version cur = snapshotVersion \<and> rp_Snapshot cur \<noteq> [] \<and> rp_Snapshot cur \<noteq> sc_key s
               then (FRefused refusal, snd (Delete (mount_store E) (sc_key s) w1))
               else (FDoubt (Some refusal) refusal refusal, w1)))"

definition fallback :: "'w env \<Rightarrow> sealedCommit \<Rightarrow> 'w \<Rightarrow> flight \<times> 'w" where
  "fallback E s w =
     (case Put (mount_store E) rootKey (sc_rpBody s) w of
        (Some e, w1) \<Rightarrow>
          (let werr = EWrap ''write root pointer'' (EStore e) in (FDoubt (Some werr) werr werr, w1))
      | (None, w1) \<Rightarrow>
          (case Head (mount_store E) rootKey w1 of
             (Inr info, w2) \<Rightarrow>
               if oi_ETag info \<noteq> [] then (FKnown (oi_ETag info), w2)
               else (FDoubt None errNoETagUnchanged errNoETagInDoubt, w2)
           | (Inl _, w2) \<Rightarrow> (FDoubt None errNoETagUnchanged errNoETagInDoubt, w2)))"

definition swap_root :: "'w env \<Rightarrow> bool \<Rightarrow> sealedCommit \<Rightarrow> 'w \<Rightarrow> flight \<times> 'w" where
  "swap_root E allowed s w =
     (case PutIfMatch (mount_store E) rootKey (sc_rpBody s) (sc_rootETag s) w of
        (Inr newETag, w1) \<Rightarrow>
          if newETag \<noteq> [] then (FKnown newETag, w1)
          else (FDoubt None errNoETagUnchanged errNoETagInDoubt, w1)
      | (Inl e, w1) \<Rightarrow>
          if e = ErrPrecondition
          then (FDoubt (Some errCommitConflict) (EWrap ''swap root pointer'' (EStore e))
                  (EWrap ''swap root pointer: refused, and the root pointer is in doubt'' (EStore e)), w1)
          else if e = ErrUnsupported \<and> \<not> allowed
          then reclaim E s (EWrap ''swap root pointer: the store does not support conditional writes'' (EStore e)) w1
          else if e = ErrUnsupported then fallback E s w1
          else (FDoubt (Some (EWrap ''swap root pointer'' (EStore e))) (EWrap ''swap root pointer'' (EStore e))
                  (EWrap ''swap root pointer: the outcome is in doubt'' (EStore e)), w1))"

definition commitSealed :: "'w env \<Rightarrow> clock \<Rightarrow> sealedCommit \<Rightarrow> fs \<Rightarrow> 'w \<Rightarrow> err option \<times> fs \<times> 'w" where
  "commitSealed E clk s N0 w0 =
     (case Put (mount_store E) (sc_key s) (sc_body s) w0 of
        (Some e, w1) \<Rightarrow>
          (case e_others E 2 (N0, w1) of (N, w) \<Rightarrow> (Some (EWrap ''write snapshot'' (EStore e)), N, w))
      | (None, w1) \<Rightarrow>
          (case swap_root E (fallbackAllowed N0) s w1 of
             (fl, w2) \<Rightarrow>
               (case e_others E 2 (N0, w2) of
                  (N, w) \<Rightarrow>
                    (case fl of
                       FKnown etag \<Rightarrow>
                         (None, applyLocked (clk 2) s etag
                            (case fire_root rootSwapOK N of Some N1 \<Rightarrow> N1 | None \<Rightarrow> N), w)
                     | FRefused e \<Rightarrow> (Some e, N, w)
                     | FDoubt oldErr unchangedErr failedErr \<Rightarrow>
                         (case fire_root rootSwapUnknown (N\<lparr>doubtKey := sc_key s\<rparr>) of
                            None \<Rightarrow>
                              (case oldErr of
                                 Some e \<Rightarrow> (Some e, N\<lparr>doubtKey := []\<rparr>, w)
                               | None \<Rightarrow> (None, applyLocked (clk 2) s [] (N\<lparr>doubtKey := []\<rparr>), w))
                          | Some N1 \<Rightarrow>
                              (case resolveRoot E N1 w of
                                 (probeOurs, N2, w3) \<Rightarrow>
                                   (case e_others E 4 (N2, w3) of
                                      (N3, w4) \<Rightarrow> (None, applyLocked (clk 2) s (rootETag N3) N3, w4))
                               | (probeTheirs, N2, w3) \<Rightarrow> (Some errCommitConflict, N2, w3)
                               | (probeUnchanged, N2, w3) \<Rightarrow> (Some unchangedErr, N2, w3)
                               | (probeFailed, N2, w3) \<Rightarrow> (Some failedErr, N2, w3)))))))"

section \<open>Sync\<close>

definition errDiverged :: err where
  "errDiverged = EMsg ''filesystem diverged: another writer committed to this bucket; remount to continue''"
definition errInDoubt :: err where
  "errInDoubt = EMsg ''commit refused: the root pointer is in doubt, and the read that would settle it decided nothing''"

text \<open>The commit phase: the settle pass and the seal, under the gate, then the flight.\<close>

definition commitPhase :: "'w env \<Rightarrow> clock \<Rightarrow> bytes \<Rightarrow> fs \<Rightarrow> 'w \<Rightarrow> err option \<times> fs \<times> 'w" where
  "commitPhase E clk nonce N w =
     (case settleAll (e_sha E) (mount_store E) (e_range E (fopen N)) N w of
        (Some e, N1, w1) \<Rightarrow> (Some (EWrap ''settle truncated files'' e), N1, w1)
      | (None, N1, w1) \<Rightarrow>
          (case seal E clk nonce N1 of
             Inl e \<Rightarrow> (Some e, N1, w1)
           | Inr s \<Rightarrow> commitSealed E clk s N1 w1))"

definition Sync :: "'w env \<Rightarrow> clock \<Rightarrow> bytes \<Rightarrow> fs \<Rightarrow> 'w \<Rightarrow> err option \<times> fs \<times> 'w" where
  "Sync E clk nonce N0 w0 =
     (case flushAll (e_sha E) (mount_store E) (e_range E (fopen N0)) N0 w0 of
        (Some e, N1, w1) \<Rightarrow> (Some (EWrap ''flush pending writes'' e), N1, w1)
      | (None, N1, w1) \<Rightarrow>
          (case e_others E 0 (N1, w1) of
             (N, w) \<Rightarrow>
               if \<not> dirty N then (None, N, w)
               else if mode N = mountDiverged then (Some errDiverged, N, w)
               else if rootKnowledge N = rootInDoubt
               then (case resolveRoot E N w of
                       (probeFailed, N2, w2) \<Rightarrow> (Some errInDoubt, N2, w2)
                     | (probeTheirs, N2, w2) \<Rightarrow> (Some errCommitConflict, N2, w2)
                     | (probeOurs, N2, w2) \<Rightarrow> (case e_others E 1 (N2, w2) of (N3, w3) \<Rightarrow> commitPhase E clk nonce N3 w3)
                     | (probeUnchanged, N2, w2) \<Rightarrow> (case e_others E 1 (N2, w2) of (N3, w3) \<Rightarrow> commitPhase E clk nonce N3 w3))
               else (case e_others E 1 (N, w) of (N3, w3) \<Rightarrow> commitPhase E clk nonce N3 w3)))"

end
