(* ===== verification/Budget.thy ===== *)
theory Budget
  imports FsState
begin

text \<open>
  The write budget of \<open>internal/blobfs/budget.go\<close>. Every method holds \<open>mu\<close> from start to end, and a
  call of \<open>await\<close> gives it up only while it is parked on the condition variable or runs its drain, so
  the system is a set of calls, each somewhere between those points, over one shared record. A step is
  what one call, or a method beside it, does in one hold of \<open>mu\<close>, but for two things that happen without
  it: a context ends at any moment, also between a call's check of it and the wait that follows, and the
  callback that \<open>context.AfterFunc\<close> then starts runs later, when it gets \<open>mu\<close>. The stall warning and the log
  records touch nothing here.
\<close>

record budget =
  maxBytes :: int
  charge :: int
  parked :: nat
  draining :: bool
  ended :: nat
  failure :: "err option"
  failedAt :: nat

definition newBudget :: "int \<Rightarrow> budget" where
  "newBudget limit =
     \<lparr>maxBytes = limit, charge = 0, parked = 0, draining = False, ended = 0, failure = None, failedAt = 0\<rparr>"

text \<open>
  Where a call is: not begun, past its check of the context and still holding \<open>mu\<close>, parked, woken but
  not yet running, draining, returned, or ended by a panic.
\<close>

datatype pc = Out | Checked nat | Parked nat | Woken nat | Draining nat | Returned "err option" | Panicked

text \<open>
  \<open>calls\<close> gives the place of each call, \<open>ctx\<close> the error of its context once that has ended, \<open>mu\<close> the call
  that holds the lock between two steps, \<open>hooked\<close> whether a call has registered its callback, and \<open>pending\<close>
  whether that callback has been started and has not yet broadcast.
\<close>

record bsys =
  bud :: budget
  calls :: "nat \<Rightarrow> pc"
  ctx :: "nat \<Rightarrow> err option"
  mu :: "nat option"
  hooked :: "nat \<Rightarrow> bool"
  pending :: "nat \<Rightarrow> bool"

definition errDrainPanicked :: err where
  "errDrainPanicked = EMsg ''blobfs: backpressure drain panicked''"

fun wake :: "pc \<Rightarrow> pc" where
  "wake (Parked s) = Woken s"
| "wake p = p"

definition broadcast :: "bsys \<Rightarrow> bsys" where
  "broadcast S = S\<lparr>calls := wake \<circ> calls S\<rparr>"

definition settle :: "err option \<Rightarrow> bsys \<Rightarrow> bsys" where
  "settle f S =
     (let b = bud S; b1 = b\<lparr>draining := False, ended := ended b + 1\<rparr>
      in broadcast (S\<lparr>bud := (case f of None \<Rightarrow> b1 | Some e \<Rightarrow> b1\<lparr>failure := Some e, failedAt := ended b1\<rparr>)\<rparr>))"

definition set_call :: "nat \<Rightarrow> pc \<Rightarrow> bsys \<Rightarrow> bsys" where
  "set_call t p S = S\<lparr>calls := (calls S)(t := p)\<rparr>"

text \<open>
  One turn of \<open>await\<close>'s loop, for the call \<open>t\<close> that began when \<open>ended\<close> was \<open>start\<close>: up to the check of the
  context, after which the call still holds \<open>mu\<close>, and from there to the wait or the start of its drain.
  A callback registered on a context that has ended by then is started at once.
\<close>

definition turn :: "nat \<Rightarrow> nat \<Rightarrow> bsys \<Rightarrow> bsys" where
  "turn t start S =
     (let b = bud S in
      if failure b \<noteq> None \<and> failedAt b > start then set_call t (Returned (failure b)) S
      else if charge b < maxBytes b then set_call t (Returned None) S
      else if ctx S t \<noteq> None then set_call t (Returned (ctx S t)) S
      else set_call t (Checked start) (S\<lparr>mu := Some t\<rparr>))"

definition register :: "nat \<Rightarrow> bsys \<Rightarrow> bsys" where
  "register t S =
     (if hooked S t then S
      else S\<lparr>hooked := (hooked S)(t := True), pending := (pending S)(t := ctx S t \<noteq> None)\<rparr>)"

definition proceed :: "nat \<Rightarrow> nat \<Rightarrow> bsys \<Rightarrow> bsys" where
  "proceed t start S =
     (let b = bud S in
      if draining b
      then set_call t (Parked start) ((register t S)\<lparr>bud := b\<lparr>parked := parked b + 1\<rparr>, mu := None\<rparr>)
      else set_call t (Draining start) (S\<lparr>bud := b\<lparr>draining := True\<rparr>, mu := None\<rparr>))"

text \<open>
  What follows the return of a drain, with its error if it had one: a drain that succeeded leads to another
  turn, one that failed after its own context had ended is abandoned and publishes nothing, and any other
  failure is published.
\<close>

definition drained :: "nat \<Rightarrow> nat \<Rightarrow> err option \<Rightarrow> bsys \<Rightarrow> bsys" where
  "drained t start r S =
     (case r of
        None \<Rightarrow> turn t start (settle None S)
      | Some e \<Rightarrow>
          if ctx S t \<noteq> None then set_call t (Returned (ctx S t)) (settle None S)
          else set_call t (Returned (Some e)) (settle (Some e) S))"

definition drain_panic :: "nat \<Rightarrow> bsys \<Rightarrow> bsys" where
  "drain_panic t S = set_call t Panicked (settle (Some errDrainPanicked) S)"

text \<open>
  All but the last three steps begin by taking \<open>mu\<close>, so they wait for a call that holds it; that call's own
  next step is \<open>proceed\<close>. The deferred \<open>stopWake\<close> of a call that has ended keeps a callback not yet started
  from being started; one already started still runs.
\<close>

inductive bstep :: "bsys \<Rightarrow> bsys \<Rightarrow> bool" where
  enter_room: "mu S = None \<Longrightarrow> calls S t = Out \<Longrightarrow> maxBytes (bud S) \<le> 0 \<or> charge (bud S) < maxBytes (bud S) \<Longrightarrow>
     bstep S (set_call t (Returned None) S)"
| enter_full: "mu S = None \<Longrightarrow> calls S t = Out \<Longrightarrow> 0 < maxBytes (bud S) \<Longrightarrow> maxBytes (bud S) \<le> charge (bud S) \<Longrightarrow>
     bstep S (turn t (ended (bud S)) S)"
| woken: "mu S = None \<Longrightarrow> calls S t = Woken start \<Longrightarrow>
     bstep S (turn t start (S\<lparr>bud := (bud S)\<lparr>parked := parked (bud S) - 1\<rparr>\<rparr>))"
| drain_end: "mu S = None \<Longrightarrow> calls S t = Draining start \<Longrightarrow> bstep S (drained t start r S)"
| drain_panicked: "mu S = None \<Longrightarrow> calls S t = Draining start \<Longrightarrow> bstep S (drain_panic t S)"
| add: "mu S = None \<Longrightarrow> 0 \<le> n \<Longrightarrow> bstep S (S\<lparr>bud := (bud S)\<lparr>charge := charge (bud S) + n\<rparr>\<rparr>)"
| release: "mu S = None \<Longrightarrow> 0 \<le> n \<Longrightarrow> bstep S (broadcast (S\<lparr>bud := (bud S)\<lparr>charge := charge (bud S) - n\<rparr>\<rparr>))"
| callback: "mu S = None \<Longrightarrow> pending S t \<Longrightarrow> bstep S (broadcast (S\<lparr>pending := (pending S)(t := False)\<rparr>))"
| proceed: "mu S = Some t \<Longrightarrow> calls S t = Checked start \<Longrightarrow> bstep S (proceed t start S)"
| cancel: "ctx S t = None \<Longrightarrow> bstep S (S\<lparr>ctx := (ctx S)(t := Some e), pending := (pending S)(t := hooked S t)\<rparr>)"
| stop_wake: "(\<exists>r. calls S t = Returned r) \<or> calls S t = Panicked \<Longrightarrow> bstep S (S\<lparr>hooked := (hooked S)(t := False)\<rparr>)"

definition bstart :: "int \<Rightarrow> bsys" where
  "bstart limit =
     \<lparr>bud = newBudget limit, calls = (\<lambda>_. Out), ctx = (\<lambda>_. None), mu = None, hooked = (\<lambda>_. False), pending = (\<lambda>_. False)\<rparr>"

inductive breach :: "int \<Rightarrow> bsys \<Rightarrow> bool" for limit where
  start: "breach limit (bstart limit)"
| step: "breach limit S \<Longrightarrow> bstep S S' \<Longrightarrow> breach limit S'"

section \<open>The invariant\<close>

definition waiting :: "bsys \<Rightarrow> nat set" where
  "waiting S = {t. \<exists>s. calls S t = Parked s \<or> calls S t = Woken s}"

definition drainer :: "bsys \<Rightarrow> nat \<Rightarrow> bool" where
  "drainer S t \<longleftrightarrow> (\<exists>s. calls S t = Draining s)"

text \<open>
  A call past its checks, holding \<open>mu\<close> or parked, has no room and no failure since it began, and if its
  context has ended since, the callback it registered has been started and not yet run. A parked call has
  registered one, and a drain is in progress. At most one call drains, exactly when the flag says so. The
  count of parked calls is exact once the woken ones are counted, which have yet to take themselves off it.
\<close>

definition blocked :: "bsys \<Rightarrow> nat \<Rightarrow> nat \<Rightarrow> bool" where
  "blocked S t s \<longleftrightarrow>
     maxBytes (bud S) \<le> charge (bud S) \<and> (failure (bud S) = None \<or> failedAt (bud S) \<le> s) \<and>
     (hooked S t \<longrightarrow> ctx S t \<noteq> None \<longrightarrow> pending S t)"

fun idle :: "pc \<Rightarrow> bool" where
  "idle Out = True" | "idle (Returned _) = True" | "idle Panicked = True" | "idle _ = False"

definition binv :: "int \<Rightarrow> bsys \<Rightarrow> bool" where
  "binv limit S \<longleftrightarrow>
     maxBytes (bud S) = limit \<and>
     (\<forall>t. mu S = Some t \<longleftrightarrow> (\<exists>s. calls S t = Checked s)) \<and>
     (\<forall>t s. calls S t = Checked s \<longrightarrow> blocked S t s) \<and>
     (\<forall>t s. calls S t = Parked s \<longrightarrow> blocked S t s \<and> hooked S t \<and> draining (bud S)) \<and>
     (draining (bud S) \<longleftrightarrow> (\<exists>t. drainer S t)) \<and>
     (\<forall>t t'. drainer S t \<longrightarrow> drainer S t' \<longrightarrow> t = t') \<and>
     finite (waiting S) \<and> parked (bud S) = card (waiting S) \<and>
     (\<forall>t s. calls S t \<in> {Checked s, Parked s, Woken s, Draining s} \<longrightarrow> s \<le> ended (bud S)) \<and>
     failedAt (bud S) \<le> ended (bud S)"

lemma wake_iff [simp]:
  "wake p = Parked s \<longleftrightarrow> False" "wake p = Woken s \<longleftrightarrow> p = Parked s \<or> p = Woken s"
  "wake p = Draining s \<longleftrightarrow> p = Draining s" "wake p = Checked s \<longleftrightarrow> p = Checked s" "wake p = Returned r \<longleftrightarrow> p = Returned r"
  by (cases p; simp)+

lemma set_call_sel [simp]:
  "bud (set_call t p S) = bud S" "ctx (set_call t p S) = ctx S" "mu (set_call t p S) = mu S"
  "hooked (set_call t p S) = hooked S" "pending (set_call t p S) = pending S"
  "calls (set_call t p S) t = p" "u \<noteq> t \<Longrightarrow> calls (set_call t p S) u = calls S u"
  by (simp_all add: set_call_def)

lemma set_call_iff [simp]:
  "calls (set_call t p S) u = Checked s \<longleftrightarrow> u = t \<and> p = Checked s \<or> u \<noteq> t \<and> calls S u = Checked s"
  "calls (set_call t p S) u = Parked s \<longleftrightarrow> u = t \<and> p = Parked s \<or> u \<noteq> t \<and> calls S u = Parked s"
  "calls (set_call t p S) u = Woken s \<longleftrightarrow> u = t \<and> p = Woken s \<or> u \<noteq> t \<and> calls S u = Woken s"
  "calls (set_call t p S) u = Draining s \<longleftrightarrow> u = t \<and> p = Draining s \<or> u \<noteq> t \<and> calls S u = Draining s"
  "calls (set_call t p S) u = Returned r \<longleftrightarrow> u = t \<and> p = Returned r \<or> u \<noteq> t \<and> calls S u = Returned r"
  by (auto simp: set_call_def)

lemma broadcast_sel [simp]:
  "bud (broadcast S) = bud S" "ctx (broadcast S) = ctx S" "mu (broadcast S) = mu S" "hooked (broadcast S) = hooked S"
  "pending (broadcast S) = pending S" "calls (broadcast S) t = wake (calls S t)"
  by (simp_all add: broadcast_def)

lemma settle_sel [simp]:
  "ctx (settle f S) = ctx S" "mu (settle f S) = mu S" "hooked (settle f S) = hooked S" "pending (settle f S) = pending S"
  "calls (settle f S) t = wake (calls S t)"
  "draining (bud (settle f S)) = False" "maxBytes (bud (settle f S)) = maxBytes (bud S)"
  "ended (bud (settle f S)) = Suc (ended (bud S))" "parked (bud (settle f S)) = parked (bud S)"
  "failedAt (bud (settle f S)) = (if f = None then failedAt (bud S) else Suc (ended (bud S)))"
  "failure (bud (settle f S)) = (if f = None then failure (bud S) else f)" "charge (bud (settle f S)) = charge (bud S)"
  by (auto simp: settle_def Let_def split: option.splits)

lemma register_sel [simp]:
  "bud (register t S) = bud S" "ctx (register t S) = ctx S" "mu (register t S) = mu S" "calls (register t S) = calls S"
  "hooked (register t S) = (hooked S)(t := True)"
  "pending (register t S) u = (if u = t \<and> \<not> hooked S t then ctx S t \<noteq> None else pending S u)"
  by (auto simp: register_def fun_eq_iff)

text \<open>What a state has to keep of another for the invariant to carry over: the places of the calls, up to a wake-up, and the budget.\<close>

lemma waiting_wake: "(\<And>t. calls S' t = wake (calls S t)) \<Longrightarrow> waiting S' = waiting S \<and> drainer S' = drainer S"
  by (auto simp: waiting_def drainer_def fun_eq_iff)

lemma binv_broadcast:
  assumes "binv limit S" "mu S = None" "mu S' = None" "\<And>t. calls S' t = wake (calls S t)"
    and "bud S' = (bud S)\<lparr>charge := n\<rparr>"
  shows "binv limit S'"
proof -
  have w: "waiting S' = waiting S" "drainer S' = drainer S" using waiting_wake [OF assms(4)] by auto
  have "calls S' t \<noteq> Checked s" for t s using assms(1,2,4) unfolding binv_def by auto
  then show ?thesis using assms unfolding binv_def w by auto
qed

lemma binv_quiet:
  assumes "binv limit S" "bud S' = bud S" "calls S' = calls S" "mu S' = mu S"
    and "\<And>t s. calls S t \<in> {Checked s, Parked s} \<Longrightarrow> hooked S' t = hooked S t \<and> (ctx S' t \<noteq> None \<and> hooked S t \<longrightarrow> pending S' t)"
  shows "binv limit S'"
proof -
  have w: "waiting S' = waiting S" "drainer S' = drainer S" using assms(3) by (auto simp: waiting_def drainer_def fun_eq_iff)
  have "blocked S' t s \<and> hooked S' t = hooked S t" if "calls S t \<in> {Checked s, Parked s}" "blocked S t s" for t s
    using assms(2,5) that by (auto simp: blocked_def)
  then show ?thesis using assms(1) unfolding binv_def w assms(2-4) by blast
qed

text \<open>A call that is done, or has not begun, leaves the invariant as it is.\<close>

lemma binv_idle:
  assumes "binv limit S" "idle (calls S t)" "idle p"
  shows "binv limit (set_call t p S)"
proof -
  have w: "waiting (set_call t p S) = waiting S" "drainer (set_call t p S) = drainer S"
    using assms(2,3) by (auto simp: waiting_def drainer_def fun_eq_iff)
  have "calls (set_call t p S) u = Checked s \<longleftrightarrow> calls S u = Checked s" "calls (set_call t p S) u = Parked s \<longleftrightarrow> calls S u = Parked s"
    "calls (set_call t p S) u = Woken s \<longleftrightarrow> calls S u = Woken s" "calls (set_call t p S) u = Draining s \<longleftrightarrow> calls S u = Draining s" for u s
    using assms(2,3) by auto
  moreover have "blocked (set_call t p S) = blocked S" by (simp add: blocked_def fun_eq_iff)
  ultimately show ?thesis using assms(1) unfolding binv_def w by (simp del: set_call_iff) blast
qed

text \<open>The state without the call \<open>t\<close>: what one turn of its loop starts from.\<close>

lemma turn_inv:
  assumes I: "binv limit (set_call t Out S)" and st: "start \<le> ended (bud S)" and m: "mu S = None"
  shows "binv limit (turn t start S)"
proof -
  let ?S0 = "set_call t Out S"
  have idle_ret: "binv limit (set_call t (Returned r) S)" for r
    using binv_idle [OF I, of t "Returned r"] by (simp add: set_call_def)
  consider (ret) r where "turn t start S = set_call t (Returned r) S"
    | (checked) "turn t start S = set_call t (Checked start) (S\<lparr>mu := Some t\<rparr>)" "blocked S t start"
    unfolding turn_def blocked_def Let_def by (smt (verit) not_le)
  then show ?thesis
  proof cases
    case ret
    then show ?thesis using idle_ret by simp
  next
    case checked
    let ?S1 = "set_call t (Checked start) (S\<lparr>mu := Some t\<rparr>)"
    have w: "waiting ?S1 = waiting ?S0" "drainer ?S1 = drainer ?S0"
      by (auto simp: waiting_def drainer_def fun_eq_iff)
    have none: "calls S u \<noteq> Checked s" if "u \<noteq> t" for u s using I m that unfolding binv_def by auto
    show ?thesis using I checked(2) st none unfolding checked(1) binv_def w blocked_def by (auto split: if_splits)
  qed
qed

lemma proceed_inv:
  assumes I: "binv limit S" and t: "mu S = Some t" "calls S t = Checked start"
  shows "binv limit (proceed t start S)"
proof -
  have one: "calls S u = Checked s \<Longrightarrow> u = t" for u s using I t(1) unfolding binv_def by (metis option.inject)
  have bl: "blocked S t start" "start \<le> ended (bud S)" using I t(2) unfolding binv_def by auto
  show ?thesis
  proof (cases "draining (bud S)")
    case True
    let ?S1 = "set_call t (Parked start) ((register t S)\<lparr>bud := (bud S)\<lparr>parked := parked (bud S) + 1\<rparr>, mu := None\<rparr>)"
    have e: "proceed t start S = ?S1" using True by (simp add: proceed_def Let_def)
    have w: "waiting ?S1 = insert t (waiting S)" and d: "drainer ?S1 = drainer S" and tw: "t \<notin> waiting S"
      using t(2) by (auto simp: waiting_def drainer_def fun_eq_iff)
    have "parked (bud ?S1) = card (waiting ?S1)" "finite (waiting ?S1)" using I tw unfolding w binv_def by auto
    moreover have "blocked ?S1 t start" using bl(1) by (auto simp: blocked_def)
    moreover have "calls ?S1 u \<noteq> Checked s" for u s using one by auto
    moreover have "blocked ?S1 u s \<and> hooked ?S1 u" if "u \<noteq> t" "calls S u = Parked s" for u s
      using I that unfolding binv_def blocked_def by auto
    ultimately show ?thesis using I True bl(2) unfolding e binv_def d by (auto split: if_splits)
  next
    case False
    let ?S1 = "set_call t (Draining start) (S\<lparr>bud := (bud S)\<lparr>draining := True\<rparr>, mu := None\<rparr>)"
    have e: "proceed t start S = ?S1" using False by (simp add: proceed_def Let_def)
    have w: "waiting ?S1 = waiting S" using t(2) by (auto simp: waiting_def)
    have d: "drainer ?S1 u \<longleftrightarrow> u = t" for u using I False unfolding binv_def by (auto simp: drainer_def)
    have "calls S u \<noteq> Parked s" for u s using I False unfolding binv_def by auto
    moreover have "calls ?S1 u \<noteq> Checked s" for u s using one by auto
    ultimately show ?thesis using I bl(2) unfolding e binv_def w d by (auto split: if_splits)
  qed
qed

lemma settle_inv:
  assumes I: "binv limit S" and m: "mu S = None" and t: "drainer S t" and p: "idle p"
  shows "binv limit (set_call t p (settle f S))"
proof -
  let ?S1 = "set_call t p (settle f S)"
  have tw: "t \<notin> waiting S" using t by (auto simp: waiting_def drainer_def)
  have w: "waiting ?S1 = waiting S" using p tw by (auto simp: waiting_def)
  have "\<not> drainer ?S1 u" for u
    using I t p unfolding binv_def drainer_def by auto
  moreover have "calls ?S1 u \<noteq> Parked s" "calls ?S1 u \<noteq> Checked s" for u s
    using p I m unfolding binv_def by auto
  ultimately show ?thesis using I p m unfolding binv_def w
    by (auto split: if_splits intro: le_SucI)
qed

lemma turn_settled:
  assumes "binv limit S" "mu S = None" "calls S t = Draining start"
  shows "binv limit (turn t start (settle None S))"
proof (rule turn_inv)
  have "drainer S t" using assms(3) by (simp add: drainer_def)
  then show "binv limit (set_call t Out (settle None S))" by (rule settle_inv [OF assms(1,2)]) simp
  show "start \<le> ended (bud (settle None S))" using assms unfolding binv_def by (auto intro: le_SucI)
  show "mu (settle None S) = None" using assms(2) by simp
qed

lemma drained_inv:
  assumes "binv limit S" "mu S = None" "calls S t = Draining start"
  shows "binv limit (drained t start r S)" "binv limit (drain_panic t S)"
proof -
  have t: "drainer S t" using assms(3) by (simp add: drainer_def)
  show "binv limit (drained t start r S)"
    using turn_settled [OF assms] settle_inv [OF assms(1,2) t] by (simp add: drained_def split: option.split)
  show "binv limit (drain_panic t S)" unfolding drain_panic_def by (rule settle_inv [OF assms(1,2) t]) simp
qed

lemma turn_woken:
  assumes I: "binv limit S" and m: "mu S = None" and t: "calls S t = Woken start"
  shows "binv limit (turn t start (S\<lparr>bud := (bud S)\<lparr>parked := parked (bud S) - 1\<rparr>\<rparr>))" (is "binv _ (turn _ _ ?S1)")
proof (rule turn_inv)
  have tw: "t \<in> waiting S" using t by (auto simp: waiting_def)
  have w: "waiting (set_call t Out ?S1) = waiting S - {t}" by (auto simp: waiting_def)
  have d: "drainer (set_call t Out ?S1) = drainer S" using t by (auto simp: drainer_def fun_eq_iff)
  have none: "calls S u \<noteq> Checked s" for u s using I m unfolding binv_def by auto
  show "binv limit (set_call t Out ?S1)"
    using I tw none m unfolding binv_def w d by (auto simp: blocked_def)
  show "start \<le> ended (bud ?S1)" using I t unfolding binv_def by auto
  show "mu ?S1 = None" using m by simp
qed

lemma bstep_inv:
  assumes "bstep S S'" "binv limit S"
  shows "binv limit S'"
  using assms(1)
proof cases
  case (enter_room t)
  then show ?thesis using binv_idle [OF assms(2), of t] by simp
next
  case (enter_full t)
  have "binv limit (set_call t Out S)" using binv_idle [OF assms(2), of t Out] enter_full(3) by simp
  then show ?thesis unfolding enter_full(1) by (rule turn_inv) (use enter_full in simp_all)
next
  case (woken t start)
  then show ?thesis using turn_woken [OF assms(2)] by simp
next
  case (drain_end t start r)
  then show ?thesis using drained_inv(1) [OF assms(2)] by simp
next
  case (drain_panicked t start)
  then show ?thesis using drained_inv(2) [OF assms(2)] by simp
next
  case (add n)
  have w: "waiting S' = waiting S" "drainer S' = drainer S" unfolding add by (auto simp: waiting_def drainer_def fun_eq_iff)
  show ?thesis using assms(2) add(3) unfolding binv_def w unfolding blocked_def add(1) by (auto intro: add_increasing2)
next
  case (release n)
  then show ?thesis using binv_broadcast [OF assms(2), of S'] by simp
next
  case (callback t)
  then show ?thesis using binv_broadcast [OF assms(2), of S' "charge (bud S)"] by simp
next
  case (proceed t start)
  then show ?thesis using proceed_inv [OF assms(2)] by simp
next
  case (cancel t e)
  show ?thesis
  proof (rule binv_quiet [OF assms(2)])
    fix u s assume "calls S u \<in> {Checked s, Parked s}"
    then have "hooked S u \<longrightarrow> ctx S u \<noteq> None \<longrightarrow> pending S u" using assms(2) unfolding binv_def blocked_def by blast
    then show "hooked S' u = hooked S u \<and> (ctx S' u \<noteq> None \<and> hooked S u \<longrightarrow> pending S' u)" using cancel by auto
  qed (use cancel in simp_all)
next
  case (stop_wake t)
  show ?thesis
  proof (rule binv_quiet [OF assms(2)])
    fix u s assume u: "calls S u \<in> {Checked s, Parked s}"
    then have "hooked S u \<longrightarrow> ctx S u \<noteq> None \<longrightarrow> pending S u" using assms(2) unfolding binv_def blocked_def by blast
    then show "hooked S' u = hooked S u \<and> (ctx S' u \<noteq> None \<and> hooked S u \<longrightarrow> pending S' u)" using stop_wake u by auto
  qed (use stop_wake in simp_all)
qed

lemma breach_inv: "breach limit S \<Longrightarrow> binv limit S"
proof (induction rule: breach.induct)
  case start
  have "waiting (bstart limit) = {}" by (simp add: waiting_def bstart_def)
  then show ?case by (simp add: binv_def drainer_def bstart_def newBudget_def)
qed (rule bstep_inv)

section \<open>No wake-up is lost\<close>

lemma turn_sel [simp]:
  "ended (bud (turn t start S)) = ended (bud S)" "failure (bud (turn t start S)) = failure (bud S)"
  "failedAt (bud (turn t start S)) = failedAt (bud S)" "ctx (turn t start S) = ctx S"
  "u \<noteq> t \<Longrightarrow> calls (turn t start S) u = calls S u" "calls (turn t start S) t \<noteq> Parked r"
  by (simp_all add: turn_def Let_def)

lemma proceed_sel [simp]:
  "ended (bud (proceed t start S)) = ended (bud S)" "failure (bud (proceed t start S)) = failure (bud S)"
  "failedAt (bud (proceed t start S)) = failedAt (bud S)" "ctx (proceed t start S) = ctx S" "mu (proceed t start S) = None"
  "u \<noteq> t \<Longrightarrow> calls (proceed t start S) u = calls S u" "u \<noteq> t \<Longrightarrow> pending (proceed t start S) u = pending S u"
  by (simp_all add: proceed_def Let_def)

text \<open>A drain that ends, however it ends, wakes every parked call, and parks no one.\<close>

lemma drain_end_wakes:
  assumes "bstep S S'" "ended (bud S') \<noteq> ended (bud S)"
  shows "calls S' u \<noteq> Parked r"
  using assms
proof cases
  case (drain_end t start d)
  then show ?thesis by (cases "u = t") (auto simp: drained_def split: option.splits)
next
  case (drain_panicked t start)
  then show ?thesis by (simp add: drain_panic_def)
qed auto

text \<open>The callback of a parked call runs as soon as \<open>mu\<close> is free, which is one step of the call holding it away.\<close>

lemma pending_wakes:
  assumes I: "binv limit S" and t: "calls S t = Parked s" "pending S t"
  shows "\<exists>S1 S2. (S1 = S \<or> bstep S S1) \<and> bstep S1 S2 \<and> calls S2 t = Woken s"
proof -
  have go: "\<exists>S2. bstep S1 S2 \<and> calls S2 t = Woken s" if "mu S1 = None" "pending S1 t" "calls S1 t = Parked s" for S1
    using bstep.callback [OF that(1,2)] that(3) by (intro exI conjI) auto
  show ?thesis
  proof (cases "mu S")
    case None
    then show ?thesis using go [OF None t(2,1)] by blast
  next
    case (Some u)
    then obtain su where u: "calls S u = Checked su" using I unfolding binv_def by blast
    then have "u \<noteq> t" using t(1) by auto
    then show ?thesis using go [of "proceed u su S"] bstep.proceed [OF Some u] t by (metis proceed_sel(5-7))
  qed
qed

text \<open>
  C22. The budget under any interleaving of calls, charges, releases, cancellations, callbacks, drains and
  panics, where a context ends without the lock. At most one drain runs, and the flag says when; \<open>waiters\<close>
  is the number of calls parked or just woken. No wake-up is lost: a call that is parked has no room, no
  failed drain since it began, a drain in progress, and a context that is alive or whose callback has been
  started and not yet run; in the latter case that callback can run after at most one step of the call
  that holds the lock, and wakes the call. When the drain in progress ends, by success, failure, an
  abandoned context or a panic, no call is parked any more.
\<close>

theorem budget_no_lost_wakeup:
  assumes "breach limit S"
  shows "(draining (bud S) \<longleftrightarrow> (\<exists>!d. drainer S d)) \<and> parked (bud S) = card (waiting S) \<and>
    (\<forall>t s. calls S t = Parked s \<longrightarrow>
       limit \<le> charge (bud S) \<and> (failure (bud S) = None \<or> failedAt (bud S) \<le> s) \<and> (\<exists>!d. drainer S d) \<and>
       (ctx S t = None \<or>
        pending S t \<and> (\<exists>S1 S2. (S1 = S \<or> bstep S S1) \<and> bstep S1 S2 \<and> calls S2 t = Woken s))) \<and>
    (\<forall>S' t s. bstep S S' \<and> ended (bud S') \<noteq> ended (bud S) \<longrightarrow> calls S' t \<noteq> Parked s)"
proof -
  have I: "binv limit S" using assms by (rule breach_inv)
  have u: "draining (bud S) \<longleftrightarrow> (\<exists>!d. drainer S d)" using I unfolding binv_def by blast
  have "limit \<le> charge (bud S) \<and> (failure (bud S) = None \<or> failedAt (bud S) \<le> s) \<and> (\<exists>!d. drainer S d) \<and>
      (ctx S t = None \<or> pending S t \<and> (\<exists>S1 S2. (S1 = S \<or> bstep S S1) \<and> bstep S1 S2 \<and> calls S2 t = Woken s))"
    if p: "calls S t = Parked s" for t s
  proof -
    have b: "blocked S t s" "hooked S t" "draining (bud S)" "maxBytes (bud S) = limit" using I p unfolding binv_def by blast+
    then have "ctx S t = None \<or> pending S t" by (auto simp: blocked_def)
    then show ?thesis using b u pending_wakes [OF I p] unfolding blocked_def by blast
  qed
  moreover have "parked (bud S) = card (waiting S)" using I unfolding binv_def by blast
  ultimately show ?thesis using u drain_end_wakes by (intro conjI allI impI) blast+
qed

text \<open>
  Two writers over a limit of 4: the first drains, the second parks, and then the second's context ends.
  The state is reached by charging 4, and by the two calls.
\<close>

definition one_writer :: bsys where
  "one_writer = proceed 0 0 (turn 0 0 ((bstart 4)\<lparr>bud := (newBudget 4)\<lparr>charge := 4\<rparr>\<rparr>))"

definition two_writers :: bsys where
  "two_writers = proceed 1 0 (turn 1 0 one_writer)"

lemmas writers_defs =
  one_writer_def two_writers_def turn_def proceed_def register_def set_call_def bstart_def newBudget_def

lemma one_writer_reached: "breach 4 one_writer"
proof -
  let ?S1 = "(bstart 4)\<lparr>bud := (newBudget 4)\<lparr>charge := 4\<rparr>\<rparr>"
  have "bstep (bstart 4) ?S1"
    using bstep.add [of "bstart 4" 4] by (simp add: bstart_def newBudget_def)
  then have 1: "breach 4 ?S1" by (rule breach.step [OF breach.start])
  have "bstep ?S1 (turn 0 0 ?S1)"
    using bstep.enter_full [of ?S1 0] by (simp add: bstart_def newBudget_def)
  with 1 have 2: "breach 4 (turn 0 0 ?S1)" by (rule breach.step)
  have "bstep (turn 0 0 ?S1) one_writer" unfolding one_writer_def
    by (rule bstep.proceed) (simp_all add: writers_defs)
  with 2 show ?thesis by (rule breach.step)
qed

lemma two_writers_steps: "bstep one_writer (turn 1 0 one_writer)" "bstep (turn 1 0 one_writer) two_writers"
proof -
  show "bstep one_writer (turn 1 0 one_writer)"
    using bstep.enter_full [of one_writer 1] by (simp add: writers_defs)
  show "bstep (turn 1 0 one_writer) two_writers" unfolding two_writers_def
    by (rule bstep.proceed) (simp_all add: writers_defs)
qed

lemma two_writers_reached: "breach 4 two_writers"
  using two_writers_steps one_writer_reached by (blast intro: breach.step)

theorem budget_no_lost_wakeup_witness:
  "\<exists>S. breach 4 S \<and> calls S 1 = Parked 0 \<and> ctx S 1 = Some EPanic \<and> pending S 1 \<and> (\<exists>!d. drainer S d) \<and> parked (bud S) = 1"
proof -
  let ?S = "two_writers\<lparr>ctx := (ctx two_writers)(1 := Some EPanic), pending := (pending two_writers)(1 := hooked two_writers 1)\<rparr>"
  have p: "calls ?S 1 = Parked 0" "parked (bud ?S) = 1" "ctx two_writers 1 = None" by (simp_all add: writers_defs)
  have r: "breach 4 ?S" using two_writers_reached bstep.cancel [OF p(3)] by (rule breach.step)
  have c: "ctx ?S 1 = Some EPanic" by simp
  have d: "\<exists>!d. drainer ?S d" "ctx ?S 1 = None \<or> pending ?S 1" using budget_no_lost_wakeup [OF r] p(1) by blast+
  then have "pending ?S 1" using c by auto
  then show ?thesis using r p(1,2) c d(1) by blast
qed

section \<open>What await answers\<close>

text \<open>A step that ends the drain of \<open>u\<close> with a failure for the others to see: \<open>u\<close>'s own context was alive, or the drain panicked.\<close>

definition published :: "bsys \<Rightarrow> bsys \<Rightarrow> nat \<Rightarrow> err \<Rightarrow> bool" where
  "published S S' u e \<longleftrightarrow> bstep S S' \<and>
     (\<exists>s. calls S u = Draining s \<and>
        (ctx S u = None \<and> S' = drained u s (Some e) S \<or> e = errDrainPanicked \<and> S' = drain_panic u S))"

lemma published_sel:
  "published S S' u e \<Longrightarrow> failure (bud S') = Some e \<and> failedAt (bud S') = Suc (ended (bud S)) \<and> ended (bud S') = Suc (ended (bud S)) \<and>
     (\<forall>t. t \<noteq> u \<longrightarrow> calls S' t = wake (calls S t)) \<and> (\<exists>s. calls S u = Draining s)"
  by (auto simp: published_def drained_def drain_panic_def)

text \<open>Nothing else changes the recorded failure, and nothing undoes the end of a context.\<close>

lemma bstep_failure:
  assumes "bstep S S'"
  shows "failure (bud S') = failure (bud S) \<and> failedAt (bud S') = failedAt (bud S) \<or> (\<exists>u e. published S S' u e)"
  using assms
proof cases
  case (drain_end t start r)
  show ?thesis
  proof (cases "r \<noteq> None \<and> ctx S t = None")
    case True
    then obtain e where "r = Some e" by blast
    then have "published S S' t e" unfolding published_def using assms drain_end True by blast
    then show ?thesis by blast
  next
    case False
    then show ?thesis using drain_end by (cases r) (simp_all add: drained_def)
  qed
next
  case (drain_panicked t start)
  then show ?thesis using assms by (auto simp: published_def)
qed auto

lemma bstep_ended: "bstep S S' \<Longrightarrow> ended (bud S) \<le> ended (bud S')"
  by (erule bstep.cases) (auto simp: drained_def drain_panic_def split: option.split)

lemma bstep_ctx: "bstep S S' \<Longrightarrow> ctx S t = Some e \<Longrightarrow> ctx S' t = Some e"
  by (erule bstep.cases) (auto simp: drained_def drain_panic_def split: option.split)

text \<open>How far a call is into its loop, and since when.\<close>

fun since :: "pc \<Rightarrow> nat option" where
  "since (Checked s) = Some s" | "since (Parked s) = Some s" | "since (Woken s) = Some s" | "since (Draining s) = Some s"
| "since _ = None"

lemma since_wake [simp]: "since (wake p) = since p"
  by (cases p) simp_all

lemma since_turn: "since (calls (turn t start S) t) \<in> {None, Some start}"
  by (simp add: turn_def Let_def)

lemma bstep_since:
  assumes "bstep S S'" "since (calls S' t) = Some s"
  shows "since (calls S t) = Some s \<or> calls S t = Out \<and> s = ended (bud S)"
  using assms
proof cases
  case (enter_room u)
  then show ?thesis using assms(2) by (cases "u = t") auto
next
  case (drain_panicked u start)
  then show ?thesis using assms(2) by (cases "u = t") (auto simp: drain_panic_def)
next
  case (enter_full u)
  then show ?thesis using assms(2) since_turn [of u "ended (bud S)" S] by (cases "u = t") auto
next
  case (woken u start)
  let ?S1 = "S\<lparr>bud := (bud S)\<lparr>parked := parked (bud S) - 1\<rparr>\<rparr>"
  show ?thesis using woken assms(2) since_turn [of u start ?S1] by (cases "u = t") auto
next
  case (drain_end u start r)
  then show ?thesis using assms(2) since_turn [of u start "settle None S"]
    by (cases "u = t") (auto simp: drained_def split: option.splits if_splits)
next
  case (proceed u start)
  then show ?thesis using assms(2) by (cases "u = t") (auto simp: proceed_def Let_def split: if_splits)
qed auto

lemma bstep_stays:
  assumes "bstep S S'" "calls S t = Returned r"
  shows "calls S' t = Returned r"
  using assms
proof cases
  case (drain_end u start d)
  then show ?thesis using assms(2) by (cases "u = t") (auto simp: drained_def split: option.splits)
next
  case (enter_full u)
  then show ?thesis using assms(2) by (cases "u = t") auto
next
  case (woken u start)
  then show ?thesis using assms(2) by (cases "u = t") auto
next
  case (proceed u start)
  then show ?thesis using assms(2) by (cases "u = t") auto
qed (use assms(2) in \<open>auto simp: drain_panic_def\<close>)

text \<open>A waiting call goes on waiting, woken or not, until it takes its next turn.\<close>

lemma bstep_waiting:
  assumes "bstep S S'" "calls S t = Parked s \<or> calls S t = Woken s"
  shows "calls S' t = Parked s \<or> calls S' t = Woken s \<or>
    calls S t = Woken s \<and> S' = turn t s (S\<lparr>bud := (bud S)\<lparr>parked := parked (bud S) - 1\<rparr>\<rparr>)"
  using assms(1)
proof cases
  case (drain_end u start d)
  then show ?thesis using assms(2) by (cases "u = t") (auto simp: drained_def split: option.splits)
next
  case (enter_full u)
  then show ?thesis using assms(2) by (cases "u = t") auto
next
  case (woken u start)
  then show ?thesis using assms(2) by (cases "u = t") auto
next
  case (proceed u start)
  then show ?thesis using assms(2) by (cases "u = t") auto
qed (use assms(2) in \<open>auto simp: drain_panic_def\<close>)

lemma turn_returned:
  assumes "calls (turn t start S) t = Returned r"
  shows "r = None \<and> charge (bud S) < maxBytes (bud S) \<or> r \<noteq> None \<and> r = ctx S t \<or>
     r \<noteq> None \<and> r = failure (bud S) \<and> start < failedAt (bud S)"
  using assms unfolding turn_def Let_def by (auto split: if_splits)

text \<open>The step on which a call returns: room, its own context, its own failed drain, or a failure since it began.\<close>

lemma bstep_returns:
  assumes "bstep S S'" "calls S' t = Returned r" "calls S t \<noteq> Returned r"
  shows "r = None \<and> (maxBytes (bud S) \<le> 0 \<or> charge (bud S) < maxBytes (bud S)) \<or>
    r \<noteq> None \<and> r = ctx S t \<or> (\<exists>e. r = Some e \<and> published S S' t e) \<or>
    r \<noteq> None \<and> r = failure (bud S) \<and> (\<exists>s. (since (calls S t) = Some s \<or> calls S t = Out \<and> s = ended (bud S)) \<and> s < failedAt (bud S))"
  using assms
proof cases
  case (enter_full u)
  then show ?thesis using turn_returned [of u "ended (bud S)" S r] assms(2,3) by (cases "u = t") auto
next
  case (woken u start)
  let ?S1 = "S\<lparr>bud := (bud S)\<lparr>parked := parked (bud S) - 1\<rparr>\<rparr>"
  show ?thesis using turn_returned [of u start ?S1 r] woken assms(2,3) by (cases "u = t") auto
next
  case (drain_end u start d)
  show ?thesis
  proof (cases "u = t")
    case True
    then show ?thesis using turn_returned [of u start "settle None S" r] drain_end assms
      by (cases d) (auto simp: drained_def published_def split: if_splits)
  next
    case False
    then show ?thesis using drain_end assms(2,3) by (auto simp: drained_def split: option.splits if_splits)
  qed
next
  case (proceed u start)
  then show ?thesis using assms(2,3) by (cases "u = t") (auto simp: proceed_def Let_def split: if_splits)
qed (use assms(2,3) in \<open>auto simp: drain_panic_def split: if_splits\<close>)

lemma bsteps_reach: "bstep\<^sup>*\<^sup>* S S' \<Longrightarrow> breach limit S \<Longrightarrow> breach limit S'"
  by (induction rule: rtranclp_induct) (auto intro: breach.step)

text \<open>A failure recorded after a moment was published by a drain that ended after it.\<close>

lemma failure_published:
  assumes "bstep\<^sup>*\<^sup>* S0 S" "failure (bud S) = Some e" "failedAt (bud S) > ended (bud S0)" "breach limit S0"
  shows "\<exists>S1 S2 u. bstep\<^sup>*\<^sup>* S0 S1 \<and> published S1 S2 u e \<and> bstep\<^sup>*\<^sup>* S2 S"
  using assms(1-3)
proof (induction rule: rtranclp_induct)
  case base
  then show ?case using breach_inv [OF assms(4)] unfolding binv_def by auto
next
  case (step S S')
  from bstep_failure [OF step(2)] show ?case
  proof
    assume "failure (bud S') = failure (bud S) \<and> failedAt (bud S') = failedAt (bud S)"
    then have "\<exists>S1 S2 u. bstep\<^sup>*\<^sup>* S0 S1 \<and> published S1 S2 u e \<and> bstep\<^sup>*\<^sup>* S2 S" using step by simp
    then show ?thesis using step(2) by (meson rtranclp.rtrancl_into_rtrancl)
  next
    assume "\<exists>u e. published S S' u e"
    then obtain u where "published S S' u e" using published_sel step.prems(1) by fastforce
    then show ?thesis using step(1) by blast
  qed
qed

lemma since_later:
  assumes "bstep\<^sup>*\<^sup>* S0 S" "calls S0 t = Out" "since (calls S t) = Some s"
  shows "ended (bud S0) \<le> s"
proof -
  have "ended (bud S0) \<le> ended (bud S) \<and> (\<forall>s. since (calls S t) = Some s \<longrightarrow> ended (bud S0) \<le> s)"
    using assms(1)
  proof (induction rule: rtranclp_induct)
    case base
    then show ?case using assms(2) by simp
  next
    case (step S S')
    then show ?case using bstep_ended [OF step(2)] bstep_since [OF step(2), of t] by fastforce
  qed
  then show ?thesis using assms(3) by blast
qed

text \<open>A call that was waiting when a failure was published cannot return without an error.\<close>

lemma failure_reaches_waiter:
  assumes "breach limit S1" "published S1 S2 u e" "t \<in> waiting S1" "bstep\<^sup>*\<^sup>* S2 S"
  shows "(\<exists>s. (calls S t = Parked s \<or> calls S t = Woken s) \<and> failure (bud S) \<noteq> None \<and> s < failedAt (bud S)) \<or>
    (\<exists>x. calls S t = Returned (Some x))"
  using assms(4)
proof (induction rule: rtranclp_induct)
  case base
  note p = published_sel [OF assms(2)]
  obtain s where s: "calls S1 t = Parked s \<or> calls S1 t = Woken s" using assms(3) by (auto simp: waiting_def)
  then have "s \<le> ended (bud S1)" using breach_inv [OF assms(1)] unfolding binv_def by auto
  moreover have "t \<noteq> u" using s p by auto
  ultimately show ?case using s p by auto
next
  case (step S S')
  have I: "binv limit S" using bsteps_reach [OF step(1)] breach.step [OF assms(1), of S2] assms(2) breach_inv
    unfolding published_def by blast
  show ?case
  proof (cases "\<exists>x. calls S t = Returned (Some x)")
    case True
    then show ?thesis using bstep_stays [OF step(2), of t] by blast
  next
    case False
    then obtain s where s: "calls S t = Parked s \<or> calls S t = Woken s" "failure (bud S) \<noteq> None" "s < failedAt (bud S)"
      using step.IH by blast
    have f: "failure (bud S') \<noteq> None \<and> s < failedAt (bud S')"
      using bstep_failure [OF step(2)] s(2,3) published_sel [of S S'] I unfolding binv_def by fastforce
    have "calls (turn t s (S\<lparr>bud := (bud S)\<lparr>parked := parked (bud S) - 1\<rparr>\<rparr>)) t = Returned (failure (bud S))"
      using s(2,3) by (simp add: turn_def Let_def)
    then have "(calls S' t = Parked s \<or> calls S' t = Woken s) \<or> (\<exists>x. calls S' t = Returned (Some x))"
      using bstep_waiting [OF step(2) s(1)] s(2) by auto
    then show ?thesis using f by blast
  qed
qed

lemma await_returned:
  assumes "breach limit S0" "calls S0 t = Out" "bstep\<^sup>*\<^sup>* S0 S"
  shows "calls S t = Returned r \<longrightarrow>
    (if r = None then \<exists>S1. bstep\<^sup>*\<^sup>* S0 S1 \<and> bstep\<^sup>*\<^sup>* S1 S \<and> (limit \<le> 0 \<or> charge (bud S1) < limit)
     else ctx S t = r \<or> (\<exists>S1 S2 u. bstep\<^sup>*\<^sup>* S0 S1 \<and> published S1 S2 u (the r) \<and> bstep\<^sup>*\<^sup>* S2 S))"
  using assms(3)
proof (induction rule: rtranclp_induct)
  case base
  then show ?case using assms(2) by simp
next
  case (step S S')
  have mx: "maxBytes (bud S) = limit" using breach_inv [OF bsteps_reach [OF step(1) assms(1)]] unfolding binv_def by simp
  have next1: "bstep\<^sup>*\<^sup>* S1 S'" if "bstep\<^sup>*\<^sup>* S1 S" for S1 using that step(2) by (rule rtranclp.rtrancl_into_rtrancl)
  have next_ctx: "ctx S t = r \<Longrightarrow> r \<noteq> None \<Longrightarrow> ctx S' t = r" using bstep_ctx [OF step(2), of t] by auto
  show ?case
  proof (cases "calls S t = Returned r")
    case True
    show ?thesis
    proof (cases r)
      case None
      then show ?thesis using step(3) True next1 by auto
    next
      case (Some e)
      then show ?thesis using step(3) True next1 next_ctx by auto
    qed
  next
    case False
    show ?thesis
    proof
      assume r: "calls S' t = Returned r"
      from bstep_returns [OF step(2) r False] consider
          "r = None" "maxBytes (bud S) \<le> 0 \<or> charge (bud S) < maxBytes (bud S)"
        | "r \<noteq> None" "r = ctx S t" | e where "r = Some e" "published S S' t e"
        | s where "r \<noteq> None" "r = failure (bud S)" "since (calls S t) = Some s \<or> calls S t = Out \<and> s = ended (bud S)"
            "s < failedAt (bud S)" by blast
      then show "if r = None then \<exists>S1. bstep\<^sup>*\<^sup>* S0 S1 \<and> bstep\<^sup>*\<^sup>* S1 S' \<and> (limit \<le> 0 \<or> charge (bud S1) < limit)
          else ctx S' t = r \<or> (\<exists>S1 S2 u. bstep\<^sup>*\<^sup>* S0 S1 \<and> published S1 S2 u (the r) \<and> bstep\<^sup>*\<^sup>* S2 S')"
      proof cases
        case 1
        then show ?thesis using step(1) next1 mx by auto
      next
        case 2
        then show ?thesis using next_ctx by auto
      next
        case (3 e)
        then show ?thesis using step(1) by auto
      next
        case (4 s)
        then obtain e where e: "r = Some e" "failure (bud S) = Some e" by auto
        have "failedAt (bud S) \<le> ended (bud S)"
          using breach_inv [OF bsteps_reach [OF step(1) assms(1)]] unfolding binv_def by simp
        then have "ended (bud S0) < failedAt (bud S)" using 4(3,4) since_later [OF step(1) assms(2)] by fastforce
        then obtain S1 S2 u where "bstep\<^sup>*\<^sup>* S0 S1" "published S1 S2 u e" "bstep\<^sup>*\<^sup>* S2 S"
          using failure_published [OF step(1) e(2) _ assms(1)] by blast
        then show ?thesis using e(1) next1 by auto
      qed
    qed
  qed
qed

text \<open>
  C24. What \<open>await\<close> answers, over the whole life of a call: from a state in which it has not begun to one in
  which it has returned, with anything in between. It returns nil only if waiting is disabled or the
  charge was below the limit at some moment in between. It returns an error only if that is the error of its
  own context, or one that a drain ending after the call began published: its own drain's or another's,
  and then the drainer's context was alive or the drain panicked. A drain whose own context has ended
  publishes nothing: its failure leaves what the other calls see as it was, and its call returns the error
  of its context. And a call that was waiting when a failure was published does not return nil.
\<close>

theorem await_answers:
  assumes "breach limit S0" "calls S0 t = Out" "bstep\<^sup>*\<^sup>* S0 S'" "calls S' t = Returned r"
  shows "(r = None \<longrightarrow> (\<exists>S1. bstep\<^sup>*\<^sup>* S0 S1 \<and> bstep\<^sup>*\<^sup>* S1 S' \<and> (limit \<le> 0 \<or> charge (bud S1) < limit))) \<and>
    (\<forall>e. r = Some e \<longrightarrow> ctx S' t = Some e \<or>
       (\<exists>S1 S2 u s. bstep\<^sup>*\<^sup>* S0 S1 \<and> bstep S1 S2 \<and> bstep\<^sup>*\<^sup>* S2 S' \<and> calls S1 u = Draining s \<and>
          failure (bud S2) = Some e \<and> ended (bud S2) = Suc (ended (bud S1)) \<and> failedAt (bud S2) = ended (bud S2) \<and>
          (ctx S1 u = None \<and> S2 = drained u s (Some e) S1 \<or> e = errDrainPanicked \<and> S2 = drain_panic u S1))) \<and>
    (\<forall>S1 u s x ce. ctx S1 u = Some ce \<longrightarrow>
       failure (bud (drained u s (Some x) S1)) = failure (bud S1) \<and> failedAt (bud (drained u s (Some x) S1)) = failedAt (bud S1) \<and>
       calls (drained u s (Some x) S1) u = Returned (Some ce)) \<and>
    (\<forall>S1 S2 u e. bstep\<^sup>*\<^sup>* S0 S1 \<and> published S1 S2 u e \<and> bstep\<^sup>*\<^sup>* S2 S' \<and> t \<in> waiting S1 \<longrightarrow> r \<noteq> None)"
proof (intro conjI allI impI)
  note R = await_returned [OF assms(1-3), of r]
  show "\<exists>S1. bstep\<^sup>*\<^sup>* S0 S1 \<and> bstep\<^sup>*\<^sup>* S1 S' \<and> (limit \<le> 0 \<or> charge (bud S1) < limit)" if "r = None"
    using R assms(4) that by simp
  show "ctx S' t = Some e \<or>
       (\<exists>S1 S2 u s. bstep\<^sup>*\<^sup>* S0 S1 \<and> bstep S1 S2 \<and> bstep\<^sup>*\<^sup>* S2 S' \<and> calls S1 u = Draining s \<and>
          failure (bud S2) = Some e \<and> ended (bud S2) = Suc (ended (bud S1)) \<and> failedAt (bud S2) = ended (bud S2) \<and>
          (ctx S1 u = None \<and> S2 = drained u s (Some e) S1 \<or> e = errDrainPanicked \<and> S2 = drain_panic u S1))" if re: "r = Some e" for e
  proof (cases "ctx S' t = Some e")
    case False
    then obtain S1 S2 u where p: "bstep\<^sup>*\<^sup>* S0 S1" "published S1 S2 u e" "bstep\<^sup>*\<^sup>* S2 S'" using R assms(4) re by auto
    then show ?thesis using published_sel [OF p(2)] unfolding published_def by metis
  qed simp
  show "r \<noteq> None" if "bstep\<^sup>*\<^sup>* S0 S1 \<and> published S1 S2 u e \<and> bstep\<^sup>*\<^sup>* S2 S' \<and> t \<in> waiting S1" for S1 S2 u e
  proof -
    have "breach limit S1" using bsteps_reach that assms(1) by blast
    from failure_reaches_waiter [OF this, of S2 u e t S'] that assms(4) show ?thesis by auto
  qed
qed (simp_all add: drained_def)

theorem await_answers_witness:
  "\<exists>S'. bstep\<^sup>*\<^sup>* one_writer S' \<and> calls one_writer 1 = Out \<and> calls S' 1 = Returned (Some EPanic)"
proof -
  let ?F = "drained 0 0 (Some EPanic) two_writers"
  let ?G = "?F\<lparr>bud := (bud ?F)\<lparr>parked := parked (bud ?F) - 1\<rparr>\<rparr>"
  let ?S = "turn 1 0 ?G"
  have c: "calls two_writers 0 = Draining 0" "mu two_writers = None" "ctx two_writers 0 = None" "calls two_writers 1 = Parked 0"
    "calls one_writer 1 = Out" by (simp_all add: writers_defs)
  have f: "bstep two_writers ?F" using c(2,1) by (rule bstep.drain_end)
  have "calls ?F 1 = Woken 0" "mu ?F = None" using c by (simp_all add: drained_def)
  then have w: "bstep ?F ?S" by (intro bstep.woken)
  have pre: "bstep\<^sup>*\<^sup>* one_writer two_writers" using two_writers_steps by (meson converse_rtranclp_into_rtranclp rtranclp.rtrancl_refl)
  have run: "bstep\<^sup>*\<^sup>* one_writer ?S" using pre f w by (meson rtranclp.rtrancl_into_rtrancl)
  have fail: "failure (bud ?F) = Some EPanic" "failedAt (bud ?F) = Suc (ended (bud two_writers))"
    using c by (simp_all add: drained_def)
  then have r: "calls ?S 1 = Returned (failure (bud ?G))" by (simp add: turn_def Let_def)
  have "published two_writers ?F 0 EPanic" unfolding published_def using f c by blast
  moreover have "1 \<in> waiting two_writers" using c(4) by (auto simp: waiting_def)
  ultimately have "failure (bud ?G) \<noteq> None"
    using await_answers [OF one_writer_reached c(5) run r] pre w by (metis r_into_rtranclp)
  then show ?thesis using run r fail c(5) by (intro exI [of _ ?S]) simp
qed

end
