(* ===== verification/FileOps.thy ===== *)
theory FileOps
  imports Commit Budget
begin

text \<open>
  The calls of \<open>fs.go\<close> that wait for the budget or end in a commit: \<open>Write\<close>, \<open>Commit\<close> and
  \<open>syncFileAndNamespace\<close>. The budget's \<open>await\<close> is seen from its one caller here: while no other call
  waits, it drains with \<open>Sync\<close> until there is room. The general behaviour is in \<open>Budget\<close>. Readings of
  the context's error, of the clock and of the random source are numbered: the k-th drain uses the
  k-th of each, and the call's own commit the 0-th.
\<close>

record feed =
  fd_ctx :: "nat \<Rightarrow> err option"
  fd_clk :: "nat \<Rightarrow> clock"
  fd_nonce :: "nat \<Rightarrow> bytes"

text \<open>
  \<open>await\<close> with no other caller in it: \<open>None\<close> is a call that drains for ever. \<open>fd_ctx\<close> is read before and
  after each drain.
\<close>

partial_function (option) await_alone ::
  "'w env \<Rightarrow> feed \<Rightarrow> nat \<Rightarrow> fs \<Rightarrow> 'w \<Rightarrow> (err option \<times> fs \<times> 'w) option" where
  "await_alone E fd k N w =
     (if budget_limit N \<le> 0 \<or> budget_used N < budget_limit N then Some (None, N, w)
      else (case fd_ctx fd (2 * k) of
              Some e \<Rightarrow> Some (Some e, N, w)
            | None \<Rightarrow>
                (case Sync E (fd_clk fd (Suc k)) (fd_nonce fd (Suc k)) N w of
                   (None, N1, w1) \<Rightarrow> await_alone E fd (Suc k) N1 w1
                 | (Some e, N1, w1) \<Rightarrow>
                     Some (Some (case fd_ctx fd (2 * k + 1) of Some e' \<Rightarrow> e' | None \<Rightarrow> e), N1, w1))))"

definition syncFileAndNamespace ::
  "'w env \<Rightarrow> feed \<Rightarrow> u64 \<Rightarrow> fs \<Rightarrow> 'w \<Rightarrow> err option \<times> fs \<times> 'w" where
  "syncFileAndNamespace E fd i N w =
     (case commitFile (e_sha E) (mount_store E) i N w of
        (Some e, N1, w1) \<Rightarrow> (Some e, N1, w1)
      | (None, N1, w1) \<Rightarrow> Sync E (fd_clk fd 0) (fd_nonce fd 0) N1 w1)"

text \<open>
  The write itself, once admitted: the buffers of inode \<open>i\<close> are taken out of the table, filled, and put
  back, unless the inode's open file has been dropped meanwhile.
\<close>

definition write_admitted ::
  "'w env \<Rightarrow> feed \<Rightarrow> handle \<Rightarrow> u64 \<Rightarrow> nat \<Rightarrow> bytes \<Rightarrow> stability \<Rightarrow> fs \<Rightarrow> 'w
   \<Rightarrow> (err + nat \<times> stability) \<times> fs \<times> 'w" where
  "write_admitted E fd h i off data how N w =
     (case getOpen i N of
        (x, N1) \<Rightarrow>
          (case bufferWrite (fd_clk fd 0) (e_sha E) (mount_store E) h x off data N1 w of
             (Inl e, x1, N2, w1) \<Rightarrow> (Inl e, put_open i x1 N2, w1)
           | (Inr written, x1, N2, w1) \<Rightarrow>
               let N3 = put_open i x1 N2 in
               if how = FileSync \<or> how = DataSync
               then (case syncFileAndNamespace E fd i N3 w1 of
                       (Some e, N4, w2) \<Rightarrow> (Inl e, N4, w2)
                     | (None, N4, w2) \<Rightarrow> (Inr (wrap32 written, FileSync), N4, w2))
               else (Inr (wrap32 written, Unstable), N3, w1)))"

definition Write ::
  "'w env \<Rightarrow> feed \<Rightarrow> caller \<Rightarrow> handle \<Rightarrow> nat \<Rightarrow> bytes \<Rightarrow> stability \<Rightarrow> fs \<Rightarrow> 'w
   \<Rightarrow> ((err + nat \<times> stability) \<times> fs \<times> 'w) option" where
  "Write E fd c h off data0 how N w =
     (case mutable N of
        Some s \<Rightarrow> Some (Inl (EStatus s), N, w)
      | None \<Rightarrow>
          if data0 = [] then Some (Inr (0, FileSync), N, w)
          else if off \<ge> maxFileSize N then Some (Inl (EStatus ErrFBig), N, w)
          else let data = (if length data0 > maxFileSize N - off then take (maxFileSize N - off) data0 else data0)
               in case resolve N h of
                    Inl s \<Rightarrow> Some (Inl (EStatus s), N, w)
                  | Inr (_, n) \<Rightarrow>
                      (case checkPerm N OpWrite c n of
                         Some s \<Rightarrow> Some (Inl (EStatus s), N, w)
                       | None \<Rightarrow>
                           (case await_alone E fd 0 N w of
                              None \<Rightarrow> None
                            | Some (Some e, N1, w1) \<Rightarrow> Some (Inl e, N1, w1)
                            | Some (None, N1, w1) \<Rightarrow> Some (write_admitted E fd h (ID n) off data how N1 w1))))"

definition Commit :: "'w env \<Rightarrow> feed \<Rightarrow> handle \<Rightarrow> fs \<Rightarrow> 'w \<Rightarrow> err option \<times> fs \<times> 'w" where
  "Commit E fd h N w =
     (case resolve N h of
        Inl s \<Rightarrow> (Some (EStatus s), N, w)
      | Inr (_, n) \<Rightarrow>
          (case commitFile (e_sha E) (mount_store E) (ID n) N w of
             (Some e, N1, w1) \<Rightarrow> (Some e, N1, w1)
           | (None, N1, w1) \<Rightarrow> Sync E (fd_clk fd 0) (fd_nonce fd 0) N1 w1))"

end
