(* ===== verification/WriteSpec.thy ===== *)
theory WriteSpec
  imports Content FileOps
begin

text \<open>
  What the calls that change a file's data do to its contents: writing, truncating and flushing. A
  file keeps the invariant \<open>file_ok\<close>: every stored chunk has the length its reference says and fits a
  chunk, every buffer fits a chunk and is charged at the chunk size, a pending trim belongs to a stored
  chunk that no buffer covers, and the file reads as zeros past its size.
\<close>

section \<open>Buffers and their charge\<close>

lemma sum_caps_set: "sum_caps m = (\<Sum>i \<in> fset (fmdom m). int (b_cap (the (fmlookup m i))))"
  unfolding sum_caps_def
  by (subst sum_list_distinct_conv_sum_set) (simp_all add: sorted_list_of_fset.rep_eq)

definition cap_at :: "(nat, buf) fmap \<Rightarrow> nat \<Rightarrow> int" where
  "cap_at m i = (case fmlookup m i of Some b \<Rightarrow> int (b_cap b) | None \<Rightarrow> 0)"

lemma sum_caps_upd: "sum_caps (fmupd i b m) = sum_caps m - cap_at m i + int (b_cap b)"
proof -
  let ?f = "\<lambda>m j. int (b_cap (the (fmlookup m j)))"
  let ?D = "fset (fmdom m) - {i}"
  have 1: "sum_caps (fmupd i b m) = int (b_cap b) + sum (?f m) ?D"
  proof -
    have "sum_caps (fmupd i b m) = sum (?f (fmupd i b m)) (insert i ?D)"
      unfolding sum_caps_set by (rule sum.cong) auto
    also have "\<dots> = ?f (fmupd i b m) i + sum (?f (fmupd i b m)) ?D" by (rule sum.insert) simp_all
    also have "sum (?f (fmupd i b m)) ?D = sum (?f m) ?D" by (rule sum.cong) auto
    finally show ?thesis by simp
  qed
  have "sum_caps m = cap_at m i + sum (?f m) ?D"
  proof (cases "fmlookup m i")
    case None
    then have "?D = fset (fmdom m)" by (auto simp: fmlookup_dom_iff)
    then show ?thesis using None by (simp add: sum_caps_set cap_at_def)
  next
    case (Some c)
    then have "i \<in> fset (fmdom m)" by (simp add: fmlookup_dom_iff)
    then show ?thesis using Some by (simp add: sum_caps_set cap_at_def sum.remove)
  qed
  with 1 show ?thesis by simp
qed

lemma sum_caps_empty [simp]: "sum_caps fmempty = 0"
  by (simp add: sum_caps_set)

definition bufs_ok :: "nat \<Rightarrow> openFile \<Rightarrow> bool" where
  "bufs_ok cs x \<longleftrightarrow> (\<forall>i b. fmlookup (of_dirty x) i = Some b \<longrightarrow> length (b_data b) \<le> cs \<and> b_cap b = cs)"

definition ref_ok :: "(bytes \<Rightarrow> string) \<Rightarrow> nat \<Rightarrow> chunkRef \<Rightarrow> bool" where
  "ref_ok sha cs r \<longleftrightarrow> isHole r \<and> ch_Size r \<le> cs \<or>
     (\<exists>d. sha d = ch_Hash r \<and> length d = ch_Size r \<and> length d \<le> cs)"

lemma ref_ok_cdata:
  assumes "ref_ok sha cs r" "inj sha"
  shows "length (cdata sha r) = ch_Size r" "length (cdata sha r) \<le> cs" "\<not> isHole r \<Longrightarrow> sha (cdata sha r) = ch_Hash r"
proof -
  have "length (cdata sha r) = ch_Size r \<and> ch_Size r \<le> cs \<and> (\<not> isHole r \<longrightarrow> sha (cdata sha r) = ch_Hash r)"
  proof (cases "isHole r")
    case False
    then obtain d where "sha d = ch_Hash r" "length d = ch_Size r" "length d \<le> cs"
      using assms(1) by (auto simp: ref_ok_def)
    moreover from this have "inv sha (ch_Hash r) = d" using assms(2) by (metis inv_f_f)
    ultimately show ?thesis using False by (simp add: cdata_def)
  qed (use assms(1) in \<open>auto simp: ref_ok_def cdata_def\<close>)
  then show "length (cdata sha r) = ch_Size r" "length (cdata sha r) \<le> cs" "\<not> isHole r \<Longrightarrow> sha (cdata sha r) = ch_Hash r"
    by auto
qed

section \<open>One chunk of a write\<close>

lemma byte_at_copy:
  assumes "a + length src \<le> length dst"
  shows "byte_at (copy_at a src dst) m = (if a \<le> m \<and> m < a + length src then src ! (m - a) else byte_at dst m)"
  using assms by (auto simp: byte_at_def nth_copy_at)

lemma byte_at_zero_extend [simp]: "byte_at (zero_extend n d) m = byte_at d m"
  by (auto simp: zero_extend_def byte_at_def nth_append)

lemma length_zero_extend: "length (zero_extend n d) = max n (length d)"
  by (simp add: zero_extend_def)

lemma eff_put_buf:
  "eff sha refs (put_buf i b x) j = (if j = i then b_data b else eff sha refs x j)"
  by (auto simp: eff_def put_buf_def split: option.split)

text \<open>The buffer a chunk of the write starts from holds the chunk's bytes, unless all are overwritten.\<close>

lemma start_buf_right:
  assumes "start_buf sha st refs x i full N w = (q, N', w')"
    and "inj sha" "cache_ok sha (cache N)" "\<not> skipVerify N" "bufs_ok (chunkSize N) x"
    and "\<And>r. r \<in> set refs \<Longrightarrow> length (cdata sha r) \<le> chunkSize N"
  shows "same_ns N N' \<and> cache_ok sha (cache N') \<and>
    (\<forall>b. q = Inr b \<longrightarrow> length (b_data b) \<le> chunkSize N \<and> b_cap b = chunkSize N \<and>
       (\<not> full \<or> fmlookup (of_dirty x) i \<noteq> None \<longrightarrow> b_data b = eff sha refs x i))"
proof (cases "fmlookup (of_dirty x) i")
  case (Some b)
  then show ?thesis using assms by (auto simp: start_buf_def bufs_ok_def eff_def)
next
  case None
  show ?thesis
  proof (cases "full \<or> length refs \<le> i")
    case True
    then show ?thesis using assms(1,3) None by (auto simp: start_buf_def eff_def)
  next
    case False
    obtain d N1 w1 where d: "loadChunk sha st (refs ! i) N w = (d, N1, w1)" by (metis prod_cases3)
    have r: "same_ns N N1" "cache_ok sha (cache N1)" "\<And>b. d = Inr b \<Longrightarrow> b = cdata sha (refs ! i)"
      using loadChunk_right [OF d assms(2-4)] by auto
    have len: "length (cdata sha (refs ! i)) \<le> chunkSize N" using assms(6) False by simp
    show ?thesis
    proof (cases d)
      case (Inl e)
      then show ?thesis using assms(1) None False d r by (auto simp: start_buf_def)
    next
      case (Inr b)
      then show ?thesis using assms(1) None False d r len
        by (auto simp: start_buf_def eff_def Let_def split: option.splits if_splits)
    qed
  qed
qed

section \<open>The write loop\<close>

text \<open>\<open>overwritten\<close>: the bytes from \<open>lo\<close> up to \<open>hi\<close> replaced by those of \<open>data\<close>, which starts at \<open>off\<close>.\<close>

definition overwritten :: "nat \<Rightarrow> bytes \<Rightarrow> nat \<Rightarrow> nat \<Rightarrow> (nat \<Rightarrow> u8) \<Rightarrow> nat \<Rightarrow> u8" where
  "overwritten off data lo hi f pos = (if lo \<le> pos \<and> pos < hi then data ! (pos - off) else f pos)"

lemma overwritten_trans:
  "a \<le> b \<Longrightarrow> b \<le> c \<Longrightarrow>
   overwritten off data b c (overwritten off data a b f) = overwritten off data a c f"
  by (rule ext) (auto simp: overwritten_def)

lemma overwritten_nothing [simp]: "overwritten off data a a f = f"
  by (rule ext) (auto simp: overwritten_def)

lemma same_chunk:
  fixes cs p0 pos nw :: nat
  assumes "0 < cs" "p0 mod cs + nw \<le> cs"
  shows "p0 \<le> pos \<and> pos < p0 + nw \<longleftrightarrow>
    pos div cs = p0 div cs \<and> p0 mod cs \<le> pos mod cs \<and> pos mod cs < p0 mod cs + nw"
proof
  assume r: "p0 \<le> pos \<and> pos < p0 + nw"
  let ?b = "p0 div cs * cs"
  have p0: "p0 = ?b + p0 mod cs" by simp
  have "?b \<le> pos" "pos < ?b + cs" using r assms(2) p0 by linarith+
  then have d: "pos div cs = p0 div cs" using assms(1) by (intro div_nat_eqI) (auto simp: algebra_simps)
  then have "pos = ?b + pos mod cs" by (metis div_mult_mod_eq)
  with r p0 d show "pos div cs = p0 div cs \<and> p0 mod cs \<le> pos mod cs \<and> pos mod cs < p0 mod cs + nw" by linarith
next
  assume r: "pos div cs = p0 div cs \<and> p0 mod cs \<le> pos mod cs \<and> pos mod cs < p0 mod cs + nw"
  have "pos = p0 div cs * cs + pos mod cs" using r by (metis div_mult_mod_eq)
  moreover have "p0 = p0 div cs * cs + p0 mod cs" by simp
  ultimately show "p0 \<le> pos \<and> pos < p0 + nw" using r by linarith
qed

text \<open>One turn of the loop writes its part of one chunk.\<close>

lemma write_turn:
  assumes "0 < cs" "off + k < 2 ^ 64" "k < length data" "length (b_data b) \<le> cs" "b_cap b = cs"
  defines "p0 \<equiv> off + k" and "nw \<equiv> min (cs - (off + k) mod cs) (length data - k)"
  assumes full: "\<not> (p0 mod cs = 0 \<and> length data - k \<ge> cs) \<Longrightarrow> b_data b = eff sha refs x (p0 div cs)"
  defines "d \<equiv> copy_at (p0 mod cs) (slice k (k + nw) data) (zero_extend (p0 mod cs + nw) (b_data b))"
  defines "b1 \<equiv> \<lparr>b_data = d, b_cap = max (b_cap b) (length d)\<rparr>"
  shows "length d \<le> cs" "b_cap b1 = cs"
    "fbyte sha cs refs (put_buf (p0 div cs) b1 x) = overwritten off data (off + k) (off + k + nw) (fbyte sha cs refs x)"
    "0 < nw" "k + nw \<le> length data"
proof -
  have w: "p0 mod cs < cs" using assms(1) by simp
  have nw: "0 < nw" "k + nw \<le> length data" "p0 mod cs + nw \<le> cs"
    using assms(3) w unfolding nw_def p0_def by (auto simp: min_def)
  show "0 < nw" "k + nw \<le> length data" using nw by simp_all
  have src: "length (slice k (k + nw) data) = nw" using nw(2) by (simp add: slice_def)
  have ext: "p0 mod cs + nw \<le> length (zero_extend (p0 mod cs + nw) (b_data b))" by (simp add: length_zero_extend)
  show ld: "length d \<le> cs" using assms(4) nw(3) src unfolding d_def by (simp add: length_zero_extend)
  show "b_cap b1 = cs" using ld assms(5) by (simp add: b1_def)
  have byte: "byte_at d m = (if p0 mod cs \<le> m \<and> m < p0 mod cs + nw then data ! (k + (m - p0 mod cs)) else byte_at (b_data b) m)"
    for m
  proof -
    have "slice k (k + nw) data ! (m - p0 mod cs) = data ! (k + (m - p0 mod cs))"
      if m: "p0 mod cs \<le> m \<and> m < p0 mod cs + nw"
    proof -
      have "m - p0 mod cs < nw" using m by linarith
      then show ?thesis using nw(2) by (simp add: slice_def del: diff_add_assoc)
    qed
    then show ?thesis
      using byte_at_copy [of "p0 mod cs" "slice k (k + nw) data" "zero_extend (p0 mod cs + nw) (b_data b)" m] src ext
      unfolding d_def by simp
  qed
  show "fbyte sha cs refs (put_buf (p0 div cs) b1 x) = overwritten off data (off + k) (off + k + nw) (fbyte sha cs refs x)"
  proof
    fix pos
    note sc = same_chunk [OF assms(1) nw(3), of pos]
    show "fbyte sha cs refs (put_buf (p0 div cs) b1 x) pos =
        overwritten off data (off + k) (off + k + nw) (fbyte sha cs refs x) pos"
    proof (cases "pos div cs = p0 div cs")
      case False
      then show ?thesis using sc by (auto simp: fbyte_def eff_put_buf overwritten_def p0_def)
    next
      case True
      have m: "pos mod cs < cs" using assms(1) by simp
      have old: "byte_at (b_data b) (pos mod cs) = byte_at (eff sha refs x (p0 div cs)) (pos mod cs)"
        if "\<not> (p0 mod cs \<le> pos mod cs \<and> pos mod cs < p0 mod cs + nw)"
      proof -
        have "\<not> (p0 mod cs = 0 \<and> length data - k \<ge> cs)"
        proof
          assume a: "p0 mod cs = 0 \<and> length data - k \<ge> cs"
          then have "nw = cs" unfolding nw_def p0_def by simp
          with that a m show False by simp
        qed
        then show ?thesis using full by simp
      qed
      have idx: "k + (pos mod cs - p0 mod cs) = pos - off" if "p0 mod cs \<le> pos mod cs"
      proof -
        have "pos = p0 div cs * cs + pos mod cs" "p0 = p0 div cs * cs + p0 mod cs" using True by (metis div_mult_mod_eq)+
        then show ?thesis using that unfolding p0_def by linarith
      qed
      show ?thesis
        using True sc old idx byte [of "pos mod cs"]
        by (auto simp: fbyte_def eff_put_buf overwritten_def b1_def p0_def)
    qed
  qed
qed

definition apart :: "openFile \<Rightarrow> bool" where
  "apart x \<longleftrightarrow> (\<forall>i. fmlookup (of_dirty x) i \<noteq> None \<longrightarrow> fmlookup (of_pendingTrim x) i = None)"

text \<open>What a run of the loop keeps of the open file: its buffers' shape, its marks, and no new trim.\<close>

definition buf_step :: "nat \<Rightarrow> openFile \<Rightarrow> openFile \<Rightarrow> bool" where
  "buf_step cs x x' \<longleftrightarrow>
     bufs_ok cs x' \<and> of_bytes x' = of_bytes x \<and> of_unsettled x' = of_unsettled x \<and> (apart x \<longrightarrow> apart x') \<and>
     sum_caps (of_dirty x) \<le> sum_caps (of_dirty x') \<and>
     (\<forall>i t. fmlookup (of_pendingTrim x') i = Some t \<longrightarrow> fmlookup (of_pendingTrim x) i = Some t)"

lemma buf_step_refl: "bufs_ok cs x \<Longrightarrow> buf_step cs x x"
  by (simp add: buf_step_def)

lemma buf_step_trans: "buf_step cs x y \<Longrightarrow> buf_step cs y z \<Longrightarrow> buf_step cs x z"
  by (auto simp: buf_step_def)

lemma buf_step_put:
  assumes "bufs_ok cs x" "length (b_data b) \<le> cs" "b_cap b = cs"
  shows "buf_step cs x (put_buf i b x)"
proof -
  have "cap_at (of_dirty x) i \<le> int cs"
    using assms(1) by (auto simp: cap_at_def bufs_ok_def split: option.split)
  then show ?thesis
    using assms by (auto simp: buf_step_def put_buf_def bufs_ok_def apart_def sum_caps_upd split: if_splits)
qed

lemma write_loop_right:
  assumes "write_loop sha st refs off data k ch x N w = (r, ch', x', N', w')"
    and "0 < chunkSize N" "off + length data < 2 ^ 64" "k \<le> length data"
    and "inj sha" "cache_ok sha (cache N)" "\<not> skipVerify N" "bufs_ok (chunkSize N) x"
    and "\<And>r. r \<in> set refs \<Longrightarrow> length (cdata sha r) \<le> chunkSize N"
  shows "same_ns N N' \<and> cache_ok sha (cache N') \<and> buf_step (chunkSize N) x x' \<and>
    ch' = ch + (sum_caps (of_dirty x') - sum_caps (of_dirty x)) \<and>
    (case r of
       Inl e \<Rightarrow> k = 0 \<and> x' = x
     | Inr m \<Rightarrow> k \<le> m \<and> m \<le> length data \<and> (data \<noteq> [] \<longrightarrow> 0 < m) \<and>
         fbyte sha (chunkSize N) refs x' = overwritten off data (off + k) (off + m) (fbyte sha (chunkSize N) refs x))"
  using assms(1,2,4,6-9)
proof (induction "length data - k" arbitrary: k ch x N w rule: less_induct)
  case less
  note prems = less.prems
  let ?cs = "chunkSize N" and ?p = "off + k"
  show ?case
  proof (cases "length data \<le> k")
    case True
    then show ?thesis using prems by (subst (asm) write_loop.simps) (auto simp: buf_step_refl)
  next
    case False
    then have k: "k < length data" and p: "?p < 2 ^ 64" using assms(3) by simp_all
    let ?i = "?p div ?cs" and ?full = "?p mod ?cs = 0 \<and> ?cs \<le> length data - k"
    obtain q N1 w1 where q: "start_buf sha st refs x ?i ?full N w = (q, N1, w1)" by (metis prod_cases3)
    have sb: "same_ns N N1" "cache_ok sha (cache N1)"
        "\<And>b. q = Inr b \<Longrightarrow> length (b_data b) \<le> ?cs \<and> b_cap b = ?cs \<and>
           (\<not> ?full \<or> fmlookup (of_dirty x) ?i \<noteq> None \<longrightarrow> b_data b = eff sha refs x ?i)"
      using start_buf_right [OF q assms(5) prems(4-7)] by auto
    have N1: "chunkSize N1 = ?cs" "skipVerify N1 = skipVerify N" using same_ns_sel [OF sb(1)] by simp_all
    have eq: "write_loop sha st refs off data k ch x N w =
        (case start_buf sha st refs x ?i ?full N w of
           (Inl e, N1, w1) \<Rightarrow> ((if k > 0 then Inr k else Inl e), ch, x, N1, w1)
         | (Inr chunk, N1, w1) \<Rightarrow>
             (let nw = min (?cs - ?p mod ?cs) (length data - k);
                  d = copy_at (?p mod ?cs) (slice k (k + nw) data) (zero_extend (?p mod ?cs + nw) (b_data chunk));
                  b1 = \<lparr>b_data = d, b_cap = max (b_cap chunk) (length d)\<rparr>
              in write_loop sha st refs off data (k + nw)
                   (ch + (int (b_cap b1) - int (case fmlookup (of_dirty x) ?i of Some b \<Rightarrow> b_cap b | None \<Rightarrow> 0)))
                   (put_buf ?i b1 x) N1 w1))"
      using False prems(2) p by (subst write_loop.simps) (simp add: Let_def)
    show ?thesis
    proof (cases q)
      case (Inl e)
      then show ?thesis
        using prems(1,6) k sb buf_step_refl [of ?cs x] unfolding eq q by (auto split: if_splits)
    next
      case (Inr b)
      have b: "length (b_data b) \<le> ?cs" "b_cap b = ?cs" "\<not> ?full \<Longrightarrow> b_data b = eff sha refs x ?i"
        using sb(3) [OF Inr] by auto
      define nw where "nw = min (?cs - ?p mod ?cs) (length data - k)"
      define d where "d = copy_at (?p mod ?cs) (slice k (k + nw) data) (zero_extend (?p mod ?cs + nw) (b_data b))"
      define b1 where "b1 = \<lparr>b_data = d, b_cap = max (b_cap b) (length d)\<rparr>"
      note turn = write_turn [OF prems(2) p k b(1,2,3), folded nw_def, folded d_def, folded b1_def]
      let ?x1 = "put_buf ?i b1 x"
      let ?ch1 = "ch + (int (b_cap b1) - int (case fmlookup (of_dirty x) ?i of Some b \<Rightarrow> b_cap b | None \<Rightarrow> 0))"
      have run: "write_loop sha st refs off data (k + nw) ?ch1 ?x1 N1 w1 = (r, ch', x', N', w')"
      proof -
        have "b_cap b1 = max (b_cap b) (length d)" by (simp add: b1_def)
        then show ?thesis using prems(1) Inr unfolding eq q by (simp add: Let_def flip: nw_def d_def b1_def)
      qed
      have st: "buf_step ?cs x ?x1"
        using buf_step_put [OF prems(6), of b1 ?i] turn(1,2) by (simp add: b1_def)
      have bo: "bufs_ok (chunkSize N1) ?x1" using st N1 by (simp add: buf_step_def)
      have caps: "?ch1 = ch + (sum_caps (of_dirty ?x1) - sum_caps (of_dirty x))"
        by (simp add: put_buf_def sum_caps_upd cap_at_def split: option.split)
      have "length data - (k + nw) < length data - k" using turn(4) k by simp
      from less.hyps [OF this run, unfolded N1] have IH: "same_ns N1 N' \<and> cache_ok sha (cache N') \<and> buf_step ?cs ?x1 x' \<and>
          ch' = ?ch1 + (sum_caps (of_dirty x') - sum_caps (of_dirty ?x1)) \<and>
          (case r of
             Inl e \<Rightarrow> k + nw = 0 \<and> x' = ?x1
           | Inr m \<Rightarrow> k + nw \<le> m \<and> m \<le> length data \<and> (data \<noteq> [] \<longrightarrow> 0 < m) \<and>
               fbyte sha ?cs refs x' = overwritten off data (off + (k + nw)) (off + m) (fbyte sha ?cs refs ?x1))"
        using prems(2,5,7) turn(5) sb(2) bo N1 by simp
      have "fbyte sha ?cs refs x' = overwritten off data ?p (off + m) (fbyte sha ?cs refs x)" if "r = Inr m" for m
      proof -
        have "fbyte sha ?cs refs ?x1 = overwritten off data ?p (off + (k + nw)) (fbyte sha ?cs refs x)"
          using turn(3) by (simp add: add.assoc)
        then show ?thesis using IH that by (simp add: overwritten_trans)
      qed
      then show ?thesis
        using IH turn(4) same_ns_trans [OF sb(1)] buf_step_trans [OF st] caps by (auto split: sum.splits)
    qed
  qed
qed

section \<open>The invariant of a file's data\<close>

text \<open>The hash: no two byte strings have the same sum, and a sum is not the empty string, which marks a hole.\<close>

definition hash_ok :: "(bytes \<Rightarrow> string) \<Rightarrow> bool" where
  "hash_ok sha \<longleftrightarrow> inj sha \<and> (\<forall>d. sha d \<noteq> [])"

definition trims_ok :: "chunkRef list \<Rightarrow> openFile \<Rightarrow> bool" where
  "trims_ok chunks x \<longleftrightarrow> (\<forall>i t. fmlookup (of_pendingTrim x) i = Some t \<longrightarrow>
     i < length chunks \<and> tr_ref t = chunks ! i \<and> \<not> isHole (chunks ! i))"

text \<open>
  What a snapshot taken now would show of the file past its size: zeros, from the stored chunks alone. A
  truncate inside a chunk breaks this until the chunk is trimmed, and marks the file unsettled.
\<close>

definition tail_clean :: "(bytes \<Rightarrow> string) \<Rightarrow> nat \<Rightarrow> inode \<Rightarrow> bool" where
  "tail_clean sha cs n \<longleftrightarrow> (\<forall>pos. Size n \<le> pos \<longrightarrow> fbyte sha cs (Chunks n) new_openFile pos = 0)"

lemma fbyte_bare:
  "of_dirty x = fmempty \<Longrightarrow> of_pendingTrim x = fmempty \<Longrightarrow> fbyte sha cs refs x = fbyte sha cs refs new_openFile"
  by (simp add: fbyte_def eff_def new_openFile_def fun_eq_iff)

definition file_ok :: "(bytes \<Rightarrow> string) \<Rightarrow> nat \<Rightarrow> inode \<Rightarrow> openFile \<Rightarrow> bool" where
  "file_ok sha cs n x \<longleftrightarrow>
     list_all (ref_ok sha cs) (Chunks n) \<and> bufs_ok cs x \<and> apart x \<and> trims_ok (Chunks n) x \<and>
     of_bytes x = sum_caps (of_dirty x) \<and> Size n < 2 ^ 64 \<and>
     (\<forall>pos. Size n \<le> pos \<longrightarrow> fbyte sha cs (Chunks n) x pos = 0) \<and> (of_unsettled x \<or> tail_clean sha cs n)"

definition mount_ok :: "(bytes \<Rightarrow> string) \<Rightarrow> fs \<Rightarrow> bool" where
  "mount_ok sha N \<longleftrightarrow>
     0 < chunkSize N \<and> chunkSize N < 2 ^ 32 \<and> maxFileSize N < 2 ^ 64 \<and> cache_ok sha (cache N) \<and> \<not> skipVerify N \<and>
     fmdom (fopen N) |\<subseteq>| fmdom (inodes N) \<and>
     (\<forall>i n. fmlookup (inodes N) i = Some n \<longrightarrow> ID n = i \<and> file_ok sha (chunkSize N) n (open_of N i))"

lemma mount_okD:
  assumes "mount_ok sha N"
  shows "0 < chunkSize N" "chunkSize N < 2 ^ 32" "maxFileSize N < 2 ^ 64" "cache_ok sha (cache N)" "\<not> skipVerify N"
    "fmlookup (inodes N) i = Some n \<Longrightarrow> ID n = i"
    "fmlookup (inodes N) i = Some n \<Longrightarrow> file_ok sha (chunkSize N) n (open_of N i)"
    "fmdom (fopen N) |\<subseteq>| fmdom (inodes N)"
  using assms by (auto simp: mount_ok_def)

lemma file_okD:
  assumes "file_ok sha cs n x"
  shows "list_all (ref_ok sha cs) (Chunks n)" "bufs_ok cs x" "apart x" "trims_ok (Chunks n) x"
    "of_bytes x = sum_caps (of_dirty x)" "Size n < 2 ^ 64" "\<And>pos. Size n \<le> pos \<Longrightarrow> fbyte sha cs (Chunks n) x pos = 0"
    "of_unsettled x \<or> tail_clean sha cs n"
  using assms by (auto simp: file_ok_def)

lemma refs_fit:
  "list_all (ref_ok sha cs) chunks \<Longrightarrow> inj sha \<Longrightarrow> r \<in> set chunks \<Longrightarrow> length (cdata sha r) \<le> cs"
  using ref_ok_cdata(2) by (auto simp: list_all_iff)

text \<open>A change of one file: inode \<open>i\<close> becomes \<open>n'\<close> with the open file \<open>x'\<close>, and the others stay.\<close>

definition only_file :: "u64 \<Rightarrow> inode \<Rightarrow> openFile \<Rightarrow> fs \<Rightarrow> fs \<Rightarrow> bool" where
  "only_file i n' x' N N' \<longleftrightarrow>
     (\<forall>j. fmlookup (inodes N') j = (if j = i then Some n' else fmlookup (inodes N) j)) \<and>
     (\<forall>j. open_of N' j = (if j = i then x' else open_of N j)) \<and> fmdom (fopen N') |\<subseteq>| finsert i (fmdom (fopen N)) \<and>
     chunkSize N' = chunkSize N \<and> maxFileSize N' = maxFileSize N \<and> skipVerify N' = skipVerify N"

lemma only_file_ok:
  assumes "mount_ok sha N" "only_file i n' x' N N'" "cache_ok sha (cache N')" "ID n' = i"
    "file_ok sha (chunkSize N) n' x'"
  shows "mount_ok sha N'"
proof -
  have "fmdom (inodes N') = finsert i (fmdom (inodes N))"
    using assms(2) by (intro fset_eqI) (auto simp: fmlookup_dom_iff only_file_def)
  then have "fmdom (fopen N') |\<subseteq>| fmdom (inodes N')"
    using assms(1,2) by (auto simp: mount_ok_def only_file_def)
  then show ?thesis using assms by (auto simp: mount_ok_def only_file_def split: if_splits)
qed

lemma only_file_content:
  assumes "only_file i n' x' N N'"
  shows "content sha N' j = (if j = i then fbyte sha (chunkSize N) (Chunks n') x' else content sha N j)"
  using assms by (auto simp: only_file_def content_def fun_eq_iff split: option.split)

lemma open_of_cong: "fopen N' = fopen N \<Longrightarrow> open_of N' = open_of N"
  by (simp add: fun_eq_iff open_of_def)

lemma same_ns_open_of: "same_ns N N' \<Longrightarrow> open_of N' = open_of N"
  by (rule open_of_cong) (rule same_ns_sel)

lemma same_ns_mount_ok: "same_ns N N' \<Longrightarrow> cache_ok sha (cache N') \<Longrightarrow> mount_ok sha N \<Longrightarrow> mount_ok sha N'"
  by (simp add: mount_ok_def same_ns_sel same_ns_open_of)

lemma resolve_cong: "inodes N' = inodes N \<Longrightarrow> resolve N' h = resolve N h"
  unfolding resolve_def by (erule ssubst) (rule refl)

lemma same_ns_resolve: "same_ns N N' \<Longrightarrow> resolve N' h = resolve N h"
  by (rule resolve_cong) (rule same_ns_sel)

lemma getOpen_open:
  assumes "getOpen i N = (x, N1)"
  shows "x = open_of N i" "open_of N1 = open_of N" "i |\<in>| fmdom (fopen N1)" "inodes N1 = inodes N"
    "chunkSize N1 = chunkSize N" "maxFileSize N1 = maxFileSize N" "skipVerify N1 = skipVerify N" "cache N1 = cache N"
    "budget_used N1 = budget_used N" "fmdom (fopen N1) = finsert i (fmdom (fopen N))"
  using assms by (auto simp: getOpen_def open_of_def fun_eq_iff fmlookup_dom_iff split: option.splits if_splits)

lemma open_of_put_open: "i |\<in>| fmdom (fopen N) \<Longrightarrow> open_of (put_open i x N) j = (if j = i then x else open_of N j)"
  by (simp add: put_open_def open_of_def)

lemma put_open_sel [simp]:
  "inodes (put_open i x N) = inodes N" "chunkSize (put_open i x N) = chunkSize N"
  "maxFileSize (put_open i x N) = maxFileSize N" "skipVerify (put_open i x N) = skipVerify N"
  "cache (put_open i x N) = cache N" "fmdom (fopen (put_open i x N)) = fmdom (fopen N)" "budget_used (put_open i x N) = budget_used N"
  by (auto simp: put_open_def)

lemma fbyte_marks [simp]:
  "fbyte sha cs refs (x\<lparr>of_bytes := b\<rparr>) = fbyte sha cs refs x"
  "fbyte sha cs refs (x\<lparr>of_unsettled := u\<rparr>) = fbyte sha cs refs x"
  by (simp_all add: fbyte_def eff_def fun_eq_iff split: option.split)

section \<open>Writing\<close>

text \<open>
  A buffered write to a live inode: on an error nothing changed but the caches; on success the first
  \<open>m\<close> bytes of the data stand at the offset, the size covers them, and the charge follows the buffers.
\<close>

lemma bufferWrite_live:
  assumes "bufferWrite clk sha st h x off data N w = (r, x', N', w')"
    and "resolve N h = Inr (i, n)" "hash_ok sha" "0 < chunkSize N" "cache_ok sha (cache N)" "\<not> skipVerify N"
    and "file_ok sha (chunkSize N) n x" "off + length data < 2 ^ 64"
  shows "case r of
      Inl e \<Rightarrow> x' = x \<and> same_ns N N' \<and> cache_ok sha (cache N')
    | Inr m \<Rightarrow> \<exists>N2. m \<le> length data \<and> (data \<noteq> [] \<longrightarrow> 0 < m) \<and> same_ns N N2 \<and> cache_ok sha (cache N2) \<and>
        buf_step (chunkSize N) (x\<lparr>of_bytes := of_bytes x'\<rparr>) x' \<and> of_bytes x' = sum_caps (of_dirty x') \<and>
        fbyte sha (chunkSize N) (Chunks n) x' = overwritten off data off (off + m) (fbyte sha (chunkSize N) (Chunks n) x) \<and>
        N' = markDirty (upd_inode i (\<lambda>n. touchA (clk 0) (touchM (clk 0)
               (if off + m > Size n then n\<lparr>Size := off + m\<rparr> else n))) (N2\<lparr>budget_used := budget_used N + (of_bytes x' - of_bytes x)\<rparr>))"
proof -
  note f = file_okD [OF assms(7)]
  have sha: "inj sha" using assms(3) by (simp add: hash_ok_def)
  obtain r0 ch x1 N1 w1 where l: "write_loop sha st (Chunks n) off data 0 0 x N w = (r0, ch, x1, N1, w1)"
    by (metis prod_cases5)
  have L: "same_ns N N1" "cache_ok sha (cache N1)" "buf_step (chunkSize N) x x1"
      "ch = sum_caps (of_dirty x1) - sum_caps (of_dirty x)"
      "case r0 of Inl e \<Rightarrow> x1 = x
       | Inr m \<Rightarrow> m \<le> length data \<and> (data \<noteq> [] \<longrightarrow> 0 < m) \<and>
         fbyte sha (chunkSize N) (Chunks n) x1 = overwritten off data off (off + m) (fbyte sha (chunkSize N) (Chunks n) x)"
    using write_loop_right [OF l assms(4,8) _ sha assms(5,6) f(2) refs_fit [OF f(1) sha]] by (auto split: sum.splits)
  show ?thesis
  proof (cases r0)
    case (Inl e)
    then show ?thesis using assms(1,2) l L by (auto simp: bufferWrite_def)
  next
    case (Inr m)
    have m: "m \<le> length data" "wrap64 (off + m) = off + m" using L(5) Inr assms(8) by auto
    let ?x2 = "x1\<lparr>of_bytes := sum_caps (of_dirty x1)\<rparr>"
    let ?N2 = "N1\<lparr>budget_used := budget_used N + (sum_caps (of_dirty x1) - of_bytes x)\<rparr>"
    have b1: "of_bytes x1 = sum_caps (of_dirty x)" "0 \<le> ch" using L(3,4) f(5) by (simp_all add: buf_step_def)
    have chg: "(if ch > 0 then (x1\<lparr>of_bytes := of_bytes x1 + ch\<rparr>, budget_add ch N1) else (x1, N1)) = (?x2, ?N2)"
      using b1 f(5) L(4) same_ns_sel(9) [OF L(1)] by (auto simp: budget_add_def)
    have res: "resolve ?N2 h = Inr (i, n)" using same_ns_resolve [OF L(1), of h] assms(2) resolve_cong [of ?N2 N1] by simp
    have "(r, x', N', w') = (Inr m, ?x2, markDirty (upd_inode i (\<lambda>n. touchA (clk 0) (touchM (clk 0)
        (if off + m > Size n then n\<lparr>Size := off + m\<rparr> else n))) ?N2), w1)"
      using assms(1,2) l Inr m res unfolding bufferWrite_def by (simp add: chg Let_def)
    then have e: "r = Inr m" "x' = ?x2" "N' = markDirty (upd_inode i (\<lambda>n. touchA (clk 0) (touchM (clk 0)
        (if off + m > Size n then n\<lparr>Size := off + m\<rparr> else n))) ?N2)" by simp_all
    have "buf_step (chunkSize N) (x\<lparr>of_bytes := of_bytes ?x2\<rparr>) ?x2"
      using L(3) by (simp add: buf_step_def bufs_ok_def apart_def)
    then show ?thesis using L Inr e m by auto
  qed
qed

lemma file_ok_write:
  assumes "file_ok sha cs n x" "buf_step cs (x\<lparr>of_bytes := of_bytes x'\<rparr>) x'" "of_bytes x' = sum_caps (of_dirty x')"
    and "fbyte sha cs (Chunks n) x' = overwritten off data off hi (fbyte sha cs (Chunks n) x)" "hi < 2 ^ 64"
    and "Chunks n' = Chunks n" "Size n' = max (Size n) hi"
  shows "file_ok sha cs n' x'"
proof -
  have "apart x \<Longrightarrow> apart (x\<lparr>of_bytes := of_bytes x'\<rparr>)" by (simp add: apart_def)
  then show ?thesis using assms
    by (auto simp: file_ok_def buf_step_def trims_ok_def overwritten_def tail_clean_def)
qed

lemma write_admitted_right:
  assumes "write_admitted E fd h i off data Unstable N w = (r, N', w')"
    and "resolve N h = Inr (i, n)" "hash_ok (e_sha E)" "mount_ok (e_sha E) N" "off + length data < 2 ^ 64"
  shows "mount_ok (e_sha E) N' \<and>
    (case r of
       Inl e \<Rightarrow> inodes N' = inodes N \<and> content (e_sha E) N' = content (e_sha E) N
     | Inr (k, how) \<Rightarrow> how = Unstable \<and> (\<exists>m n'. k = wrap32 m \<and> m \<le> length data \<and> (data \<noteq> [] \<longrightarrow> 0 < m) \<and>
         fmlookup (inodes N') i = Some n' \<and> Gen n' = Gen n \<and> Size n' = max (Size n) (off + m) \<and>
         budget_used N' - budget_used N = of_bytes (open_of N' i) - of_bytes (open_of N i) \<and>
         content (e_sha E) N' i = overwritten off data off (off + m) (content (e_sha E) N i) \<and>
         (\<forall>j. j \<noteq> i \<longrightarrow> fmlookup (inodes N') j = fmlookup (inodes N) j \<and> content (e_sha E) N' j = content (e_sha E) N j)))"
proof -
  let ?sha = "e_sha E" and ?cs = "chunkSize N" and ?clk = "fd_clk fd 0"
  obtain x N1 where g: "getOpen i N = (x, N1)" by fastforce
  note G = getOpen_open [OF g] and M = mount_okD [OF assms(4)]
  have n: "fmlookup (inodes N) i = Some n" using assms(2) by auto
  have il: "i |\<in>| fmdom (inodes N)" using n by (simp add: fmlookup_dom_iff)
  have M1: "mount_ok ?sha N1" using assms(4) G il by (simp add: mount_ok_def)
  have c1: "content ?sha N1 = content ?sha N" by (simp add: content_def fun_eq_iff G split: option.split)
  have res: "resolve N1 h = Inr (i, n)" using resolve_cong [of N1 N h] G(4) assms(2) by simp
  obtain q x1 N2 w1 where b: "bufferWrite ?clk ?sha (mount_store E) h x off data N1 w = (q, x1, N2, w1)"
    by (metis prod_cases4)
  have fok: "file_ok ?sha (chunkSize N1) n x" using M(7) [OF n] G by simp
  note B = bufferWrite_live [OF b res assms(3) mount_okD(1) [OF M1] mount_okD(4) [OF M1] mount_okD(5) [OF M1] fok assms(5)]
  show ?thesis
  proof (cases q)
    case (Inl e)
    then have r: "r = Inl e" "N' = put_open i x N2" "same_ns N1 N2" "cache_ok ?sha (cache N2)"
      using assms(1) g b B by (auto simp: write_admitted_def)
    then have "i |\<in>| fmdom (fopen N2)" using G(3) same_ns_sel(2) [OF r(3)] by simp
    then have "open_of N' = open_of N" using r(2) same_ns_open_of [OF r(3)] G(1,2)
      by (auto simp: open_of_put_open fun_eq_iff)
    then show ?thesis using r G il assms(4) same_ns_sel [OF r(3)]
      by (auto simp: mount_ok_def content_def fun_eq_iff split: option.split)
  next
    case (Inr m)
    let ?n' = "touchA (?clk 0) (touchM (?clk 0) (if off + m > Size n then n\<lparr>Size := off + m\<rparr> else n))"
    from B [unfolded Inr sum.case G(5)] obtain N3 where
        m: "m \<le> length data" "data \<noteq> [] \<longrightarrow> 0 < m" and N3: "same_ns N1 N3" "cache_ok ?sha (cache N3)" and
        x1: "buf_step ?cs (x\<lparr>of_bytes := of_bytes x1\<rparr>) x1" "of_bytes x1 = sum_caps (of_dirty x1)" and
        fb: "fbyte ?sha ?cs (Chunks n) x1 = overwritten off data off (off + m) (fbyte ?sha ?cs (Chunks n) x)" and
        N2: "N2 = markDirty (upd_inode i (\<lambda>n. touchA (?clk 0) (touchM (?clk 0)
               (if off + m > Size n then n\<lparr>Size := off + m\<rparr> else n)))
               (N3\<lparr>budget_used := budget_used N1 + (of_bytes x1 - of_bytes x)\<rparr>))"
      by blast
    have r: "r = Inr (wrap32 m, Unstable)" "N' = put_open i x1 N2" using assms(1) g b Inr by (auto simp: write_admitted_def)
    have d: "i |\<in>| fmdom (fopen N2)" using G(3) same_ns_sel(2) [OF N3(1)] N2 by simp
    have of: "only_file i ?n' x1 N N'"
    proof -
      have "open_of N2 = open_of N" using open_of_cong [of N2 N1] N2 same_ns_sel(2) [OF N3(1)] G(2) by simp
      then show ?thesis unfolding only_file_def
        using n r(2) d N2 same_ns_sel [OF N3(1)] G by (simp add: fmlookup_upd_inode open_of_put_open)
    qed
    have fok': "file_ok ?sha ?cs ?n' x1"
      using file_ok_write [OF fok [unfolded G(5)] x1 fb] m assms(5) by simp
    have "cache_ok ?sha (cache N')" "ID ?n' = i" using r N2 N3 M(6) [OF n] by simp_all
    note ok = only_file_ok [OF assms(4) of this fok']
    have "content ?sha N i = fbyte ?sha ?cs (Chunks n) x" using n G(1) by (simp add: content_def fun_eq_iff)
    then show ?thesis
      using ok r m fb of only_file_content [OF of, of ?sha] N2 d G(1,2,9)
      by (auto simp: only_file_def)
  qed
qed

end
