(* ===== verification/TruncateSpec.thy ===== *)
theory TruncateSpec
  imports WriteSpec
begin

text \<open>
  What a change of size does to a file's contents: the bytes below the new size stay, the bytes above
  it read as zeros, in the buffers, in the chunk list and in the pending trims alike.
\<close>

section \<open>The open file\<close>

lemma sum_caps_split:
  "sum_caps m = sum_caps (fmfilter P m) + sum_caps (fmfilter (\<lambda>i. \<not> P i) m)"
proof -
  let ?f = "\<lambda>i. int (b_cap (the (fmlookup m i)))" and ?D = "fset (fmdom m)"
  have part: "sum_caps (fmfilter Q m) = sum ?f {i \<in> ?D. Q i}" for Q
    unfolding sum_caps_set by (rule sum.cong) (auto simp: fmdom_filter)
  have "sum ?f ?D = sum ?f ({i \<in> ?D. P i} \<union> {i \<in> ?D. \<not> P i})" by (rule arg_cong [where f = "sum ?f"]) blast
  also have "\<dots> = sum ?f {i \<in> ?D. P i} + sum ?f {i \<in> ?D. \<not> P i}" by (rule sum.union_disjoint) auto
  finally show ?thesis unfolding part by (simp add: sum_caps_set)
qed

lemma length_cut_chunks:
  "i < length (cut_chunks L t chunks) \<longleftrightarrow> i < length chunks \<and> \<not> cut_idx L t i"
  by (auto simp: cut_chunks_def cut_idx_def Let_def)

lemma nth_cut_chunks: "i < length (cut_chunks L t chunks) \<Longrightarrow> cut_chunks L t chunks ! i = chunks ! i"
  by (auto simp: cut_chunks_def Let_def split: if_splits)

lemma set_cut_chunks: "set (cut_chunks L t chunks) \<subseteq> set chunks"
  by (auto simp: cut_chunks_def Let_def dest: in_set_takeD)

lemma length_cut_chunks_last:
  "length (cut_chunks L t chunks) = L + 1 \<longleftrightarrow> L < length chunks \<and> t \<noteq> 0"
  by (auto simp: cut_chunks_def Let_def)

text \<open>The buffers after the cut: those past it are gone, the one at it is shortened.\<close>

lemma truncate_open_dirty:
  "fmlookup (of_dirty (truncate_open L t chunks x)) i =
     (if cut_idx L t i then None
      else map_option (\<lambda>b. if i = L \<and> t < length (b_data b) then b\<lparr>b_data := take t (b_data b)\<rparr> else b)
             (fmlookup (of_dirty x) i))"
  by (cases "fmlookup (of_dirty x) i")
    (auto simp: truncate_open_def Let_def cut_idx_def split: option.split cong del: fmfilter_cong)

lemma truncate_open_trim:
  "fmlookup (of_pendingTrim (truncate_open L t chunks x)) i =
     (if cut_idx L t i then None
      else if i = L \<and> fmlookup (of_dirty x) L = None \<and> length chunks = L + 1 \<and> \<not> isHole (chunks ! L) \<and>
          t < (case fmlookup (of_pendingTrim x) L of Some r \<Rightarrow> tr_to r | None \<Rightarrow> ch_Size (chunks ! L))
      then Some \<lparr>tr_to = wrap32 t, tr_ref = chunks ! L\<rparr>
      else fmlookup (of_pendingTrim x) i)"
  by (cases "fmlookup (of_dirty x) L"; cases "fmlookup (of_pendingTrim x) L")
    (auto simp: truncate_open_def Let_def cut_idx_def split: option.split cong del: fmfilter_cong)

lemma truncate_open_bytes:
  assumes "of_bytes x = sum_caps (of_dirty x)"
  shows "of_bytes (truncate_open L t chunks x) = sum_caps (of_dirty (truncate_open L t chunks x))"
proof -
  let ?d = "fmfilter (\<lambda>i. \<not> cut_idx L t i) (of_dirty x)"
  have "sum_caps (of_dirty (truncate_open L t chunks x)) = sum_caps ?d"
    by (auto simp: truncate_open_def Let_def sum_caps_upd cap_at_def split: option.split cong del: fmfilter_cong)
  then show ?thesis
    using assms sum_caps_split [of "of_dirty x" "cut_idx L t"]
    by (simp add: truncate_open_def Let_def cong del: fmfilter_cong)
qed

section \<open>The bytes\<close>

lemma truncate_eff:
  fixes L :: nat
  assumes "t < 2 ^ 32" "list_all (ref_ok sha cs) chunks" "inj sha" "trims_ok chunks x"
  defines "c \<equiv> cut_chunks L t chunks"
  shows "byte_at (eff sha c (truncate_open L t c x) i) m =
    (if i < L \<or> i = L \<and> m < t then byte_at (eff sha chunks x i) m else 0)"
proof (cases "cut_idx L t i")
  case True
  then have "eff sha c (truncate_open L t c x) i = []"
    by (auto simp: eff_def truncate_open_dirty c_def length_cut_chunks)
  then show ?thesis using True by (auto simp: cut_idx_def)
next
  case False
  have len: "i < length c \<longleftrightarrow> i < length chunks" using False by (simp add: c_def length_cut_chunks)
  have nth: "c ! i = chunks ! i" if "i < length chunks"
    using nth_cut_chunks [of i L t chunks] len that by (simp add: c_def)
  show ?thesis
  proof (cases "i = L")
    case i: False
    then have "i < L" using False by (auto simp: cut_idx_def)
    then show ?thesis
      using False i len nth by (auto simp: eff_def truncate_open_dirty truncate_open_trim split: option.split)
  next
    case True
    then have t: "t \<noteq> 0" using False by (auto simp: cut_idx_def)
    have lL: "length c = L + 1 \<longleftrightarrow> L < length chunks" using t length_cut_chunks_last [of L t chunks] by (simp add: c_def)
    show ?thesis
    proof (cases "fmlookup (of_dirty x) L")
      case (Some b)
      then show ?thesis using False True by (auto simp: eff_def truncate_open_dirty byte_at_take byte_at_def)
    next
      case None
      show ?thesis
      proof (cases "L < length chunks")
        case False
        then show ?thesis using True None len by (simp add: eff_def truncate_open_dirty)
      next
        case ll: True
        have r: "length (cdata sha (chunks ! L)) = ch_Size (chunks ! L)"
          using ref_ok_cdata(1) assms(2,3) ll by (auto simp: list_all_length)
        show ?thesis
        proof (cases "isHole (chunks ! L)")
          case hole: True
          then have "fmlookup (of_pendingTrim x) L = None" using assms(4) by (cases "fmlookup (of_pendingTrim x) L") (auto simp: trims_ok_def)
          then show ?thesis using True False None hole ll lL nth
            by (simp add: eff_def truncate_open_dirty truncate_open_trim cdata_def)
        next
          case solid: False
          show ?thesis using True False None solid ll lL nth r assms(1)
            by (auto simp: eff_def truncate_open_dirty truncate_open_trim byte_at_take byte_at_def split: option.split)
        qed
      qed
    qed
  qed
qed

lemma fill_holes_eff: "byte_at (eff sha (fill_holes cs k chunks) x i) m = byte_at (eff sha chunks x i) m"
proof -
  have "cdata sha (hole cs) = replicate cs 0" by (simp add: cdata_def hole_def isHole_def)
  then show ?thesis
    by (auto simp: eff_def fill_holes_def nth_append byte_at_take split: option.split)
qed

lemma ref_ok_hole: "ref_ok sha cs (hole cs)"
  by (simp add: ref_ok_def hole_def isHole_def)

lemma below_split:
  fixes cs sz pos :: nat
  assumes "0 < cs"
  shows "pos < sz \<longleftrightarrow> pos div cs < sz div cs \<or> pos div cs = sz div cs \<and> pos mod cs < sz mod cs"
proof -
  have p: "pos = pos div cs * cs + pos mod cs" and s: "sz = sz div cs * cs + sz mod cs" by simp_all
  have m: "pos mod cs < cs" "sz mod cs < cs" using assms by simp_all
  have lt: "a * cs + r < b * cs + q" if "a < b" "r < cs" for a b r q
  proof -
    have "a * cs + cs \<le> b * cs" using that(1) by (metis Suc_leI add.commute mult_Suc mult_le_mono1)
    then show ?thesis using that(2) by linarith
  qed
  show ?thesis
  proof (cases "pos div cs" "sz div cs" rule: linorder_cases)
    case less then show ?thesis using lt [OF less m(1), of "sz mod cs"] p s by linarith
  next
    case equal then show ?thesis using p s by (metis add_less_cancel_left less_irrefl)
  next
    case greater then show ?thesis using lt [OF greater m(2), of "pos mod cs"] p s by linarith
  qed
qed

lemma truncate_fbyte:
  fixes sz :: nat
  assumes "0 < cs" "cs < 2 ^ 32" "list_all (ref_ok sha cs) chunks" "inj sha" "trims_ok chunks x"
  defines "c \<equiv> cut_chunks (sz div cs) (sz mod cs) chunks"
  defines "x' \<equiv> truncate_open (sz div cs) (sz mod cs) c x"
  shows "fbyte sha cs c x' pos = (if pos < sz then fbyte sha cs chunks x pos else 0)"
    "fbyte sha cs (fill_holes cs k c) x' pos = (if pos < sz then fbyte sha cs chunks x pos else 0)"
proof -
  have "sz mod cs < 2 ^ 32" using assms(1,2) mod_less_divisor [of cs sz] by linarith
  note e = truncate_eff [OF this assms(3-5), of "sz div cs" "pos div cs" "pos mod cs", folded c_def, folded x'_def]
  show "fbyte sha cs c x' pos = (if pos < sz then fbyte sha cs chunks x pos else 0)"
    unfolding fbyte_def e below_split [OF assms(1), of pos sz] by blast
  then show "fbyte sha cs (fill_holes cs k c) x' pos = (if pos < sz then fbyte sha cs chunks x pos else 0)"
    by (simp add: fbyte_def fill_holes_eff)
qed

text \<open>A cut that leaves the file settled leaves nothing stored past the new size.\<close>

lemma truncate_tail:
  fixes sz :: nat
  assumes "0 < cs" "list_all (ref_ok sha cs) chunks" "inj sha" "Size n' = sz"
  defines "c \<equiv> cut_chunks (sz div cs) (sz mod cs) chunks"
  assumes "Chunks n' = c \<or> Chunks n' = fill_holes cs k c" "\<not> of_unsettled (truncate_open (sz div cs) (sz mod cs) c x)"
  shows "tail_clean sha cs n'"
proof -
  let ?L = "sz div cs" and ?t = "sz mod cs"
  have u: "?t = 0 \<or> length c \<noteq> ?L + 1 \<or> isHole (c ! ?L) \<or> ch_Size (c ! ?L) \<le> ?t"
    using assms(7) by (auto simp: truncate_open_def Let_def split: if_splits)
  have z: "byte_at (eff sha c new_openFile (pos div cs)) (pos mod cs) = 0" if pos: "sz \<le> pos" for pos
  proof (cases "pos div cs < length c")
    case True
    have e: "eff sha c new_openFile (pos div cs) = cdata sha (c ! (pos div cs))"
      using True by (simp add: eff_def new_openFile_def)
    have "?L \<le> pos div cs" using pos by (rule div_le_mono)
    then have L: "pos div cs = ?L" "?t \<noteq> 0" "length c = ?L + 1"
      using True length_cut_chunks [of "pos div cs" ?L ?t chunks] length_cut_chunks_last [of ?L ?t chunks]
      by (auto simp: c_def cut_idx_def split: if_splits)
    have t: "?t \<le> pos mod cs" using pos L(1) by (metis add_le_cancel_left mult_div_mod_eq)
    have "c ! ?L \<in> set chunks" using set_cut_chunks [of ?L ?t chunks] nth_mem [of ?L c] L(3) unfolding c_def by auto
    then have "ref_ok sha cs (c ! ?L)" using assms(2) by (simp add: list_all_iff)
    from ref_ok_cdata(1) [OF this assms(3)] have l: "length (cdata sha (c ! ?L)) = ch_Size (c ! ?L)" .
    from u L consider "isHole (c ! ?L)" | "ch_Size (c ! ?L) \<le> ?t" by blast
    then show ?thesis
    proof cases
      case 1
      then show ?thesis unfolding e unfolding L(1) by (simp add: cdata_def byte_at_def)
    next
      case 2
      then show ?thesis using t l unfolding e unfolding L(1) by (simp add: byte_at_def)
    qed
  qed (simp add: eff_def new_openFile_def byte_at_def)
  show ?thesis
    using assms(4,6) z by (auto simp: tail_clean_def fbyte_def fill_holes_eff)
qed

lemma truncate_open_ok:
  assumes "file_ok sha cs n x" "0 < cs" "cs < 2 ^ 32" "inj sha" "sz < 2 ^ 64"
  defines "c \<equiv> cut_chunks (sz div cs) (sz mod cs) (Chunks n)"
  defines "x' \<equiv> truncate_open (sz div cs) (sz mod cs) c x"
  assumes "Chunks n' = c \<or> Chunks n' = fill_holes cs k c" "Size n' = sz"
  shows "file_ok sha cs n' x'"
proof -
  note f = file_okD [OF assms(1)]
  let ?L = "sz div cs" and ?t = "sz mod cs"
  have refs: "list_all (ref_ok sha cs) (Chunks n')"
  proof -
    have "list_all (ref_ok sha cs) c"
      using f(1) set_cut_chunks [of ?L ?t "Chunks n"] unfolding list_all_iff c_def by blast
    then show ?thesis using assms(8) by (auto simp: list_all_iff fill_holes_def ref_ok_hole)
  qed
  have bufs: "bufs_ok cs x'"
    using f(2) mod_le_divisor [OF assms(2), of sz]
    by (auto simp: bufs_ok_def x'_def truncate_open_dirty split: if_splits option.splits)
  have ap: "apart x'" using f(3)
    by (auto simp: apart_def x'_def truncate_open_dirty truncate_open_trim)
  have tc: "i < length c \<and> tr_ref r = c ! i \<and> \<not> isHole (c ! i)" if "fmlookup (of_pendingTrim x') i = Some r" for i r
    using that f(4) nth_cut_chunks [of i ?L ?t "Chunks n"] length_cut_chunks_last [of ?L ?t "Chunks n"]
    by (auto simp: trims_ok_def x'_def truncate_open_trim c_def length_cut_chunks split: if_splits)
  have nth: "Chunks n' ! i = c ! i \<and> i < length (Chunks n')" if "i < length c" for i
    using that assms(8) by (auto simp: fill_holes_def nth_append)
  have tr: "trims_ok (Chunks n') x'" using tc nth by (auto simp: trims_ok_def)
  have "fbyte sha cs (Chunks n') x' pos = 0" if "sz \<le> pos" for pos
    using assms(8) that truncate_fbyte(1) [OF assms(2,3) f(1) assms(4) f(4), of sz pos, folded c_def, folded x'_def]
      truncate_fbyte(2) [OF assms(2,3) f(1) assms(4) f(4), where sz = sz and k = k and pos = pos, folded c_def, folded x'_def]
    by auto
  moreover have "of_unsettled x' \<or> tail_clean sha cs n'"
    using truncate_tail [OF assms(2) f(1) assms(4,9) assms(8) [unfolded c_def]] by (auto simp: x'_def c_def)
  ultimately show ?thesis
    using refs bufs ap tr truncate_open_bytes [OF f(5)] assms(5,9) by (auto simp: file_ok_def x'_def)
qed

section \<open>SETATTR\<close>

lemma applySetAttr_keeps:
  "ID (fst (applySetAttr n sa t)) = ID n" "Gen (fst (applySetAttr n sa t)) = Gen n"
  "Chunks (fst (applySetAttr n sa t)) = Chunks n" "Size (fst (applySetAttr n sa t)) = Size n"
  "Type (fst (applySetAttr n sa t)) = Type n" "Entries (fst (applySetAttr n sa t)) = Entries n"
  "Parent (fst (applySetAttr n sa t)) = Parent n"
  by (simp_all add: applySetAttr_def apply_opt_def split: option.split)

lemma sum_caps_nonneg: "0 \<le> sum_caps m"
  by (simp add: sum_caps_set sum_nonneg)

lemma truncate_open_budget:
  "of_bytes (truncate_open L t c x) = of_bytes x - sum_caps (fmfilter (cut_idx L t) (of_dirty x))"
  by (simp add: truncate_open_def Let_def)

lemma truncate_right:
  assumes "Datapath.truncate clk c h sa N = (r, N')" "s_Size sa = Some sz" "hash_ok sha" "mount_ok sha N"
  shows "mount_ok sha N' \<and>
    (case r of
       Inl e \<Rightarrow> inodes N' = inodes N \<and> content sha N' = content sha N
     | Inr a \<Rightarrow> \<exists>i n n'. resolve N h = Inr (i, n) \<and> fmlookup (inodes N') i = Some n' \<and> Gen n' = Gen n \<and>
         Size n' = sz \<and> sz \<le> maxFileSize N \<and> a = inode_attr n' (fsid N) \<and>
         budget_used N' - budget_used N = of_bytes (open_of N' i) - of_bytes (open_of N i) \<and>
         (\<forall>pos. content sha N' i pos = (if pos < sz then content sha N i pos else 0)) \<and>
         (\<forall>j. j \<noteq> i \<longrightarrow> fmlookup (inodes N') j = fmlookup (inodes N) j \<and> content sha N' j = content sha N j))"
proof (cases "maxFileSize N < sz \<or> (\<exists>e. resolve N h = Inl e)")
  case True
  then show ?thesis using assms by (auto simp: Datapath.truncate_def split: if_splits)
next
  case False
  then obtain i n where sz: "sz \<le> maxFileSize N" and res: "resolve N h = Inr (i, n)"
    by (metis not_less sum.exhaust surj_pair)
  note M = mount_okD [OF assms(4)]
  have n: "fmlookup (inodes N) i = Some n" using res by auto
  have id: "ID n = i" using M(6) [OF n] .
  have sha: "inj sha" using assms(3) by (simp add: hash_ok_def)
  obtain x N1 where g: "getOpen i N = (x, N1)" by fastforce
  note G = getOpen_open [OF g]
  have N1: "fsid N1 = fsid N" "perm N1 = perm N"
    using g by (auto simp: getOpen_def split: option.splits)
  have req: "setAttrRequests N1 c n sa = setAttrRequests N c n sa" by (simp add: setAttrRequests_def N1)
  have res1: "resolve N1 h = Inr (i, n)" using resolve_cong [of N1 N h] G(4) res by simp
  show ?thesis
  proof (cases "setAttrRequests N c n sa")
    case (Some e)
    then show ?thesis using assms sz res by (auto simp: Datapath.truncate_def)
  next
    case None
    let ?cs = "chunkSize N1" and ?L = "sz div chunkSize N1" and ?t = "sz mod chunkSize N1"
    define c0 where "c0 = cut_chunks ?L ?t (Chunks n)"
    define c2 where "c2 = (if Size n < sz then fill_holes ?cs ?L c0 else c0)"
    define x' where "x' = truncate_open ?L ?t c0 x"
    define n' where "n' = fst (applySetAttr (touchM (clk 0) (n\<lparr>Chunks := c2, Size := sz\<rparr>)) sa (clk 0))"
    define F where "F = sum_caps (fmfilter (cut_idx ?L ?t) (of_dirty x))"
    define N2 where "N2 = (if F > 0 then budget_release F N1 else N1)"
    note cs = M(1,2) [folded G(5)]
    have run: "(r, N') = (Inr (inode_attr n' (fsid N)), markDirty (upd_inode i (\<lambda>_. n') (put_open i x' N2)))"
      using assms(1,2) sz res g id None res1 req cs(1) N1
      unfolding n'_def c2_def c0_def x'_def N2_def F_def
      by (simp add: Datapath.truncate_def Let_def split del: if_split)
    have N2: "fopen N2 = fopen N1" "inodes N2 = inodes N1" "chunkSize N2 = chunkSize N" "maxFileSize N2 = maxFileSize N"
        "skipVerify N2 = skipVerify N" "cache N2 = cache N" "budget_used N2 = budget_used N - F"
      using G sum_caps_nonneg [of "fmfilter (cut_idx ?L ?t) (of_dirty x)"]
      by (auto simp: N2_def F_def budget_release_def)
    have d: "i |\<in>| fmdom (fopen N2)" using G(3) N2(1) by simp
    have oN': "open_of N' j = open_of (put_open i x' N2) j" for j
      using run open_of_cong [of N' "put_open i x' N2"] by simp
    have o2: "open_of N2 = open_of N" using open_of_cong [OF N2(1)] G(2) by simp
    have of: "only_file i n' x' N N'"
      unfolding only_file_def oN' open_of_put_open [OF d] o2
      using run N2 n G by (simp add: fmlookup_upd_inode)
    have fx: "file_ok sha ?cs n x" using M(7) [OF n] G(1,5) by simp
    have c2: "Chunks n' = c0 \<or> Chunks n' = fill_holes ?cs ?L c0" "Size n' = sz" "ID n' = i" "Gen n' = Gen n"
      using id by (simp_all add: n'_def c2_def applySetAttr_keeps)
    have fok: "file_ok sha ?cs n' x'"
      using truncate_open_ok [OF fx cs sha, of sz n' ?L] c2 sz M(3) by (simp add: c0_def x'_def)
    have "cache_ok sha (cache N')" using run N2(6) M(4) by simp
    note ok = only_file_ok [OF assms(4) of this c2(3) fok [unfolded G(5)]]
    have "fbyte sha ?cs (Chunks n') x' pos = (if pos < sz then fbyte sha ?cs (Chunks n) x pos else 0)" for pos
      using c2(1) truncate_fbyte(1) [OF cs file_okD(1) [OF fx] sha file_okD(4) [OF fx], of sz pos]
        truncate_fbyte(2) [OF cs file_okD(1) [OF fx] sha file_okD(4) [OF fx], where sz = sz and k = ?L and pos = pos]
      by (auto simp: c0_def x'_def)
    then have cont: "content sha N' i pos = (if pos < sz then content sha N i pos else 0)" for pos
      using only_file_content [OF of, of sha i] n G(1,5) by (simp add: content_def)
    have bud: "budget_used N' - budget_used N = of_bytes (open_of N' i) - of_bytes (open_of N i)"
    proof -
      have "of_bytes (open_of N' i) = of_bytes x - F"
        using of truncate_open_budget unfolding only_file_def x'_def F_def by simp
      moreover have "budget_used N' = budget_used N2" using run by simp
      ultimately show ?thesis using N2(7) unfolding G(1) by simp
    qed
    show ?thesis
      using run ok res cont bud of c2 sz only_file_content [OF of, of sha] by (auto simp: only_file_def)
  qed
qed

end
