(* ===== verification/FlushSpec.thy ===== *)
theory FlushSpec
  imports TruncateSpec
begin

text \<open>
  Flushing moves a file's bytes from its buffers to chunks and leaves its contents as they were, when
  it succeeds and when the store fails it: a failed flush keeps every buffer.
\<close>

lemma sorted_dom: "j \<in> set (sorted_list_of_fset (fmdom m)) \<longleftrightarrow> (\<exists>y. fmlookup m j = Some y)"
  by (auto simp: sorted_list_of_fset.rep_eq fmlookup_dom_iff)

section \<open>Uploading\<close>

lemma putChunk_right:
  assumes "putChunk sha st d N w = (r, N', w')" "cache_ok sha (cache N)"
  shows "same_ns N N' \<and> cache_ok sha (cache N') \<and>
    (\<forall>ref. r = Inr ref \<longrightarrow> ref = \<lparr>ch_Hash = sha d, ch_Size = wrap32 (length d)\<rparr>)"
  using assms putChunk_same_ns [OF assms(1)] cache_put_ok [OF assms(2), of d "sha d"]
  by (auto simp: putChunk_def Let_def split: if_splits prod.splits sum.splits option.splits)

text \<open>The reference an upload gives: it names the data, whole.\<close>

definition names_data :: "(bytes \<Rightarrow> string) \<Rightarrow> nat \<Rightarrow> chunkRef \<Rightarrow> bytes \<Rightarrow> bool" where
  "names_data sha cs ref d \<longleftrightarrow> ref_ok sha cs ref \<and> \<not> isHole ref \<and> cdata sha ref = d"

lemma names_upload:
  assumes "hash_ok sha" "length d \<le> cs" "cs < 2 ^ 32"
  shows "names_data sha cs \<lparr>ch_Hash = sha d, ch_Size = wrap32 (length d)\<rparr> d"
proof -
  have "inj sha" "sha d \<noteq> []" using assms(1) by (simp_all add: hash_ok_def)
  moreover have "wrap32 (length d) = length d" using assms(2,3) by simp
  ultimately show ?thesis using assms(2) by (auto simp: names_data_def ref_ok_def isHole_def cdata_def)
qed

lemma applyTrim_right:
  assumes "applyTrim sha st t N w = (r, N', w')" "hash_ok sha" "cache_ok sha (cache N)" "\<not> skipVerify N"
    and "length (cdata sha (tr_ref t)) \<le> chunkSize N" "chunkSize N < 2 ^ 32"
  shows "same_ns N N' \<and> cache_ok sha (cache N') \<and>
    (\<forall>ref. r = Inr ref \<longrightarrow> names_data sha (chunkSize N) ref (take (tr_to t) (cdata sha (tr_ref t))))"
proof -
  obtain d N1 w1 where d: "loadChunk sha st (tr_ref t) N w = (d, N1, w1)" by (metis prod_cases3)
  have inj: "inj sha" using assms(2) by (simp add: hash_ok_def)
  have l: "same_ns N N1" "cache_ok sha (cache N1)" "\<And>b. d = Inr b \<Longrightarrow> b = cdata sha (tr_ref t)"
    using loadChunk_right [OF d inj assms(3,4)] by auto
  show ?thesis
  proof (cases d)
    case (Inl e)
    then show ?thesis using assms(1) d l by (auto simp: applyTrim_def)
  next
    case (Inr b)
    have p: "putChunk sha st (take (tr_to t) (cdata sha (tr_ref t))) N1 w1 = (r, N', w')"
      using assms(1) d Inr l(3) [OF Inr] by (simp add: applyTrim_def Let_def if_distrib [of "\<lambda>k. take k _"] cong: if_cong split: if_splits)
    have "length (take (tr_to t) (cdata sha (tr_ref t))) \<le> chunkSize N" using assms(5) by simp
    then show ?thesis
      using putChunk_right [OF p l(2)] l(1) names_upload [OF assms(2) _ assms(6)] by (blast intro: same_ns_trans)
  qed
qed

text \<open>The results of a run of uploads: one reference for each index, naming what the file has there.\<close>

definition uploads :: "(bytes \<Rightarrow> string) \<Rightarrow> nat \<Rightarrow> (nat \<Rightarrow> bytes) \<Rightarrow> nat list \<Rightarrow> (nat \<times> chunkRef) list \<Rightarrow> bool" where
  "uploads sha cs f is rs \<longleftrightarrow> map fst rs = is \<and> (\<forall>(i, ref) \<in> set rs. names_data sha cs ref (f i))"

lemma uploads_Nil [simp]: "uploads sha cs f [] rs \<longleftrightarrow> rs = []"
  by (auto simp: uploads_def)

lemma uploads_Cons [simp]:
  "uploads sha cs f (i # is) ((i, ref) # rs) \<longleftrightarrow> names_data sha cs ref (f i) \<and> uploads sha cs f is rs"
  by (auto simp: uploads_def)

lemma apply_trims_right:
  assumes "apply_trims sha st m is N w = (r, N', w')" "hash_ok sha" "cache_ok sha (cache N)" "\<not> skipVerify N"
    and "\<And>i. i \<in> set is \<Longrightarrow> length (cdata sha (tr_ref (the (fmlookup m i)))) \<le> chunkSize N" "chunkSize N < 2 ^ 32"
  shows "same_ns N N' \<and> cache_ok sha (cache N') \<and> (\<forall>rs. r = Inr rs \<longrightarrow>
    uploads sha (chunkSize N) (\<lambda>i. let t = the (fmlookup m i) in take (tr_to t) (cdata sha (tr_ref t))) is rs)"
  using assms
proof (induction "is" arbitrary: r N w N' w')
  case (Cons i "is")
  obtain q N1 w1 where q: "applyTrim sha st (the (fmlookup m i)) N w = (q, N1, w1)" by (metis prod_cases3)
  have A: "same_ns N N1" "cache_ok sha (cache N1)" "\<And>ref. q = Inr ref \<Longrightarrow> names_data sha (chunkSize N) ref
      (take (tr_to (the (fmlookup m i))) (cdata sha (tr_ref (the (fmlookup m i)))))"
    using applyTrim_right [OF q Cons.prems(2-4) _ Cons.prems(6)] Cons.prems(5) [of i] by auto
  note S = same_ns_sel [OF A(1)]
  show ?case
  proof (cases q)
    case (Inl e)
    then show ?thesis using Cons.prems(1) q A by auto
  next
    case (Inr ref)
    obtain q2 N2 w2 where q2: "apply_trims sha st m is N1 w1 = (q2, N2, w2)" by (metis prod_cases3)
    have IH: "same_ns N1 N2 \<and> cache_ok sha (cache N2) \<and> (\<forall>rs. q2 = Inr rs \<longrightarrow>
        uploads sha (chunkSize N) (\<lambda>i. let t = the (fmlookup m i) in take (tr_to t) (cdata sha (tr_ref t))) is rs)"
      using Cons.IH [OF q2 Cons.prems(2) A(2)] Cons.prems(4-6) unfolding S by simp
    then show ?thesis
      using Cons.prems(1) q Inr q2 A same_ns_trans [OF A(1)] by (cases q2) (auto simp: Let_def)
  qed
qed auto

lemma put_chunks_right:
  assumes "put_chunks sha st m is N w = (r, N', w')" "hash_ok sha" "cache_ok sha (cache N)"
    and "\<And>i. i \<in> set is \<Longrightarrow> length (b_data (the (fmlookup m i))) \<le> chunkSize N" "chunkSize N < 2 ^ 32"
  shows "same_ns N N' \<and> cache_ok sha (cache N') \<and>
    (\<forall>rs. r = Inr rs \<longrightarrow> uploads sha (chunkSize N) (\<lambda>i. b_data (the (fmlookup m i))) is rs)"
  using assms
proof (induction "is" arbitrary: r N w N' w')
  case (Cons i "is")
  let ?d = "b_data (the (fmlookup m i))"
  obtain q N1 w1 where q: "putChunk sha st ?d N w = (q, N1, w1)" by (metis prod_cases3)
  have A: "same_ns N N1" "cache_ok sha (cache N1)" "\<And>ref. q = Inr ref \<Longrightarrow> names_data sha (chunkSize N) ref ?d"
    using putChunk_right [OF q Cons.prems(3)] names_upload [OF Cons.prems(2) _ Cons.prems(5)] Cons.prems(4) [of i] by auto
  note S = same_ns_sel [OF A(1)]
  show ?case
  proof (cases q)
    case (Inl e)
    then show ?thesis using Cons.prems(1) q A by auto
  next
    case (Inr ref)
    obtain q2 N2 w2 where q2: "put_chunks sha st m is N1 w1 = (q2, N2, w2)" by (metis prod_cases3)
    have IH: "same_ns N1 N2 \<and> cache_ok sha (cache N2) \<and>
        (\<forall>rs. q2 = Inr rs \<longrightarrow> uploads sha (chunkSize N) (\<lambda>i. b_data (the (fmlookup m i))) is rs)"
      using Cons.IH [OF q2 Cons.prems(2) A(2)] Cons.prems(4,5) unfolding S by simp
    then show ?thesis
      using Cons.prems(1) q Inr q2 A same_ns_trans [OF A(1)] by (cases q2) auto
  qed
qed auto

section \<open>The chunk list after a flush\<close>

definition stored :: "(bytes \<Rightarrow> string) \<Rightarrow> chunkRef list \<Rightarrow> nat \<Rightarrow> bytes" where
  "stored sha chunks i = (if i < length chunks then cdata sha (chunks ! i) else [])"

lemma set_uploaded_Cons:
  "set_uploaded cs ((i, ref) # rs) chunks = set_uploaded cs rs ((fill_holes cs (Suc i) chunks)[i := ref])"
  by (simp add: set_uploaded_def)

lemma stored_upload:
  "byte_at (stored sha ((fill_holes cs (Suc i) chunks)[i := ref]) j) m =
     (if j = i then byte_at (cdata sha ref) m else byte_at (stored sha chunks j) m)"
proof -
  have "cdata sha (hole cs) = replicate cs 0" by (simp add: cdata_def hole_def isHole_def)
  then show ?thesis by (auto simp: stored_def fill_holes_def nth_append nth_list_update)
qed

lemma set_uploaded_stored:
  assumes "distinct (map fst rs)"
  shows "byte_at (stored sha (set_uploaded cs rs chunks) j) m =
    (case map_of rs j of Some ref \<Rightarrow> byte_at (cdata sha ref) m | None \<Rightarrow> byte_at (stored sha chunks j) m)"
  using assms
proof (induction rs arbitrary: chunks)
  case (Cons p rs)
  obtain i ref where p: "p = (i, ref)" by (cases p)
  with Cons have "map_of rs i = None" by (simp add: map_of_eq_None_iff)
  then show ?case using Cons unfolding p set_uploaded_Cons by (auto simp: stored_upload split: option.split)
qed (simp add: set_uploaded_def)

lemma set_trimmed_Cons:
  "set_trimmed ((i, ref) # rs) chunks = set_trimmed rs (if i < length chunks then chunks[i := ref] else chunks)"
  by (simp add: set_trimmed_def)

lemma set_trimmed_stored:
  assumes "distinct (map fst rs)" "\<And>i. i \<in> fst ` set rs \<Longrightarrow> i < length chunks"
  shows "stored sha (set_trimmed rs chunks) j =
    (case map_of rs j of Some ref \<Rightarrow> cdata sha ref | None \<Rightarrow> stored sha chunks j)"
  using assms
proof (induction rs arbitrary: chunks)
  case (Cons p rs)
  obtain i ref where p: "p = (i, ref)" by (cases p)
  with Cons.prems have i: "map_of rs i = None" "i < length chunks" by (simp_all add: map_of_eq_None_iff)
  have "stored sha (chunks[i := ref]) j = (if j = i then cdata sha ref else stored sha chunks j)"
    using i(2) by (auto simp: stored_def)
  then show ?case
    using Cons.IH [of "chunks[i := ref]"] Cons.prems i unfolding p set_trimmed_Cons by (auto split: option.split)
qed (simp add: set_trimmed_def)

lemma set_uploaded_set: "set (set_uploaded cs rs chunks) \<subseteq> set chunks \<union> snd ` set rs \<union> {hole cs}"
proof (induction rs arbitrary: chunks)
  case (Cons p rs)
  obtain i ref where p: "p = (i, ref)" by (cases p)
  have "set ((fill_holes cs (Suc i) chunks)[i := ref]) \<subseteq> insert ref (set chunks \<union> {hole cs})"
    using set_update_subset_insert [of "fill_holes cs (Suc i) chunks" i ref] by (auto simp: fill_holes_def)
  then show ?case using Cons [of "(fill_holes cs (Suc i) chunks)[i := ref]"] unfolding p set_uploaded_Cons by auto
qed (auto simp: set_uploaded_def)

lemma set_trimmed_set: "set (set_trimmed rs chunks) \<subseteq> set chunks \<union> snd ` set rs"
proof (induction rs arbitrary: chunks)
  case (Cons p rs)
  obtain i ref where p: "p = (i, ref)" by (cases p)
  show ?case
    using Cons [of "if i < length chunks then chunks[i := ref] else chunks"] set_update_subset_insert [of chunks i ref]
    unfolding p set_trimmed_Cons by (auto split: if_splits)
qed (simp add: set_trimmed_def)

lemma uploads_keys: "uploads sha cs f is rs \<Longrightarrow> fst ` set rs = set is"
  unfolding uploads_def by (metis set_map)

lemma uploads_map_of:
  assumes "uploads sha cs f is rs" "map_of rs j = Some ref"
  shows "j \<in> set is" "cdata sha ref = f j"
proof -
  note m = map_of_SomeD [OF assms(2)]
  show "j \<in> set is" using m uploads_keys [OF assms(1)] by (metis fst_conv image_eqI)
  show "cdata sha ref = f j" using m assms(1) by (auto simp: uploads_def names_data_def)
qed

lemma uploads_None: "uploads sha cs f is rs \<Longrightarrow> map_of rs j = None \<longleftrightarrow> j \<notin> set is"
  using uploads_keys by (simp add: map_of_eq_None_iff)

lemma uploads_refs: "uploads sha cs f is rs \<Longrightarrow> ref \<in> snd ` set rs \<Longrightarrow> ref_ok sha cs ref"
  by (auto simp: uploads_def names_data_def)

definition flushed :: "openFile \<Rightarrow> openFile" where
  "flushed x = x\<lparr>of_unsettled := False, of_dirty := fmempty, of_pendingTrim := fmempty, of_bytes := 0\<rparr>"

text \<open>The two passes together: the chunk list holds what the buffers and the trims made of the file.\<close>

lemma flush_bytes:
  assumes "file_ok sha cs n x"
    and "uploads sha cs (\<lambda>i. let t = the (fmlookup (of_pendingTrim x) i) in take (tr_to t) (cdata sha (tr_ref t)))
           (sorted_list_of_fset (fmdom (of_pendingTrim x))) rs1"
    and "uploads sha cs (\<lambda>i. b_data (the (fmlookup (of_dirty x) i))) (sorted_list_of_fset (fmdom (of_dirty x))) rs2"
  defines "c \<equiv> set_uploaded cs rs2 (set_trimmed rs1 (Chunks n))"
  shows "fbyte sha cs c (flushed x) = fbyte sha cs (Chunks n) x" "list_all (ref_ok sha cs) c"
proof -
  note f = file_okD [OF assms(1)]
  have d1: "distinct (map fst rs1)" "distinct (map fst rs2)"
    using assms(2,3) by (simp_all add: uploads_def sorted_list_of_fset.rep_eq)
  have k1: "i < length (Chunks n)" if "i \<in> fst ` set rs1" for i
  proof -
    have "i \<in> set (sorted_list_of_fset (fmdom (of_pendingTrim x)))" using uploads_keys [OF assms(2)] that by simp
    then show ?thesis using f(4) unfolding sorted_dom by (auto simp: trims_ok_def)
  qed
  have trim: "stored sha (set_trimmed rs1 (Chunks n)) j =
      (case map_of rs1 j of Some ref \<Rightarrow> cdata sha ref | None \<Rightarrow> stored sha (Chunks n) j)" for j
    using d1(1) k1 by (rule set_trimmed_stored)
  have byte: "byte_at (stored sha c j) m = byte_at (eff sha (Chunks n) x j) m" for j m
  proof (cases "fmlookup (of_dirty x) j")
    case (Some b)
    then have "map_of rs2 j \<noteq> None" using uploads_None [OF assms(3), of j] unfolding sorted_dom by simp
    then obtain ref where "map_of rs2 j = Some ref" by blast
    then show ?thesis using uploads_map_of(2) [OF assms(3)] Some
      unfolding c_def set_uploaded_stored [OF d1(2)] by (simp add: eff_def)
  next
    case None
    then have n2: "map_of rs2 j = None" using uploads_None [OF assms(3), of j] unfolding sorted_dom by simp
    show ?thesis
    proof (cases "fmlookup (of_pendingTrim x) j")
      case (Some t)
      then have "map_of rs1 j \<noteq> None" using uploads_None [OF assms(2), of j] unfolding sorted_dom by simp
      then obtain ref where "map_of rs1 j = Some ref" by blast
      moreover have "tr_ref t = Chunks n ! j" "j < length (Chunks n)" using f(4) Some by (auto simp: trims_ok_def)
      ultimately show ?thesis using uploads_map_of(2) [OF assms(2)] None n2 Some
        unfolding c_def set_uploaded_stored [OF d1(2)] trim by (simp add: eff_def)
    next
      case t: None
      then have "map_of rs1 j = None" using uploads_None [OF assms(2), of j] unfolding sorted_dom by simp
      then show ?thesis using None n2 t
        unfolding c_def set_uploaded_stored [OF d1(2)] trim by (simp add: eff_def stored_def)
    qed
  qed
  have "eff sha c (flushed x) j = stored sha c j" for j by (simp add: eff_def stored_def flushed_def)
  then show "fbyte sha cs c (flushed x) = fbyte sha cs (Chunks n) x" by (simp add: fbyte_def fun_eq_iff byte)
  show "list_all (ref_ok sha cs) c"
    unfolding list_all_iff
  proof
    fix ref assume "ref \<in> set c"
    then have "ref \<in> set (Chunks n) \<or> ref \<in> snd ` set rs1 \<or> ref \<in> snd ` set rs2 \<or> ref = hole cs"
      using set_uploaded_set [of cs rs2 "set_trimmed rs1 (Chunks n)"] set_trimmed_set [of rs1 "Chunks n"]
      unfolding c_def by blast
    then show "ref_ok sha cs ref"
      using f(1) uploads_refs [OF assms(2)] uploads_refs [OF assms(3)] ref_ok_hole unfolding list_all_iff by blast
  qed
qed

section \<open>Flushing a file\<close>

lemma flushOpen_live:
  assumes "flushOpen sha st i x N w = (r, x', N', w')"
    and "fmlookup (inodes N) i = Some n" "hash_ok sha" "mount_ok sha N" "file_ok sha (chunkSize N) n x"
  shows "cache_ok sha (cache N') \<and>
    (case r of
       Some e \<Rightarrow> x' = x \<and> same_ns N N'
     | None \<Rightarrow> x' = flushed x \<and> (\<exists>n' N2. file_ok sha (chunkSize N) n' x' \<and> same_ns N N2 \<and>
         fbyte sha (chunkSize N) (Chunks n') x' = fbyte sha (chunkSize N) (Chunks n) x \<and>
         n' = n\<lparr>Chunks := Chunks n'\<rparr> \<and> inodes N' = fmupd i n' (inodes N) \<and> fopen N' = fopen N \<and>
         budget_used N' = budget_used N - of_bytes x \<and> chunkSize N' = chunkSize N \<and> maxFileSize N' = maxFileSize N \<and>
         skipVerify N' = skipVerify N))"
proof (cases "fmdom (of_dirty x) = {||} \<and> fmdom (of_pendingTrim x) = {||}")
  case True
  note f = file_okD [OF assms(5)]
  have e: "of_dirty x = fmempty" "of_pendingTrim x = fmempty"
    using True by (metis fmrestrict_fset_dom fmrestrict_fset_null)+
  then have x: "x\<lparr>of_unsettled := False\<rparr> = flushed x" using f(5) by (simp add: flushed_def)
  have "file_ok sha (chunkSize N) n (flushed x)"
    using f fbyte_bare [OF e] unfolding x [symmetric]
    by (simp add: file_ok_def bufs_ok_def apart_def trims_ok_def tail_clean_def)
  moreover have "fmupd i n (inodes N) = inodes N" using assms(2) by (intro fmap_ext) auto
  moreover have "fbyte sha (chunkSize N) (Chunks n) (flushed x) = fbyte sha (chunkSize N) (Chunks n) x"
    unfolding x [symmetric] by simp
  moreover have "of_bytes x = 0" using f(5) e by simp
  ultimately show ?thesis using assms(1) True x mount_okD(4) [OF assms(4)]
    by (auto simp: flushOpen_def intro!: exI [of _ n] exI [of _ N])
next
  case False
  note f = file_okD [OF assms(5)] and M = mount_okD [OF assms(4)]
  have inj: "inj sha" using assms(3) by (simp add: hash_ok_def)
  let ?ts = "sorted_list_of_fset (fmdom (of_pendingTrim x))" and ?ds = "sorted_list_of_fset (fmdom (of_dirty x))"
  obtain q1 N1 w1 where q1: "apply_trims sha st (of_pendingTrim x) ?ts N w = (q1, N1, w1)" by (metis prod_cases3)
  have t_fit: "length (cdata sha (tr_ref (the (fmlookup (of_pendingTrim x) j)))) \<le> chunkSize N" if "j \<in> set ?ts" for j
    using that f(1,4) refs_fit [OF f(1) inj] unfolding sorted_dom by (auto simp: trims_ok_def)
  note T = apply_trims_right [OF q1 assms(3) M(4,5) t_fit M(2)]
  have s1: "same_ns N N1" "cache_ok sha (cache N1)" using T by auto
  note S1 = same_ns_sel [OF s1(1)]
  obtain q2 N2 w2 where q2: "put_chunks sha st (of_dirty x) ?ds N1 w1 = (q2, N2, w2)" by (metis prod_cases3)
  have d_fit: "length (b_data (the (fmlookup (of_dirty x) j))) \<le> chunkSize N1" if "j \<in> set ?ds" for j
    using that f(2) unfolding sorted_dom S1 by (auto simp: bufs_ok_def)
  note P = put_chunks_right [OF q2 assms(3) s1(2) d_fit, unfolded S1, OF _ M(2)]
  have s2: "same_ns N N2" "cache_ok sha (cache N2)" using P same_ns_trans [OF s1(1)] by auto
  have live: "i |\<in>| fmdom (inodes N1)" "i |\<in>| fmdom (inodes N2)"
    using assms(2) S1 same_ns_sel(1) [OF s2(1)] by (simp_all add: fmlookup_dom_iff)
  show ?thesis
  proof (cases q1)
    case (Inl e)
    then show ?thesis using assms(1) False q1 s1 live by (auto simp: flushOpen_def dropIfGone_def)
  next
    case q1': (Inr rs1)
    show ?thesis
    proof (cases q2)
      case (Inl e)
      then show ?thesis using assms(1) False q1 q1' q2 s2 live by (auto simp: flushOpen_def dropIfGone_def)
    next
      case (Inr rs2)
      define c where "c = set_uploaded (chunkSize N) rs2 (set_trimmed rs1 (Chunks n))"
      have "fbyte sha (chunkSize N) c (flushed x) = fbyte sha (chunkSize N) (Chunks n) x" "list_all (ref_ok sha (chunkSize N)) c"
        using flush_bytes [OF assms(5), of rs1 rs2] T P q1' Inr unfolding c_def by auto
      then have fok: "file_ok sha (chunkSize N) (n\<lparr>Chunks := c\<rparr>) (flushed x)"
        using f fbyte_bare [of "flushed x"] by (simp add: file_ok_def bufs_ok_def apart_def trims_ok_def flushed_def tail_clean_def)
      have "(r, x', N') = (None, flushed x, budget_release (of_bytes x) (markDirty (upd_inode i
          (\<lambda>n. n\<lparr>Chunks := set_uploaded (chunkSize N2) rs2 (set_trimmed rs1 (Chunks n))\<rparr>) N2)))"
        using assms(1) False q1 q1' q2 Inr live by (auto simp: flushOpen_def flushed_def)
      moreover have "inodes (upd_inode i (\<lambda>n. n\<lparr>Chunks := set_uploaded (chunkSize N2) rs2 (set_trimmed rs1 (Chunks n))\<rparr>) N2) =
          fmupd i (n\<lparr>Chunks := c\<rparr>) (inodes N)"
        using assms(2) same_ns_sel [OF s2(1)] by (simp add: upd_inode_def c_def)
      ultimately show ?thesis
        using fok s2 same_ns_sel [OF s2(1)] \<open>fbyte sha (chunkSize N) c (flushed x) = _\<close>
        by (auto intro!: exI [of _ "n\<lparr>Chunks := c\<rparr>"] simp: budget_release_def)
    qed
  qed
qed

definition clean :: "openFile \<Rightarrow> bool" where
  "clean x \<longleftrightarrow> of_dirty x = fmempty \<and> of_pendingTrim x = fmempty \<and> \<not> of_unsettled x \<and> of_bytes x = 0"

lemma clean_flushed [simp]: "clean (flushed x)"
  by (simp add: clean_def flushed_def)

text \<open>
  What a run of flushes keeps: the invariant, the contents, every attribute but the chunk list, and the
  open files' buffers unless they have been flushed.
\<close>

definition same_files :: "(bytes \<Rightarrow> string) \<Rightarrow> fs \<Rightarrow> fs \<Rightarrow> bool" where
  "same_files sha N N' \<longleftrightarrow>
     mount_ok sha N' \<and> content sha N' = content sha N \<and> fmdom (fopen N') = fmdom (fopen N) \<and>
     (\<forall>j. map_option (\<lambda>n. n\<lparr>Chunks := []\<rparr>) (fmlookup (inodes N') j) =
          map_option (\<lambda>n. n\<lparr>Chunks := []\<rparr>) (fmlookup (inodes N) j)) \<and>
     (\<forall>j. open_of N' j = open_of N j \<or> clean (open_of N' j))"

lemma same_files_refl: "mount_ok sha N \<Longrightarrow> same_files sha N N"
  by (simp add: same_files_def)

lemma same_files_trans: "same_files sha N N1 \<Longrightarrow> same_files sha N1 N2 \<Longrightarrow> same_files sha N N2"
  unfolding same_files_def by metis

lemma commitFile_right:
  assumes "commitFile sha st i N w = (r, N', w')" "hash_ok sha" "mount_ok sha N"
  shows "same_files sha N N' \<and> (r = None \<and> i |\<in>| fmdom (fopen N) \<longrightarrow> clean (open_of N' i))"
proof (cases "fmlookup (fopen N) i")
  case None
  then show ?thesis using assms same_files_refl by (auto simp: commitFile_def fmlookup_dom_iff)
next
  case (Some x)
  note M = mount_okD [OF assms(3)]
  have "i |\<in>| fmdom (fopen N)" using Some by (simp add: fmlookup_dom_iff)
  then have "i |\<in>| fmdom (inodes N)" using M(8) by blast
  then obtain n where n: "fmlookup (inodes N) i = Some n" by (auto simp: fmlookup_dom_iff)
  have x: "open_of N i = x" using Some by (simp add: open_of_def)
  then have fx: "file_ok sha (chunkSize N) n x" using M(7) [OF n] by simp
  obtain r1 x1 N1 w1 where f: "flushOpen sha st i x N w = (r1, x1, N1, w1)" by (metis prod_cases4)
  have r: "r = r1" "N' = put_open i x1 N1" using assms(1) Some f by (auto simp: commitFile_def)
  note F = flushOpen_live [OF f n assms(2,3) fx]
  show ?thesis
  proof (cases r1)
    case (Some e)
    then have s: "x1 = x" "same_ns N N1" "cache_ok sha (cache N1)" using F by auto
    have "fmupd i x (fopen N1) = fopen N1"
      using \<open>fmlookup (fopen N) i = Some x\<close> same_ns_sel(2) [OF s(2)] by (intro fmap_ext) auto
    then have "N' = N1" using r s by (simp add: put_open_def)
    then show ?thesis
      using same_ns_mount_ok [OF s(2,3) assms(3)] same_ns_content [OF s(2)] same_ns_sel [OF s(2)]
        same_ns_open_of [OF s(2)] r Some
      by (auto simp: same_files_def)
  next
    case None
    then obtain n' where n': "x1 = flushed x" "file_ok sha (chunkSize N) n' x1" "cache_ok sha (cache N1)"
        "fbyte sha (chunkSize N) (Chunks n') x1 = fbyte sha (chunkSize N) (Chunks n) x" "n' = n\<lparr>Chunks := Chunks n'\<rparr>"
        "inodes N1 = fmupd i n' (inodes N)" "fopen N1 = fopen N" "chunkSize N1 = chunkSize N"
        "maxFileSize N1 = maxFileSize N" "skipVerify N1 = skipVerify N"
      using F by auto
    have d: "i |\<in>| fmdom (fopen N1)" using n'(7) \<open>i |\<in>| fmdom (fopen N)\<close> by simp
    have of: "only_file i n' x1 N N'"
      using n' r d open_of_cong [OF n'(7)] by (auto simp: only_file_def open_of_put_open)
    have id: "ID n' = i" using n'(5) M(6) [OF n] by (metis inode.select_convs(1) inode.surjective inode.update_convs(14))
    have "cache_ok sha (cache N')" using n'(3) r by simp
    then have "mount_ok sha N'" using only_file_ok [OF assms(3) of _ id n'(2)] by simp
    moreover have "content sha N i = fbyte sha (chunkSize N) (Chunks n) x" using n x by (simp add: content_def fun_eq_iff)
    then have "content sha N' = content sha N"
      using only_file_content [OF of, of sha] n'(4) by (intro ext) (metis (no_types, lifting))
    moreover have "n'\<lparr>Chunks := []\<rparr> = n\<lparr>Chunks := []\<rparr>" using n'(5) by (metis inode.surjective inode.update_convs(14))
    ultimately show ?thesis
      using of n n'(1,7) r d by (auto simp: same_files_def only_file_def)
  qed
qed

lemma flush_list_right:
  assumes "flush_list sha st is N w = (r, N', w')" "hash_ok sha" "mount_ok sha N"
  shows "same_files sha N N' \<and> (r = None \<longrightarrow> (\<forall>i \<in> set is. i |\<in>| fmdom (fopen N) \<longrightarrow> clean (open_of N' i)))"
  using assms
proof (induction "is" arbitrary: N w)
  case Nil
  then show ?case by (auto simp: same_files_refl)
next
  case (Cons i "is")
  obtain r1 N1 w1 where c: "commitFile sha st i N w = (r1, N1, w1)" by (metis prod_cases3)
  note C = commitFile_right [OF c Cons.prems(2,3)]
  show ?case
  proof (cases r1)
    case (Some e)
    then show ?thesis using Cons.prems(1) c C by auto
  next
    case None
    then have l: "flush_list sha st is N1 w1 = (r, N', w')" using Cons.prems(1) c by simp
    have "mount_ok sha N1" "fmdom (fopen N1) = fmdom (fopen N)" using C by (auto simp: same_files_def)
    note IH = Cons.IH [OF l Cons.prems(2) this(1)]
    have "clean (open_of N' i)" if "i |\<in>| fmdom (fopen N)"
      using C None IH that unfolding same_files_def by metis
    then show ?thesis
      using IH C same_files_trans \<open>fmdom (fopen N1) = fmdom (fopen N)\<close> by (metis set_ConsD)
  qed
qed

section \<open>The budget's account\<close>

text \<open>The charge is what the open files hold.\<close>

definition budget_ok :: "fs \<Rightarrow> bool" where
  "budget_ok N \<longleftrightarrow> budget_used N = (\<Sum>i \<in> fset (fmdom (fopen N)). of_bytes (open_of N i))"

lemma budget_ok_upd:
  assumes "budget_ok N" "fmlookup (fopen N) i = Some x" "fopen N' = fmupd i x' (fopen N)"
    and "budget_used N' = budget_used N - of_bytes x + of_bytes x'"
  shows "budget_ok N'"
proof -
  let ?D = "fset (fmdom (fopen N))"
  have i: "i \<in> ?D" using assms(2) by (simp add: fmlookup_dom_iff)
  have o: "open_of N' j = (if j = i then x' else open_of N j)" for j using assms(3) by (simp add: open_of_def)
  have D: "fset (fmdom (fopen N')) = ?D" using i assms(3) by auto
  have "(\<Sum>j \<in> ?D. of_bytes (open_of N' j)) = of_bytes x' + (\<Sum>j \<in> ?D - {i}. of_bytes (open_of N j))"
    using i by (subst sum.remove [of _ i]) (auto simp: o intro: sum.cong)
  moreover have "(\<Sum>j \<in> ?D. of_bytes (open_of N j)) = of_bytes x + (\<Sum>j \<in> ?D - {i}. of_bytes (open_of N j))"
    using i assms(2) by (subst sum.remove [of _ i]) (auto simp: open_of_def)
  ultimately show ?thesis using assms(1,4) unfolding budget_ok_def D by simp
qed

lemma commitFile_budget:
  assumes "commitFile sha st i N w = (r, N', w')" "hash_ok sha" "mount_ok sha N" "budget_ok N"
  shows "budget_ok N'"
proof (cases "fmlookup (fopen N) i")
  case None
  then show ?thesis using assms by (auto simp: commitFile_def)
next
  case (Some x)
  note M = mount_okD [OF assms(3)]
  have il: "i |\<in>| fmdom (fopen N)" using Some by (rule fmdomI)
  then have "i |\<in>| fmdom (inodes N)" using M(8) by blast
  then obtain n where n: "fmlookup (inodes N) i = Some n" by (auto simp: fmlookup_dom_iff)
  have fx: "file_ok sha (chunkSize N) n x" using M(7) [OF n] Some by (simp add: open_of_def)
  obtain r1 x1 N1 w1 where f: "flushOpen sha st i x N w = (r1, x1, N1, w1)" by (metis prod_cases4)
  have N': "N' = put_open i x1 N1" using assms(1) Some f by (auto simp: commitFile_def)
  note F = flushOpen_live [OF f n assms(2,3) fx]
  have b: "budget_used N1 = budget_used N - of_bytes x + of_bytes x1" "fopen N1 = fopen N"
    using F by (cases r1; auto simp: flushed_def dest: same_ns_sel(2,9))+
  have "fopen N' = fmupd i x1 (fopen N)" using N' b(2) il by (simp add: put_open_def)
  then show ?thesis using budget_ok_upd [OF assms(4) Some] b(1) N' by simp
qed

lemma flush_list_budget:
  assumes "flush_list sha st is N w = (r, N', w')" "hash_ok sha" "mount_ok sha N" "budget_ok N"
  shows "budget_ok N'"
  using assms
proof (induction "is" arbitrary: N w)
  case (Cons i "is")
  obtain r1 N1 w1 where c: "commitFile sha st i N w = (r1, N1, w1)" by (metis prod_cases3)
  have "mount_ok sha N1" "budget_ok N1"
    using commitFile_right [OF c Cons.prems(2,3)] commitFile_budget [OF c Cons.prems(2-4)] by (auto simp: same_files_def)
  then show ?case using Cons c by (cases r1) auto
qed simp

end
