(* ===== verification/Nfs3.thy ===== *)
theory Nfs3
  imports Wire
begin

text \<open>
  The NFSv3 program of \<open>internal/nfs/nfs3.go\<close> over any filesystem. A handler reads its arguments, calls
  the filesystem and answers the body of the reply, or that the arguments were garbage; \<open>clk\<close> gives the
  readings of the clock a \<open>sattr3\<close> may ask for. Only WRITE can wait for ever, in the budget. A call of the
  filesystem that panics, the value \<open>EPanic\<close>, ends the handler there: \<open>dispatch\<close> recovers it and answers
  SYSTEM_ERR, as for a handler that returned an error, so it is the result \<open>CallError\<close>. GETATTR, which the
  handlers also call for the attributes of a reply, has no panic to answer.
\<close>

definition maxReadSize :: nat where "maxReadSize = 2 ^ 20"
definition maxWriteSize :: nat where "maxWriteSize = 2 ^ 20"
definition dirPrefSize :: nat where "dirPrefSize = 64 * 2 ^ 10"

record 's nfs_server =
  nf_fs :: "'s vfs_ops"
  nf_verf :: bytes

definition callerFrom :: "cred \<Rightarrow> caller" where
  "callerFrom c = \<lparr>c_UID = cr_UID c, c_GID = cr_GID c, c_GIDs = cr_GIDs c\<rparr>"

definition attrOf :: "'s nfs_server \<Rightarrow> handle \<Rightarrow> 's \<Rightarrow> attr option \<times> 's" where
  "attrOf S h a = (case v_GetAttr (nf_fs S) h a of (Inl _, a1) \<Rightarrow> (None, a1) | (Inr x, a1) \<Rightarrow> (Some x, a1))"

text \<open>The status word of an error, and of success.\<close>

definition put_err :: "err \<Rightarrow> writer" where
  "put_err e = W_Uint32 (statusOf (Some e)) NewWriter"

definition unless_panic :: "err \<Rightarrow> 's \<Rightarrow> call_result \<times> 's \<Rightarrow> call_result \<times> 's" where
  "unless_panic e a answer = (if e = EPanic then (CallError, a) else answer)"

definition put_ok :: writer where
  "put_ok = W_Uint32 0 NewWriter"

definition nfs_getattr :: "'s nfs_server \<Rightarrow> reader \<Rightarrow> 's \<Rightarrow> call_result \<times> 's" where
  "nfs_getattr S r a =
     (case getHandle r of
        (None, _) \<Rightarrow> (CallGarbage, a)
      | (Some h, _) \<Rightarrow>
          (case v_GetAttr (nf_fs S) h a of
             (Inl e, a1) \<Rightarrow> unless_panic e a1 (CallOk (put_err e), a1)
           | (Inr x, a1) \<Rightarrow> (CallOk (putFattr x put_ok), a1)))"

text \<open>The two ends of a reply that carries a \<open>wcc_data\<close>: the attributes of \<open>h\<close> are asked for again.\<close>

definition with_wcc :: "'s nfs_server \<Rightarrow> wccAttr \<Rightarrow> handle \<Rightarrow> writer \<Rightarrow> 's \<Rightarrow> call_result \<times> 's" where
  "with_wcc S before h w a = (case attrOf S h a of (after, a1) \<Rightarrow> (CallOk (putWccData before after w), a1))"

definition set_after :: "'s nfs_server \<Rightarrow> caller \<Rightarrow> handle \<Rightarrow> set_attr \<Rightarrow> 's \<Rightarrow> call_result \<times> 's" where
  "set_after S c h sa a =
     (case attrOf S h a of (b, a1) \<Rightarrow>
      case v_SetAttr (nf_fs S) c h sa a1 of
        (Inl e, a2) \<Rightarrow> unless_panic e a2 (with_wcc S (wccFrom b) h (put_err e) a2)
      | (Inr x, a2) \<Rightarrow> (CallOk (putWccData (wccFrom b) (Some x) put_ok), a2))"

definition nfs_setattr :: "'s nfs_server \<Rightarrow> (nat \<Rightarrow> gotime) \<Rightarrow> caller \<Rightarrow> reader \<Rightarrow> 's \<Rightarrow> call_result \<times> 's" where
  "nfs_setattr S clk c r a =
     (case getHandle r of
        (None, _) \<Rightarrow> (CallGarbage, a)
      | (Some h, r1) \<Rightarrow>
          (case getSattr clk r1 of
             (None, _) \<Rightarrow> (CallGarbage, a)
           | (Some sa, r2) \<Rightarrow>
               (case R_Bool r2 of (chk, r3) \<Rightarrow>
                  if chk
                  then (case getTime r3 of (guardCtime, r4) \<Rightarrow>
                        case v_GetAttr (nf_fs S) h a of
                          (Inr cur, a1) \<Rightarrow>
                            if a_CTime cur \<noteq> guardCtime
                            then (CallOk (putWccData (wccFrom (Some cur)) (Some cur)
                                    (W_Uint32 (status_code ErrNotSync) NewWriter)), a1)
                            else if err r4 \<noteq> None then (CallGarbage, a1) else set_after S c h sa a1
                        | (Inl _, a1) \<Rightarrow> if err r4 \<noteq> None then (CallGarbage, a1) else set_after S c h sa a1)
                  else if err r3 \<noteq> None then (CallGarbage, a) else set_after S c h sa a)))"

definition nfs_lookup :: "'s nfs_server \<Rightarrow> caller \<Rightarrow> reader \<Rightarrow> 's \<Rightarrow> call_result \<times> 's" where
  "nfs_lookup S c r a =
     (case getDirOpArgs r of
        (None, _) \<Rightarrow> (CallGarbage, a)
      | (Some (dir, name), _) \<Rightarrow>
          (case v_Lookup (nf_fs S) c dir name a of
             (Inl e, a1) \<Rightarrow> unless_panic e a1 (case attrOf S dir a1 of (d, a2) \<Rightarrow> (CallOk (putPostOpAttr d (put_err e)), a2))
           | (Inr (h, x), a1) \<Rightarrow>
               (case attrOf S dir a1 of (d, a2) \<Rightarrow>
                  (CallOk (putPostOpAttr d (putPostOpAttr (Some x) (putHandle h put_ok))), a2))))"

definition nfs_access :: "'s nfs_server \<Rightarrow> caller \<Rightarrow> reader \<Rightarrow> 's \<Rightarrow> call_result \<times> 's" where
  "nfs_access S c r a =
     (case getHandle r of
        (None, _) \<Rightarrow> (CallGarbage, a)
      | (Some h, r1) \<Rightarrow>
          (case R_Uint32 r1 of (want, r2) \<Rightarrow>
             if err r2 \<noteq> None then (CallGarbage, a)
             else (case v_Access (nf_fs S) c h want a of
                     (Inl e, a1) \<Rightarrow> unless_panic e a1 (CallOk (putPostOpAttr None (put_err e)), a1)
                   | (Inr granted, a1) \<Rightarrow>
                       (case attrOf S h a1 of (x, a2) \<Rightarrow> (CallOk (W_Uint32 granted (putPostOpAttr x put_ok)), a2)))))"

definition nfs_readlink :: "'s nfs_server \<Rightarrow> reader \<Rightarrow> 's \<Rightarrow> call_result \<times> 's" where
  "nfs_readlink S r a =
     (case getHandle r of
        (None, _) \<Rightarrow> (CallGarbage, a)
      | (Some h, _) \<Rightarrow>
          (case v_ReadLink (nf_fs S) h a of
             (Inl e, a1) \<Rightarrow> unless_panic e a1 (case attrOf S h a1 of (x, a2) \<Rightarrow> (CallOk (putPostOpAttr x (put_err e)), a2))
           | (Inr tgt, a1) \<Rightarrow>
               (case attrOf S h a1 of (x, a2) \<Rightarrow> (CallOk (W_String tgt (putPostOpAttr x put_ok)), a2))))"

definition nfs_read :: "'s nfs_server \<Rightarrow> caller \<Rightarrow> reader \<Rightarrow> 's \<Rightarrow> call_result \<times> 's" where
  "nfs_read S c r a =
     (case getHandle r of
        (None, _) \<Rightarrow> (CallGarbage, a)
      | (Some h, r1) \<Rightarrow>
          (case R_Uint64 r1 of (o64, r2) \<Rightarrow>
           case R_Uint32 r2 of (n32, r3) \<Rightarrow>
             if err r3 \<noteq> None then (CallGarbage, a)
             else let count = min (unat n32) maxReadSize
                  in case v_Read (nf_fs S) c h (unat o64) count a of
                       (Inl e, a1) \<Rightarrow> unless_panic e a1 (case attrOf S h a1 of (x, a2) \<Rightarrow> (CallOk (putPostOpAttr x (put_err e)), a2))
                     | (Inr (data, eof), a1) \<Rightarrow>
                         (case attrOf S h a1 of (x, a2) \<Rightarrow>
                            (CallOk (W_Opaque data (W_Bool eof (W_Uint32 (of_nat (length data))
                               (putPostOpAttr x put_ok)))), a2))))"

text \<open>The three bounds on a write's data: the data itself, the count field, and the limit.\<close>

definition write_data :: "bytes \<Rightarrow> u32 \<Rightarrow> bytes" where
  "write_data data count =
     (let n1 = (if (of_nat (length data) :: u32) < count then of_nat (length data) else count);
          n2 = (if unat n1 > maxWriteSize then maxWriteSize else unat n1)
      in take n2 data)"

definition nfs_write :: "'s nfs_server \<Rightarrow> caller \<Rightarrow> reader \<Rightarrow> 's \<Rightarrow> (call_result \<times> 's) option" where
  "nfs_write S c r a =
     (case getHandle r of
        (None, _) \<Rightarrow> Some (CallGarbage, a)
      | (Some h, r1) \<Rightarrow>
          (case R_Uint64 r1 of (o64, r2) \<Rightarrow>
           case R_Uint32 r2 of (count, r3) \<Rightarrow>
           case R_Uint32 r3 of (how, r4) \<Rightarrow>
           case R_Opaque r4 of (d, r5) \<Rightarrow>
             if err r5 \<noteq> None then Some (CallGarbage, a)
             else let data = write_data (case d of Some b \<Rightarrow> b | None \<Rightarrow> []) count
                  in case attrOf S h a of (b, a1) \<Rightarrow>
                     (case v_Write (nf_fs S) c h (unat o64) data (stability_of how) a1 of
                        None \<Rightarrow> None
                      | Some (Inl e, a2) \<Rightarrow> Some (unless_panic e a2 (with_wcc S (wccFrom b) h (put_err e) a2))
                      | Some (Inr (n, committed), a2) \<Rightarrow>
                          (case attrOf S h a2 of (x, a3) \<Rightarrow>
                             Some (CallOk (W_Fixed (nf_verf S) (W_Uint32 (stability_code committed)
                                (W_Uint32 (of_nat n) (putWccData (wccFrom b) x put_ok)))), a3)))))"

section \<open>Changing the namespace\<close>

text \<open>The reply to a call that made \<open>h\<close> in \<open>dir\<close>.\<close>

definition made :: "'s nfs_server \<Rightarrow> wccAttr \<Rightarrow> handle \<Rightarrow> handle \<Rightarrow> attr \<Rightarrow> 's \<Rightarrow> call_result \<times> 's" where
  "made S before dir h x a = with_wcc S before dir (putPostOpAttr (Some x) (putPostOpHandle (Some h) put_ok)) a"

definition createUnchecked :: u32 where "createUnchecked = 0"
definition createGuarded :: u32 where "createGuarded = 1"
definition createExclusive :: u32 where "createExclusive = 2"

text \<open>What \<open>create\<close> reads after the name: \<open>None\<close> for garbage, else the attributes and whether it is exclusive.\<close>

definition getCreateHow :: "(nat \<Rightarrow> gotime) \<Rightarrow> u32 \<Rightarrow> reader \<Rightarrow> (set_attr \<times> bool) option" where
  "getCreateHow clk md r =
     (if md = createUnchecked \<or> md = createGuarded
      then (case getSattr clk r of
              (None, _) \<Rightarrow> None
            | (Some sa, r1) \<Rightarrow> if err r1 \<noteq> None then None else Some (sa, md = createGuarded))
      else if md = createExclusive
      then (case R_Fixed 8 r of (_, r1) \<Rightarrow> if err r1 \<noteq> None then None else Some (no_attrs, True))
      else None)"

definition nfs_create :: "'s nfs_server \<Rightarrow> (nat \<Rightarrow> gotime) \<Rightarrow> caller \<Rightarrow> reader \<Rightarrow> 's \<Rightarrow> call_result \<times> 's" where
  "nfs_create S clk c r a =
     (case getDirOpArgs r of
        (None, _) \<Rightarrow> (CallGarbage, a)
      | (Some (dir, name), r1) \<Rightarrow>
          (case R_Uint32 r1 of (md, r2) \<Rightarrow>
           case getCreateHow clk md r2 of
             None \<Rightarrow> (CallGarbage, a)
           | Some (sa, excl) \<Rightarrow>
               (case attrOf S dir a of (b, a1) \<Rightarrow>
                case v_Create (nf_fs S) c dir name sa excl a1 of
                  (Inl e, a2) \<Rightarrow> unless_panic e a2 (with_wcc S (wccFrom b) dir (put_err e) a2)
                | (Inr (h, x), a2) \<Rightarrow>
                    (if md = createUnchecked \<and> s_Size sa \<noteq> None
                     then (case v_SetAttr (nf_fs S) c h (no_attrs\<lparr>s_Size := s_Size sa\<rparr>) a2 of
                             (Inr na, a3) \<Rightarrow> made S (wccFrom b) dir h na a3
                           | (Inl e, a3) \<Rightarrow> unless_panic e a3 (made S (wccFrom b) dir h x a3))
                     else made S (wccFrom b) dir h x a2))))"

definition nfs_mkdir :: "'s nfs_server \<Rightarrow> (nat \<Rightarrow> gotime) \<Rightarrow> caller \<Rightarrow> reader \<Rightarrow> 's \<Rightarrow> call_result \<times> 's" where
  "nfs_mkdir S clk c r a =
     (case getDirOpArgs r of
        (None, _) \<Rightarrow> (CallGarbage, a)
      | (Some (dir, name), r1) \<Rightarrow>
          (case getSattr clk r1 of
             (None, _) \<Rightarrow> (CallGarbage, a)
           | (Some sa, _) \<Rightarrow>
               (case attrOf S dir a of (b, a1) \<Rightarrow>
                case v_Mkdir (nf_fs S) c dir name sa a1 of
                  (Inl e, a2) \<Rightarrow> unless_panic e a2 (with_wcc S (wccFrom b) dir (put_err e) a2)
                | (Inr (h, x), a2) \<Rightarrow> made S (wccFrom b) dir h x a2)))"

definition nfs_symlink :: "'s nfs_server \<Rightarrow> (nat \<Rightarrow> gotime) \<Rightarrow> caller \<Rightarrow> reader \<Rightarrow> 's \<Rightarrow> call_result \<times> 's" where
  "nfs_symlink S clk c r a =
     (case getDirOpArgs r of
        (None, _) \<Rightarrow> (CallGarbage, a)
      | (Some (dir, name), r1) \<Rightarrow>
          (case getSattr clk r1 of
             (None, _) \<Rightarrow> (CallGarbage, a)
           | (Some sa, r2) \<Rightarrow>
               (case R_String r2 of (tgt, r3) \<Rightarrow>
                  if err r3 \<noteq> None then (CallGarbage, a)
                  else (case attrOf S dir a of (b, a1) \<Rightarrow>
                        case v_Symlink (nf_fs S) c dir name tgt sa a1 of
                          (Inl e, a2) \<Rightarrow> unless_panic e a2 (with_wcc S (wccFrom b) dir (put_err e) a2)
                        | (Inr (h, x), a2) \<Rightarrow> made S (wccFrom b) dir h x a2))))"

definition nfs_unsupportedCreate :: "'s nfs_server \<Rightarrow> reader \<Rightarrow> 's \<Rightarrow> call_result \<times> 's" where
  "nfs_unsupportedCreate S r a =
     (case getDirOpArgs r of
        (None, _) \<Rightarrow> (CallGarbage, a)
      | (Some (dir, _), _) \<Rightarrow>
          (case attrOf S dir a of (b, a1) \<Rightarrow>
             with_wcc S (wccFrom b) dir (W_Uint32 (status_code ErrNotSupp) NewWriter) a1))"

text \<open>The status of a call that answers nothing but an error.\<close>

definition unit_status :: "err + unit \<Rightarrow> writer" where
  "unit_status r = W_Uint32 (statusOf (case r of Inl e \<Rightarrow> Some e | Inr _ \<Rightarrow> None)) NewWriter"

definition nfs_remove :: "'s nfs_server \<Rightarrow> caller \<Rightarrow> reader \<Rightarrow> bool \<Rightarrow> 's \<Rightarrow> call_result \<times> 's" where
  "nfs_remove S c r isdir a =
     (case getDirOpArgs r of
        (None, _) \<Rightarrow> (CallGarbage, a)
      | (Some (dir, name), _) \<Rightarrow>
          (case attrOf S dir a of (b, a1) \<Rightarrow>
           case (if isdir then v_Rmdir (nf_fs S) c dir name a1 else v_Remove (nf_fs S) c dir name a1) of
             (res, a2) \<Rightarrow> if res = Inl EPanic then (CallError, a2) else with_wcc S (wccFrom b) dir (unit_status res) a2))"

definition nfs_rename :: "'s nfs_server \<Rightarrow> caller \<Rightarrow> reader \<Rightarrow> 's \<Rightarrow> call_result \<times> 's" where
  "nfs_rename S c r a =
     (case getDirOpArgs r of
        (None, _) \<Rightarrow> (CallGarbage, a)
      | (Some (fromDir, fromName), r1) \<Rightarrow>
          (case getDirOpArgs r1 of
             (None, _) \<Rightarrow> (CallGarbage, a)
           | (Some (toDir, toName), _) \<Rightarrow>
               (case attrOf S fromDir a of (bf, a1) \<Rightarrow>
                case attrOf S toDir a1 of (bt, a2) \<Rightarrow>
                case v_Rename (nf_fs S) c fromDir fromName toDir toName a2 of (res, a3) \<Rightarrow>
                if res = Inl EPanic then (CallError, a3)
                else
                case attrOf S fromDir a3 of (af, a4) \<Rightarrow>
                case attrOf S toDir a4 of (at, a5) \<Rightarrow>
                  (CallOk (putWccData (wccFrom bt) at (putWccData (wccFrom bf) af (unit_status res))), a5))))"

definition nfs_link :: "'s nfs_server \<Rightarrow> reader \<Rightarrow> 's \<Rightarrow> call_result \<times> 's" where
  "nfs_link S r a =
     (case getHandle r of
        (None, _) \<Rightarrow> (CallGarbage, a)
      | (Some h, r1) \<Rightarrow>
          (case getDirOpArgs r1 of
             (None, _) \<Rightarrow> (CallGarbage, a)
           | (Some (dir, _), _) \<Rightarrow>
               (case attrOf S h a of (x, a1) \<Rightarrow>
                case attrOf S dir a1 of (b, a2) \<Rightarrow>
                  with_wcc S (wccFrom b) dir
                    (putPostOpAttr x (W_Uint32 (status_code ErrNotSupp) NewWriter)) a2)))"

section \<open>Directories and the rest\<close>

fun put_entries :: "bool \<Rightarrow> dir_entry list \<Rightarrow> writer \<Rightarrow> writer" where
  "put_entries pl [] w = w"
| "put_entries pl (e # es) w =
     (let w1 = W_Uint64 (of_nat (d_Cookie e)) (W_String (d_Name e) (W_Uint64 (d_FileID e) (W_Bool True w)))
      in put_entries pl es (if pl then putPostOpHandle (d_Handle e) (putPostOpAttr (d_Attr e) w1) else w1))"

definition nfs_readdir :: "'s nfs_server \<Rightarrow> caller \<Rightarrow> reader \<Rightarrow> bool \<Rightarrow> 's \<Rightarrow> call_result \<times> 's" where
  "nfs_readdir S c r pl a =
     (case getHandle r of
        (None, _) \<Rightarrow> (CallGarbage, a)
      | (Some h, r1) \<Rightarrow>
          (case R_Uint64 r1 of (cookie, r2) \<Rightarrow>
           case R_Fixed 8 r2 of (vb, r3) \<Rightarrow>
           case (if pl then R_Uint32 (snd (R_Uint32 r3)) else R_Uint32 r3) of (mx, r4) \<Rightarrow>
             if err r4 \<noteq> None then (CallGarbage, a)
             else (case v_ReadDir (nf_fs S) c h (unat cookie) (case vb of Some v \<Rightarrow> v | None \<Rightarrow> replicate 8 0)
                          (min (unat mx) maxReadSize) pl a of
                     (Inl e, a1) \<Rightarrow> unless_panic e a1 (case attrOf S h a1 of (x, a2) \<Rightarrow> (CallOk (putPostOpAttr x (put_err e)), a2))
                   | (Inr (es, eof, outVerf), a1) \<Rightarrow>
                       (case attrOf S h a1 of (x, a2) \<Rightarrow>
                          (CallOk (W_Bool eof (W_Bool False (put_entries pl es
                             (W_Fixed outVerf (putPostOpAttr x put_ok))))), a2)))))"

definition nfs_fsstat :: "'s nfs_server \<Rightarrow> reader \<Rightarrow> 's \<Rightarrow> call_result \<times> 's" where
  "nfs_fsstat S r a =
     (case getHandle r of
        (None, _) \<Rightarrow> (CallGarbage, a)
      | (Some h, _) \<Rightarrow>
          (case v_FSStat (nf_fs S) h a of
             (Inl e, a1) \<Rightarrow> unless_panic e a1 (CallOk (putPostOpAttr None (put_err e)), a1)
           | (Inr st, a1) \<Rightarrow>
               (case attrOf S h a1 of (x, a2) \<Rightarrow>
                  (CallOk (W_Uint32 0 (W_Uint64 (of_nat (FreeFiles st)) (W_Uint64 (of_nat (FreeFiles st))
                     (W_Uint64 (of_nat (TotalFiles st)) (W_Uint64 (of_nat (AvailBytes st))
                     (W_Uint64 (of_nat (FreeBytes st)) (W_Uint64 (of_nat (TotalBytes st))
                     (putPostOpAttr x put_ok)))))))), a2))))"

definition fsfSymlink :: u32 where "fsfSymlink = 2"
definition fsfHomogeneous :: u32 where "fsfHomogeneous = 8"
definition fsfCanSetTime :: u32 where "fsfCanSetTime = 0x10"

definition nfs_fsinfo :: "'s nfs_server \<Rightarrow> reader \<Rightarrow> 's \<Rightarrow> call_result \<times> 's" where
  "nfs_fsinfo S r a =
     (case getHandle r of
        (None, _) \<Rightarrow> (CallGarbage, a)
      | (Some h, _) \<Rightarrow>
          (case attrOf S h a of (x, a1) \<Rightarrow>
             let w1 = putPostOpAttr x put_ok;
                 w2 = W_Uint32 4096 (W_Uint32 (of_nat maxReadSize) (W_Uint32 (of_nat maxReadSize) w1));
                 w3 = W_Uint32 4096 (W_Uint32 (of_nat maxWriteSize) (W_Uint32 (of_nat maxWriteSize) w2));
                 w4 = W_Uint64 (of_nat (v_MaxFileSize (nf_fs S) a1)) (W_Uint32 (of_nat dirPrefSize) w3)
             in (CallOk (W_Uint32 (fsfSymlink OR fsfHomogeneous OR fsfCanSetTime)
                   (W_Uint32 0 (W_Uint32 1 w4))), a1)))"

definition nfs_pathconf :: "'s nfs_server \<Rightarrow> reader \<Rightarrow> 's \<Rightarrow> call_result \<times> 's" where
  "nfs_pathconf S r a =
     (case getHandle r of
        (None, _) \<Rightarrow> (CallGarbage, a)
      | (Some h, _) \<Rightarrow>
          (case attrOf S h a of (x, a1) \<Rightarrow>
             (CallOk (W_Bool True (W_Bool False (W_Bool True (W_Bool True
                (W_Uint32 255 (W_Uint32 1 (putPostOpAttr x put_ok))))))), a1)))"

definition nfs_commit :: "'s nfs_server \<Rightarrow> reader \<Rightarrow> 's \<Rightarrow> call_result \<times> 's" where
  "nfs_commit S r a =
     (case getHandle r of
        (None, _) \<Rightarrow> (CallGarbage, a)
      | (Some h, r1) \<Rightarrow>
          (case R_Uint64 r1 of (o64, r2) \<Rightarrow>
           case R_Uint32 r2 of (count, r3) \<Rightarrow>
             if err r3 \<noteq> None then (CallGarbage, a)
             else (case attrOf S h a of (b, a1) \<Rightarrow>
                   case v_Commit (nf_fs S) h (unat o64) (unat count) a1 of
                     (Some e, a2) \<Rightarrow> unless_panic e a2 (with_wcc S (wccFrom b) h (put_err e) a2)
                   | (None, a2) \<Rightarrow>
                       (case attrOf S h a2 of (x, a3) \<Rightarrow>
                          (CallOk (W_Fixed (nf_verf S) (putWccData (wccFrom b) x put_ok)), a3)))))"

section \<open>The program\<close>

definition ProgramNFS :: u32 where "ProgramNFS = 100003"
definition VersionNFS :: u32 where "VersionNFS = 3"
definition procCount :: u32 where "procCount = 22"

definition nfs_HasProc :: "u32 \<Rightarrow> bool" where "nfs_HasProc p \<longleftrightarrow> p < procCount"

text \<open>The procedures the allow-list names: all but SETATTR, CREATE to RENAME and LINK.\<close>

definition nfs_Idempotent :: "u32 \<Rightarrow> bool" where
  "nfs_Idempotent p \<longleftrightarrow> p \<in> {0, 1, 3, 4, 5, 6, 7, 16, 17, 18, 19, 20, 21}"

definition nfs_Call ::
  "'s nfs_server \<Rightarrow> (nat \<Rightarrow> gotime) \<Rightarrow> u32 \<Rightarrow> cred \<Rightarrow> reader \<Rightarrow> 's \<Rightarrow> (call_result \<times> 's) option" where
  "nfs_Call S clk p cr r a =
     (let c = callerFrom cr in
      if p = 0 then Some (CallOk [], a)
      else if p = 1 then Some (nfs_getattr S r a)
      else if p = 2 then Some (nfs_setattr S clk c r a)
      else if p = 3 then Some (nfs_lookup S c r a)
      else if p = 4 then Some (nfs_access S c r a)
      else if p = 5 then Some (nfs_readlink S r a)
      else if p = 6 then Some (nfs_read S c r a)
      else if p = 7 then nfs_write S c r a
      else if p = 8 then Some (nfs_create S clk c r a)
      else if p = 9 then Some (nfs_mkdir S clk c r a)
      else if p = 10 then Some (nfs_symlink S clk c r a)
      else if p = 11 then Some (nfs_unsupportedCreate S r a)
      else if p = 12 then Some (nfs_remove S c r False a)
      else if p = 13 then Some (nfs_remove S c r True a)
      else if p = 14 then Some (nfs_rename S c r a)
      else if p = 15 then Some (nfs_link S r a)
      else if p = 16 then Some (nfs_readdir S c r False a)
      else if p = 17 then Some (nfs_readdir S c r True a)
      else if p = 18 then Some (nfs_fsstat S r a)
      else if p = 19 then Some (nfs_fsinfo S r a)
      else if p = 20 then Some (nfs_pathconf S r a)
      else if p = 21 then Some (nfs_commit S r a)
      else Some (CallGarbage, a))"

definition nfs_handler :: "'s nfs_server \<Rightarrow> (nat \<Rightarrow> gotime) \<Rightarrow> 's handler" where
  "nfs_handler S clk =
     \<lparr>hd_HasProc = nfs_HasProc, hd_Idempotent = nfs_Idempotent, hd_Call = nfs_Call S clk\<rparr>"

section \<open>What a filesystem promises the program\<close>

text \<open>
  \<open>view\<close> is what a client can tell of the filesystem's state. The queries of the interface leave it
  alone: they may fill a cache, no more. On that promise rests the allow-list of idempotent procedures.
\<close>

locale vfs_queries =
  fixes S :: "'s nfs_server" and view :: "'s \<Rightarrow> 'v"
  assumes GetAttr_view: "view (snd (v_GetAttr (nf_fs S) h a)) = view a"
    and Lookup_view: "view (snd (v_Lookup (nf_fs S) c h nm a)) = view a"
    and Access_view: "view (snd (v_Access (nf_fs S) c h want a)) = view a"
    and Read_view: "view (snd (v_Read (nf_fs S) c h x n a)) = view a"
    and ReadLink_view: "view (snd (v_ReadLink (nf_fs S) h a)) = view a"
    and ReadDir_view: "view (snd (v_ReadDir (nf_fs S) c h k vf mx pl a)) = view a"
    and FSStat_view: "view (snd (v_FSStat (nf_fs S) h a)) = view a"
begin

lemma query_view:
  "v_GetAttr (nf_fs S) h a = (q1, a') \<Longrightarrow> view a' = view a"
  "v_Lookup (nf_fs S) c h nm a = (q2, a') \<Longrightarrow> view a' = view a"
  "v_Access (nf_fs S) c h want a = (q3, a') \<Longrightarrow> view a' = view a"
  "v_Read (nf_fs S) c h x n a = (q4, a') \<Longrightarrow> view a' = view a"
  "v_ReadLink (nf_fs S) h a = (q5, a') \<Longrightarrow> view a' = view a"
  "v_ReadDir (nf_fs S) c h k vf mx pl a = (q6, a') \<Longrightarrow> view a' = view a"
  "v_FSStat (nf_fs S) h a = (q7, a') \<Longrightarrow> view a' = view a"
  using GetAttr_view [of h a] Lookup_view [of c h nm a] Access_view [of c h want a] Read_view [of c h x n a]
    ReadLink_view [of h a] ReadDir_view [of c h k vf mx pl a] FSStat_view [of h a] by simp_all

lemma attrOf_view: "attrOf S h a = (x, a') \<Longrightarrow> view a' = view a"
  by (auto simp: attrOf_def split: prod.splits sum.splits dest: query_view(1))

lemma with_wcc_view: "with_wcc S b h w a = (q, a') \<Longrightarrow> view a' = view a"
  by (auto simp: with_wcc_def split: prod.splits dest: attrOf_view)

lemmas view_dests = query_view attrOf_view with_wcc_view

lemma read_handlers_view:
  shows "nfs_getattr S r a = (q, a') \<Longrightarrow> view a' = view a"
    "nfs_lookup S c r a = (q, a') \<Longrightarrow> view a' = view a"
    "nfs_access S c r a = (q, a') \<Longrightarrow> view a' = view a"
    "nfs_readlink S r a = (q, a') \<Longrightarrow> view a' = view a"
    "nfs_read S c r a = (q, a') \<Longrightarrow> view a' = view a"
    "nfs_readdir S c r pl a = (q, a') \<Longrightarrow> view a' = view a"
    "nfs_fsstat S r a = (q, a') \<Longrightarrow> view a' = view a"
    "nfs_fsinfo S r a = (q, a') \<Longrightarrow> view a' = view a"
    "nfs_pathconf S r a = (q, a') \<Longrightarrow> view a' = view a"
    "nfs_unsupportedCreate S r a = (q, a') \<Longrightarrow> view a' = view a"
    "nfs_link S r a = (q, a') \<Longrightarrow> view a' = view a"
  unfolding nfs_getattr_def nfs_lookup_def nfs_access_def nfs_readlink_def nfs_read_def nfs_readdir_def
    nfs_fsstat_def nfs_fsinfo_def nfs_pathconf_def nfs_unsupportedCreate_def nfs_link_def unless_panic_def Let_def
  by (auto split: prod.splits option.splits sum.splits if_splits dest!: view_dests)

lemma idempotent_view:
  assumes "nfs_Idempotent p" "p \<noteq> 7" "p \<noteq> 21" "nfs_Call S clk p cr r a = Some (q, a')"
  shows "view a' = view a"
proof -
  have "p \<in> {0, 1, 3, 4, 5, 6, 16, 17, 18, 19, 20}" using assms(1-3) by (auto simp: nfs_Idempotent_def)
  then show ?thesis
    using assms(4) read_handlers_view by (elim insertE emptyE) (simp_all add: nfs_Call_def Let_def)
qed

text \<open>Handlers that answer garbage have not got past their arguments.\<close>

lemma not_garbage:
  "with_wcc S b h w a \<noteq> (CallGarbage, a')" "made S b d h x a \<noteq> (CallGarbage, a')"
  "set_after S c h sa a \<noteq> (CallGarbage, a')"
  by (auto simp: with_wcc_def made_def set_after_def unless_panic_def split: prod.splits sum.splits)

lemma write_handlers_garbage:
  shows "nfs_setattr S clk c r a = (CallGarbage, a') \<Longrightarrow> view a' = view a"
    "nfs_create S clk c r a = (CallGarbage, a') \<Longrightarrow> view a' = view a"
    "nfs_mkdir S clk c r a = (CallGarbage, a') \<Longrightarrow> view a' = view a"
    "nfs_symlink S clk c r a = (CallGarbage, a') \<Longrightarrow> view a' = view a"
    "nfs_remove S c r isdir a = (CallGarbage, a') \<Longrightarrow> view a' = view a"
    "nfs_rename S c r a = (CallGarbage, a') \<Longrightarrow> view a' = view a"
    "nfs_commit S r a = (CallGarbage, a') \<Longrightarrow> view a' = view a"
    "nfs_write S c r a = Some (CallGarbage, a') \<Longrightarrow> view a' = view a"
  unfolding nfs_setattr_def nfs_create_def nfs_mkdir_def nfs_symlink_def nfs_remove_def nfs_rename_def
    nfs_commit_def nfs_write_def unless_panic_def Let_def
  by (auto simp: not_garbage split: prod.splits option.splits sum.splits if_splits dest!: view_dests)

lemma garbage_view:
  assumes "nfs_Call S clk p cr r a = Some (CallGarbage, a')"
  shows "view a' = view a"
proof -
  define Q where "Q z \<longleftrightarrow> (z = Some (CallGarbage, a') \<longrightarrow> view a' = view a)" for z
  have both: "Q x \<Longrightarrow> Q y \<Longrightarrow> Q (if b then x else y)" for x y b by simp
  have "Q (nfs_Call S clk p cr r a)" unfolding nfs_Call_def Let_def
    by (intro both; unfold Q_def option.inject; force dest: write_handlers_garbage read_handlers_view)
  with assms show ?thesis by (simp add: Q_def)
qed

end

end
