(* ===== verification/BlobVfs.thy ===== *)
theory BlobVfs
  imports Nfs3 MountProg FileOps Content LocalContract NamespaceSpec
begin

text \<open>
  The filesystem as the NFS and MOUNT programs see it: \<open>blobfs.FS\<close> as an implementation of \<open>vfs.FS\<close>,
  over the pair of the mount's state and the store's world. \<open>fd\<close> feeds the call its clock, its context
  and its random bytes.
\<close>

definition pure_op :: "(fs \<Rightarrow> 'r) \<Rightarrow> fs \<times> 'w \<Rightarrow> 'r \<times> fs \<times> 'w" where
  "pure_op f a = (f (fst a), a)"

definition fs_op :: "(fs \<Rightarrow> 'r \<times> fs) \<Rightarrow> fs \<times> 'w \<Rightarrow> 'r \<times> fs \<times> 'w" where
  "fs_op f a = (case f (fst a) of (r, N) \<Rightarrow> (r, N, snd a))"

definition blob_vfs :: "'w env \<Rightarrow> feed \<Rightarrow> (fs \<times> 'w) vfs_ops" where
  "blob_vfs E fd =
     \<lparr>v_Root = pure_op Root,
      v_MaxFileSize = (\<lambda>a. maxFileSize (fst a)),
      v_GetAttr = (\<lambda>h. pure_op (\<lambda>N. GetAttr N h)),
      v_SetAttr = (\<lambda>c h sa. fs_op (SetAttr (fd_clk fd 0) c h sa)),
      v_Lookup = (\<lambda>c dir name. pure_op (\<lambda>N. Lookup N c dir name)),
      v_Access = (\<lambda>c h want. pure_op (\<lambda>N. Access N c h want)),
      v_Read = (\<lambda>c h x n a. Read (e_sha E) (mount_store E) c h x n (fst a) (snd a)),
      v_Write = (\<lambda>c h x d how a. Write E fd c h x d how (fst a) (snd a)),
      v_Commit = (\<lambda>h x n a. Commit E fd h (fst a) (snd a)),
      v_Create = (\<lambda>c dir name sa excl. fs_op (\<lambda>N. Create (fd_clk fd 0) N c dir name sa excl)),
      v_Mkdir = (\<lambda>c dir name sa. fs_op (\<lambda>N. Mkdir (fd_clk fd 0) N c dir name sa)),
      v_Symlink = (\<lambda>c dir name tgt sa. fs_op (\<lambda>N. Symlink (fd_clk fd 0) N c dir name tgt sa)),
      v_ReadLink = (\<lambda>h. pure_op (\<lambda>N. ReadLink N h)),
      v_Remove = (\<lambda>c dir name. fs_op (\<lambda>N. Remove (fd_clk fd 0) N c dir name)),
      v_Rmdir = (\<lambda>c dir name. fs_op (\<lambda>N. Rmdir (fd_clk fd 0) N c dir name)),
      v_Rename = (\<lambda>c d1 n1 d2 n2. fs_op (\<lambda>N. Rename (fd_clk fd 0) N c d1 n1 d2 n2)),
      v_ReadDir = (\<lambda>c dir k vf mx pl. pure_op (\<lambda>N. ReadDir N c dir k vf mx pl)),
      v_FSStat = (\<lambda>h. pure_op (\<lambda>N. FSStat N h))\<rparr>"

definition blob_nfs :: "'w env \<Rightarrow> feed \<Rightarrow> bytes \<Rightarrow> (fs \<times> 'w) nfs_server" where
  "blob_nfs E fd verf = \<lparr>nf_fs = blob_vfs E fd, nf_verf = verf\<rparr>"

text \<open>All of the mount's state but its caches of what the bucket holds.\<close>

definition mount_view :: "fs \<times> 'w \<Rightarrow> fs" where
  "mount_view a = (fst a)\<lparr>cache := newChunkCache 0, knownChunks := {||}\<rparr>"

lemma same_ns_view: "same_ns (fst a) N \<Longrightarrow> mount_view (N, w) = mount_view a"
  by (auto simp: same_ns_def mount_view_def)

interpretation blob_queries: vfs_queries "blob_nfs E fd verf" mount_view for E fd verf
proof (unfold_locales, goal_cases)
  case (4 c h x n a)
  obtain r N w where r: "Read (e_sha E) (mount_store E) c h x n (fst a) (snd a) = (r, N, w)" by (metis prod_cases3)
  then have "same_ns (fst a) N" by (rule Read_same_ns)
  with r show ?case by (simp add: blob_nfs_def blob_vfs_def same_ns_view)
qed (simp_all add: blob_nfs_def blob_vfs_def pure_op_def)

text \<open>
  C28. The procedures the duplicate request cache lets run again, WRITE and COMMIT apart, change nothing
  a client can see: whatever message a client sends and whatever the store answers, the mount's state is
  the same after them, but for its caches. And a message whose arguments do not decode changes nothing,
  whatever its procedure.
\<close>

theorem idempotent_procedures_change_nothing:
  assumes "nfs_Call (blob_nfs E fd verf) clk p cr r (N, w) = Some (q, N', w')"
    and "nfs_Idempotent p \<and> p \<noteq> 7 \<and> p \<noteq> 21 \<or> q = CallGarbage"
  shows "N' = N\<lparr>cache := cache N', knownChunks := knownChunks N'\<rparr>"
proof -
  have "mount_view (N', w') = mount_view (N, w)"
    using assms blob_queries.idempotent_view blob_queries.garbage_view by blast
  then have "N'\<lparr>cache := newChunkCache 0, knownChunks := {||}\<rparr> = N\<lparr>cache := newChunkCache 0, knownChunks := {||}\<rparr>"
    by (simp add: mount_view_def)
  then have "N'\<lparr>cache := newChunkCache 0, knownChunks := {||}, cache := cache N', knownChunks := knownChunks N'\<rparr> =
      N\<lparr>cache := newChunkCache 0, knownChunks := {||}, cache := cache N', knownChunks := knownChunks N'\<rparr>"
    by simp
  then show ?thesis by simp
qed

text \<open>An environment to run a mount in: a local directory as the bucket, and codecs that refuse everything.\<close>

definition no_codec :: codec where
  "no_codec = \<lparr>json_snapshot = (\<lambda>_. Inl EPanic), gzip = (\<lambda>_. Inl EPanic), gunzip = (\<lambda>_. Inl EPanic),
     unjson_snapshot = (\<lambda>_. Inl EPanic), json_root = (\<lambda>_. Inl EPanic), unjson_root = (\<lambda>_. Inl EPanic)\<rparr>"

definition plain_env :: "local_world env" where
  "plain_env = \<lparr>e_store = Local_ops string_of_bytes ''b'', e_readonly = False, e_sha = string_of_bytes, e_codec = no_codec,
     e_range = (\<lambda>m. sorted_list_of_fset (fmdom m)), e_others = (\<lambda>_ x. x)\<rparr>"

definition plain_feed :: feed where
  "plain_feed = \<lparr>fd_ctx = (\<lambda>_. None), fd_clk = (\<lambda>_ _. 5), fd_nonce = (\<lambda>_. replicate 6 0)\<rparr>"

abbreviation root_cred :: cred where
  "root_cred \<equiv> \<lparr>cr_UID = 0, cr_GID = 0, cr_GIDs = [], cr_Machine = ''m''\<rparr>"

definition empty_world :: local_world where
  "empty_world = \<lparr>disk = fmempty, fails = (\<lambda>_. False), partial = (\<lambda>_. 0), random = (\<lambda>n. replicate n CHR ''x''), calls = 0\<rparr>"

theorem idempotent_procedures_change_nothing_witness:
  "\<exists>q N' w'. nfs_Call (blob_nfs plain_env plain_feed (replicate 8 0)) (\<lambda>_. 5) 1 root_cred
       (NewReader (W_Opaque (encodeHandle 1 1) [])) (fresh_fs, empty_world) = Some (q, N', w') \<and>
     N' = fresh_fs\<lparr>cache := cache N', knownChunks := knownChunks N'\<rparr>"
proof -
  let ?S = "blob_nfs plain_env plain_feed (replicate 8 0)" and ?r = "NewReader (W_Opaque (encodeHandle 1 1) [])"
  obtain q N' w' where c: "nfs_getattr ?S ?r (fresh_fs, empty_world) = (q, N', w')" by (metis prod_cases3)
  have "nfs_Call ?S (\<lambda>_. 5) 1 root_cred ?r (fresh_fs, empty_world) = Some (q, N', w')"
    by (simp add: nfs_Call_def c)
  with idempotent_procedures_change_nothing [OF this] show ?thesis by (auto simp: nfs_Idempotent_def)
qed

end
