(* ===== verification/FileSpec.thy ===== *)
theory FileSpec
  imports FlushSpec BlobVfs
begin

text \<open>
  What READ, WRITE, SETATTR and a flush do to the abstract file, call by call, and what they do one
  after the other.
\<close>

section \<open>The calls\<close>

lemma Read_right:
  assumes "hash_ok sha" "mount_ok sha N" "readable N c h = Inr (i, n)"
    and "Read sha st c h ofs count N w = (Inr (data, eof), N', w')"
  shows "data = map (content sha N i) [ofs ..< min (ofs + count) (Size n)] \<and> (eof \<longleftrightarrow> Size n \<le> ofs + count)"
proof (cases "ofs < Size n")
  case True
  note M = mount_okD [OF assms(2)]
  have n: "fmlookup (inodes N) i = Some n" using assms(3) by (auto simp: readable_Inr)
  have "inj sha" using assms(1) by (simp add: hash_ok_def)
  from Read_within [OF this M(4,5,1) assms(3) M(6) [OF n] True file_okD(6) [OF M(7) [OF n]] assms(4)] show ?thesis .
next
  case False
  then show ?thesis using Read_past_end [OF assms(3), of ofs sha st count w] assms(4) by auto
qed

lemma read_fetch_cache_ok:
  assumes "read_fetch sha st ofs end refs out N w = (q, N', w')" "hash_ok sha" "mount_ok sha N"
  shows "mount_ok sha N'"
proof -
  have "inj sha" using assms(2) by (simp add: hash_ok_def)
  then have "cache_ok sha (cache N')" using read_fetch_right [OF assms(1)] mount_okD [OF assms(3)] by blast
  then show ?thesis using same_ns_mount_ok [OF read_fetch_same_ns [OF assms(1)]] assms(3) by blast
qed

lemma Read_keeps:
  assumes "Read sha st c h ofs count N w = (r, N', w')" "hash_ok sha" "mount_ok sha N"
  shows "mount_ok sha N' \<and> inodes N' = inodes N \<and> content sha N' = content sha N"
proof -
  have "same_ns N N'" using assms(1) by (rule Read_same_ns)
  moreover have "mount_ok sha N'"
    using assms(1,3) read_fetch_cache_ok [OF _ assms(2,3)]
    by (auto simp: Read_def Let_def split: if_splits prod.splits option.splits sum.splits)
  ultimately show ?thesis using same_ns_sel(1) same_ns_content by (metis ext)
qed

lemma overwritten_take: "m \<le> k \<Longrightarrow> overwritten ofs (take k data) ofs (ofs + m) f = overwritten ofs data ofs (ofs + m) f"
  by (rule ext) (auto simp: overwritten_def)

definition budget_room :: "fs \<Rightarrow> bool" where
  "budget_room N \<longleftrightarrow> budget_limit N \<le> 0 \<or> budget_used N < budget_limit N"

lemma await_room: "budget_room N \<Longrightarrow> await_alone E fd k N w = Some (None, N, w)"
  by (subst await_alone.simps) (auto simp: budget_room_def)

lemma Write_right:
  assumes "hash_ok (e_sha E)" "mount_ok (e_sha E) N" "budget_room N" "resolve N h = Inr (i, n)" "length data < 2 ^ 32"
    and "Write E fd c h ofs data Unstable N w = Some (r, N', w')"
  shows "mount_ok (e_sha E) N' \<and>
    (case r of
       Inl e \<Rightarrow> inodes N' = inodes N \<and> content (e_sha E) N' = content (e_sha E) N
     | Inr (m, how) \<Rightarrow>
         m \<le> length data \<and> (data \<noteq> [] \<longrightarrow> 0 < m \<and> ofs + m \<le> maxFileSize N) \<and>
         content (e_sha E) N' i = overwritten ofs data ofs (ofs + m) (content (e_sha E) N i) \<and>
         (\<exists>n'. fmlookup (inodes N') i = Some n' \<and> Gen n' = Gen n \<and> Size n' = (if m = 0 then Size n else max (Size n) (ofs + m))) \<and>
         (\<forall>j. j \<noteq> i \<longrightarrow> fmlookup (inodes N') j = fmlookup (inodes N) j \<and> content (e_sha E) N' j = content (e_sha E) N j))"
proof -
  note M = mount_okD [OF assms(2)]
  have n: "fmlookup (inodes N) i = Some n" using assms(4) by auto
  consider s where "mutable N = Some s" | "mutable N = None" "data = []"
    | "mutable N = None" "data \<noteq> []" "maxFileSize N \<le> ofs \<or> checkPerm N OpWrite c n \<noteq> None"
    | "mutable N = None" "data \<noteq> []" "ofs < maxFileSize N" "checkPerm N OpWrite c n = None"
    by fastforce
  then show ?thesis
  proof cases
    case 1
    then show ?thesis using assms(2,6) by (auto simp: Write_def simp del: mutable_None)
  next
    case 2
    then show ?thesis using assms(2,6) n by (auto simp: Write_def simp del: mutable_None)
  next
    case 3
    then show ?thesis using assms(2,4,6) by (auto simp: Write_def Let_def simp del: mutable_None split: if_splits)
  next
    case 4
    define k where "k = min (length data) (maxFileSize N - ofs)"
    have k: "(if maxFileSize N - ofs < length data then take (maxFileSize N - ofs) data else data) = take k data"
      by (simp add: k_def min_def)
    have wa: "write_admitted E fd h i ofs (take k data) Unstable N w = (r, N', w')"
      using 4 assms(4,6) M(6) [OF n] await_room [OF assms(3), of E fd 0 w] unfolding Write_def k by (simp add: Let_def del: mutable_None)
    have fit: "ofs + length (take k data) < 2 ^ 64" "length (take k data) = k" using M(3) 4(3) by (auto simp: k_def)
    have ne: "take k data \<noteq> []" using 4 by (simp add: k_def)
    note W = write_admitted_right [OF wa assms(4,1,2) fit(1)]
    show ?thesis
    proof (cases r)
      case (Inl e)
      then show ?thesis using W by simp
    next
      case (Inr p)
      obtain m0 how where p: "p = (m0, how)" by (cases p)
      obtain m n' where m: "m0 = wrap32 m" "m \<le> k" "0 < m" "fmlookup (inodes N') i = Some n'" "Gen n' = Gen n"
          "Size n' = max (Size n) (ofs + m)"
          "content (e_sha E) N' i = overwritten ofs (take k data) ofs (ofs + m) (content (e_sha E) N i)"
        using W Inr p ne fit(2) by auto
      have "m0 = m" using m(1,2) assms(5) by (simp add: k_def)
      moreover have "m \<le> length data" "ofs + m \<le> maxFileSize N" using m(2) 4(3) by (auto simp: k_def)
      ultimately show ?thesis using W Inr p m overwritten_take [OF m(2)] by auto
    qed
  qed
qed

lemma SetAttr_right:
  assumes "SetAttr clk c h sa N = (r, N')" "hash_ok sha" "mount_ok sha N"
  shows "mount_ok sha N' \<and>
    (case r of
       Inl e \<Rightarrow> inodes N' = inodes N \<and> content sha N' = content sha N
     | Inr a \<Rightarrow> \<exists>i n n'. resolve N h = Inr (i, n) \<and> fmlookup (inodes N') i = Some n' \<and> Gen n' = Gen n \<and>
         a = inode_attr n' (fsid N) \<and> Size n' = (case s_Size sa of Some sz \<Rightarrow> sz | None \<Rightarrow> Size n) \<and>
         (\<forall>pos. content sha N' i pos = (if s_Size sa = None \<or> pos < the (s_Size sa) then content sha N i pos else 0)) \<and>
         (\<forall>j. j \<noteq> i \<longrightarrow> fmlookup (inodes N') j = fmlookup (inodes N) j \<and> content sha N' j = content sha N j))"
proof (cases "mutable N")
  case (Some s)
  then show ?thesis using assms by (auto simp: SetAttr_def simp del: mutable_None)
next
  case mut: None
  show ?thesis
  proof (cases "s_Size sa")
    case (Some sz)
    then have "Datapath.truncate clk c h sa N = (r, N')" using assms(1) mut by (simp add: SetAttr_def del: mutable_None)
    from truncate_right [OF this Some assms(2,3)] show ?thesis using Some by (auto split: sum.splits)
  next
    case None
    show ?thesis
    proof (cases "(\<exists>e. resolve N h = Inl e) \<or> (\<exists>i n. resolve N h = Inr (i, n) \<and> setAttrRequests N c n sa \<noteq> None)")
      case True
      then show ?thesis using assms None mut by (auto simp: SetAttr_def simp del: mutable_None)
    next
      case False
      then obtain i n where res: "resolve N h = Inr (i, n)" and ok: "setAttrRequests N c n sa = None"
        by (metis sum.exhaust surj_pair)
      note M = mount_okD [OF assms(3)]
      have n: "fmlookup (inodes N) i = Some n" using res by auto
      obtain n' ap where n': "applySetAttr n sa (clk 0) = (n', ap)" by fastforce
      have k: "ID n' = ID n" "Gen n' = Gen n" "Chunks n' = Chunks n" "Size n' = Size n"
        using applySetAttr_keeps [of n sa "clk 0"] n' by simp_all
      have r: "r = Inr (inode_attr n' (fsid N))"
          "N' = (if ap then markDirty (upd_inode i (\<lambda>_. n') N) else upd_inode i (\<lambda>_. n') N)"
        using assms(1) mut None res ok n' by (auto simp: SetAttr_def Let_def simp del: mutable_None)
      have "fopen N' = fopen N" "cache N' = cache N" using r by auto
      then have of: "only_file i n' (open_of N i) N N'"
        using r n open_of_cong [of N' N] by (auto simp: only_file_def fmlookup_upd_inode)
      have fok: "file_ok sha (chunkSize N) n' (open_of N i)" using M(7) [OF n] k by (simp add: file_ok_def tail_clean_def)
      have "mount_ok sha N'" using only_file_ok [OF assms(3) of _ _ fok] M(4) M(6) [OF n] k \<open>cache N' = cache N\<close> by simp
      moreover have "content sha N' j = content sha N j" for j
        using only_file_content [OF of, of sha j] n k by (auto simp: content_def fun_eq_iff)
      ultimately show ?thesis using r res of k None by (auto simp: only_file_def)
    qed
  qed
qed

section \<open>A mount to run the calls on\<close>

text \<open>A stand-in for the hash, and a mount with one file, inode 2, whose three bytes are buffered.\<close>

definition tag_sha :: "bytes \<Rightarrow> string" where
  "tag_sha d = CHR ''h'' # string_of_bytes d"

lemma tag_sha_ok: "hash_ok tag_sha"
proof -
  have c: "char_of (unat x) = char_of (unat y) \<Longrightarrow> x = y" for x y :: u8
  proof -
    assume "char_of (unat x) = (char_of (unat y) :: char)"
    then have "(of_char (char_of (unat x)) :: nat) = of_char (char_of (unat y))" by simp
    moreover have "unat z < 256" for z :: u8 using unsigned_less [of z] by simp
    ultimately show "x = y" by (simp add: word_unat_eq_iff)
  qed
  then have "inj tag_sha" by (auto simp: inj_def tag_sha_def string_of_bytes_def dest!: map_injective intro: injI)
  then show ?thesis by (simp add: hash_ok_def tag_sha_def)
qed

definition demo_inode :: inode where
  "demo_inode = \<lparr>ID = 2, Gen = 1, Type = TypeReg, Mode = 0x1A4, UID = 0, GID = 0, NLink = 1, Size = 3,
     ATimeNS = 0, MTimeNS = 0, CTimeNS = 0, Entries = None, Parent = 0, Chunks = [], Target = []\<rparr>"

definition demo_open :: openFile where
  "demo_open = \<lparr>of_dirty = fmupd 0 \<lparr>b_data = [1, 2, 3], b_cap = 4096\<rparr> fmempty, of_pendingTrim = fmempty, of_bytes = 4096,
     of_unsettled = False\<rparr>"

definition demo_fs :: fs where
  "demo_fs = fresh_fs\<lparr>inodes := fmupd 2 demo_inode (fmupd 1 (root_inode\<lparr>Entries := Some (fmupd ''f'' 2 fmempty)\<rparr>) fmempty),
     nextIno := 3, fopen := fmupd 2 demo_open fmempty, budget_used := 4096\<rparr>"

definition demo_env :: "local_world env" where
  "demo_env = plain_env\<lparr>e_sha := tag_sha\<rparr>"

lemma demo_fs_ok: "mount_ok sha demo_fs"
proof -
  have c: "cache_ok sha (newChunkCache 0)"
    by (simp add: cache_ok_def cache_inv_def cache_shape_def addressed_def newChunkCache_def)
  have z: "fbyte sha 4096 [] demo_open pos = 0" if "3 \<le> pos" for pos
  proof (cases "pos div 4096 = 0")
    case True
    then have "pos mod 4096 = pos" by simp
    then show ?thesis using that True by (simp add: fbyte_def eff_def demo_open_def byte_at_def)
  qed (simp add: fbyte_def eff_def demo_open_def)
  have bare: "fbyte sha 4096 [] new_openFile pos = 0" for pos by (simp add: fbyte_def eff_def new_openFile_def byte_at_def)
  have f: "file_ok sha 4096 demo_inode demo_open"
    using z
    by (simp add: file_ok_def demo_inode_def bufs_ok_def apart_def trims_ok_def demo_open_def sum_caps_upd cap_at_def tail_clean_def bare)
  have r: "file_ok sha 4096 (root_inode\<lparr>Entries := e\<rparr>) new_openFile" for e
    by (simp add: file_ok_def root_inode_def bufs_ok_def apart_def trims_ok_def new_openFile_def fbyte_def eff_def tail_clean_def)
  show ?thesis
    using c f r unfolding mount_ok_def demo_fs_def
    by (auto simp: open_of_def fresh_fs_def demo_inode_def root_inode_def split: if_splits)
qed

section \<open>What a client sees\<close>

text \<open>
  C9. READ returns the file. A successful read answers the bytes of the file from the offset up to the
  count or the end, whichever comes first, and says whether it reached the end; it changes neither the
  files nor their contents. This holds whatever the store answered to the chunks the read fetched: a
  chunk that does not hash to its name fails the read.
\<close>

theorem Read_returns_contents:
  assumes "hash_ok sha" "mount_ok sha N" "readable N c h = Inr (i, n)"
    and "Read sha st c h ofs count N w = (Inr (data, eof), N', w')"
  shows "data = map (content sha N i) [ofs ..< min (ofs + count) (Size n)] \<and> (eof \<longleftrightarrow> Size n \<le> ofs + count) \<and>
    mount_ok sha N' \<and> inodes N' = inodes N \<and> content sha N' = content sha N"
  using Read_right [OF assms] Read_keeps [OF assms(4,1,2)] by blast

lemma demo_sel [simp]:
  "fmlookup (inodes demo_fs) 2 = Some demo_inode" "fopen demo_fs = fmupd 2 demo_open fmempty" "chunkSize demo_fs = 4096"
  "mode demo_fs = mountWritable" "maxFileSize demo_fs = 4096 * 2 ^ 20" "perm demo_fs = unix_Check" "budget_limit demo_fs = 0"
  by (simp_all add: demo_fs_def fresh_fs_def)

lemma demo_readable: "readable demo_fs superuser (encodeHandle 2 1) = Inr (2, demo_inode)"
  by (simp add: readable_Inr resolve_Inr demo_inode_def checkPerm_def unix_Check_def objectOf_def fileAccess_def Permits_def
      PermRead_def PermExec_def permAll_def PermWrite_def Let_def)

lemma demo_Read:
  "Read tag_sha (mount_store demo_env) superuser (encodeHandle 2 1) 1 5 demo_fs empty_world =
    (Inr ([2, 3], True), demo_fs, empty_world)"
  by (simp add: Read_def readBuffered_def demo_readable Let_def readEnd_def sub64_def copy_dirty_def range_idxs_def
      copy_chunk_def readSpan_def readRefs_def readRef_of_def demo_open_def demo_inode_def copy_at_def)

theorem Read_returns_contents_witness:
  "map (content tag_sha demo_fs 2) [1 ..< min (1 + 5) (Size demo_inode)] = [2, 3]"
  using Read_returns_contents [OF tag_sha_ok demo_fs_ok demo_readable demo_Read] by metis

lemma demo_Write:
  "\<exists>N' w'. Write demo_env plain_feed superuser (encodeHandle 2 1) 1 [9] Unstable demo_fs empty_world =
     Some (Inr (1, Unstable), N', w')"
proof -
  have r: "resolve demo_fs (encodeHandle 2 1) = Inr (2, demo_inode)" by (simp add: resolve_Inr demo_inode_def)
  have p: "checkPerm demo_fs OpWrite superuser demo_inode = None"
    by (simp add: demo_inode_def checkPerm_def unix_Check_def objectOf_def fileAccess_def Permits_def
        PermRead_def PermExec_def permAll_def PermWrite_def Let_def)
  have a: "await_alone demo_env plain_feed 0 demo_fs empty_world = Some (None, demo_fs, empty_world)"
    by (rule await_room) (simp add: budget_room_def)
  have l: "write_loop sha st [] 1 [9] 0 0 demo_open demo_fs w = (Inr 1, 0, put_buf 0 \<lparr>b_data = [1, 9, 3], b_cap = 4096\<rparr> demo_open, demo_fs, w)"
    for sha and st :: "local_world store_ops" and w
    by (simp add: write_loop.simps start_buf_def demo_open_def Let_def copy_at_def slice_def zero_extend_def)
  show ?thesis
    using r p a by (simp add: Write_def mutable_def Let_def write_admitted_def getOpen_def bufferWrite_def demo_inode_def l [unfolded One_nat_def])
qed

text \<open>
  C10. A read sees the write before it. After an unstable write of which \<open>m\<close> bytes were taken, a read of
  those \<open>m\<close> bytes that succeeds answers exactly them, whatever happened to the store in between.
\<close>

theorem read_after_write:
  assumes "hash_ok (e_sha E)" "mount_ok (e_sha E) N" "budget_room N" "length data < 2 ^ 32"
    and "Write E fd c h ofs data Unstable N w = Some (Inr (m, how), N1, w1)"
    and "readable N1 c' h = Inr (i, n)"
    and "Read (e_sha E) (mount_store E) c' h ofs m N1 w2 = (Inr (d, eof), N2, w3)"
  shows "d = take m data"
proof (cases "resolve N h")
  case (Inl e)
  then have "m = 0" using assms(5)
    by (auto simp: Write_def Let_def split: option.splits if_splits)
  moreover have "d = []"
  proof (cases "mount_ok (e_sha E) N1")
    case True
    then show ?thesis using Read_right [OF assms(1) _ assms(6,7)] \<open>m = 0\<close> by auto
  next
    case False
    have "N1 = N" using assms(5) Inl by (auto simp: Write_def Let_def split: option.splits if_splits)
    then show ?thesis using False assms(2) by simp
  qed
  ultimately show ?thesis by simp
next
  case (Inr p)
  obtain i0 n0 where p: "p = (i0, n0)" by (cases p)
  note W = Write_right [OF assms(1-3) Inr [unfolded p] assms(4,5)]
  have N1: "resolve N1 h = Inr (i, n)" using assms(6) by (simp add: readable_Inr)
  then have "i0 = i" using Inr p by (auto simp: resolve_Inr)
  have ok: "mount_ok (e_sha E) N1" and m: "m \<le> length data"
    and c: "content (e_sha E) N1 i = overwritten ofs data ofs (ofs + m) (content (e_sha E) N i)"
    and sz: "Size n = (if m = 0 then Size n0 else max (Size n0) (ofs + m))"
    using W N1 \<open>i0 = i\<close> by (auto simp: resolve_Inr)
  have d: "d = map (content (e_sha E) N1 i) [ofs ..< min (ofs + m) (Size n)]"
    using Read_right [OF assms(1) ok assms(6,7)] by blast
  show ?thesis
  proof (cases "m = 0")
    case False
    then have "min (ofs + m) (Size n) = ofs + m" using sz by simp
    moreover have "map (overwritten ofs data ofs (ofs + m) f) [ofs ..< ofs + m] = take m data" for f
      using m by (intro nth_equalityI) (auto simp: overwritten_def)
    ultimately show ?thesis using d c by simp
  qed (use d in auto)
qed

theorem read_after_write_witness:
  "\<exists>N1 w1. Write demo_env plain_feed superuser (encodeHandle 2 1) 1 [9] Unstable demo_fs empty_world =
       Some (Inr (1, Unstable), N1, w1) \<and>
     (\<forall>d eof N2 w2. Read tag_sha (mount_store demo_env) superuser (encodeHandle 2 1) 1 1 N1 w1 = (Inr (d, eof), N2, w2) \<longrightarrow> d = [9])"
proof -
  obtain N1 w1 where w: "Write demo_env plain_feed superuser (encodeHandle 2 1) 1 [9] Unstable demo_fs empty_world =
      Some (Inr (1, Unstable), N1, w1)" using demo_Write by blast
  have s: "e_sha demo_env = tag_sha" by (simp add: demo_env_def)
  have b: "budget_room demo_fs" by (simp add: budget_room_def)
  have "d = [9]" if rd: "Read tag_sha (mount_store demo_env) superuser (encodeHandle 2 1) 1 1 N1 w1 = (Inr (d, eof), N2, w2)" for d eof N2 w2
  proof -
    obtain i n where "readable N1 superuser (encodeHandle 2 1) = Inr (i, n)"
      using rd by (auto simp: Read_def split: sum.splits prod.splits)
    from read_after_write [where E = demo_env, unfolded s, OF tag_sha_ok demo_fs_ok b _ w this rd] show ?thesis by simp
  qed
  with w show ?thesis by blast
qed

text \<open>
  C11. SETATTR is all or nothing, and a new size cuts or extends with zeros. A call that fails, for want of
  permission of any one attribute, size limit or handle, changes no inode and no contents. One that
  succeeds answers the attributes the inode now has; with a size, the file keeps its bytes below it and
  reads as zeros above it, so that bytes a truncate removed never come back when the file grows; without
  one, the contents stay. No other file changes.
\<close>

theorem SetAttr_all_or_nothing:
  assumes "SetAttr clk c h sa N = (r, N')" "hash_ok sha" "mount_ok sha N"
  shows "mount_ok sha N' \<and>
    (case r of
       Inl e \<Rightarrow> inodes N' = inodes N \<and> content sha N' = content sha N
     | Inr a \<Rightarrow> \<exists>i n n'. resolve N h = Inr (i, n) \<and> fmlookup (inodes N') i = Some n' \<and> Gen n' = Gen n \<and>
         a = inode_attr n' (fsid N) \<and> Size n' = (case s_Size sa of Some sz \<Rightarrow> sz | None \<Rightarrow> Size n) \<and>
         (\<forall>pos. content sha N' i pos = (if s_Size sa = None \<or> pos < the (s_Size sa) then content sha N i pos else 0)) \<and>
         (\<forall>j. j \<noteq> i \<longrightarrow> fmlookup (inodes N') j = fmlookup (inodes N) j \<and> content sha N' j = content sha N j))"
  using assms by (rule SetAttr_right)

theorem SetAttr_all_or_nothing_witness:
  "mount_ok tag_sha (snd (SetAttr (\<lambda>_. 5) superuser (encodeHandle 2 1) (no_attrs\<lparr>s_Size := Some 1\<rparr>) demo_fs))"
  using SetAttr_all_or_nothing [OF surjective_pairing tag_sha_ok demo_fs_ok] by blast

text \<open>
  C12. Flushing never changes what a file contains. Whatever the store answers, the bytes, the sizes and
  the attributes of every file are the same after a flush of any files as before it, and the invariant
  of the data holds; a flush that fails has lost no buffer, and one that succeeds has left no buffer, no
  pending trim and no charge on the files it was given.
\<close>

theorem flush_keeps_contents:
  assumes "flushAll sha st ids N w = (r, N', w')" "hash_ok sha" "mount_ok sha N"
  shows "mount_ok sha N' \<and> content sha N' = content sha N \<and>
    (\<forall>j. map_option (\<lambda>n. n\<lparr>Chunks := []\<rparr>) (fmlookup (inodes N') j) = map_option (\<lambda>n. n\<lparr>Chunks := []\<rparr>) (fmlookup (inodes N) j)) \<and>
    (\<forall>j. open_of N' j = open_of N j \<or> clean (open_of N' j)) \<and>
    (r = None \<longrightarrow> (\<forall>i \<in> set ids. i |\<in>| fmdom (fopen N) \<longrightarrow> clean (open_of N' i)))"
  using flush_list_right [OF assms(1) [unfolded flushAll_def] assms(2,3)] unfolding same_files_def by blast

theorem flush_keeps_contents_witness:
  "\<exists>r N' w'. flushAll tag_sha (mount_store demo_env) [2] demo_fs empty_world = (r, N', w') \<and>
     content tag_sha N' = content tag_sha demo_fs"
proof -
  obtain r N' w' where f: "flushAll tag_sha (mount_store demo_env) [2] demo_fs empty_world = (r, N', w')" by (metis prod_cases3)
  with flush_keeps_contents [OF f tag_sha_ok demo_fs_ok] show ?thesis by blast
qed

end
