(* ===== verification/BucketSpec.thy ===== *)
theory BucketSpec
  imports FlushSpec LocalContract
begin

text \<open>
  What the mount's chunk traffic does to the bucket, over any store that keeps the contract
  \<open>object_store\<close>: chunks are only added, under their own hash, and every chunk an inode names is there.
\<close>

section \<open>Chunks in the bucket\<close>

text \<open>\<open>ob\<close> is what the bucket holds, \<open>objs w\<close> of a world \<open>w\<close>.\<close>

definition chunk_there :: "(string \<Rightarrow> bytes option) \<Rightarrow> string \<Rightarrow> bool" where
  "chunk_there ob h \<longleftrightarrow> ob (chunkPrefix @ h) \<noteq> None"

definition chunks_honest :: "(bytes \<Rightarrow> string) \<Rightarrow> (string \<Rightarrow> bytes option) \<Rightarrow> bool" where
  "chunks_honest sha ob \<longleftrightarrow> (\<forall>h d. ob (chunkPrefix @ h) = Some d \<longrightarrow> sha d = h)"

definition known_there :: "(string \<Rightarrow> bytes option) \<Rightarrow> fs \<Rightarrow> bool" where
  "known_there ob N \<longleftrightarrow> (\<forall>h. h |\<in>| knownChunks N \<longrightarrow> chunk_there ob h)"

definition refs_there :: "(string \<Rightarrow> bytes option) \<Rightarrow> chunkRef list \<Rightarrow> bool" where
  "refs_there ob chunks \<longleftrightarrow> (\<forall>ref \<in> set chunks. \<not> isHole ref \<longrightarrow> chunk_there ob (ch_Hash ref))"

definition files_there :: "(string \<Rightarrow> bytes option) \<Rightarrow> fs \<Rightarrow> bool" where
  "files_there ob N \<longleftrightarrow> (\<forall>i n. fmlookup (inodes N) i = Some n \<longrightarrow> refs_there ob (Chunks n))"

definition stored_ok :: "(bytes \<Rightarrow> string) \<Rightarrow> (string \<Rightarrow> bytes option) \<Rightarrow> fs \<Rightarrow> bool" where
  "stored_ok sha ob N \<longleftrightarrow> chunks_honest sha ob \<and> known_there ob N \<and> files_there ob N"

text \<open>Chunks are added or replaced, none removed; nothing else of the bucket changes.\<close>

definition chunks_only ::
  "(string \<Rightarrow> bytes option) \<Rightarrow> (string \<Rightarrow> string) \<Rightarrow> (string \<Rightarrow> bytes option) \<Rightarrow> (string \<Rightarrow> string) \<Rightarrow> bool" where
  "chunks_only ob et ob' et' \<longleftrightarrow>
     (\<forall>h. chunk_there ob h \<longrightarrow> chunk_there ob' h) \<and>
     (\<forall>k. \<not> starts_with chunkPrefix k \<longrightarrow> ob' k = ob k \<and> et' k = et k)"

lemma chunks_only_refl [simp]: "chunks_only ob et ob et"
  by (simp add: chunks_only_def)

lemma chunks_only_trans: "chunks_only a b c d \<Longrightarrow> chunks_only c d e f \<Longrightarrow> chunks_only a b e f"
  by (auto simp: chunks_only_def)

lemma refs_there_simps [simp]:
  "refs_there ob []"
  "refs_there ob (ref # refs) \<longleftrightarrow> (isHole ref \<or> chunk_there ob (ch_Hash ref)) \<and> refs_there ob refs"
  by (auto simp: refs_there_def)

lemma refs_there_mono: "chunks_only ob et ob' et' \<Longrightarrow> refs_there ob cs \<Longrightarrow> refs_there ob' cs"
  by (auto simp: chunks_only_def refs_there_def)

lemma files_there_mono: "chunks_only ob et ob' et' \<Longrightarrow> files_there ob N \<Longrightarrow> files_there ob' N"
  using refs_there_mono by (auto simp: files_there_def)

lemma known_there_mono: "chunks_only ob et ob' et' \<Longrightarrow> known_there ob N \<Longrightarrow> known_there ob' N"
  by (auto simp: chunks_only_def known_there_def)

lemma files_there_cong: "inodes N' = inodes N \<Longrightarrow> files_there ob N' = files_there ob N"
  by (simp add: files_there_def)

lemma starts_chunk [simp]: "starts_with chunkPrefix (chunkPrefix @ h)"
  by (simp add: starts_with_def)

lemma ref_ok_hash: "ref_ok sha cs ref \<Longrightarrow> \<not> isHole ref \<Longrightarrow> \<exists>d. ch_Hash ref = sha d"
  unfolding ref_ok_def by metis

context object_store
begin

lemma loadChunk_store:
  assumes "loadChunk sha st ref N w = (r, N', w')" "good w" "ref_ok sha cs ref" "\<And>d. key_ok (chunkPrefix @ sha d)"
    and "known_there (objs w) N"
  shows "good w' \<and> objs w' = objs w \<and> etag w' = etag w \<and> known_there (objs w) N'"
proof (cases "isHole ref \<or> (\<exists>d c. cache_get (ch_Hash ref) (cache N) = (Some d, c))")
  case True
  then show ?thesis using assms by (auto simp: loadChunk_def known_there_def split: if_splits)
next
  case False
  then obtain c1 where c: "\<not> isHole ref" "cache_get (ch_Hash ref) (cache N) = (None, c1)"
    by (metis old.prod.exhaust option.exhaust)
  then obtain d0 where "ch_Hash ref = sha d0" using ref_ok_hash assms(3) by blast
  then have k: "key_ok (chunkPrefix @ ch_Hash ref)" using assms(4) by simp
  obtain q w1 where g: "Get st (chunkPrefix @ ch_Hash ref) w = (q, w1)" by fastforce
  have l: "good w1 \<and> objs w1 = objs w \<and> etag w1 = etag w" "\<And>d. q = Inr d \<Longrightarrow> chunk_there (objs w) (ch_Hash ref)"
    using Get_law [OF assms(2) k g] by (auto simp: chunk_there_def)
  show ?thesis
    using assms(1,5) c g l
    by (auto simp: loadChunk_def Let_def known_there_def split: sum.splits if_splits)
qed

lemma putChunk_store:
  assumes "putChunk sha st d N w = (r, N', w')" "good w" "\<And>d. key_ok (chunkPrefix @ sha d)"
    and "known_there (objs w) N" "chunks_honest sha (objs w)"
  shows "good w' \<and> chunks_only (objs w) (etag w) (objs w') (etag w') \<and> known_there (objs w') N' \<and>
    chunks_honest sha (objs w') \<and> (\<forall>ref. r = Inr ref \<longrightarrow> chunk_there (objs w') (ch_Hash ref))"
proof (cases "sha d |\<in>| knownChunks N")
  case True
  then show ?thesis using assms by (auto simp: putChunk_def Let_def known_there_def)
next
  case False
  let ?k = "chunkPrefix @ sha d"
  obtain q w1 where h: "Head st ?k w = (q, w1)" by fastforce
  have H: "good w1" "objs w1 = objs w" "etag w1 = etag w" "\<And>i. q = Inr i \<Longrightarrow> chunk_there (objs w) (sha d)"
    using Head_law [OF assms(2,3) h] by (auto simp: chunk_there_def split: sum.splits)
  show ?thesis
  proof (cases q)
    case (Inr i)
    then show ?thesis using assms False h H by (auto simp: putChunk_def Let_def known_there_def)
  next
    case (Inl e)
    obtain p w2 where p: "Put st ?k d w1 = (p, w2)" by fastforce
    have P: "good w2" "\<And>k'. k' \<noteq> ?k \<Longrightarrow> objs w2 k' = objs w k' \<and> etag w2 k' = etag w k'"
        "objs w2 ?k = Some d \<or> p \<noteq> None \<and> objs w2 ?k = objs w ?k \<and> etag w2 ?k = etag w ?k"
      using Put_law [OF H(1) assms(3) p] H(2,3) by auto
    have only: "chunks_only (objs w) (etag w) (objs w2) (etag w2)"
      unfolding chunks_only_def chunk_there_def using P(2,3) by (metis option.distinct(1) starts_chunk)
    have honest: "chunks_honest sha (objs w2)"
      unfolding chunks_honest_def
    proof (intro allI impI)
      fix h' d' assume o: "objs w2 (chunkPrefix @ h') = Some d'"
      show "sha d' = h'"
      proof (cases "h' = sha d")
        case True
        then show ?thesis using o P(3) assms(5) unfolding chunks_honest_def by (metis option.inject)
      next
        case False
        then show ?thesis using o P(2) [of "chunkPrefix @ h'"] assms(5) by (simp add: chunks_honest_def)
      qed
    qed
    have there: "p = None \<Longrightarrow> chunk_there (objs w2) (sha d)" using P(3) by (auto simp: chunk_there_def)
    show ?thesis
      using assms(1) False h Inl p P(1) only honest there known_there_mono [OF only assms(4)]
      by (cases p) (auto simp: putChunk_def Let_def known_there_def)
  qed
qed

lemma apply_trims_store:
  assumes "apply_trims sha st m is N w = (r, N', w')" "good w" "\<And>d. key_ok (chunkPrefix @ sha d)"
    and "\<And>i. i \<in> set is \<Longrightarrow> ref_ok sha cs (tr_ref (the (fmlookup m i)))"
    and "known_there (objs w) N" "chunks_honest sha (objs w)"
  shows "good w' \<and> chunks_only (objs w) (etag w) (objs w') (etag w') \<and> known_there (objs w') N' \<and>
    chunks_honest sha (objs w') \<and> (\<forall>rs. r = Inr rs \<longrightarrow> refs_there (objs w') (map snd rs))"
  using assms
proof (induction "is" arbitrary: r N w)
  case (Cons i "is")
  let ?t = "the (fmlookup m i)"
  obtain d N1 w1 where d: "loadChunk sha st (tr_ref ?t) N w = (d, N1, w1)" by (metis prod_cases3)
  have L: "good w1" "objs w1 = objs w" "etag w1 = etag w" "known_there (objs w) N1"
    using loadChunk_store [OF d Cons.prems(2) Cons.prems(4) [of i] Cons.prems(3,5)] by auto
  show ?case
  proof (cases d)
    case (Inl e)
    then show ?thesis using Cons.prems d L by (auto simp: applyTrim_def)
  next
    case (Inr b)
    define k where "k = (if tr_to ?t < length b then tr_to ?t else length b)"
    obtain q N2 w2 where q: "putChunk sha st (take k b) N1 w1 = (q, N2, w2)" by (metis prod_cases3)
    have P: "good w2" "chunks_only (objs w) (etag w) (objs w2) (etag w2)" "known_there (objs w2) N2"
        "chunks_honest sha (objs w2)" "\<And>ref. q = Inr ref \<Longrightarrow> chunk_there (objs w2) (ch_Hash ref)"
      using putChunk_store [OF q L(1) Cons.prems(3)] L Cons.prems(6) by auto
    have a: "applyTrim sha st ?t N w = (q, N2, w2)" using d Inr q by (simp add: applyTrim_def Let_def k_def)
    show ?thesis
    proof (cases q)
      case (Inl e)
      then show ?thesis using Cons.prems(1) a P by auto
    next
      case (Inr ref)
      obtain q3 N3 w3 where q3: "apply_trims sha st m is N2 w2 = (q3, N3, w3)" by (metis prod_cases3)
      have e: "N3 = N'" "w3 = w'" "\<And>rs. r = Inr rs \<Longrightarrow> \<exists>rs'. q3 = Inr rs' \<and> rs = (i, ref) # rs'"
        using Cons.prems(1) a Inr q3 by (cases q3; auto)+
      have IH: "good w' \<and> chunks_only (objs w2) (etag w2) (objs w') (etag w') \<and> known_there (objs w') N' \<and>
          chunks_honest sha (objs w') \<and> (\<forall>rs. q3 = Inr rs \<longrightarrow> refs_there (objs w') (map snd rs))"
        using Cons.IH [OF q3 [unfolded e] P(1) Cons.prems(3)] Cons.prems(4) P(3,4) by simp
      moreover have "chunk_there (objs w') (ch_Hash ref)" using IH P(5) [OF Inr] by (simp add: chunks_only_def)
      ultimately show ?thesis using e(3) chunks_only_trans [OF P(2)] by auto
    qed
  qed
qed auto

lemma put_chunks_store:
  assumes "put_chunks sha st m is N w = (r, N', w')" "good w" "\<And>d. key_ok (chunkPrefix @ sha d)"
    and "known_there (objs w) N" "chunks_honest sha (objs w)"
  shows "good w' \<and> chunks_only (objs w) (etag w) (objs w') (etag w') \<and> known_there (objs w') N' \<and>
    chunks_honest sha (objs w') \<and> (\<forall>rs. r = Inr rs \<longrightarrow> refs_there (objs w') (map snd rs))"
  using assms
proof (induction "is" arbitrary: r N w)
  case (Cons i "is")
  obtain q N2 w2 where q: "putChunk sha st (b_data (the (fmlookup m i))) N w = (q, N2, w2)" by (metis prod_cases3)
  have P: "good w2" "chunks_only (objs w) (etag w) (objs w2) (etag w2)" "known_there (objs w2) N2"
      "chunks_honest sha (objs w2)" "\<And>ref. q = Inr ref \<Longrightarrow> chunk_there (objs w2) (ch_Hash ref)"
    using putChunk_store [OF q Cons.prems(2-5)] by auto
  show ?case
  proof (cases q)
    case (Inl e)
    then show ?thesis using Cons.prems(1) q P by auto
  next
    case (Inr ref)
    obtain q3 N3 w3 where q3: "put_chunks sha st m is N2 w2 = (q3, N3, w3)" by (metis prod_cases3)
    have e: "N3 = N'" "w3 = w'" "\<And>rs. r = Inr rs \<Longrightarrow> \<exists>rs'. q3 = Inr rs' \<and> rs = (i, ref) # rs'"
      using Cons.prems(1) q Inr q3 by (cases q3; auto)+
    note IH = Cons.IH [OF q3 [unfolded e] P(1) Cons.prems(3) P(3,4)]
    have "chunk_there (objs w') (ch_Hash ref)" using IH P(5) [OF Inr] by (simp add: chunks_only_def)
    then show ?thesis using IH e(3) chunks_only_trans [OF P(2)] by auto
  qed
qed auto

text \<open>A flush of a file of the mount: afterwards every chunk of the file is in the bucket.\<close>

lemma flushOpen_store:
  assumes "flushOpen sha st i x N w = (r, x', N', w')" "good w" "\<And>d. key_ok (chunkPrefix @ sha d)"
    and "fmlookup (inodes N) i = Some n" "hash_ok sha" "mount_ok sha N" "file_ok sha (chunkSize N) n x"
    and "stored_ok sha (objs w) N"
  shows "good w' \<and> chunks_only (objs w) (etag w) (objs w') (etag w') \<and> stored_ok sha (objs w') N'"
proof (cases "fmdom (of_dirty x) = {||} \<and> fmdom (of_pendingTrim x) = {||}")
  case True
  then show ?thesis using assms by (auto simp: flushOpen_def)
next
  case False
  note f = file_okD [OF assms(7)] and M = mount_okD [OF assms(6)]
  let ?ts = "sorted_list_of_fset (fmdom (of_pendingTrim x))" and ?ds = "sorted_list_of_fset (fmdom (of_dirty x))"
  obtain q1 N1 w1 where q1: "apply_trims sha st (of_pendingTrim x) ?ts N w = (q1, N1, w1)" by (metis prod_cases3)
  have t_ref: "ref_ok sha (chunkSize N) (tr_ref (the (fmlookup (of_pendingTrim x) j)))" if "j \<in> set ?ts" for j
    using that f(1,4) unfolding sorted_dom by (auto simp: trims_ok_def list_all_length)
  have S: "chunks_honest sha (objs w)" "known_there (objs w) N" "files_there (objs w) N"
    using assms(8) by (auto simp: stored_ok_def)
  note T = apply_trims_store [OF q1 assms(2,3) t_ref S(2,1)]
  have T1: "good w1" "chunks_only (objs w) (etag w) (objs w1) (etag w1)" "known_there (objs w1) N1" "chunks_honest sha (objs w1)"
    using T by auto
  obtain q2 N2 w2 where q2: "put_chunks sha st (of_dirty x) ?ds N1 w1 = (q2, N2, w2)" by (metis prod_cases3)
  note P = put_chunks_store [OF q2 T1(1) assms(3) T1(3,4)]
  have o2: "chunks_only (objs w) (etag w) (objs w2) (etag w2)" using chunks_only_trans [OF T1(2)] P by blast
  have fit: "\<And>j. j \<in> set ?ts \<Longrightarrow> length (cdata sha (tr_ref (the (fmlookup (of_pendingTrim x) j)))) \<le> chunkSize N"
    using ref_ok_cdata(2) [OF t_ref] assms(5) by (simp add: hash_ok_def)
  have s1: "same_ns N N1" "cache_ok sha (cache N1)"
    using apply_trims_right [OF q1 assms(5) M(4,5) fit M(2)] by auto
  have dfit: "\<And>j. j \<in> set ?ds \<Longrightarrow> length (b_data (the (fmlookup (of_dirty x) j))) \<le> chunkSize N1"
    using f(2) same_ns_sel(3) [OF s1(1)] unfolding sorted_dom by (auto simp: bufs_ok_def)
  have s2: "same_ns N1 N2" using put_chunks_right [OF q2 assms(5) s1(2) dfit] M(2) same_ns_sel(3) [OF s1(1)] by auto
  note S1 = same_ns_sel(1) [OF s1(1)] and S2 = same_ns_sel(1) [OF s2]
  have live: "i |\<in>| fmdom (inodes N1)" "i |\<in>| fmdom (inodes N2)" using assms(4) S1 S2 by (simp_all add: fmlookup_dom_iff)
  have ft: "files_there (objs w1) N1" "files_there (objs w2) N2"
    using files_there_mono [OF T1(2) S(3)] files_there_mono [OF o2 S(3)] files_there_cong S1 S2 by metis+
  show ?thesis
  proof (cases q1)
    case (Inl e)
    then show ?thesis using assms(1) False q1 T1 live ft by (auto simp: flushOpen_def dropIfGone_def stored_ok_def)
  next
    case q1': (Inr rs1)
    show ?thesis
    proof (cases q2)
      case (Inl e)
      then show ?thesis using assms(1) False q1 q1' q2 P o2 live ft by (auto simp: flushOpen_def dropIfGone_def stored_ok_def)
    next
      case (Inr rs2)
      let ?c = "set_uploaded (chunkSize N2) rs2 (set_trimmed rs1 (Chunks n))"
      have refs: "refs_there (objs w2) ?c"
        unfolding refs_there_def
      proof (intro ballI impI)
        fix ref assume r: "ref \<in> set ?c" "\<not> isHole ref"
        then have "ref \<in> set (Chunks n) \<or> ref \<in> snd ` set rs1 \<or> ref \<in> snd ` set rs2"
          using set_uploaded_set [of "chunkSize N2" rs2 "set_trimmed rs1 (Chunks n)"] set_trimmed_set [of rs1 "Chunks n"]
          by (auto simp: hole_def isHole_def)
        moreover have "refs_there (objs w2) (Chunks n)" using ft(2) assms(4) S1 S2 by (auto simp: files_there_def)
        moreover have "refs_there (objs w2) (map snd rs1)" using T q1' P refs_there_mono by blast
        moreover have "refs_there (objs w2) (map snd rs2)" using P Inr by blast
        ultimately show "chunk_there (objs w2) (ch_Hash ref)" using r(2) by (auto simp: refs_there_def)
      qed
      let ?N3 = "budget_release (of_bytes x) (markDirty (upd_inode i
          (\<lambda>n. n\<lparr>Chunks := set_uploaded (chunkSize N2) rs2 (set_trimmed rs1 (Chunks n))\<rparr>) N2))"
      have "N' = ?N3" "w' = w2" using assms(1) False q1 q1' q2 Inr live by (auto simp: flushOpen_def)
      moreover have "files_there (objs w2) ?N3"
        using ft(2) refs assms(4) S1 S2 by (auto simp: files_there_def fmlookup_upd_inode split: if_splits)
      moreover have "known_there (objs w2) ?N3" using P by (auto simp: known_there_def)
      ultimately show ?thesis using P o2 by (auto simp: stored_ok_def)
    qed
  qed
qed

lemma commitFile_store:
  assumes "commitFile sha st i N w = (r, N', w')" "good w" "\<And>d. key_ok (chunkPrefix @ sha d)"
    and "hash_ok sha" "mount_ok sha N" "stored_ok sha (objs w) N"
  shows "good w' \<and> chunks_only (objs w) (etag w) (objs w') (etag w') \<and> stored_ok sha (objs w') N'"
proof (cases "fmlookup (fopen N) i")
  case None
  then show ?thesis using assms by (auto simp: commitFile_def)
next
  case (Some x)
  note M = mount_okD [OF assms(5)]
  have "i |\<in>| fmdom (inodes N)" using M(8) fmdomI [OF Some] by blast
  then obtain n where n: "fmlookup (inodes N) i = Some n" by (auto simp: fmlookup_dom_iff)
  have fx: "file_ok sha (chunkSize N) n x" using M(7) [OF n] Some by (simp add: open_of_def)
  obtain r1 x1 N1 w1 where f: "flushOpen sha st i x N w = (r1, x1, N1, w1)" by (metis prod_cases4)
  have "N' = put_open i x1 N1" "w' = w1" using assms(1) Some f by (auto simp: commitFile_def)
  moreover have "stored_ok sha ob (put_open i x1 N1) = stored_ok sha ob N1" for ob
    by (simp add: stored_ok_def known_there_def files_there_def put_open_def)
  ultimately show ?thesis using flushOpen_store [OF f assms(2,3) n assms(4,5) fx assms(6)] by simp
qed

lemma flush_list_store:
  assumes "flush_list sha st is N w = (r, N', w')" "good w" "\<And>d. key_ok (chunkPrefix @ sha d)"
    and "hash_ok sha" "mount_ok sha N" "stored_ok sha (objs w) N"
  shows "good w' \<and> chunks_only (objs w) (etag w) (objs w') (etag w') \<and> stored_ok sha (objs w') N'"
  using assms
proof (induction "is" arbitrary: N w)
  case (Cons i "is")
  obtain r1 N1 w1 where c: "commitFile sha st i N w = (r1, N1, w1)" by (metis prod_cases3)
  have C: "good w1" "chunks_only (objs w) (etag w) (objs w1) (etag w1)" "stored_ok sha (objs w1) N1" "mount_ok sha N1"
    using commitFile_store [OF c Cons.prems(2-6)] commitFile_right [OF c Cons.prems(4,5)] by (auto simp: same_files_def)
  show ?case
  proof (cases r1)
    case (Some e)
    then show ?thesis using Cons.prems(1) c C by auto
  next
    case None
    then have "flush_list sha st is N1 w1 = (r, N', w')" using Cons.prems(1) c by simp
    from Cons.IH [OF this C(1) Cons.prems(3,4) C(4,3)] show ?thesis using chunks_only_trans [OF C(2)] by blast
  qed
qed simp

end

end
