(* ===== verification/Mounting.thy ===== *)
theory Mounting
  imports Commit
begin

text \<open>
  Opening a filesystem (\<open>New\<close> of \<open>fs.go\<close>, \<open>loadOrInit\<close> and \<open>initEmpty\<close> of \<open>commit.go\<close>), and pruning its
  superseded snapshots.
\<close>

section \<open>Mounting\<close>

definition empty_root :: "gotime \<Rightarrow> fs \<Rightarrow> inode" where
  "empty_root t N =
     \<lparr>ID = rootInodeID, Gen = 1, Type = TypeDir, Mode = 0x1ED, UID = ownerUID N, GID = ownerGID N, NLink = 2,
      Size = 0, ATimeNS = t, MTimeNS = t, CTimeNS = t, Entries = Some fmempty, Parent = 0, Chunks = [],
      Target = []\<rparr>"

text \<open>The clock's first reading is \<open>initEmpty\<close>'s own; the commit reads the later ones.\<close>

definition initEmpty :: "'w env \<Rightarrow> clock \<Rightarrow> bytes \<Rightarrow> fs \<Rightarrow> 'w \<Rightarrow> err option \<times> fs \<times> 'w" where
  "initEmpty E clk nonce N w =
     (let N1 = N\<lparr>inodes := fmupd rootInodeID (empty_root (clk 0) N) fmempty, nextIno := rootInodeID + 1,
                 epoch := 0, fsid := fsidFor (Name (mount_store E)), rootETag := [], rootSnapshot := []\<rparr>
      in case seal E (clk \<circ> Suc) nonce N1 of
           Inl e \<Rightarrow> (Some e, N1, w)
         | Inr s \<Rightarrow> commitSealed E (clk \<circ> Suc) s N1 w)"

definition table_of :: "snapshot \<Rightarrow> (u64, inode) fmap" where
  "table_of s = (case sn_Inodes s of None \<Rightarrow> fmempty | Some m \<Rightarrow> fmmap the m)"

definition adopt :: "rootPointer \<Rightarrow> string \<Rightarrow> snapshot \<Rightarrow> fs \<Rightarrow> fs" where
  "adopt rp etag snap N =
     N\<lparr>chunkSize := sn_ChunkSize snap, inodes := table_of snap, nextIno := sn_NextIno snap,
       epoch := sn_Epoch snap, fsid := rp_FSID rp, rootETag := etag, rootSnapshot := rp_Snapshot rp\<rparr>"

definition loadOrInit :: "'w env \<Rightarrow> clock \<Rightarrow> bytes \<Rightarrow> fs \<Rightarrow> 'w \<Rightarrow> err option \<times> fs \<times> 'w" where
  "loadOrInit E clk nonce N w =
     (case GetWithETag (mount_store E) rootKey w of
        (Inl e, w1) \<Rightarrow>
          if e = ErrNotFound
          then if mode N = mountReadOnly
               then (Some (EMsg (''blobfs: '' @ Name (e_store E) @
                       '' holds no filesystem, and a read-only mount does not create one'')), N, w1)
               else initEmpty E clk nonce N w1
          else (Some (EWrap ''read root pointer'' (EStore e)), N, w1)
      | (Inr (raw, etag), w1) \<Rightarrow>
          (case unjson_root (e_codec E) raw of
             Inl e \<Rightarrow> (Some (EWrap ''parse root pointer'' e), N, w1)
           | Inr rp \<Rightarrow>
               if rp_Version rp \<noteq> snapshotVersion
               then (Some (EMsg ''bucket holds another format version''), N, w1)
               else if etag = []
               then (Some (EMsg (''blobfs: '' @ Name (e_store E) @ '' returned no ETag for the root pointer'')), N, w1)
               else (case Get (mount_store E) (rp_Snapshot rp) w1 of
                       (Inl e, w2) \<Rightarrow> (Some (EWrap (''read snapshot '' @ rp_Snapshot rp) (EStore e)), N, w2)
                     | (Inr snapRaw, w2) \<Rightarrow>
                         (case decodeSnapshot (e_codec E) snapRaw of
                            Inl e \<Rightarrow> (Some (EWrap (''decode snapshot '' @ rp_Snapshot rp) e), N, w2)
                          | Inr snap \<Rightarrow>
                              (let N1 = adopt rp etag snap N in
                               if fmlookup (inodes N1) rootInodeID = None
                               then (Some (EMsg ''snapshot has no root inode''), N1, w2)
                               else (None, N1, w2))))))"

text \<open>
  \<open>Config\<close>, less the logger, which a nil one is replaced by the default of; \<open>cf_Store\<close> is \<open>None\<close> for the
  nil store. A duration is its nanoseconds.
\<close>

record 'w config =
  cf_Store :: "'w store_ops option"
  cf_ChunkSize :: nat
  cf_CacheBytes :: int
  cf_CommitInterval :: int
  cf_OwnerUID :: u32
  cf_OwnerGID :: u32
  cf_ReadOnly :: bool
  cf_SkipChunkVerification :: bool
  cf_SnapshotRetention :: int
  cf_MaxDirtyBytes :: int
  cf_AllowUnconditionalRoot :: bool

definition defaultSnapshotRetention :: int where "defaultSnapshotRetention = 10"
definition defaultMaxDirtyBytes :: int where "defaultMaxDirtyBytes = 256 * 2 ^ 20"

definition new_fs :: "'w config \<Rightarrow> string \<Rightarrow> bytes \<Rightarrow> fs" where
  "new_fs cfg host verf =
     \<lparr>chunkSize = (if cf_ChunkSize cfg = 0 then defaultChunkSize else cf_ChunkSize cfg),
      ownerUID = cf_OwnerUID cfg, ownerGID = cf_OwnerGID cfg, skipVerify = cf_SkipChunkVerification cfg,
      allowUnconditionalRoot = cf_AllowUnconditionalRoot cfg, maxFileSize = 0, perm = unix_Check,
      inodes = fmempty, nextIno = 0, epoch = 0, fsid = 0, rootETag = [], dirty = False, lastCommit = 0,
      changes = 0, mode = (if cf_ReadOnly cfg then mountReadOnly else mountWritable), rootKnowledge = rootKnown,
      rootSnapshot = [], doubtKey = [],
      retention = (if cf_SnapshotRetention cfg = 0 then defaultSnapshotRetention
                   else if cf_SnapshotRetention cfg < 0 then 0 else cf_SnapshotRetention cfg),
      pruning = None, fopen = fmempty, budget_used = 0,
      budget_limit = (if cf_MaxDirtyBytes cfg = 0 then defaultMaxDirtyBytes else cf_MaxDirtyBytes cfg),
      cache = newChunkCache (cf_CacheBytes cfg), writerID = host, knownChunks = {||}, writeVerf = verf\<rparr>"

text \<open>
  \<open>New\<close>. The environment supplies what is not the store's: \<open>host\<close> is the hostname and process id the
  writer is called by, \<open>verf\<close> and \<open>nonce\<close> the random bytes.
\<close>

definition New ::
  "'w config \<Rightarrow> (bytes \<Rightarrow> string) \<Rightarrow> codec \<Rightarrow> clock \<Rightarrow> string \<Rightarrow> bytes \<Rightarrow> bytes \<Rightarrow> 'w \<Rightarrow> (err + fs) \<times> 'w" where
  "New cfg sha cd clk host verf nonce w =
     (case cf_Store cfg of
        None \<Rightarrow> (Inl (EMsg ''blobfs: a store is required''), w)
      | Some st \<Rightarrow>
          let N = new_fs cfg host verf;
              E = \<lparr>e_store = st, e_readonly = cf_ReadOnly cfg, e_sha = sha, e_codec = cd,
                   e_range = (\<lambda>m. sorted_list_of_fset (fmdom m)), e_others = (\<lambda>_ x. x)\<rparr>
          in if chunkSize N < 4096 then (Inl (EMsg ''blobfs: chunk size is too small''), w)
             else if cf_CommitInterval cfg < 0 then (Inl (EMsg ''blobfs: commit interval is negative''), w)
             else (case loadOrInit E clk nonce N w of
                     (Some e, _, w1) \<Rightarrow> (Inl e, w1)
                   | (None, N1, w1) \<Rightarrow> (Inr (N1\<lparr>maxFileSize := chunkSize N1 * maxFileChunks\<rparr>), w1)))"

section \<open>Pruning\<close>

definition prunable :: "string list \<Rightarrow> string \<Rightarrow> int \<Rightarrow> string list" where
  "prunable keys current kp =
     (let k = nat kp;
          below = filter (\<lambda>x. x < current) keys
      in if length below \<le> k then [] else take (length below - k) (sort below))"

text \<open>
  The listing loop ends when a batch comes back short. A store that went on answering full batches
  would make it go on for ever, so it is a partial function: \<open>None\<close> is a pass that never ends.
\<close>

partial_function (option) list_snapshots ::
  "'w store_ops \<Rightarrow> string list \<Rightarrow> string \<Rightarrow> 'w \<Rightarrow> ((serr + string list) \<times> 'w) option" where
  "list_snapshots st keys after w =
     (case List st snapshotPrefix after 1000 w of
        (Inl e, w1) \<Rightarrow> Some (Inl e, w1)
      | (Inr batch, w1) \<Rightarrow>
          if batch = [] then Some (Inr keys, w1)
          else let keys1 = keys @ map oi_Key batch
               in if length batch < 1000 then Some (Inr keys1, w1)
                  else list_snapshots st keys1 (oi_Key (last batch)) w1)"

fun delete_all :: "'w store_ops \<Rightarrow> string list \<Rightarrow> 'w \<Rightarrow> 'w" where
  "delete_all st [] w = w"
| "delete_all st (k # ks) w = delete_all st ks (snd (Delete st k w))"

definition pruneSnapshots :: "'w store_ops \<Rightarrow> int \<Rightarrow> string \<Rightarrow> 'w \<Rightarrow> (err option \<times> 'w) option" where
  "pruneSnapshots st kp current w =
     (case list_snapshots st [] [] w of
        None \<Rightarrow> None
      | Some (Inl e, w1) \<Rightarrow> Some (Some (EWrap ''list snapshots'' (EStore e)), w1)
      | Some (Inr keys, w1) \<Rightarrow> Some (None, delete_all st (prunable keys current kp) w1))"

text \<open>The goroutine \<open>schedulePrune\<close> starts, from its first store call to the flag it clears.\<close>

definition prune_pass :: "'w env \<Rightarrow> fs \<Rightarrow> 'w \<Rightarrow> (fs \<times> 'w) option" where
  "prune_pass E N w =
     (case pruning N of
        None \<Rightarrow> Some (N, w)
      | Some current \<Rightarrow>
          map_option (\<lambda>(_, w1). (N\<lparr>pruning := None\<rparr>, w1))
            (pruneSnapshots (mount_store E) (retention N) current w))"

section \<open>Background commits\<close>

text \<open>
  \<open>Run\<close> and \<open>committer\<close>: what the ticker and the end of the context make them do. Each event carries the
  clock and the random bytes its commit reads. A failed commit is logged and the loop goes on.
\<close>

datatype run_event = Tick clock bytes | Cancelled clock bytes

fun committer :: "'w env \<Rightarrow> run_event list \<Rightarrow> fs \<Rightarrow> 'w \<Rightarrow> fs \<times> 'w" where
  "committer E [] N w = (N, w)"
| "committer E (Tick clk nonce # evs) N w =
     (case Sync E clk nonce N w of (_, N1, w1) \<Rightarrow> committer E evs N1 w1)"
| "committer E (Cancelled clk nonce # evs) N w =
     (case Sync E clk nonce N w of (_, N1, w1) \<Rightarrow> (N1, w1))"

definition Run :: "'w env \<Rightarrow> run_event list \<Rightarrow> fs \<Rightarrow> 'w \<Rightarrow> fs \<times> 'w" where
  "Run E evs N w = (if mode N = mountReadOnly then (N, w) else committer E evs N w)"

end
