(* ===== verification/CommitSpec.thy ===== *)
theory CommitSpec
  imports BucketSpec Mounting NamespaceInv
begin

text \<open>
  What a commit does to the bucket, over any store that keeps the contract \<open>object_store\<close>: the root
  pointer always names a snapshot that is there and decodes, whatever fails and whenever; and a commit
  that reports success has stored the namespace, so that the next mount finds it.
\<close>

section \<open>The codec\<close>

text \<open>
  What \<open>encoding/json\<close> and \<open>compress/gzip\<close> promise. A string that is plain, of ASCII characters, is
  encoded as it is; an empty map tagged \<open>omitempty\<close> is left out, and read back as nil.
\<close>

definition plain_string :: "string \<Rightarrow> bool" where
  "plain_string s \<longleftrightarrow> list_all (\<lambda>c. of_char c < (128 :: nat)) s"

definition plain_inode :: "inode \<Rightarrow> bool" where
  "plain_inode n \<longleftrightarrow> plain_string (Target n) \<and> (\<forall>ref \<in> set (Chunks n). plain_string (ch_Hash ref)) \<and>
     (\<forall>nm. nm |\<in>| fmdom (entries n) \<longrightarrow> plain_string nm)"

definition json_inode :: "inode \<Rightarrow> inode" where
  "json_inode n = n\<lparr>Entries := (if Entries n = Some fmempty then None else Entries n)\<rparr>"

definition json_image :: "snapshot \<Rightarrow> snapshot" where
  "json_image s = s\<lparr>sn_Inodes := map_option (fmmap (map_option json_inode)) (sn_Inodes s)\<rparr>"

definition plain_snapshot :: "snapshot \<Rightarrow> bool" where
  "plain_snapshot s \<longleftrightarrow> (\<forall>m i n. sn_Inodes s = Some m \<longrightarrow> fmlookup m i = Some (Some n) \<longrightarrow> plain_inode n)"

definition codec_ok :: "codec \<Rightarrow> bool" where
  "codec_ok cd \<longleftrightarrow>
     (\<forall>s b. plain_snapshot s \<longrightarrow> json_snapshot cd s = Inr b \<longrightarrow> unjson_snapshot cd b = Inr (json_image s)) \<and>
     (\<forall>b z. gzip cd b = Inr z \<longrightarrow> gunzip cd z = Inr b) \<and>
     (\<forall>rp b. plain_string (rp_Snapshot rp) \<longrightarrow> plain_string (rp_Writer rp) \<longrightarrow> json_root cd rp = Inr b \<longrightarrow>
        unjson_root cd b = Inr rp)"

section \<open>The bucket's namespace\<close>

definition names_root :: "codec \<Rightarrow> (string \<Rightarrow> bytes option) \<Rightarrow> string \<Rightarrow> bool" where
  "names_root cd ob key \<longleftrightarrow> (\<exists>raw rp. ob rootKey = Some raw \<and> unjson_root cd raw = Inr rp \<and>
     rp_Version rp = snapshotVersion \<and> rp_Snapshot rp = key)"

text \<open>The bucket can be mounted: its root pointer names a snapshot that is there and decodes to \<open>s\<close>.\<close>

definition bucket_at :: "(string \<Rightarrow> bool) \<Rightarrow> codec \<Rightarrow> (string \<Rightarrow> bytes option) \<Rightarrow> string \<Rightarrow> snapshot \<Rightarrow> bool" where
  "bucket_at kok cd ob key s \<longleftrightarrow> names_root cd ob key \<and> starts_with snapshotPrefix key \<and> kok key \<and>
     (\<exists>body. ob key = Some body \<and> decodeSnapshot cd body = Inr s)"

text \<open>The bucket holds the namespace of the mount.\<close>

definition holds_fs :: "snapshot \<Rightarrow> fs \<Rightarrow> bool" where
  "holds_fs s N \<longleftrightarrow> table_of s = inodes N \<and> sn_NextIno s = nextIno N \<and> sn_ChunkSize s = chunkSize N"

definition remountable :: "(string \<Rightarrow> bool) \<Rightarrow> codec \<Rightarrow> (string \<Rightarrow> bytes option) \<Rightarrow> fs \<Rightarrow> bool" where
  "remountable kok cd ob N \<longleftrightarrow> (\<exists>key s. bucket_at kok cd ob key s \<and> holds_fs s N)"

text \<open>The parts of the mount a snapshot must be able to carry: plain names, and maps exactly in directories.\<close>

definition plain_fs :: "fs \<Rightarrow> bool" where
  "plain_fs N \<longleftrightarrow> plain_string (writerID N) \<and> (\<forall>i n. fmlookup (inodes N) i = Some n \<longrightarrow>
     plain_string (Target n) \<and> (\<forall>nm. nm |\<in>| fmdom (entries n) \<longrightarrow> plain_string nm) \<and> (isDir n \<longleftrightarrow> Entries n \<noteq> None))"

text \<open>
  A snapshot is sound over a bucket: it holds a well-formed tree of files, with nothing buffered, whose
  data is right, whose bytes past the size are zero, whose names are plain and whose chunks are there.
\<close>

definition snap_ok :: "(bytes \<Rightarrow> string) \<Rightarrow> (string \<Rightarrow> bytes option) \<Rightarrow> snapshot \<Rightarrow> bool" where
  "snap_ok sha ob s \<longleftrightarrow> (\<exists>M. holds_fs s M \<and> fopen M = fmempty \<and> mount_ok sha M \<and> ns_wf M \<and> plain_fs M \<and> files_there ob M)"

lemma snap_ok_mono:
  "snap_ok sha ob s \<Longrightarrow> (\<And>h. chunk_there ob h \<Longrightarrow> chunk_there ob' h) \<Longrightarrow> snap_ok sha ob' s"
  unfolding snap_ok_def files_there_def refs_there_def by meson

text \<open>The bucket holds no filesystem, or one that can be mounted and is sound.\<close>

definition bucket_ok :: "(string \<Rightarrow> bool) \<Rightarrow> codec \<Rightarrow> (bytes \<Rightarrow> string) \<Rightarrow> (string \<Rightarrow> bytes option) \<Rightarrow> bool" where
  "bucket_ok kok cd sha ob \<longleftrightarrow> ob rootKey = None \<or> (\<exists>key s. bucket_at kok cd ob key s \<and> snap_ok sha ob s)"

lemma bucket_ok_cong:
  assumes "bucket_ok kok cd sha ob" "ob' rootKey = ob rootKey" "\<And>h. chunk_there ob h \<Longrightarrow> chunk_there ob' h"
    and "\<And>key s. bucket_at kok cd ob key s \<Longrightarrow> ob' key = ob key"
  shows "bucket_ok kok cd sha ob'"
proof (cases "ob rootKey")
  case (Some raw)
  then obtain key s where k: "bucket_at kok cd ob key s" "snap_ok sha ob s" using assms(1) by (auto simp: bucket_ok_def)
  have "ob' key = ob key" using assms(4) k(1) by blast
  then have "bucket_at kok cd ob' key s" using k(1) assms(2) by (simp add: bucket_at_def names_root_def)
  then show ?thesis using snap_ok_mono [OF k(2) assms(3)] by (auto simp: bucket_ok_def)
qed (use assms(2) in \<open>simp add: bucket_ok_def\<close>)

section \<open>A snapshot survives its encoding\<close>

lemma json_usable: "isDir n \<longleftrightarrow> Entries n \<noteq> None \<Longrightarrow> usable_entries (json_inode n) = n"
  by (cases "Entries n") (auto simp: usable_entries_def json_inode_def isDir_def)

lemma ref_ok_plain: "ref_ok sha cs ref \<Longrightarrow> (\<And>d. plain_string (sha d)) \<Longrightarrow> plain_string (ch_Hash ref)"
  by (auto simp: ref_ok_def isHole_def plain_string_def) metis

lemma snapshot_plain:
  assumes "mount_ok sha N" "plain_fs N" "\<And>d. plain_string (sha d)"
  shows "plain_snapshot (snapshot_of t N)"
proof -
  have "plain_inode n" if n: "fmlookup (inodes N) i = Some n" for i n
    using mount_okD(7) [OF assms(1) n] assms(2) n ref_ok_plain [OF _ assms(3)]
    by (auto simp: plain_inode_def plain_fs_def file_ok_def list_all_iff)
  then show ?thesis by (auto simp: plain_snapshot_def snapshot_of_def)
qed

lemma decode_encode:
  assumes "codec_ok cd" "plain_snapshot (snapshot_of t N)" "plain_fs N" "encodeSnapshot cd (snapshot_of t N) = Inr body"
  shows "\<exists>s. decodeSnapshot cd body = Inr s \<and> holds_fs s N"
proof -
  let ?s = "snapshot_of t N"
  from assms(4) obtain b where b: "json_snapshot cd ?s = Inr b" "gzip cd b = Inr body"
    by (auto simp: encodeSnapshot_def sum_bind_Inr)
  have "gunzip cd body = Inr b" "unjson_snapshot cd b = Inr (json_image ?s)"
    using assms(1,2) b by (auto simp: codec_ok_def)
  moreover have "\<not> nil_inodes (fmmap (map_option json_inode) (fmmap Some (inodes N)))"
    by (auto simp: nil_inodes_def)
  moreover have "fmmap the (fmmap (map_option usable_entries) (fmmap (map_option json_inode) (fmmap Some (inodes N)))) = inodes N"
  proof (rule fmap_ext)
    fix i
    show "fmlookup (fmmap the (fmmap (map_option usable_entries) (fmmap (map_option json_inode) (fmmap Some (inodes N))))) i =
        fmlookup (inodes N) i"
      using assms(3) json_usable by (cases "fmlookup (inodes N) i") (auto simp: plain_fs_def)
  qed
  ultimately show ?thesis
    by (simp add: decodeSnapshot_def json_image_def snapshot_of_def holds_fs_def table_of_def)
qed

section \<open>Keys\<close>

lemma digit_plain: "d < 16 \<Longrightarrow> of_char (digit_char d) < (128 :: nat)"
proof -
  assume "d < 16"
  then have "d \<in> set [0 ..< 16]" by simp
  moreover have "list_all (\<lambda>d. of_char (digit_char d) < (128 :: nat)) [0 ..< 16]" by (simp add: upt_rec digit_char_def)
  ultimately show ?thesis by (simp only: list_all_iff)
qed

lemma snapshotKey_plain: "plain_string (snapshotKey ep nonce)"
proof -
  have "unat x div 16 < 16" for x :: u8
  proof -
    have "unat x < 256" using unsigned_less [of x] by simp
    then show ?thesis by simp
  qed
  then have "plain_string (hex_string nonce)"
    by (auto simp: plain_string_def hex_string_def list_all_iff digit_plain)
  moreover have "plain_string (pad_dec 20 ep)"
    by (auto simp: plain_string_def pad_dec_def list_all_iff intro!: digit_plain)
  ultimately show ?thesis by (simp add: plain_string_def snapshotKey_def snapshotPrefix_def)
qed

lemma snapshotKey_prefix [simp]: "starts_with snapshotPrefix (snapshotKey ep nonce)"
  by (simp add: starts_with_def snapshotKey_def)

lemma digit_inj: "a < 16 \<Longrightarrow> b < 16 \<Longrightarrow> digit_char a = digit_char b \<Longrightarrow> a = b"
proof -
  have "distinct ''0123456789abcdef''" by simp
  moreover have "length ''0123456789abcdef'' = 16" by simp
  moreover assume "a < 16" "b < 16" "digit_char a = digit_char b"
  ultimately show ?thesis unfolding digit_char_def by (metis nth_eq_iff_index_eq)
qed

lemma hex_inj: "hex_string a = hex_string b \<Longrightarrow> a = b"
proof (induction a arbitrary: b)
  case Nil
  then show ?case by (cases b) (auto simp: hex_string_def)
next
  case (Cons x a)
  then obtain y b' where b: "b = y # b'" by (cases b) (auto simp: hex_string_def)
  have u: "unat z < 256" for z :: u8 using unsigned_less [of z] by simp
  have "unat x div 16 = unat y div 16" "unat x mod 16 = unat y mod 16" "hex_string a = hex_string b'"
    using Cons.prems u [of x] u [of y] unfolding b by (auto simp: hex_string_def intro!: digit_inj)
  then show ?case using Cons.IH b by (metis div_mult_mod_eq word_unat_eq_iff)
qed

lemma snapshotKey_inj: "snapshotKey ep m = snapshotKey ep' n \<Longrightarrow> m = n"
  by (rule hex_inj) (simp add: snapshotKey_def pad_dec_def append_eq_append_conv)

lemma prefix_hd: "starts_with (c # p) k \<Longrightarrow> hd k = c"
  by (cases k) (auto simp: starts_with_def)

lemma prefix_apart:
  "starts_with snapshotPrefix k \<Longrightarrow> \<not> starts_with chunkPrefix k"
  "starts_with snapshotPrefix k \<Longrightarrow> k \<noteq> rootKey" "\<not> starts_with chunkPrefix rootKey"
  unfolding snapshotPrefix_def chunkPrefix_def rootKey_def by (auto dest!: prefix_hd)

section \<open>The seal\<close>

text \<open>A sealed attempt is right: its root pointer names its key, and its body decodes to \<open>snap\<close>.\<close>

definition sealed_as :: "codec \<Rightarrow> sealedCommit \<Rightarrow> snapshot \<Rightarrow> bool" where
  "sealed_as cd s snap \<longleftrightarrow>
     (\<exists>rp. unjson_root cd (sc_rpBody s) = Inr rp \<and> rp_Version rp = snapshotVersion \<and> rp_Snapshot rp = sc_key s) \<and>
     decodeSnapshot cd (sc_body s) = Inr snap \<and> starts_with snapshotPrefix (sc_key s)"

lemma sealed_names: "sealed_as cd s snap \<Longrightarrow> ob rootKey = Some (sc_rpBody s) \<Longrightarrow> names_root cd ob (sc_key s)"
  by (auto simp: sealed_as_def names_root_def)

lemma seal_right:
  assumes "seal E clk nonce N = Inr s" "codec_ok (e_codec E)" "mount_ok (e_sha E) N" "plain_fs N"
    and "\<And>d. plain_string (e_sha E d)"
  shows "\<exists>snap. sealed_as (e_codec E) s snap \<and> holds_fs snap N \<and> sc_key s = snapshotKey (wrap64 (epoch N + 1)) nonce \<and>
    sc_changes s = changes N \<and> sc_epoch s = wrap64 (epoch N + 1) \<and> sc_rootETag s = rootETag N"
proof -
  from assms(1) obtain body rb where b: "encodeSnapshot (e_codec E) (snapshot_of (clk 0) N) = Inr body"
      "json_root (e_codec E) (root_of (clk 1) nonce N) = Inr rb"
      "s = \<lparr>sc_epoch = wrap64 (epoch N + 1), sc_key = snapshotKey (wrap64 (epoch N + 1)) nonce,
            sc_body = body, sc_rpBody = rb, sc_rootETag = rootETag N, sc_changes = changes N\<rparr>"
    by (auto simp: seal_def sum_bind_Inr split: if_splits sum.splits)
  have "unjson_root (e_codec E) rb = Inr (root_of (clk 1) nonce N)"
    using assms(2,4) b(2) snapshotKey_plain by (simp add: codec_ok_def root_of_def plain_fs_def)
  moreover obtain snap where "decodeSnapshot (e_codec E) body = Inr snap" "holds_fs snap N"
    using decode_encode [OF assms(2) snapshot_plain [OF assms(3-5)] assms(4) b(1)] by blast
  ultimately show ?thesis unfolding b(3) by (auto simp: sealed_as_def root_of_def)
qed

section \<open>The flight\<close>

fun reported_written :: "flight \<Rightarrow> bool" where
  "reported_written (FKnown _) = True"
| "reported_written (FDoubt None _ _) = True"
| "reported_written _ = False"

text \<open>
  What the swap and the calls after it leave in the bucket: either the root pointer is the attempt's, and
  its snapshot stands; or the root pointer is as it was, nothing was reported written, and the attempt's
  snapshot stands or was reclaimed, which only a root pointer that does not name it allows.
\<close>

definition swapped :: "codec \<Rightarrow> sealedCommit \<Rightarrow> (string \<Rightarrow> bytes option) \<Rightarrow> (string \<Rightarrow> bytes option) \<Rightarrow> flight \<Rightarrow> bool" where
  "swapped cd s ob ob' fl \<longleftrightarrow>
     (\<forall>k. k \<noteq> rootKey \<and> k \<noteq> sc_key s \<longrightarrow> ob' k = ob k) \<and>
     (ob' rootKey = Some (sc_rpBody s) \<and> ob' (sc_key s) = ob (sc_key s) \<or>
      ob' rootKey = ob rootKey \<and> \<not> reported_written fl \<and>
      (ob' (sc_key s) = ob (sc_key s) \<or> (\<exists>e. fl = FRefused e) \<and> \<not> names_root cd ob (sc_key s)))"

context object_store
begin

lemma reclaim_store:
  assumes "reclaim E s e w = (fl, w')" "mount_store E = st" "good w" "key_ok rootKey" "key_ok (sc_key s)"
    and "starts_with snapshotPrefix (sc_key s)"
  shows "good w' \<and> \<not> reported_written fl \<and> (\<forall>k. k \<noteq> sc_key s \<longrightarrow> objs w' k = objs w k) \<and>
    (objs w' (sc_key s) = objs w (sc_key s) \<or> (\<exists>e. fl = FRefused e) \<and> \<not> names_root (e_codec E) (objs w) (sc_key s))"
proof -
  obtain q w1 where g: "Get st rootKey w = (q, w1)" by fastforce
  obtain p w2 where d: "Delete st (sc_key s) w1 = (p, w2)" by fastforce
  have G: "good w1" "objs w1 = objs w" "\<And>raw. q = Inr raw \<Longrightarrow> objs w rootKey = Some raw"
      "q = Inl ErrNotFound \<Longrightarrow> objs w rootKey = None"
    using Get_law [OF assms(3,4) g] by auto
  have D: "good w2" "\<And>k. k \<noteq> sc_key s \<Longrightarrow> objs w2 k = objs w k"
    using Delete_law [OF G(1) assms(5) d] G(2) by auto
  show ?thesis
    using assms(1,2) g d G D
    by (auto simp: reclaim_def names_root_def split: sum.splits if_splits)
qed

lemma fallback_store:
  assumes "fallback E s w = (fl, w')" "mount_store E = st" "good w" "key_ok rootKey"
  shows "good w' \<and> (\<forall>k. k \<noteq> rootKey \<longrightarrow> objs w' k = objs w k) \<and>
    (objs w' rootKey = Some (sc_rpBody s) \<or> \<not> reported_written fl \<and> objs w' rootKey = objs w rootKey)"
proof -
  obtain q w1 where p: "Put st rootKey (sc_rpBody s) w = (q, w1)" by fastforce
  obtain r w2 where h: "Head st rootKey w1 = (r, w2)" by fastforce
  have P: "good w1" "\<And>k. k \<noteq> rootKey \<Longrightarrow> objs w1 k = objs w k"
      "objs w1 rootKey = Some (sc_rpBody s) \<or> q \<noteq> None \<and> objs w1 rootKey = objs w rootKey"
    using Put_law [OF assms(3,4) p] by auto
  have H: "good w2" "objs w2 = objs w1" using Head_law [OF P(1) assms(4) h] by auto
  show ?thesis
    using assms(1,2) p h P H by (cases q; cases r) (auto simp: fallback_def Let_def split: if_splits)
qed

lemma swap_root_store:
  assumes "swap_root E allowed s w = (fl, w')" "mount_store E = st" "good w" "key_ok rootKey" "key_ok (sc_key s)"
    and "sealed_as (e_codec E) s snap"
  shows "good w' \<and> swapped (e_codec E) s (objs w) (objs w') fl"
proof -
  let ?ob = "objs w"
  have pre: "starts_with snapshotPrefix (sc_key s)" "sc_key s \<noteq> rootKey"
    using assms(6) prefix_apart(2) by (auto simp: sealed_as_def)
  obtain r w1 where p: "PutIfMatch st rootKey (sc_rpBody s) (sc_rootETag s) w = (r, w1)" by fastforce
  have P: "good w1" "\<And>k. k \<noteq> rootKey \<Longrightarrow> objs w1 k = objs w k"
      "objs w1 rootKey = Some (sc_rpBody s) \<or> (\<exists>e. r = Inl e) \<and> objs w1 rootKey = ?ob rootKey"
    using PutIfMatch_law [OF assms(3,4) p] by auto
  show ?thesis
  proof (cases "r = Inl ErrUnsupported")
    case False
    then show ?thesis
      using assms(1,2) p P pre(2) by (cases r) (auto simp: swap_root_def swapped_def split: if_splits)
  next
    case uns: True
    show ?thesis
    proof (cases allowed)
      case False
      then have rc: "reclaim E s (EWrap ''swap root pointer: the store does not support conditional writes'' (EStore ErrUnsupported)) w1 = (fl, w')"
        using assms(1,2) p uns by (simp add: swap_root_def)
      note R = reclaim_store [OF rc assms(2) P(1) assms(4,5) pre(1)]
      have "objs w' rootKey = objs w1 rootKey" "objs w1 (sc_key s) = ?ob (sc_key s)" using R P(2) pre(2) by auto
      then show ?thesis
        using R P sealed_names [OF assms(6), of "objs w1"] pre(2)
        by (auto simp: swapped_def names_root_def)
    next
      case True
      then have "fallback E s w1 = (fl, w')" using assms(1,2) p uns by (simp add: swap_root_def)
      from fallback_store [OF this assms(2) P(1) assms(4)] show ?thesis
        using P pre(2) by (auto simp: swapped_def)
    qed
  qed
qed

end

section \<open>Safety\<close>

text \<open>
  What holds between the steps: the world is one of the store's, the mount's data is right, its chunks
  are in the bucket, its names can be encoded, its inode table is a well-formed tree, the budget is
  charged what the buffers hold, and the bucket holds nothing or a sound snapshot.
\<close>

definition safe_state ::
  "(string \<Rightarrow> bool) \<Rightarrow> codec \<Rightarrow> (bytes \<Rightarrow> string) \<Rightarrow> ('w \<Rightarrow> string \<Rightarrow> bytes option) \<Rightarrow> ('w \<Rightarrow> bool) \<Rightarrow> fs \<Rightarrow> 'w \<Rightarrow> bool" where
  "safe_state kok cd sha obj gd N w \<longleftrightarrow>
     gd w \<and> mount_ok sha N \<and> stored_ok sha (obj w) N \<and> plain_fs N \<and> ns_wf N \<and> budget_ok N \<and>
     bucket_ok kok cd sha (obj w)"

definition others_keep :: "'w env \<Rightarrow> (fs \<Rightarrow> 'w \<Rightarrow> bool) \<Rightarrow> bool" where
  "others_keep E P \<longleftrightarrow> (\<forall>k N w. P N w \<longrightarrow> (case e_others E k (N, w) of (N', w') \<Rightarrow> P N' w'))"

lemma others_keepD: "others_keep E P \<Longrightarrow> P N w \<Longrightarrow> e_others E k (N, w) = (N', w') \<Longrightarrow> P N' w'"
  unfolding others_keep_def by (metis case_prod_conv)

text \<open>No object is stored under a key made with the nonce.\<close>

definition fresh_nonce :: "bytes \<Rightarrow> (string \<Rightarrow> bytes option) \<Rightarrow> bool" where
  "fresh_nonce nonce ob \<longleftrightarrow> (\<forall>ep. ob (snapshotKey ep nonce) = None)"

text \<open>A change of the mount that leaves its data alone: the epoch, the root pointer's fields, the mode.\<close>

definition same_data :: "fs \<Rightarrow> fs \<Rightarrow> bool" where
  "same_data N N' \<longleftrightarrow> inodes N' = inodes N \<and> fopen N' = fopen N \<and> chunkSize N' = chunkSize N \<and>
     maxFileSize N' = maxFileSize N \<and> cache N' = cache N \<and> skipVerify N' = skipVerify N \<and>
     knownChunks N' = knownChunks N \<and> nextIno N' = nextIno N \<and> writerID N' = writerID N \<and>
     budget_used N' = budget_used N \<and> budget_limit N' = budget_limit N \<and> perm N' = perm N"

lemma same_data_safe: "same_data N N' \<Longrightarrow> safe_state kok cd sha obj gd N w \<Longrightarrow> safe_state kok cd sha obj gd N' w"
proof -
  assume d: "same_data N N'" and s: "safe_state kok cd sha obj gd N w"
  have "open_of N' = open_of N" using d by (intro open_of_cong) (simp add: same_data_def)
  moreover have "ns_wf N' = ns_wf N" using d by (intro ns_wf_cong) (simp_all add: same_data_def)
  ultimately show ?thesis using d s
    by (simp add: same_data_def safe_state_def mount_ok_def stored_ok_def known_there_def files_there_def plain_fs_def
        budget_ok_def)
qed

lemma same_data_content: "same_data N N' \<Longrightarrow> content sha N' = content sha N"
  using open_of_cong [of N' N] by (simp add: content_def fun_eq_iff same_data_def split: option.split)

lemma same_data_simps [simp]:
  "same_data N N" "same_data N (applyLocked t s e N)" "same_data N (N\<lparr>doubtKey := k\<rparr>)" "same_data N (fire_mode ev N)"
  "same_data N (N\<lparr>rootKnowledge := s'\<rparr>)" "same_data N (N\<lparr>rootETag := e, doubtKey := k\<rparr>)"
  "same_data N (N\<lparr>epoch := ep, rootETag := e, rootSnapshot := k', doubtKey := k\<rparr>)"
  by (auto simp: same_data_def applyLocked_def schedulePrune_def fire_mode_def split: option.split)

lemma same_data_trans: "same_data N N1 \<Longrightarrow> same_data N1 N2 \<Longrightarrow> same_data N N2"
  by (simp add: same_data_def)

lemma fire_root_data: "fire_root ev N = Some N' \<Longrightarrow> same_data N N'"
  by (auto simp: fire_root_def same_data_def)

lemma stored_ok_chunks:
  "(\<And>h. ob' (chunkPrefix @ h) = ob (chunkPrefix @ h)) \<Longrightarrow> stored_ok sha ob' N = stored_ok sha ob N"
  by (simp add: stored_ok_def chunks_honest_def known_there_def files_there_def refs_there_def chunk_there_def)

lemma names_root_unique: "names_root cd ob k \<Longrightarrow> names_root cd ob k' \<Longrightarrow> k = k'"
  by (auto simp: names_root_def)

lemma names_root_cong: "ob' rootKey = ob rootKey \<Longrightarrow> names_root cd ob' k = names_root cd ob k"
  by (simp add: names_root_def)

lemma bucket_at_cong:
  "bucket_at kok cd ob k s \<Longrightarrow> ob' rootKey = ob rootKey \<Longrightarrow> ob' k = ob k \<Longrightarrow> bucket_at kok cd ob' k s"
  using names_root_cong [of ob' ob cd k] by (simp add: bucket_at_def)

lemma fresh_not_named: "bucket_ok kok cd sha ob \<Longrightarrow> ob k = None \<Longrightarrow> \<not> names_root cd ob k"
proof
  assume b: "bucket_ok kok cd sha ob" and k: "ob k = None" and n: "names_root cd ob k"
  then obtain k' s where "bucket_at kok cd ob k' s" by (auto simp: bucket_ok_def names_root_def)
  then show False using k names_root_unique [OF n] by (auto simp: bucket_at_def)
qed

lemma swapped_chunks:
  assumes "swapped cd s ob ob' fl" "starts_with snapshotPrefix (sc_key s)"
  shows "ob' (chunkPrefix @ h) = ob (chunkPrefix @ h)"
proof -
  have "chunkPrefix @ h \<noteq> sc_key s" using prefix_apart(1) [OF assms(2)] starts_chunk by metis
  moreover have "chunkPrefix @ h \<noteq> rootKey" using prefix_apart(3) starts_chunk by metis
  ultimately show ?thesis using assms(1) by (simp add: swapped_def)
qed

lemma swapped_bucket_ok:
  assumes "swapped cd s ob ob' fl" "sealed_as cd s snap" "kok (sc_key s)" "ob (sc_key s) = Some (sc_body s)"
    and "bucket_ok kok cd sha ob" "\<not> names_root cd ob (sc_key s)" "snap_ok sha ob snap"
  shows "bucket_ok kok cd sha ob'"
proof -
  have pre: "starts_with snapshotPrefix (sc_key s)" using assms(2) by (simp add: sealed_as_def)
  have ch: "chunk_there ob h \<Longrightarrow> chunk_there ob' h" for h
    using swapped_chunks [OF assms(1) pre] by (simp add: chunk_there_def)
  show ?thesis
  proof (cases "ob' rootKey = Some (sc_rpBody s) \<and> ob' (sc_key s) = ob (sc_key s)")
    case True
    then have "bucket_at kok cd ob' (sc_key s) snap"
      using assms(2-4) sealed_names [OF assms(2)] by (auto simp: bucket_at_def sealed_as_def)
    then show ?thesis using snap_ok_mono [OF assms(7) ch] by (auto simp: bucket_ok_def)
  next
    case False
    then have r: "ob' rootKey = ob rootKey" using assms(1) by (auto simp: swapped_def)
    have "ob' key = ob key" if k: "bucket_at kok cd ob key s'" for key s'
    proof -
      have "key \<noteq> sc_key s" "key \<noteq> rootKey" using k assms(6) prefix_apart(2) by (auto simp: bucket_at_def)
      then show ?thesis using assms(1) by (simp add: swapped_def)
    qed
    from bucket_ok_cong [OF assms(5) r ch this] show ?thesis .
  qed
qed

lemma chunks_only_bucket_ok:
  assumes "chunks_only ob et ob' et'" "bucket_ok kok cd sha ob"
  shows "bucket_ok kok cd sha ob'"
  using assms(2)
proof (rule bucket_ok_cong)
  show "ob' rootKey = ob rootKey" using assms(1) prefix_apart(3) by (auto simp: chunks_only_def)
  show "chunk_there ob h \<Longrightarrow> chunk_there ob' h" for h using assms(1) by (simp add: chunks_only_def)
  show "bucket_at kok cd ob key s \<Longrightarrow> ob' key = ob key" for key s
    using assms(1) prefix_apart(1) by (auto simp: chunks_only_def bucket_at_def)
qed

text \<open>What a flush leaves of the mount beside its files; and that it marks the mount dirty if it changes one.\<close>

definition flush_frame :: "fs \<Rightarrow> fs \<Rightarrow> bool" where
  "flush_frame N N' \<longleftrightarrow> writerID N' = writerID N \<and> nextIno N' = nextIno N \<and> chunkSize N' = chunkSize N \<and> mode N' = mode N \<and>
     rootKnowledge N' = rootKnowledge N \<and> rootSnapshot N' = rootSnapshot N \<and> budget_limit N' = budget_limit N \<and> perm N' = perm N \<and>
     epoch N' = epoch N \<and> pruning N' = pruning N \<and> (dirty N \<longrightarrow> dirty N') \<and> (\<not> dirty N' \<longrightarrow> inodes N' = inodes N)"

lemma flush_frame_refl [simp]: "flush_frame N N"
  by (simp add: flush_frame_def)

lemma flush_frame_trans: "flush_frame N N1 \<Longrightarrow> flush_frame N1 N2 \<Longrightarrow> flush_frame N N2"
  by (auto simp: flush_frame_def)

lemma same_ns_frame: "same_ns N N' \<Longrightarrow> flush_frame N N'"
  by (auto simp: same_ns_def flush_frame_def)

lemma apply_trims_same_ns: "apply_trims sha st m is N w = (r, N', w') \<Longrightarrow> same_ns N N'"
proof (induction "is" arbitrary: r N w)
  case (Cons i "is")
  obtain d N1 w1 where d: "loadChunk sha st (tr_ref (the (fmlookup m i))) N w = (d, N1, w1)" by (metis prod_cases3)
  obtain q N2 w2 where q: "applyTrim sha st (the (fmlookup m i)) N w = (q, N2, w2)" by (metis prod_cases3)
  have "same_ns N N2" using q d loadChunk_same_ns [OF d]
    by (cases d) (auto simp: applyTrim_def Let_def intro: same_ns_trans putChunk_same_ns)
  moreover obtain q3 N3 w3 where "apply_trims sha st m is N2 w2 = (q3, N3, w3)" by (metis prod_cases3)
  ultimately show ?case using Cons q by (cases q; cases q3) (auto intro: same_ns_trans)
qed simp

lemma put_chunks_same_ns: "put_chunks sha st m is N w = (r, N', w') \<Longrightarrow> same_ns N N'"
proof (induction "is" arbitrary: r N w)
  case (Cons i "is")
  obtain q N2 w2 where q: "putChunk sha st (b_data (the (fmlookup m i))) N w = (q, N2, w2)" by (metis prod_cases3)
  have "same_ns N N2" using q by (rule putChunk_same_ns)
  moreover obtain q3 N3 w3 where "put_chunks sha st m is N2 w2 = (q3, N3, w3)" by (metis prod_cases3)
  ultimately show ?case using Cons q by (cases q; cases q3) (auto intro: same_ns_trans)
qed simp

lemma flush_frame_upds [simp]:
  "flush_frame N (budget_release k N)" "flush_frame N (put_open i x N)" "flush_frame N (markDirty (upd_inode i g N))"
  by (auto simp: flush_frame_def budget_release_def put_open_def markDirty_def upd_inode_def split: option.split)

lemma flushOpen_frame: "flushOpen sha st i x N w = (r, x', N', w') \<Longrightarrow> flush_frame N N'"
proof (cases "fmdom (of_dirty x) = {||} \<and> fmdom (of_pendingTrim x) = {||}")
  case False
  assume f: "flushOpen sha st i x N w = (r, x', N', w')"
  obtain q1 N1 w1 where q1: "apply_trims sha st (of_pendingTrim x) (sorted_list_of_fset (fmdom (of_pendingTrim x))) N w = (q1, N1, w1)"
    by (metis prod_cases3)
  obtain q2 N2 w2 where q2: "put_chunks sha st (of_dirty x) (sorted_list_of_fset (fmdom (of_dirty x))) N1 w1 = (q2, N2, w2)"
    by (metis prod_cases3)
  have s1: "flush_frame N N1" using apply_trims_same_ns [OF q1] by (rule same_ns_frame)
  then have s2: "flush_frame N N2" using same_ns_frame [OF put_chunks_same_ns [OF q2]] by (rule flush_frame_trans)
  have s3: "flush_frame N (budget_release k (markDirty (upd_inode i g N2)))" "flush_frame N (budget_release k N2)"
      "flush_frame N (budget_release k N1)" for k g
    using flush_frame_trans [OF s2] flush_frame_trans [OF s1] flush_frame_trans flush_frame_upds by metis+
  show ?thesis using f False q1 q2 s1 s2 s3
    by (cases q1; cases q2) (auto simp: flushOpen_def dropIfGone_def split: if_splits)
qed (auto simp: flushOpen_def)

lemma flush_list_frame: "flush_list sha st is N w = (r, N', w') \<Longrightarrow> flush_frame N N'"
proof (induction "is" arbitrary: N w)
  case (Cons i "is")
  obtain q N1 w1 where q: "commitFile sha st i N w = (q, N1, w1)" by (metis prod_cases3)
  have "flush_frame N N1"
  proof (cases "fmlookup (fopen N) i")
    case (Some x)
    obtain r1 x1 N2 w2 where f: "flushOpen sha st i x N w = (r1, x1, N2, w2)" by (metis prod_cases4)
    then have "N1 = put_open i x1 N2" using q Some by (simp add: commitFile_def)
    then show ?thesis using flush_frame_trans [OF flushOpen_frame [OF f] flush_frame_upds(2)] by simp
  qed (use q in \<open>auto simp: commitFile_def\<close>)
  then show ?case using Cons q by (cases q) (auto intro: flush_frame_trans)
qed simp

text \<open>Flushing leaves the tree as it was.\<close>

lemma same_files_inode:
  assumes "same_files sha N N'" "fmlookup (inodes N') i = Some n'"
  obtains n where "fmlookup (inodes N) i = Some n" "n' = n\<lparr>Chunks := Chunks n'\<rparr>"
proof -
  have "map_option (\<lambda>n. n\<lparr>Chunks := []\<rparr>) (fmlookup (inodes N) i) = Some (n'\<lparr>Chunks := []\<rparr>)"
    using assms unfolding same_files_def by (metis option.map(2))
  then obtain n where n: "fmlookup (inodes N) i = Some n" "n\<lparr>Chunks := []\<rparr> = n'\<lparr>Chunks := []\<rparr>" by auto
  from arg_cong [OF n(2), of "\<lambda>x. x\<lparr>Chunks := Chunks n'\<rparr>"] have "n' = n\<lparr>Chunks := Chunks n'\<rparr>" by simp
  with n(1) show ?thesis by (rule that)
qed

lemma same_files_dom: "same_files sha N N' \<Longrightarrow> fmlookup (inodes N') i = None \<longleftrightarrow> fmlookup (inodes N) i = None"
  unfolding same_files_def by (metis map_option_is_None)

text \<open>A change that leaves each inode its place in the tree.\<close>

definition same_place :: "inode \<Rightarrow> inode \<Rightarrow> bool" where
  "same_place n n' \<longleftrightarrow>
     ID n' = ID n \<and> Type n' = Type n \<and> Entries n' = Entries n \<and> NLink n' = NLink n \<and> Parent n' = Parent n \<and> Target n' = Target n"

lemma same_place_sel:
  "same_place n n' \<Longrightarrow> isDir n' = isDir n" "same_place n n' \<Longrightarrow> entries n' = entries n" "same_place n n' \<Longrightarrow> node_of n' = node_of n"
  by (simp_all add: same_place_def isDir_def entries_def node_of_def)

lemma same_place_look:
  assumes "rel_option same_place (fmlookup (inodes N) j) (fmlookup (inodes N') j)" "fmlookup (inodes N') j = Some n'"
  obtains n where "fmlookup (inodes N) j = Some n" "same_place n n'"
  using assms by (cases "fmlookup (inodes N) j") auto

lemma ns_wf_place:
  assumes "\<And>j. rel_option same_place (fmlookup (inodes N) j) (fmlookup (inodes N') j)"
    and "nextIno N' = nextIno N" "perm N' = perm N" "fmdom (fopen N') |\<subseteq>| fmdom (inodes N')" "ns_wf N"
  shows "ns_wf N'"
proof -
  have node: "tree_of N' = tree_of N"
  proof
    fix i
    show "tree_of N' i = tree_of N i"
      using assms(1) [of i] same_place_sel(3) by (cases rule: option.rel_cases) (auto simp: tree_of_def)
  qed
  show ?thesis
  proof (rule ns_wfI)
    fix i n' assume "fmlookup (inodes N') i = Some n'"
    then obtain n where n: "fmlookup (inodes N) i = Some n" "same_place n n'" by (rule same_place_look [OF assms(1)])
    have "inode_ok (tree_of N) i n" "i < nextIno N" using assms(5) n(1) by (auto simp: ns_wf_def)
    then show "inode_ok (tree_of N') i n'" "i < nextIno N'"
      using n(2) unfolding node assms(2) by (simp_all add: inode_ok_def same_place_def isDir_def)
  qed (use assms(3,4) ns_wfD(1,6,8) [OF assms(5)] in \<open>auto simp: node\<close>)
qed

lemma plain_fs_place:
  assumes "\<And>j. rel_option same_place (fmlookup (inodes N) j) (fmlookup (inodes N') j)" "writerID N' = writerID N" "plain_fs N"
  shows "plain_fs N'"
proof -
  have "plain_string (Target n') \<and> (\<forall>nm. nm |\<in>| fmdom (entries n') \<longrightarrow> plain_string nm) \<and> (isDir n' \<longleftrightarrow> Entries n' \<noteq> None)"
    if "fmlookup (inodes N') i = Some n'" for i n'
  proof -
    obtain n where n: "fmlookup (inodes N) i = Some n" "same_place n n'" using \<open>_ = Some n'\<close> by (rule same_place_look [OF assms(1)])
    then show ?thesis using assms(3) same_place_sel [OF n(2)] by (simp add: plain_fs_def same_place_def)
  qed
  then show ?thesis using assms(2,3) by (simp add: plain_fs_def)
qed

lemma same_files_place:
  assumes "same_files sha N N'"
  shows "rel_option same_place (fmlookup (inodes N) j) (fmlookup (inodes N') j)"
proof (cases "fmlookup (inodes N') j")
  case None
  then show ?thesis using same_files_dom [OF assms] by simp
next
  case (Some n')
  then obtain n where n: "fmlookup (inodes N) j = Some n" "n' = n\<lparr>Chunks := Chunks n'\<rparr>" by (rule same_files_inode [OF assms])
  have "same_place n n'" by (subst n(2)) (simp add: same_place_def)
  then show ?thesis using Some n(1) by simp
qed

lemma same_files_plain: "same_files sha N N' \<Longrightarrow> writerID N' = writerID N \<Longrightarrow> plain_fs N \<Longrightarrow> plain_fs N'"
  by (rule plain_fs_place [OF same_files_place])

lemma same_files_ns:
  assumes "same_files sha N N'" "nextIno N' = nextIno N" "perm N' = perm N" "ns_wf N"
  shows "ns_wf N'"
  using same_files_place [OF assms(1)] assms(2,3) _ assms(4)
proof (rule ns_wf_place)
  have "fmdom (inodes N') = fmdom (inodes N)"
    using same_files_dom [OF assms(1)] by (intro fset_eqI) (metis fmdom_notD fmdom_notI)
  then show "fmdom (fopen N') |\<subseteq>| fmdom (inodes N')" using assms(1) ns_wfD(7) [OF assms(4)] by (simp add: same_files_def)
qed

text \<open>What a snapshot taken of a mount with every file settled shows.\<close>

lemma settled_image:
  assumes "mount_ok sha N" "ns_wf N" "plain_fs N" "files_there ob N" "holds_fs s N" "\<And>i. \<not> of_unsettled (open_of N i)"
  shows "snap_ok sha ob s"
proof -
  let ?M = "N\<lparr>fopen := fmempty\<rparr>"
  have "file_ok sha (chunkSize N) n new_openFile" if n: "fmlookup (inodes N) i = Some n" for i n
    using mount_okD(7) [OF assms(1) n] assms(6) [of i]
    by (simp add: file_ok_def bufs_ok_def apart_def trims_ok_def tail_clean_def new_openFile_def)
  then have "mount_ok sha ?M" using assms(1) by (auto simp: mount_ok_def open_of_def)
  moreover have "tree_of ?M = tree_of N" by (simp add: tree_of_def)
  then have "ns_wf ?M" using assms(2) by (simp add: ns_wf_def)
  ultimately show ?thesis using assms(3-5)
    unfolding snap_ok_def by (intro exI [of _ ?M]) (simp add: holds_fs_def plain_fs_def files_there_def)
qed

text \<open>
  The keys and the codecs a commit of the environment uses, with the nonce it draws; and that ranging
  over a map visits each of its keys.
\<close>

definition commit_env :: "'w store_ops \<Rightarrow> (string \<Rightarrow> bool) \<Rightarrow> 'w env \<Rightarrow> bytes \<Rightarrow> bool" where
  "commit_env st kok E nonce \<longleftrightarrow>
     mount_store E = st \<and> hash_ok (e_sha E) \<and> (\<forall>d. plain_string (e_sha E d) \<and> kok (chunkPrefix @ e_sha E d)) \<and>
     kok rootKey \<and> (\<forall>ep. kok (snapshotKey ep nonce)) \<and> codec_ok (e_codec E) \<and>
     (\<forall>m. set (e_range E m) = fset (fmdom m))"

context object_store
begin

abbreviation safe :: "codec \<Rightarrow> (bytes \<Rightarrow> string) \<Rightarrow> fs \<Rightarrow> 'w \<Rightarrow> bool" where
  "safe cd sha \<equiv> safe_state key_ok cd sha objs good"

lemma safe_same_objs: "safe cd sha N w \<Longrightarrow> good w' \<Longrightarrow> objs w' = objs w \<Longrightarrow> safe cd sha N w'"
  by (simp add: safe_state_def)

text \<open>Predicates that a read of the store and a change beside the data leave true.\<close>

definition stable :: "(fs \<Rightarrow> 'w \<Rightarrow> bool) \<Rightarrow> bool" where
  "stable P \<longleftrightarrow> (\<forall>N w. P N w \<longrightarrow> good w) \<and> (\<forall>N w w'. P N w \<longrightarrow> good w' \<longrightarrow> objs w' = objs w \<longrightarrow> P N w') \<and>
     (\<forall>N N' w. same_data N N' \<longrightarrow> P N w \<longrightarrow> P N' w)"

lemma stable_safe: "stable (safe cd sha)"
  unfolding stable_def
proof (intro conjI allI impI)
  fix N w assume "safe cd sha N w" then show "good w" by (simp add: safe_state_def)
next
  fix N w w' assume "safe cd sha N w" "good w'" "objs w' = objs w" then show "safe cd sha N w'" by (rule safe_same_objs)
next
  fix N N' w assume "same_data N N'" "safe cd sha N w" then show "safe cd sha N' w" by (rule same_data_safe)
qed

lemma stableD:
  assumes "stable P"
  shows "P N w \<Longrightarrow> good w" "P N w \<Longrightarrow> good w' \<Longrightarrow> objs w' = objs w \<Longrightarrow> P N w'" "same_data N N' \<Longrightarrow> P N w \<Longrightarrow> P N' w"
  using assms unfolding stable_def by blast+

lemma stable_fresh: "stable P \<Longrightarrow> stable (\<lambda>N w. P N w \<and> fresh_nonce nonce (objs w))"
  unfolding stable_def by (intro conjI; metis)

lemma resolveRoot_store:
  assumes "resolveRoot E N w = (v, N', w')" "mount_store E = st" "key_ok rootKey" "stable P"
    and "P N w" "others_keep E P"
  shows "P N' w'"
proof -
  obtain r w1 where g: "GetWithETag st rootKey w = (r, w1)" by fastforce
  have w: "good w" using stableD(1) [OF assms(4,5)] .
  have "good w1 \<and> objs w1 = objs w" using GetWithETag_law [OF w assms(3) g] by blast
  then have "P N w1" using stableD(2) [OF assms(4,5)] by blast
  moreover obtain N1 w2 where o: "e_others E 3 (N, w1) = (N1, w2)" by fastforce
  ultimately have s: "P N1 w2" using others_keepD [OF assms(6)] by blast
  have "w' = w2 \<and> same_data N1 N'"
    using assms(1,2) g o
    by (auto simp: resolveRoot_def Let_def split: prod.splits probeVerdict.splits option.splits
        intro: same_data_trans [OF fire_root_data])
  then show ?thesis using stableD(3) [OF assms(4) _ s] by blast
qed

lemma put_snapshot_safe:
  assumes "Put st (sc_key s) (sc_body s) w = (r, w')" "key_ok (sc_key s)" "starts_with snapshotPrefix (sc_key s)"
    and "safe cd sha N w" "objs w (sc_key s) = None"
  shows "safe cd sha N w' \<and> objs w' rootKey = objs w rootKey \<and> (\<forall>h. objs w' (chunkPrefix @ h) = objs w (chunkPrefix @ h)) \<and> (r = None \<longrightarrow> objs w' (sc_key s) = Some (sc_body s))"
proof -
  have w: "good w" "bucket_ok key_ok cd sha (objs w)" using assms(4) by (auto simp: safe_state_def)
  have P: "good w'" "\<And>k. k \<noteq> sc_key s \<Longrightarrow> objs w' k = objs w k" "r = None \<Longrightarrow> objs w' (sc_key s) = Some (sc_body s)"
    using Put_law [OF w(1) assms(2,1)] by auto
  have r: "objs w' rootKey = objs w rootKey" using P(2) prefix_apart(2) [OF assms(3)] by metis
  have c: "objs w' (chunkPrefix @ h) = objs w (chunkPrefix @ h)" for h
    using P(2) prefix_apart(1) [OF assms(3)] starts_chunk by metis
  have "objs w' key = objs w key" if "bucket_at key_ok cd (objs w) key s'" for key s'
    using that assms(5) P(2) by (cases "key = sc_key s") (auto simp: bucket_at_def)
  from bucket_ok_cong [OF w(2) r _ this] have "bucket_ok key_ok cd sha (objs w')" by (simp add: chunk_there_def c)
  then show ?thesis using assms(4) P r c stored_ok_chunks [of "objs w'" "objs w", OF c] by (simp add: safe_state_def)
qed

lemma commitSealed_safe:
  assumes "commitSealed E clk s N0 w0 = (r, N', w')" "mount_store E = st" "key_ok rootKey" "key_ok (sc_key s)"
    and "sealed_as (e_codec E) s snap" "safe (e_codec E) sha N0 w0" "objs w0 (sc_key s) = None"
    and "others_keep E (safe (e_codec E) sha)" "snap_ok sha (objs w0) snap"
  shows "safe (e_codec E) sha N' w'"
proof -
  let ?P = "safe (e_codec E) sha"
  note keep = others_keepD [OF assms(8)]
  have pre: "starts_with snapshotPrefix (sc_key s)" using assms(5) by (simp add: sealed_as_def)
  obtain p w1 where p: "Put st (sc_key s) (sc_body s) w0 = (p, w1)" by fastforce
  note Q = put_snapshot_safe [OF p assms(4) pre assms(6,7)]
  show ?thesis
  proof (cases p)
    case (Some e)
    then show ?thesis using assms(1,2) p Q keep by (auto simp: commitSealed_def split: prod.splits)
  next
    case None
    obtain fl w2 where f: "swap_root E (fallbackAllowed N0) s w1 = (fl, w2)" by fastforce
    have g: "good w1" "bucket_ok key_ok (e_codec E) sha (objs w1)" using Q by (auto simp: safe_state_def)
    have sn: "snap_ok sha (objs w1) snap" using snap_ok_mono [OF assms(9)] Q by (simp add: chunk_there_def)
    have S: "good w2" "swapped (e_codec E) s (objs w1) (objs w2) fl"
      using swap_root_store [OF f assms(2) g(1) assms(3,4,5)] by auto
    have "\<not> names_root (e_codec E) (objs w0) (sc_key s)"
      using fresh_not_named assms(6,7) by (auto simp: safe_state_def)
    then have "\<not> names_root (e_codec E) (objs w1) (sc_key s)" using Q names_root_cong [of "objs w1" "objs w0"] by simp
    then have "bucket_ok key_ok (e_codec E) sha (objs w2)"
      using swapped_bucket_ok [OF S(2) assms(5) assms(4) _ g(2) _ sn] Q None by simp
    then have P2: "?P N0 w2"
      using Q S(1) stored_ok_chunks [of "objs w2" "objs w1", OF swapped_chunks [OF S(2) pre]] by (simp add: safe_state_def)
    obtain N w where o: "e_others E 2 (N0, w2) = (N, w)" by fastforce
    have P: "?P N w" using keep [OF P2 o] .
    have D: "?P N1 w" if "same_data N N1" for N1 using same_data_safe [OF that P] .
    show ?thesis
    proof (cases fl)
      case (FKnown et)
      then have "w' = w \<and> same_data N N'"
        using assms(1,2) p None f o by (auto simp: commitSealed_def split: option.splits intro: same_data_trans [OF fire_root_data])
      then show ?thesis using D by simp
    next
      case (FRefused e)
      then show ?thesis using assms(1,2) p None f o P by (simp add: commitSealed_def)
    next
      case (FDoubt e1 e2 e3)
      show ?thesis
      proof (cases "fire_root rootSwapUnknown (N\<lparr>doubtKey := sc_key s\<rparr>)")
        case fr: None
        then have "w' = w \<and> same_data N N'"
          using assms(1,2) p None f o FDoubt
          by (auto simp: commitSealed_def split: option.splits intro: same_data_trans [of _ "N\<lparr>doubtKey := []\<rparr>"])
        then show ?thesis using D by simp
      next
        case (Some N1)
        have "same_data N N1" using fire_root_data [OF Some] same_data_trans same_data_simps(3) by blast
        note P1 = D [OF this]
        obtain v N2 w3 where v: "resolveRoot E N1 w = (v, N2, w3)" by (metis prod_cases3)
        note P3 = resolveRoot_store [OF v assms(2,3) stable_safe P1 assms(8)]
        obtain N3 w4 where o4: "e_others E 4 (N2, w3) = (N3, w4)" by fastforce
        note P4 = keep [OF P3 o4]
        show ?thesis
          using assms(1,2) p None f o FDoubt Some v o4 P3 same_data_safe [OF same_data_simps(2) P4]
          by (cases v) (auto simp: commitSealed_def)
      qed
    qed
  qed
qed

text \<open>A flush keeps the state safe, and the nonce fresh.\<close>

lemma flush_safe:
  assumes "flush_list sha st is N w = (r, N', w')" "\<And>d. key_ok (chunkPrefix @ sha d)" "hash_ok sha"
    and "safe cd sha N w"
  shows "safe cd sha N' w'" "fresh_nonce nonce (objs w) \<Longrightarrow> fresh_nonce nonce (objs w')"
proof -
  have w: "good w" "mount_ok sha N" "stored_ok sha (objs w) N" "plain_fs N" "bucket_ok key_ok cd sha (objs w)"
      "ns_wf N" "budget_ok N"
    using assms(4) by (auto simp: safe_state_def)
  have F: "good w'" "chunks_only (objs w) (etag w) (objs w') (etag w')" "stored_ok sha (objs w') N'"
    using flush_list_store [OF assms(1) w(1) assms(2,3) w(2,3)] by auto
  have same: "same_files sha N N'" using flush_list_right [OF assms(1,3) w(2)] by blast
  have fr: "writerID N' = writerID N" "nextIno N' = nextIno N" "perm N' = perm N"
    using flush_list_frame [OF assms(1)] by (simp_all add: flush_frame_def)
  have "plain_fs N'" using same_files_plain [OF same fr(1) w(4)] .
  moreover have "bucket_ok key_ok cd sha (objs w')" using chunks_only_bucket_ok [OF F(2) w(5)] .
  moreover have "ns_wf N'" using same_files_ns [OF same fr(2,3) w(6)] .
  moreover have "budget_ok N'" using flush_list_budget [OF assms(1,3) w(2,7)] .
  ultimately show "safe cd sha N' w'" using F same by (simp add: safe_state_def same_files_def)
  show "fresh_nonce nonce (objs w')" if "fresh_nonce nonce (objs w)"
    using that F(2) prefix_apart(1) by (simp add: fresh_nonce_def chunks_only_def)
qed

lemma settleAll_settles:
  assumes "settleAll sha st' ids N w = (r, N', w')" "r = None" "hash_ok sha" "mount_ok sha N" "set ids = fset (fmdom (fopen N))"
  shows "\<not> of_unsettled (open_of N' i)"
proof -
  note F = flush_list_right [OF assms(1) [unfolded settleAll_def] assms(3,4)]
  show ?thesis
  proof (cases "of_unsettled (open_of N i)")
    case True
    then obtain x where "fmlookup (fopen N) i = Some x" "of_unsettled x"
      by (auto simp: open_of_def new_openFile_def split: option.splits)
    then have "clean (open_of N' i)" using F assms(2,5) by (auto simp: fmlookup_dom_iff)
    then show ?thesis by (simp add: clean_def)
  next
    case False
    then show ?thesis using F unfolding same_files_def clean_def by metis
  qed
qed

lemma commitPhase_safe:
  assumes "commitPhase E clk nonce N w = (r, N', w')" "commit_env st key_ok E nonce"
    and "safe (e_codec E) (e_sha E) N w" "fresh_nonce nonce (objs w)" "others_keep E (safe (e_codec E) (e_sha E))"
  shows "safe (e_codec E) (e_sha E) N' w'"
proof -
  note E = assms(2) [unfolded commit_env_def]
  obtain q N1 w1 where q: "settleAll (e_sha E) st (e_range E (fopen N)) N w = (q, N1, w1)" by (metis prod_cases3)
  have S: "safe (e_codec E) (e_sha E) N1 w1" "fresh_nonce nonce (objs w1)"
    using flush_safe [OF q [unfolded settleAll_def] _ _ assms(3)] E assms(4) by auto
  show ?thesis
  proof (cases q)
    case (Some e)
    then show ?thesis using assms(1) q S E by (simp add: commitPhase_def)
  next
    case None
    show ?thesis
    proof (cases "seal E clk nonce N1")
      case (Inl e)
      then show ?thesis using assms(1) q S E None by (simp add: commitPhase_def)
    next
      case (Inr s)
      then have c: "commitSealed E clk s N1 w1 = (r, N', w')" using assms(1) q E None by (simp add: commitPhase_def)
      obtain snap where s: "sealed_as (e_codec E) s snap" "sc_key s = snapshotKey (wrap64 (epoch N1 + 1)) nonce"
          "holds_fs snap N1"
        using seal_right [OF Inr] E S(1) by (auto simp: safe_state_def)
      have "\<not> of_unsettled (open_of N1 i)" for i
        using settleAll_settles [OF q None] E assms(3) by (auto simp: safe_state_def)
      then have "snap_ok (e_sha E) (objs w1) snap"
        using settled_image [of "e_sha E" N1 "objs w1" snap] S(1) s(3) by (auto simp: safe_state_def stored_ok_def)
      then show ?thesis
        using commitSealed_safe [OF c _ _ _ s(1) S(1) _ assms(5)] E S(2) by (simp add: s(2) fresh_nonce_def)
    qed
  qed
qed

lemma Sync_safe:
  assumes "Sync E clk nonce N w = (r, N', w')" "commit_env st key_ok E nonce"
    and "safe (e_codec E) (e_sha E) N w" "fresh_nonce nonce (objs w)" "others_keep E (safe (e_codec E) (e_sha E))"
    and "others_keep E (\<lambda>N w. safe (e_codec E) (e_sha E) N w \<and> fresh_nonce nonce (objs w))"
  shows "safe (e_codec E) (e_sha E) N' w'"
proof -
  let ?P = "safe (e_codec E) (e_sha E)" and ?F = "\<lambda>w. fresh_nonce nonce (objs w)"
  note E = assms(2) [unfolded commit_env_def]
  note keep = others_keepD [OF assms(6)]
  obtain q N1 w1 where q: "flushAll (e_sha E) st (e_range E (fopen N)) N w = (q, N1, w1)" by (metis prod_cases3)
  have S: "?P N1 w1" "?F w1" using flush_safe [OF q [unfolded flushAll_def] _ _ assms(3)] E assms(4) by auto
  obtain N2 w2 where o: "e_others E 0 (N1, w1) = (N2, w2)" by fastforce
  have P2: "?P N2 w2 \<and> ?F w2" using keep [OF _ o] S by blast
  have go: "?P N' w'" if "e_others E 1 (N3, w3) = (N4, w4)" "?P N3 w3 \<and> ?F w3" "commitPhase E clk nonce N4 w4 = (r, N', w')"
    for N3 w3 N4 w4
    using commitPhase_safe [OF that(3) assms(2) _ _ assms(5)] keep [OF that(2,1)] by blast
  obtain v N3 w3 where v: "resolveRoot E N2 w2 = (v, N3, w3)" by (metis prod_cases3)
  have P3: "?P N3 w3 \<and> ?F w3"
    using resolveRoot_store [OF v _ _ stable_fresh [OF stable_safe] P2 assms(6)] E by blast
  obtain N4 w4 where o4: "e_others E 1 (N3, w3) = (N4, w4)" by fastforce
  obtain N5 w5 where o5: "e_others E 1 (N2, w2) = (N5, w5)" by fastforce
  show ?thesis
  proof (cases q)
    case (Some e)
    then show ?thesis using assms(1) q S E by (simp add: Sync_def)
  next
    case None
    consider "\<not> dirty N2 \<or> mode N2 = mountDiverged" | "dirty N2" "mode N2 \<noteq> mountDiverged" "rootKnowledge N2 = rootInDoubt"
      | "dirty N2" "mode N2 \<noteq> mountDiverged" "rootKnowledge N2 \<noteq> rootInDoubt" by blast
    then show ?thesis
    proof cases
      case 1
      then show ?thesis using assms(1) q E None o P2 by (auto simp: Sync_def split: if_splits)
    next
      case 2
      then show ?thesis using assms(1) q E None o v o4 P3 go [OF o4 P3] by (cases v) (auto simp: Sync_def)
    next
      case 3
      then have "commitPhase E clk nonce N5 w5 = (r, N', w')" using assms(1) q E None o o5 by (simp add: Sync_def)
      then show ?thesis using go [OF o5 P2] by blast
    qed
  qed
qed

end

end
