(* ===== verification/DurableSpec.thy ===== *)
theory DurableSpec
  imports CommitSpec FileSpec
begin

text \<open>
  What a successful commit promises: the namespace and the contents it reports stored are what the next
  mount of the bucket finds.
\<close>

section \<open>A commit that runs alone\<close>

definition alone :: "'w env \<Rightarrow> bool" where
  "alone E \<longleftrightarrow> e_others E = (\<lambda>_ x. x)"

lemma classifyRoot_ours:
  assumes "classifyRoot cd r rs dk = (probeOurs, rp)"
  shows "\<exists>raw et. r = Inr (raw, et) \<and> unjson_root cd raw = Inr rp \<and> rp_Version rp = snapshotVersion \<and> rp_Snapshot rp = dk"
  using assms by (auto simp: classifyRoot_def split: sum.splits if_splits)

definition same_marks :: "fs \<Rightarrow> fs \<Rightarrow> bool" where
  "same_marks N N' \<longleftrightarrow> same_data N N' \<and> changes N' = changes N \<and> dirty N' = dirty N"

lemma same_marks_simps [simp]:
  "same_marks N N" "same_marks N (N\<lparr>doubtKey := k\<rparr>)" "same_marks N (fire_mode ev N)"
  "same_marks N (N\<lparr>rootKnowledge := s\<rparr>)" "same_marks N (N\<lparr>rootETag := e, doubtKey := k\<rparr>)"
  "same_marks N (N\<lparr>epoch := ep, rootETag := e, rootSnapshot := k', doubtKey := k\<rparr>)"
  by (auto simp: same_marks_def same_data_def fire_mode_def split: option.split)

lemma same_marks_trans: "same_marks N N1 \<Longrightarrow> same_marks N1 N2 \<Longrightarrow> same_marks N N2"
  by (auto simp: same_marks_def intro: same_data_trans)

lemma fire_root_marks: "fire_root ev N = Some N' \<Longrightarrow> same_marks N N' \<and> doubtKey N' = doubtKey N"
  by (auto simp: fire_root_def)

lemma applyLocked_clean: "changes N = sc_changes s \<Longrightarrow> \<not> dirty (applyLocked t s e N)"
  by (simp add: applyLocked_def schedulePrune_def)

lemma same_data_files:
  assumes "same_files sha N N1" "same_data N1 N2"
  shows "same_files sha N N2"
proof -
  have o: "open_of N2 = open_of N1" using assms(2) by (intro open_of_cong) (simp add: same_data_def)
  have "mount_ok sha N1 \<Longrightarrow> mount_ok sha N2" using assms(2) o by (simp add: same_data_def mount_ok_def)
  with o show ?thesis using assms same_data_content [OF assms(2)] by (simp add: same_files_def same_data_def)
qed

context object_store
begin

lemma resolveRoot_alone:
  assumes "resolveRoot E N w = (v, N', w')" "mount_store E = st" "key_ok rootKey" "alone E" "good w"
  shows "good w' \<and> objs w' = objs w \<and> same_marks N N' \<and> (v = probeOurs \<longrightarrow> names_root (e_codec E) (objs w) (doubtKey N))"
proof -
  obtain r w1 where g: "GetWithETag st rootKey w = (r, w1)" by fastforce
  have G: "good w1 \<and> objs w1 = objs w" "\<And>raw et. r = Inr (raw, et) \<Longrightarrow> objs w rootKey = Some raw"
    using GetWithETag_law [OF assms(5,3) g] by auto
  obtain v0 rp where c: "classifyRoot (e_codec E) r (rootSnapshot N) (doubtKey N) = (v0, rp)" by fastforce
  have e: "e_others E 3 (N, w1) = (N, w1)" using assms(4) by (simp add: alone_def)
  have "w' = w1" "same_marks N N'" "v = probeOurs \<Longrightarrow> v0 = probeOurs"
    using assms(1,2) g c e
    by (auto simp: resolveRoot_def Let_def split: probeVerdict.splits option.splits dest!: fire_root_marks
        intro: same_marks_trans)
  moreover have "names_root (e_codec E) (objs w) (doubtKey N)" if "v0 = probeOurs"
    using classifyRoot_ours [of "e_codec E" r "rootSnapshot N" "doubtKey N" rp] c that G(2) by (auto simp: names_root_def)
  ultimately show ?thesis using G(1) by blast
qed

lemma commitSealed_nil:
  assumes "commitSealed E clk s N0 w0 = (None, N', w')" "mount_store E = st" "key_ok rootKey" "key_ok (sc_key s)"
    and "sealed_as (e_codec E) s snap" "good w0" "alone E" "sc_changes s = changes N0"
  shows "good w' \<and> bucket_at key_ok (e_codec E) (objs w') (sc_key s) snap \<and> same_data N0 N' \<and> \<not> dirty N' \<and>
    (\<forall>h. objs w' (chunkPrefix @ h) = objs w0 (chunkPrefix @ h))"
proof -
  have o: "e_others E k p = p" for k p using assms(7) by (simp add: alone_def)
  have pre: "starts_with snapshotPrefix (sc_key s)" using assms(5) by (simp add: sealed_as_def)
  obtain p w1 where p: "Put st (sc_key s) (sc_body s) w0 = (p, w1)" by fastforce
  have p0: "p = None" using assms(1,2) p by (cases p) (auto simp: commitSealed_def split: prod.splits)
  have P: "good w1" "\<And>k. k \<noteq> sc_key s \<Longrightarrow> objs w1 k = objs w0 k" "objs w1 (sc_key s) = Some (sc_body s)"
    using Put_law [OF assms(6,4) p] p0 by auto
  obtain fl w2 where f: "swap_root E (fallbackAllowed N0) s w1 = (fl, w2)" by fastforce
  have S: "good w2" "swapped (e_codec E) s (objs w1) (objs w2) fl"
    using swap_root_store [OF f assms(2) P(1) assms(3,4,5)] by auto
  have chunks: "objs w2 (chunkPrefix @ h) = objs w0 (chunkPrefix @ h)" for h
    using swapped_chunks [OF S(2) pre] P(2) prefix_apart(1) [OF pre] starts_chunk by metis
  have named: "bucket_at key_ok (e_codec E) (objs w2) (sc_key s) snap"
    if "names_root (e_codec E) (objs w2) (sc_key s)" "\<forall>e. fl \<noteq> FRefused e"
    using that S(2) P(3) assms(4,5) by (auto simp: bucket_at_def sealed_as_def swapped_def)
  have written: "names_root (e_codec E) (objs w2) (sc_key s)" if "reported_written fl"
    using that S(2) sealed_names [OF assms(5), of "objs w2"] by (auto simp: swapped_def)
  have run: "(case fl of
       FKnown etg \<Rightarrow> (None, applyLocked (clk 2) s etg (case fire_root rootSwapOK N0 of Some N1 \<Rightarrow> N1 | None \<Rightarrow> N0), w2)
     | FRefused e \<Rightarrow> (Some e, N0, w2)
     | FDoubt oldErr unchangedErr failedErr \<Rightarrow>
         (case fire_root rootSwapUnknown (N0\<lparr>doubtKey := sc_key s\<rparr>) of
            None \<Rightarrow>
              (case oldErr of
                 Some e \<Rightarrow> (Some e, N0\<lparr>doubtKey := []\<rparr>, w2)
               | None \<Rightarrow> (None, applyLocked (clk 2) s [] (N0\<lparr>doubtKey := []\<rparr>), w2))
          | Some N1 \<Rightarrow>
              (case resolveRoot E N1 w2 of
                 (probeOurs, N2, w3) \<Rightarrow> (None, applyLocked (clk 2) s (rootETag N2) N2, w3)
               | (probeTheirs, N2, w3) \<Rightarrow> (Some errCommitConflict, N2, w3)
               | (probeUnchanged, N2, w3) \<Rightarrow> (Some unchangedErr, N2, w3)
               | (probeFailed, N2, w3) \<Rightarrow> (Some failedErr, N2, w3)))) = (None, N', w')"
    using assms(1,2) p p0 f unfolding commitSealed_def o prod.case by simp
  have appl: "same_data N0 (applyLocked t s e N1) \<and> \<not> dirty (applyLocked t s e N1)" if "same_marks N0 N1" for t e N1
    using that applyLocked_clean assms(8) same_data_trans [OF _ same_data_simps(2)] by (simp add: same_marks_def)
  show ?thesis
  proof (cases fl)
    case (FKnown et)
    let ?N1 = "case fire_root rootSwapOK N0 of Some N1 \<Rightarrow> N1 | None \<Rightarrow> N0"
    have "same_marks N0 ?N1" by (auto split: option.split dest: fire_root_marks)
    from appl [OF this, of "clk 2" et] show ?thesis
      using run FKnown named written S(1) chunks by auto
  next
    case (FDoubt e1 e2 e3)
    show ?thesis
    proof (cases "fire_root rootSwapUnknown (N0\<lparr>doubtKey := sc_key s\<rparr>)")
      case None
      then have "e1 = None" "N' = applyLocked (clk 2) s [] (N0\<lparr>doubtKey := []\<rparr>)" "w' = w2"
        using run FDoubt by (auto split: option.splits)
      then show ?thesis using appl [of "N0\<lparr>doubtKey := []\<rparr>"] FDoubt named written S(1) chunks by auto
    next
      case (Some N1)
      obtain v N2 w3 where v: "resolveRoot E N1 w2 = (v, N2, w3)" by (metis prod_cases3)
      have n1: "same_marks N0 N1" "doubtKey N1 = sc_key s"
        using fire_root_marks [OF Some] same_marks_trans [OF same_marks_simps(2)] by auto
      have v': "v = probeOurs" "N' = applyLocked (clk 2) s (rootETag N2) N2" "w' = w3"
        using run FDoubt Some v by (auto split: probeVerdict.splits)
      have R: "good w3" "objs w3 = objs w2" "same_marks N1 N2" "names_root (e_codec E) (objs w2) (sc_key s)"
        using resolveRoot_alone [OF v assms(2,3,7) S(1)] v'(1) n1(2) by auto
      then show ?thesis using appl [OF same_marks_trans [OF n1(1) R(3)]] v' named [OF R(4)] FDoubt chunks by auto
    qed
  qed (use run in auto)
qed

text \<open>What a commit that succeeds leaves: everything flushed, stored and named, and the files as they were.\<close>

definition durable :: "'w env \<Rightarrow> fs \<Rightarrow> fs \<Rightarrow> 'w \<Rightarrow> bool" where
  "durable E N N' w' \<longleftrightarrow>
     good w' \<and> stored_ok (e_sha E) (objs w') N' \<and> remountable key_ok (e_codec E) (objs w') N' \<and>
     same_files (e_sha E) N N' \<and> (\<forall>j. clean (open_of N' j)) \<and> \<not> dirty N' \<and>
     (budget_ok N \<longrightarrow> budget_ok N') \<and> budget_limit N' = budget_limit N"

lemma remountable_chunks:
  assumes "remountable kok cd ob N" "chunks_only ob et ob' et'"
    and "inodes N' = inodes N" "nextIno N' = nextIno N" "chunkSize N' = chunkSize N"
  shows "remountable kok cd ob' N'"
proof -
  obtain key s where k: "bucket_at kok cd ob key s" "holds_fs s N" using assms(1) by (auto simp: remountable_def)
  have "ob' rootKey = ob rootKey" "ob' key = ob key"
    using assms(2) prefix_apart(1,3) k(1) by (auto simp: chunks_only_def bucket_at_def)
  then have "bucket_at kok cd ob' key s" using bucket_at_cong [OF k(1), of ob'] by simp
  then show ?thesis using k(2) assms(3-5) by (auto simp: remountable_def holds_fs_def)
qed

lemma same_data_budget:
  assumes "same_data N N'"
  shows "budget_ok N' = budget_ok N" "budget_limit N' = budget_limit N"
proof -
  have "open_of N' = open_of N" using assms by (intro open_of_cong) (simp add: same_data_def)
  then show "budget_ok N' = budget_ok N" "budget_limit N' = budget_limit N"
    using assms by (simp_all add: budget_ok_def same_data_def)
qed

lemma commitPhase_nil:
  assumes "commitPhase E clk nonce N w = (None, N', w')" "commit_env st key_ok E nonce" "alone E"
    and "good w" "mount_ok (e_sha E) N" "stored_ok (e_sha E) (objs w) N" "plain_fs N" "\<And>j. clean (open_of N j)"
  shows "durable E N N' w'"
proof -
  note E = assms(2) [unfolded commit_env_def]
  have keys: "\<And>d. key_ok (chunkPrefix @ e_sha E d)" using E by blast
  obtain q N1 w1 where q: "settleAll (e_sha E) st (e_range E (fopen N)) N w = (q, N1, w1)" by (metis prod_cases3)
  note q' = q [unfolded settleAll_def]
  have hash: "hash_ok (e_sha E)" using E by blast
  have same: "same_files (e_sha E) N N1" using flush_list_right [OF q' hash assms(5)] by blast
  have st1: "good w1" "stored_ok (e_sha E) (objs w1) N1"
    using flush_list_store [OF q' assms(4) keys hash assms(5,6)] by auto
  have fr: "flush_frame N N1" using flush_list_frame [OF q'] .
  have plain: "plain_fs N1" using same_files_plain [OF same _ assms(7)] fr by (simp add: flush_frame_def)
  obtain s where s: "seal E clk nonce N1 = Inr s" "commitSealed E clk s N1 w1 = (None, N', w')"
    using assms(1) q E by (cases q; cases "seal E clk nonce N1") (auto simp: commitPhase_def)
  have M1: "mount_ok (e_sha E) N1" using same by (simp add: same_files_def)
  obtain snap where snap: "sealed_as (e_codec E) s snap" "holds_fs snap N1"
      "sc_key s = snapshotKey (wrap64 (epoch N1 + 1)) nonce" "sc_changes s = changes N1"
    using seal_right [OF s(1) _ M1 plain] E by auto
  have C: "good w'" "bucket_at key_ok (e_codec E) (objs w') (sc_key s) snap" "same_data N1 N'" "\<not> dirty N'"
      "\<And>h. objs w' (chunkPrefix @ h) = objs w1 (chunkPrefix @ h)"
    using commitSealed_nil [OF s(2) _ _ _ snap(1) st1(1) assms(3) snap(4)] E by (auto simp: snap(3))
  have "stored_ok (e_sha E) (objs w') N1" using stored_ok_chunks [of "objs w'" "objs w1", OF C(5)] st1(2) by blast
  then have "stored_ok (e_sha E) (objs w') N'"
    using C(3) by (simp add: stored_ok_def known_there_def files_there_def same_data_def)
  moreover have "holds_fs snap N'" using snap(2) C(3) by (simp add: holds_fs_def same_data_def)
  moreover have "clean (open_of N' j)" for j
  proof -
    have "open_of N' = open_of N1" using C(3) by (intro open_of_cong) (simp add: same_data_def)
    then show ?thesis using same assms(8) unfolding same_files_def by metis
  qed
  ultimately show ?thesis
    using C same_data_files [OF same C(3)] same_data_budget [OF C(3)] flush_list_budget [OF q' hash assms(5)] fr
    by (auto simp: durable_def remountable_def flush_frame_def)
qed

lemma durable_after:
  assumes "same_files (e_sha E) N N1" "budget_ok N \<longrightarrow> budget_ok N1" "budget_limit N1 = budget_limit N" "durable E N1 N2 w"
  shows "durable E N N2 w"
  using assms same_files_trans by (auto simp: durable_def)

lemma Sync_durable:
  assumes "Sync E clk nonce N w = (None, N', w')" "commit_env st key_ok E nonce" "alone E"
    and "good w" "mount_ok (e_sha E) N" "stored_ok (e_sha E) (objs w) N" "plain_fs N"
    and "dirty N \<or> remountable key_ok (e_codec E) (objs w) N"
  shows "durable E N N' w'"
proof -
  note E = assms(2) [unfolded commit_env_def]
  have keys: "\<And>d. key_ok (chunkPrefix @ e_sha E d)" using E by blast
  have hash: "hash_ok (e_sha E)" using E by blast
  have o: "e_others E k p = p" for k p using assms(3) by (simp add: alone_def)
  obtain q N1 w1 where q: "flushAll (e_sha E) st (e_range E (fopen N)) N w = (q, N1, w1)" by (metis prod_cases3)
  note q' = q [unfolded flushAll_def]
  have q0: "q = None" using assms(1) q E by (cases q) (auto simp: Sync_def split: prod.splits)
  have F: "same_files (e_sha E) N N1" "\<And>i. i |\<in>| fmdom (fopen N) \<Longrightarrow> clean (open_of N1 i)"
    using flush_list_right [OF q' hash assms(5)] q0 E by auto
  have cl: "clean (open_of N1 i)" for i
  proof (cases "i |\<in>| fmdom (fopen N)")
    case False
    then have "i |\<notin>| fmdom (fopen N1)" using F(1) by (simp add: same_files_def)
    then have "open_of N1 i = new_openFile" by (auto simp: open_of_def dest: fmdomI split: option.split)
    then show ?thesis by (simp add: clean_def new_openFile_def)
  qed (rule F(2))
  have st1: "good w1" "chunks_only (objs w) (etag w) (objs w1) (etag w1)" "stored_ok (e_sha E) (objs w1) N1"
    using flush_list_store [OF q' assms(4) keys hash assms(5,6)] by auto
  have fr: "flush_frame N N1" using flush_list_frame [OF q'] .
  have plain: "plain_fs N1" using same_files_plain [OF F(1) _ assms(7)] fr by (simp add: flush_frame_def)
  have M1: "mount_ok (e_sha E) N1" using F(1) by (simp add: same_files_def)
  have bud: "budget_ok N \<longrightarrow> budget_ok N1" "budget_limit N1 = budget_limit N"
    using flush_list_budget [OF q' hash assms(5)] fr by (auto simp: flush_frame_def)
  show ?thesis
  proof (cases "dirty N1")
    case False
    then have "inodes N1 = inodes N" "nextIno N1 = nextIno N" "chunkSize N1 = chunkSize N" "\<not> dirty N"
      using fr by (auto simp: flush_frame_def)
    then have "remountable key_ok (e_codec E) (objs w1) N1"
      using remountable_chunks [OF _ st1(2)] assms(8) by blast
    moreover have "N' = N1" "w' = w1" using assms(1) q q0 E False by (auto simp: Sync_def o)
    ultimately show ?thesis using F(1) cl st1 False bud by (simp add: durable_def)
  next
    case True
    show ?thesis
    proof (cases "rootKnowledge N1 = rootInDoubt")
      case False
      then have "commitPhase E clk nonce N1 w1 = (None, N', w')"
        using assms(1) q q0 E True by (auto simp: Sync_def o split: if_splits)
      from commitPhase_nil [OF this assms(2,3) st1(1) M1 st1(3) plain cl] show ?thesis by (rule durable_after [OF F(1) bud])
    next
      case doubt: True
      obtain v N2 w2 where v: "resolveRoot E N1 w1 = (v, N2, w2)" by (metis prod_cases3)
      have R: "good w2" "objs w2 = objs w1" "same_data N1 N2"
        using resolveRoot_alone [OF v _ _ assms(3) st1(1)] E by (auto simp: same_marks_def)
      have c: "commitPhase E clk nonce N2 w2 = (None, N', w')"
        using assms(1) q q0 E True doubt v by (cases v) (auto simp: Sync_def o split: if_splits)
      note same = same_data_files [OF F(1) R(3)]
      have "open_of N2 = open_of N1" using R(3) by (intro open_of_cong) (simp add: same_data_def)
      then have "\<And>j. clean (open_of N2 j)" using cl by simp
      moreover have "stored_ok (e_sha E) (objs w2) N2" "plain_fs N2"
        using st1(3) plain R by (auto simp: stored_ok_def known_there_def files_there_def same_data_def plain_fs_def)
      moreover have "mount_ok (e_sha E) N2" using same by (simp add: same_files_def)
      ultimately show ?thesis
        using commitPhase_nil [OF c assms(2,3) R(1)] durable_after [OF same] bud same_data_budget [OF R(3)] by simp
    qed
  qed
qed

text \<open>A mount of a bucket that can be mounted adopts what its root pointer names.\<close>

lemma loadOrInit_finds:
  assumes "loadOrInit E clk nonce M w = (None, M', w')" "mount_store E = st" "key_ok rootKey" "good w"
    and "bucket_at key_ok (e_codec E) (objs w) key s"
  shows "inodes M' = table_of s \<and> nextIno M' = sn_NextIno s \<and> chunkSize M' = sn_ChunkSize s \<and> fopen M' = fopen M"
proof -
  obtain raw rp body where b: "objs w rootKey = Some raw" "unjson_root (e_codec E) raw = Inr rp"
      "rp_Version rp = snapshotVersion" "rp_Snapshot rp = key" "key_ok key" "objs w key = Some body"
      "decodeSnapshot (e_codec E) body = Inr s"
    using assms(5) by (auto simp: bucket_at_def names_root_def)
  obtain r w1 where g: "GetWithETag st rootKey w = (r, w1)" by fastforce
  note G = GetWithETag_law [OF assms(4,3) g]
  obtain et where r: "r = Inr (raw, et)"
    using assms(1,2) g G b(1) by (cases r) (auto simp: loadOrInit_def split: if_splits)
  have w1: "good w1" "objs w1 = objs w" using G by auto
  obtain r2 w2 where g2: "Get st key w1 = (r2, w2)" by fastforce
  note G2 = Get_law [OF w1(1) b(5) g2]
  show ?thesis
    using assms(1,2) g r b g2 G2 w1(2)
    by (cases r2) (auto simp: loadOrInit_def adopt_def Let_def split: if_splits)
qed

end

section \<open>What the protocol promises\<close>

text \<open>
  C5. No commit can make the bucket unmountable. Over any store that keeps its contract, whatever calls
  fail, take effect without saying so or lose their reply, and whatever other callers do in the gaps
  where \<open>Sync\<close> holds no lock, as long as they keep it themselves: after \<open>Sync\<close>, whatever it returns, the
  bucket has no root pointer or one that names a snapshot that is there, decodes, and is sound: a
  well-formed tree of files whose chunks are all there, with zeros past each size. The mount's own data,
  tree and budget account are right, and every chunk an inode names is stored under its own hash.
\<close>

theorem Sync_keeps_bucket_mountable:
  assumes "object_store st objs etg good key_ok" "commit_env st key_ok E nonce"
    and "safe_state key_ok (e_codec E) (e_sha E) objs good N w" "fresh_nonce nonce (objs w)"
    and "others_keep E (safe_state key_ok (e_codec E) (e_sha E) objs good)"
    and "others_keep E (\<lambda>N w. safe_state key_ok (e_codec E) (e_sha E) objs good N w \<and> fresh_nonce nonce (objs w))"
    and "Sync E clk nonce N w = (r, N', w')"
  shows "safe_state key_ok (e_codec E) (e_sha E) objs good N' w'"
  using object_store.Sync_safe [OF assms(1,7,2-6)] .

text \<open>
  C8. A commit that succeeds is durable. When \<open>Sync\<close> returns nil, running alone on a mount that was dirty
  or that the bucket already held: the bucket's root pointer names a snapshot that decodes to the
  mount's inode table, every chunk of every file is in the bucket, no buffer or pending trim is left
  and the mount is clean; and no file's contents or attributes changed.
\<close>

theorem Sync_nil_is_durable:
  assumes "object_store st objs etg good key_ok" "commit_env st key_ok E nonce" "alone E"
    and "good w" "mount_ok (e_sha E) N" "stored_ok (e_sha E) (objs w) N" "plain_fs N"
    and "dirty N \<or> remountable key_ok (e_codec E) (objs w) N"
    and "Sync E clk nonce N w = (None, N', w')"
  shows "remountable key_ok (e_codec E) (objs w') N' \<and> stored_ok (e_sha E) (objs w') N' \<and>
    content (e_sha E) N' = content (e_sha E) N \<and> (\<forall>j. clean (open_of N' j)) \<and> \<not> dirty N' \<and>
    (\<forall>j. map_option (\<lambda>n. n\<lparr>Chunks := []\<rparr>) (fmlookup (inodes N') j) = map_option (\<lambda>n. n\<lparr>Chunks := []\<rparr>) (fmlookup (inodes N) j))"
proof -
  have "object_store.durable objs good key_ok E N N' w'"
    using object_store.Sync_durable [OF assms(1,9,2-8)] .
  then show ?thesis by (simp add: object_store.durable_def [OF assms(1)] same_files_def)
qed

lemma content_clean:
  assumes "\<And>j. clean (open_of N j)" "fopen M = fmempty" "inodes M = inodes N" "chunkSize M = chunkSize N"
  shows "content sha M = content sha N"
proof -
  have o: "open_of M j = new_openFile" for j using assms(2) by (simp add: open_of_def)
  have "fbyte sha cs refs (open_of N j) = fbyte sha cs refs new_openFile" for cs refs j
    using assms(1) [of j] by (simp add: fbyte_def eff_def clean_def new_openFile_def fun_eq_iff)
  then show ?thesis using assms(3,4) by (simp add: content_def fun_eq_iff o split: option.split)
qed

text \<open>
  C4. What \<open>Sync\<close> acknowledged survives a crash. After a \<open>Sync\<close> that returned nil, a new mount of the same
  bucket, at any later time at which the bucket still holds what it held, finds every inode the
  committing mount had, gives new inodes numbers no old one had, and reads every file as it was.
\<close>

theorem commit_survives_remount:
  assumes "object_store st objs etg good key_ok" "commit_env st key_ok E nonce" "alone E"
    and "good w" "mount_ok (e_sha E) N" "stored_ok (e_sha E) (objs w) N" "plain_fs N"
    and "dirty N \<or> remountable key_ok (e_codec E) (objs w) N"
    and "Sync E clk nonce N w = (None, N', w')"
    and "good v" "objs v = objs w'" "fopen M = fmempty"
    and "loadOrInit E clk2 nonce2 M v = (None, M', v')"
  shows "inodes M' = inodes N' \<and> nextIno M' = nextIno N' \<and> content (e_sha E) M' = content (e_sha E) N"
proof -
  have d: "object_store.durable objs good key_ok E N N' w'"
    using object_store.Sync_durable [OF assms(1,9,2-8)] .
  note D = d [unfolded object_store.durable_def [OF assms(1)]]
  obtain key s where k: "bucket_at key_ok (e_codec E) (objs v) key s" "holds_fs s N'"
    using D assms(11) by (auto simp: remountable_def)
  have E: "mount_store E = st" "key_ok rootKey" using assms(2) by (auto simp: commit_env_def)
  have l: "inodes M' = inodes N'" "nextIno M' = nextIno N'" "chunkSize M' = chunkSize N'" "fopen M' = fmempty"
    using object_store.loadOrInit_finds [OF assms(1,13) E assms(10) k(1)] k(2) assms(12) by (auto simp: holds_fs_def)
  have "content (e_sha E) M' = content (e_sha E) N'" using content_clean [OF _ l(4,1,3)] D by blast
  then show ?thesis using l D by (simp add: same_files_def)
qed

lemma clean_budget: "budget_ok N \<Longrightarrow> (\<And>j. clean (open_of N j)) \<Longrightarrow> budget_used N = 0"
  by (simp add: budget_ok_def clean_def)

text \<open>
  C23. A write that finds the budget full does not wait for ever. With no other caller and on a mount as
  above, \<open>await\<close> returns after at most one drain: with the context's error if that has ended, with the
  drain's error if it fails, and otherwise with the budget empty and every file as it was, so that the
  write goes on.
\<close>

theorem await_returns_after_one_drain:
  assumes "object_store st objs etg good key_ok" "commit_env st key_ok E (fd_nonce fd (Suc k))" "alone E"
    and "good w" "mount_ok (e_sha E) N" "stored_ok (e_sha E) (objs w) N" "plain_fs N"
    and "dirty N \<or> remountable key_ok (e_codec E) (objs w) N"
    and "budget_ok N" "0 < budget_limit N" "budget_limit N \<le> budget_used N"
  shows "\<exists>r N' w'. await_alone E fd k N w = Some (r, N', w') \<and>
    (r = None \<longleftrightarrow> fd_ctx fd (2 * k) = None \<and> fst (Sync E (fd_clk fd (Suc k)) (fd_nonce fd (Suc k)) N w) = None) \<and>
    (r = None \<longrightarrow> budget_used N' = 0 \<and> content (e_sha E) N' = content (e_sha E) N)"
proof (cases "fd_ctx fd (2 * k)")
  case (Some e)
  then show ?thesis using assms(10,11) by (subst await_alone.simps) simp
next
  case None
  obtain q N1 w1 where s: "Sync E (fd_clk fd (Suc k)) (fd_nonce fd (Suc k)) N w = (q, N1, w1)" by (metis prod_cases3)
  show ?thesis
  proof (cases q)
    case (Some e)
    then show ?thesis using None s assms(10,11) by (subst await_alone.simps) simp
  next
    case q: None
    have "object_store.durable objs good key_ok E N N1 w1"
      using object_store.Sync_durable [OF assms(1) s [unfolded q] assms(2-8)] .
    note D = this [unfolded object_store.durable_def [OF assms(1)]]
    have u: "budget_used N1 = 0" using clean_budget D assms(9) by blast
    then have "await_alone E fd (Suc k) N1 w1 = Some (None, N1, w1)"
      using D assms(10) by (intro await_room) (simp add: budget_room_def)
    then show ?thesis using None s q u D assms(10,11) by (subst await_alone.simps) (simp add: same_files_def)
  qed
qed

end
