(* ===== verification/PruneSpec.thy ===== *)
theory PruneSpec
  imports CommitSpec
begin

text \<open>
  Pruning: the listing ends, snapshot keys sort by epoch, and only superseded snapshots beyond the
  retention are removed.
\<close>

section \<open>The order of snapshot keys\<close>

lemma pad_dec_Suc: "pad_dec (Suc k) n = digit_char (n div 10 ^ k mod 10) # pad_dec k n"
proof -
  have "[0 ..< Suc k] = 0 # map Suc [0 ..< k]" by (simp add: map_Suc_upt upt_conv_Cons del: upt_Suc)
  then show ?thesis by (simp add: pad_dec_def comp_def del: upt_Suc)
qed

lemma digit_code: "d < 10 \<Longrightarrow> of_char (digit_char d) = (48 + d :: nat)"
proof -
  assume "d < 10"
  then have "d \<in> set [0 ..< 10]" by simp
  moreover have "list_all (\<lambda>d. of_char (digit_char d) = (48 + d :: nat)) [0 ..< 10]" by (simp add: upt_rec digit_char_def)
  ultimately show ?thesis by (simp only: list_all_iff)
qed

lemma digit_less: "a < b \<Longrightarrow> b < 10 \<Longrightarrow> digit_char a < digit_char b"
  by (simp add: less_char_def digit_code)

lemma pad_dec_less:
  "n mod 10 ^ k < m mod 10 ^ k \<Longrightarrow> pad_dec k n @ u < pad_dec k m @ v"
proof (induction k)
  case (Suc k)
  have split: "x mod 10 ^ Suc k = (x div 10 ^ k mod 10) * 10 ^ k + x mod 10 ^ k" for x :: nat
    by (metis mod_mult2_eq mult.commute power_Suc2)
  let ?a = "n div 10 ^ k mod 10" and ?b = "m div 10 ^ k mod 10"
  have r: "n mod 10 ^ k < 10 ^ k" "m mod 10 ^ k < 10 ^ k" by simp_all
  have "\<not> ?b < ?a"
  proof
    assume "?b < ?a"
    then have "?b * 10 ^ k + 10 ^ k \<le> ?a * 10 ^ k" by (metis Suc_leI add.commute mult_Suc mult_le_mono1)
    then show False using Suc.prems r(2) unfolding split by linarith
  qed
  then consider "?a < ?b" | "?a = ?b" "n mod 10 ^ k < m mod 10 ^ k"
    using Suc.prems unfolding split by (metis add_less_cancel_left linorder_neqE_nat)
  then show ?case
  proof cases
    case 1
    then show ?thesis using digit_less [OF 1] by (simp add: pad_dec_Suc)
  next
    case 2
    then show ?thesis using Suc.IH by (simp add: pad_dec_Suc)
  qed
qed simp

lemma prefix_less: "x < y \<Longrightarrow> p @ x < p @ y" for x y p :: string
  by (induction p) simp_all

lemma snapshotKey_mono: "ep < ep' \<Longrightarrow> ep' < 2 ^ 64 \<Longrightarrow> snapshotKey ep nonce < snapshotKey ep' nonce'"
  unfolding snapshotKey_def by (intro prefix_less pad_dec_less) simp

section \<open>Which keys are pruned\<close>

lemma prunable_split:
  assumes "distinct keys"
  shows "\<exists>kept. sort (filter (\<lambda>x. x < current) keys) = prunable keys current kp @ kept \<and>
    (prunable keys current kp \<noteq> [] \<longrightarrow> length kept = nat kp)"
proof -
  let ?b = "filter (\<lambda>x. x < current) keys"
  show ?thesis
  proof (cases "length ?b \<le> nat kp")
    case True
    then show ?thesis by (simp add: prunable_def Let_def)
  next
    case False
    let ?m = "length ?b - nat kp"
    have "sort ?b = take ?m (sort ?b) @ drop ?m (sort ?b)" by simp
    moreover have "length (drop ?m (sort ?b)) = nat kp" using False by simp
    moreover have "prunable keys current kp = take ?m (sort ?b)" using False by (simp add: prunable_def Let_def)
    ultimately show ?thesis by metis
  qed
qed

lemma prunable_newer:
  assumes "distinct keys" "k \<in> set (prunable keys current kp)"
  shows "k \<in> set keys" "k < current"
    "nat kp \<le> card {k' \<in> set keys. k < k' \<and> k' < current \<and> k' \<notin> set (prunable keys current kp)}"
proof -
  obtain kept where s: "sort (filter (\<lambda>x. x < current) keys) = prunable keys current kp @ kept" "length kept = nat kp"
    using prunable_split [OF assms(1)] assms(2) by fastforce
  let ?P = "prunable keys current kp"
  have set: "set ?P \<union> set kept = {x \<in> set keys. x < current}"
    using arg_cong [OF s(1), of set] by auto
  have dist: "distinct (?P @ kept)" using assms(1) unfolding s(1) [symmetric] by simp
  have sorted: "sorted (?P @ kept)" unfolding s(1) [symmetric] by simp
  show "k \<in> set keys" "k < current" using set assms(2) by auto
  have "set kept \<subseteq> {k' \<in> set keys. k < k' \<and> k' < current \<and> k' \<notin> set ?P}"
  proof
    fix x assume x: "x \<in> set kept"
    then have "x \<in> set keys" "x < current" using set by auto
    moreover have "k \<le> x" using sorted assms(2) x by (simp add: sorted_append)
    moreover have "x \<notin> set ?P" using dist x by auto
    moreover have "k \<noteq> x" using calculation(4) assms(2) by blast
    ultimately show "x \<in> {k' \<in> set keys. k < k' \<and> k' < current \<and> k' \<notin> set ?P}" by (simp add: order.strict_iff_order)
  qed
  moreover have "card (set kept) = nat kp" using dist s(2) by (simp add: distinct_card)
  ultimately show "nat kp \<le> card {k' \<in> set keys. k < k' \<and> k' < current \<and> k' \<notin> set ?P}"
    using card_mono [of "{k' \<in> set keys. k < k' \<and> k' < current \<and> k' \<notin> set ?P}" "set kept"] by simp
qed

section \<open>The pass\<close>

text \<open>The snapshots the bucket holds after a key.\<close>

definition snapshots_after :: "(string \<Rightarrow> bytes option) \<Rightarrow> string \<Rightarrow> string set" where
  "snapshots_after ob a = {k. ob k \<noteq> None \<and> starts_with snapshotPrefix k \<and> a < k}"

lemma sorted_last: "sorted xs \<Longrightarrow> x \<in> set xs \<Longrightarrow> x \<le> List.last xs" for x :: string
  by (induction xs) auto

context object_store
begin

text \<open>The listing ends, whatever the store answers, and lists no snapshot twice and nothing else.\<close>

lemma page_rest:
  assumes ks: "sorted_wrt (<) ks" "set ks = snapshots_after ob a" and t: "take m ks \<noteq> []"
  shows "snapshots_after ob (List.last (take m ks)) = set (drop m ks) \<and> set (drop m ks) \<subset> set ks"
proof -
  let ?t = "take m ks" and ?d = "drop m ks" and ?last = "List.last (take m ks)"
  have srt: "\<forall>x \<in> set ?t. \<forall>y \<in> set ?d. x < y" "sorted_wrt (<) ?t"
    using ks(1) sorted_wrt_append [of "(<)" ?t ?d] by auto
  have top: "x \<le> ?last" if "x \<in> set ?t" for x
    using sorted_last [OF strict_sorted_imp_sorted [OF srt(2)] that] .
  have mem: "?last \<in> set ?t" using t by simp
  have in_ks: "?last \<in> set ks" using mem by (rule in_set_takeD)
  have "x \<in> snapshots_after ob ?last \<longleftrightarrow> x \<in> set ks \<and> ?last < x" for x
    using in_ks ks(2) unfolding snapshots_after_def by (auto intro: order.strict_trans)
  moreover have "x \<in> set ks \<and> ?last < x \<longleftrightarrow> x \<in> set ?d" for x
    using top srt(1) mem set_append [of ?t ?d] by (auto simp: not_less [symmetric] simp del: set_append)
  ultimately have "snapshots_after ob ?last = set ?d" by blast
  moreover have "?last \<notin> set ?d" using srt(1) mem by auto
  ultimately show ?thesis using in_ks set_drop_subset [of m ks] by blast
qed

lemma list_snapshots_ends:
  "good w \<Longrightarrow> \<exists>r w'. list_snapshots st keys a w = Some (r, w') \<and> good w' \<and> objs w' = objs w \<and>
     (\<forall>ks. r = Inr ks \<longrightarrow> finite (snapshots_after (objs w) a) \<and>
        (\<exists>L. ks = keys @ L \<and> sorted_wrt (<) L \<and> set L \<subseteq> snapshots_after (objs w) a \<and> (\<forall>k \<in> set L. key_ok k)))"
proof (induction "card (snapshots_after (objs w) a)" arbitrary: keys a w rule: less_induct)
  case less
  obtain r w1 where l: "List st snapshotPrefix a 1000 w = (r, w1)" by fastforce
  note L = List_law [OF less.prems l]
  show ?case
  proof (cases r)
    case (Inl e)
    then show ?thesis using l L by (subst list_snapshots.simps) auto
  next
    case (Inr batch)
    obtain ks m where ks: "sorted_wrt (<) ks" "set ks = snapshots_after (objs w) a" "map oi_Key batch = take m ks"
      using L Inr by (auto simp: snapshots_after_def)
    have fin: "finite (snapshots_after (objs w) a)" using ks(2) by (metis List.finite_set)
    have ok: "\<forall>k \<in> set (map oi_Key batch). key_ok k" using L Inr by auto
    let ?t = "take m ks" and ?d = "drop m ks"
    have srt: "\<forall>x \<in> set ?t. \<forall>y \<in> set ?d. x < y" "sorted_wrt (<) ?t"
      using ks(1) sorted_wrt_append [of "(<)" ?t ?d] by auto
    have sub: "set ?t \<subseteq> snapshots_after (objs w) a" using set_take_subset ks(2) by metis
    show ?thesis
    proof (cases "length batch < 1000")
      case True
      have "list_snapshots st keys a w = Some (Inr (keys @ ?t), w1)"
        using l Inr True ks(3) by (subst list_snapshots.simps) (auto simp: Let_def)
      then show ?thesis using L ok fin srt(2) sub unfolding ks(3) by auto
    next
      case False
      let ?last = "oi_Key (List.last batch)"
      have ne: "batch \<noteq> []" using False by auto
      have rec: "list_snapshots st keys a w = list_snapshots st (keys @ map oi_Key batch) ?last w1"
        using l Inr False ne by (subst list_snapshots.simps) (simp add: Let_def)
      have t: "?t \<noteq> []" "?last = List.last ?t" using ne ks(3) by (auto simp flip: ks(3) simp: last_map)
      have o: "objs w1 = objs w" "good w1" using L by auto
      have rest: "snapshots_after (objs w1) ?last = set ?d" "set ?d \<subset> set ks"
        using page_rest [OF ks(1,2) t(1)] unfolding t(2) o(1) by auto
      then have "card (snapshots_after (objs w1) ?last) < card (snapshots_after (objs w) a)"
        unfolding ks(2) [symmetric] by (simp add: psubset_card_mono)
      then obtain r' w' where R: "list_snapshots st (keys @ map oi_Key batch) ?last w1 = Some (r', w')" "good w'"
          "objs w' = objs w1" "\<And>ks'. r' = Inr ks' \<Longrightarrow> \<exists>L. ks' = (keys @ map oi_Key batch) @ L \<and> sorted_wrt (<) L \<and>
             set L \<subseteq> snapshots_after (objs w1) ?last \<and> (\<forall>k \<in> set L. key_ok k)"
        using less.hyps o(2) by blast
      have "\<exists>L. ks' = keys @ L \<and> sorted_wrt (<) L \<and> set L \<subseteq> snapshots_after (objs w) a \<and> (\<forall>k \<in> set L. key_ok k)"
        if r': "r' = Inr ks'" for ks'
      proof -
        obtain L2 where L2: "ks' = (keys @ map oi_Key batch) @ L2" "sorted_wrt (<) L2" "set L2 \<subseteq> set ?d" "\<forall>k \<in> set L2. key_ok k"
          using R(4) [OF r'] rest(1) by auto
        have "sorted_wrt (<) (?t @ L2)" using srt L2 by (auto simp: sorted_wrt_append)
        moreover have "set (?t @ L2) \<subseteq> snapshots_after (objs w) a" using L2(3) rest(2) ks(2) sub by auto
        ultimately show ?thesis using L2 ok unfolding ks(3) by (intro exI [of _ "?t @ L2"]) auto
      qed
      then show ?thesis using R o fin unfolding rec by auto
    qed
  qed
qed

lemma delete_all_store:
  assumes "good w" "\<And>k. k \<in> set ks \<Longrightarrow> key_ok k"
  shows "good (delete_all st ks w) \<and> (\<forall>k. objs (delete_all st ks w) k = objs w k \<or> k \<in> set ks \<and> objs (delete_all st ks w) k = None)"
  using assms
proof (induction ks arbitrary: w)
  case (Cons k ks)
  obtain r w1 where d: "Delete st k w = (r, w1)" by fastforce
  have D: "good w1" "\<And>k'. k' \<noteq> k \<Longrightarrow> objs w1 k' = objs w k'" "objs w1 k = None \<or> objs w1 k = objs w k"
    using Delete_law [OF Cons.prems(1) Cons.prems(2) d] by auto
  have IH: "good (delete_all st ks w1) \<and> (\<forall>k. objs (delete_all st ks w1) k = objs w1 k \<or> k \<in> set ks \<and> objs (delete_all st ks w1) k = None)"
    using Cons.IH [OF D(1)] Cons.prems(2) by simp
  show ?case using IH D d by simp (metis)
qed simp

lemma pruneSnapshots_store:
  assumes "good w"
  shows "\<exists>r w'. pruneSnapshots st kp current w = Some (r, w') \<and> good w' \<and>
    (\<forall>k. objs w' k \<noteq> objs w k \<longrightarrow> objs w' k = None \<and> starts_with snapshotPrefix k \<and> k < current \<and>
       nat kp \<le> card {k'. objs w' k' \<noteq> None \<and> starts_with snapshotPrefix k' \<and> k < k' \<and> k' < current})"
proof -
  obtain r w1 where l: "list_snapshots st [] [] w = Some (r, w1)" "good w1" "objs w1 = objs w"
      "\<And>ks. r = Inr ks \<Longrightarrow> finite (snapshots_after (objs w) []) \<and> sorted_wrt (<) ks \<and> set ks \<subseteq> snapshots_after (objs w) [] \<and> (\<forall>k \<in> set ks. key_ok k)"
    using list_snapshots_ends [OF assms, of "[]" "[]"] by auto
  show ?thesis
  proof (cases r)
    case (Inl e)
    then show ?thesis using l by (auto simp: pruneSnapshots_def)
  next
    case (Inr keys)
    let ?P = "prunable keys current kp"
    have ks: "sorted_wrt (<) keys" "set keys \<subseteq> snapshots_after (objs w) []" "\<And>k. k \<in> set keys \<Longrightarrow> key_ok k"
      and fin: "finite (snapshots_after (objs w) [])"
      using l(4) [OF Inr] by auto
    have dist: "distinct keys" using ks(1) by (simp add: strict_sorted_iff)
    note new = prunable_newer [OF dist]
    have D: "good (delete_all st ?P w1)"
        "\<And>k. objs (delete_all st ?P w1) k = objs w k \<or> k \<in> set ?P \<and> objs (delete_all st ?P w1) k = None"
      using delete_all_store [OF l(2), of ?P] ks(3) new(1) l(3) by auto
    have "objs (delete_all st ?P w1) k = None \<and> starts_with snapshotPrefix k \<and> k < current \<and>
       nat kp \<le> card {k'. objs (delete_all st ?P w1) k' \<noteq> None \<and> starts_with snapshotPrefix k' \<and> k < k' \<and> k' < current}"
      if "objs (delete_all st ?P w1) k \<noteq> objs w k" for k
    proof -
      have k: "k \<in> set ?P" "objs (delete_all st ?P w1) k = None" using D(2) [of k] that by auto
      let ?A = "{k' \<in> set keys. k < k' \<and> k' < current \<and> k' \<notin> set ?P}"
      let ?B = "{k'. objs (delete_all st ?P w1) k' \<noteq> None \<and> starts_with snapshotPrefix k' \<and> k < k' \<and> k' < current}"
      have "?A \<subseteq> ?B"
      proof
        fix x assume x: "x \<in> ?A"
        then have "objs (delete_all st ?P w1) x = objs w x" using D(2) [of x] by auto
        then show "x \<in> ?B" using x ks(2) by (auto simp: snapshots_after_def)
      qed
      moreover have "?B \<subseteq> snapshots_after (objs w) []"
      proof
        fix x assume x: "x \<in> ?B"
        then have "objs w x \<noteq> None" using D(2) [of x] by auto
        moreover have "[] < x" using x by (cases x) (auto simp: starts_with_def snapshotPrefix_def)
        ultimately show "x \<in> snapshots_after (objs w) []" using x by (auto simp: snapshots_after_def)
      qed
      then have "finite ?B" using fin by (rule finite_subset)
      ultimately have "card ?A \<le> card ?B" by (intro card_mono)
      then have "nat kp \<le> card ?B" using new(3) [OF k(1)] by linarith
      moreover have "starts_with snapshotPrefix k" using new(1) [OF k(1)] ks(2) by (auto simp: snapshots_after_def)
      ultimately show ?thesis using k(2) new(2) [OF k(1)] by blast
    qed
    then show ?thesis using l Inr D(1) by (simp add: pruneSnapshots_def)
  qed
qed

end

section \<open>What pruning promises\<close>

text \<open>
  Snapshot keys sort by epoch: the key of a later epoch is the greater string, whatever the nonces.
\<close>

theorem snapshot_keys_sort_by_epoch:
  "ep < ep' \<Longrightarrow> ep' < 2 ^ 64 \<Longrightarrow> snapshotKey ep nonce < snapshotKey ep' nonce'"
  by (rule snapshotKey_mono)

theorem snapshot_keys_sort_by_epoch_witness:
  "snapshotKey 9 [255] < snapshotKey 10 [0]"
  by (rule snapshot_keys_sort_by_epoch) simp_all

text \<open>
  C25. A prune pass ends, and removes only what is superseded. Over any store that keeps its contract, and
  whichever calls fail, the listing loop comes to an end; the pass removes nothing but snapshots that
  sort below the one it was begun for, each of them only while the retention's number of newer ones
  below it stays; and a root pointer that names that snapshot or a later one stays mountable.
\<close>

theorem prune_ends_and_keeps:
  assumes "object_store st objs etg good key_ok" "good w"
  shows "\<exists>r w'. pruneSnapshots st kp current w = Some (r, w') \<and> good w' \<and>
    (\<forall>k. objs w' k \<noteq> objs w k \<longrightarrow> objs w' k = None \<and> starts_with snapshotPrefix k \<and> k < current \<and>
       nat kp \<le> card {k'. objs w' k' \<noteq> None \<and> starts_with snapshotPrefix k' \<and> k < k' \<and> k' < current}) \<and>
    (\<forall>cd key s. bucket_at key_ok cd (objs w) key s \<and> current \<le> key \<longrightarrow> bucket_at key_ok cd (objs w') key s)"
proof -
  obtain r w' where p: "pruneSnapshots st kp current w = Some (r, w')" "good w'"
      "\<forall>k. objs w' k \<noteq> objs w k \<longrightarrow> objs w' k = None \<and> starts_with snapshotPrefix k \<and> k < current \<and>
         nat kp \<le> card {k'. objs w' k' \<noteq> None \<and> starts_with snapshotPrefix k' \<and> k < k' \<and> k' < current}"
    using object_store.pruneSnapshots_store [OF assms] by blast
  have "bucket_at key_ok cd (objs w') key s" if b: "bucket_at key_ok cd (objs w) key s" "current \<le> key" for cd key s
  proof -
    have "objs w' key = objs w key" using p(3) b(2) leD by blast
    moreover have "objs w' rootKey = objs w rootKey" using p(3) prefix_apart(2) by blast
    ultimately show ?thesis using bucket_at_cong [OF b(1), of "objs w'"] by simp
  qed
  then show ?thesis using p by blast
qed

end
