(* ===== verification/DurableRun.thy ===== *)
theory DurableRun
  imports DurableSpec PruneSpec
begin

text \<open>
  A run of the commit protocol: a bucket in memory, which keeps the store's contract, a hash and a codec
  to run it with, and a first commit followed by a mount. It shows that what the theorems of the commit
  assume can hold all at once.
\<close>

section \<open>A bucket in memory\<close>

type_synonym mem = "(string, bytes) fmap"

definition mem_etag :: "mem \<Rightarrow> string \<Rightarrow> string" where
  "mem_etag w k = (case fmlookup w k of Some d \<Rightarrow> CHR ''e'' # string_of_bytes d | None \<Rightarrow> [])"

definition mem_keys :: "string \<Rightarrow> string \<Rightarrow> mem \<Rightarrow> string list" where
  "mem_keys p a w = sorted_list_of_fset (ffilter (\<lambda>k. starts_with p k \<and> a < k) (fmdom w))"

definition mem_get :: "string \<Rightarrow> mem \<Rightarrow> serr + bytes" where
  "mem_get k w = (case fmlookup w k of Some d \<Rightarrow> Inr d | None \<Rightarrow> Inl ErrNotFound)"

definition mem_info :: "mem \<Rightarrow> string \<Rightarrow> object_info" where
  "mem_info w k = \<lparr>oi_Key = k, oi_Size = length (the (fmlookup w k)), oi_ETag = mem_etag w k\<rparr>"

definition mem_store :: "mem store_ops" where
  "mem_store =
     \<lparr>Get = \<lambda>k w. (mem_get k w, w),
      GetRange = \<lambda>k a n w. (map_sum id (slice a (a + n)) (mem_get k w), w),
      Head = \<lambda>k w. (map_sum id (\<lambda>_. mem_info w k) (mem_get k w), w),
      Put = \<lambda>k d w. (None, fmupd k d w),
      Delete = \<lambda>k w. (None, fmdrop k w),
      List = \<lambda>p a mx w. (Inr (map (mem_info w) (if mx > 0 then take (nat mx) (mem_keys p a w) else mem_keys p a w)), w),
      PutIfMatch = \<lambda>k d e w. (if mem_etag w k = e then (Inr (mem_etag (fmupd k d w) k), fmupd k d w) else (Inl ErrPrecondition, w)),
      Name = ''mem'',
      GetWithETag = \<lambda>k w. (map_sum id (\<lambda>d. (d, mem_etag w k)) (mem_get k w), w)\<rparr>"

lemma mem_sel [simp]:
  "Get mem_store k w = (mem_get k w, w)" "GetRange mem_store k a n w = (map_sum id (slice a (a + n)) (mem_get k w), w)"
  "Head mem_store k w = (map_sum id (\<lambda>_. mem_info w k) (mem_get k w), w)" "Put mem_store k d w = (None, fmupd k d w)"
  "Delete mem_store k w = (None, fmdrop k w)"
  "List mem_store p b mx w = (Inr (map (mem_info w) (if mx > 0 then take (nat mx) (mem_keys p b w) else mem_keys p b w)), w)"
  "PutIfMatch mem_store k d e w =
     (if mem_etag w k = e then (Inr (mem_etag (fmupd k d w) k), fmupd k d w) else (Inl ErrPrecondition, w))"
  "GetWithETag mem_store k w = (map_sum id (\<lambda>d. (d, mem_etag w k)) (mem_get k w), w)" "Name mem_store = ''mem''"
  by (simp_all add: mem_store_def)

lemma mem_keys_set: "set (mem_keys p a w) = {k. fmlookup w k \<noteq> None \<and> starts_with p k \<and> a < k}"
  by (auto simp: mem_keys_def sorted_list_of_fset.rep_eq fmlookup_dom_iff)

interpretation mem_bucket: object_store mem_store fmlookup mem_etag "\<lambda>_. True" "\<lambda>_. True"
proof (unfold_locales, goal_cases)
  case (8 w p a mx r w')
  let ?ks = "mem_keys p a w"
  define out where "out = map (mem_info w) (if mx > 0 then take (nat mx) ?ks else ?ks)"
  have "map oi_Key out = (if mx > 0 then take (nat mx) ?ks else ?ks)" by (simp add: out_def mem_info_def comp_def)
  note page = page_of_limit [OF this]
  have "sorted_wrt (<) ?ks" by (simp add: mem_keys_def sorted_list_of_fset.rep_eq strict_sorted_list_of_set)
  then have "\<exists>ks. sorted_wrt (<) ks \<and> set ks = {k. fmlookup w k \<noteq> None \<and> starts_with p k \<and> a < k} \<and>
      (\<exists>m. map oi_Key out = take m ks \<and> (mx > 0 \<longrightarrow> m \<le> nat mx)) \<and> (out = [] \<longrightarrow> ks = [])"
    using page mem_keys_set [of p a w] by blast
  moreover have "r = Inr out" "w' = w" using 8 unfolding out_def by auto
  ultimately show ?case by simp
qed (auto simp: mem_get_def mem_etag_def mem_info_def split: option.splits if_splits)

section \<open>The parameters\<close>

definition hex_sha :: "bytes \<Rightarrow> string" where
  "hex_sha d = CHR ''h'' # hex_string d"

lemma hex_sha_ok: "hash_ok hex_sha" "plain_string (hex_sha d)"
proof -
  show "hash_ok hex_sha" using hex_inj by (auto simp: hash_ok_def hex_sha_def inj_def)
  have "unat x div 16 < 16" for x :: u8
  proof -
    have "unat x < 256" using unsigned_less [of x] by simp
    then show ?thesis by simp
  qed
  then show "plain_string (hex_sha d)"
    by (auto simp: plain_string_def hex_sha_def hex_string_def list_all_iff digit_plain)
qed

text \<open>A mount with its first change to commit, and a codec for what that commit writes.\<close>

definition first_fs :: fs where
  "first_fs = fresh_fs\<lparr>dirty := True\<rparr>"

definition first_nonce :: bytes where
  "first_nonce = replicate 6 0"

definition one_codec :: "snapshot \<Rightarrow> rootPointer \<Rightarrow> codec" where
  "one_codec s rp =
     \<lparr>json_snapshot = (\<lambda>x. if x = s then Inr [1] else Inl EPanic), gzip = Inr, gunzip = Inr,
      unjson_snapshot = (\<lambda>b. if b = [1] then Inr (json_image s) else Inl EPanic),
      json_root = (\<lambda>x. if x = rp then Inr [2] else Inl EPanic),
      unjson_root = (\<lambda>b. if b = [2] then Inr rp else Inl EPanic)\<rparr>"

lemma one_codec_ok: "codec_ok (one_codec s rp)"
  by (simp add: codec_ok_def one_codec_def)

definition first_env :: "mem env" where
  "first_env = \<lparr>e_store = mem_store, e_readonly = False, e_sha = hex_sha,
     e_codec = one_codec (snapshot_of 5 first_fs) (root_of 5 first_nonce first_fs),
     e_range = (\<lambda>m. sorted_list_of_fset (fmdom m)), e_others = (\<lambda>_ x. x)\<rparr>"

lemma first_sel [simp]:
  "e_sha first_env = hex_sha" "mount_store first_env = mem_store" "e_others first_env = (\<lambda>_ x. x)"
  "e_range first_env m = sorted_list_of_fset (fmdom m)" "fopen first_fs = fmempty" "dirty first_fs"
  "mode first_fs = mountWritable" "rootKnowledge first_fs = rootKnown" "inodes first_fs = fmupd 1 root_inode fmempty"
  "e_codec first_env = one_codec (snapshot_of 5 first_fs) (root_of 5 first_nonce first_fs)"
  by (simp_all add: first_env_def mount_store_def first_fs_def fresh_fs_def)

lemma first_commit_env: "commit_env mem_store (\<lambda>_. True) first_env first_nonce" "alone first_env"
  using hex_sha_ok one_codec_ok
  by (auto simp: commit_env_def alone_def sorted_list_of_fset.rep_eq)

lemma first_safe: "safe_state (\<lambda>_. True) (e_codec first_env) hex_sha fmlookup (\<lambda>_. True) first_fs fmempty"
proof -
  have "cache_ok hex_sha (newChunkCache 0)"
    by (simp add: cache_ok_def cache_inv_def cache_shape_def addressed_def newChunkCache_def)
  moreover have "file_ok hex_sha 4096 root_inode new_openFile"
    by (simp add: file_ok_def root_inode_def bufs_ok_def apart_def trims_ok_def new_openFile_def fbyte_def eff_def tail_clean_def)
  ultimately have "mount_ok hex_sha first_fs"
    by (auto simp: mount_ok_def first_fs_def fresh_fs_def open_of_def root_inode_def split: if_splits)
  moreover have "stored_ok hex_sha (fmlookup fmempty) first_fs"
    by (auto simp: stored_ok_def chunks_honest_def known_there_def files_there_def first_fs_def fresh_fs_def root_inode_def
        split: if_splits)
  moreover have "plain_fs first_fs"
    by (auto simp: plain_fs_def first_fs_def fresh_fs_def root_inode_def plain_string_def isDir_def entries_def split: if_splits)
  moreover have "ns_wf first_fs = ns_wf fresh_fs" by (rule ns_wf_cong) (simp_all add: first_fs_def)
  moreover have "budget_ok first_fs" by (simp add: budget_ok_def first_fs_def fresh_fs_def)
  ultimately show ?thesis using fresh_fs_wf by (simp add: safe_state_def bucket_ok_def)
qed

lemma range_nothing [simp]: "sorted_list_of_fset {||} = []"
  by (simp add: sorted_list_of_fset.rep_eq)

lemma first_Sync:
  "\<exists>N' w'. Sync first_env (\<lambda>_. 5) first_nonce first_fs fmempty = (None, N', w') \<and>
     (\<exists>M' v'. loadOrInit first_env (\<lambda>_. 5) first_nonce fresh_fs w' = (None, M', v'))"
proof -
  let ?s = "snapshot_of 5 first_fs" and ?rp = "root_of 5 first_nonce first_fs"
  define k where "k = snapshotKey (wrap64 (epoch first_fs + 1)) first_nonce"
  define sc where "sc = \<lparr>sc_epoch = wrap64 (epoch first_fs + 1), sc_key = k, sc_body = [1], sc_rpBody = [2],
     sc_rootETag = rootETag first_fs, sc_changes = changes first_fs\<rparr>"
  let ?w = "fmupd rootKey [2] (fmupd k [1] fmempty)"
  have k: "k \<noteq> rootKey" using prefix_apart(2) [OF snapshotKey_prefix] by (simp add: k_def)
  have et: "sc_rootETag sc = []" "sc_key sc = k" "sc_body sc = [1]" "sc_rpBody sc = [2]"
    by (simp_all add: sc_def first_fs_def fresh_fs_def)
  have seal: "seal first_env (\<lambda>_. 5) first_nonce first_fs = Inr sc"
    by (simp add: seal_def unsettled_files_def encodeSnapshot_def one_codec_def sc_def k_def)
  have swap: "swap_root first_env b sc (fmupd k [1] fmempty) = (FKnown (mem_etag ?w rootKey), ?w)" for b
    using k by (simp add: swap_root_def et mem_etag_def)
  have "Sync first_env (\<lambda>_. 5) first_nonce first_fs fmempty =
      (None, applyLocked 5 sc (mem_etag ?w rootKey) (first_fs\<lparr>rootKnowledge := rootKnown\<rparr>), ?w)"
    by (simp add: Sync_def flushAll_def commitPhase_def settleAll_def seal commitSealed_def et swap fire_root_def)
  moreover have "\<exists>M' v'. loadOrInit first_env (\<lambda>_. 5) first_nonce fresh_fs ?w = (None, M', v')"
  proof -
    have root: "rp_Version ?rp = snapshotVersion" "rp_Snapshot ?rp = k" by (simp_all add: root_of_def k_def)
    have dec: "decodeSnapshot (e_codec first_env) [1] = Inr (json_image ?s\<lparr>sn_Inodes :=
        Some (fmmap (map_option usable_entries) (fmmap (map_option json_inode) (fmmap Some (inodes first_fs))))\<rparr>)"
      by (auto simp: decodeSnapshot_def one_codec_def json_image_def snapshot_of_def nil_inodes_def)
    have un: "unjson_root (e_codec first_env) [2] = Inr ?rp" by (simp add: one_codec_def)
    show ?thesis
      using k un dec root
      by (simp add: loadOrInit_def mem_get_def mem_etag_def Let_def adopt_def table_of_def rootInodeID_def del: first_sel(10))
  qed
  ultimately show ?thesis by blast
qed

section \<open>The run\<close>

lemma first_mount: "mount_ok hex_sha first_fs" "stored_ok hex_sha (fmlookup fmempty) first_fs" "plain_fs first_fs"
  using first_safe by (simp_all add: safe_state_def)

theorem Sync_keeps_bucket_mountable_witness:
  "\<exists>N' w'. Sync first_env (\<lambda>_. 5) first_nonce first_fs fmempty = (None, N', w') \<and>
     safe_state (\<lambda>_. True) (e_codec first_env) hex_sha fmlookup (\<lambda>_. True) N' w'"
proof -
  obtain N' w' where s: "Sync first_env (\<lambda>_. 5) first_nonce first_fs fmempty = (None, N', w')" using first_Sync by blast
  have "others_keep first_env P" for P by (simp add: others_keep_def)
  moreover have "fresh_nonce first_nonce (fmlookup fmempty)" by (simp add: fresh_nonce_def)
  ultimately have "safe_state (\<lambda>_. True) (e_codec first_env) (e_sha first_env) fmlookup (\<lambda>_. True) N' w'"
    using Sync_keeps_bucket_mountable [OF mem_bucket.object_store_axioms first_commit_env(1) _ _ _ _ s] first_safe by simp
  then show ?thesis using s by simp
qed

theorem Sync_nil_is_durable_witness:
  "\<exists>N' w'. Sync first_env (\<lambda>_. 5) first_nonce first_fs fmempty = (None, N', w') \<and>
     remountable (\<lambda>_. True) (e_codec first_env) (fmlookup w') N'"
proof -
  obtain N' w' where s: "Sync first_env (\<lambda>_. 5) first_nonce first_fs fmempty = (None, N', w')" using first_Sync by blast
  have "remountable (\<lambda>_. True) (e_codec first_env) (fmlookup w') N'"
    using Sync_nil_is_durable [OF mem_bucket.object_store_axioms first_commit_env _ _ _ first_mount(3) _ s] first_mount by simp
  then show ?thesis using s by blast
qed

theorem commit_survives_remount_witness:
  "\<exists>N' w' M' v'. Sync first_env (\<lambda>_. 5) first_nonce first_fs fmempty = (None, N', w') \<and>
     loadOrInit first_env (\<lambda>_. 5) first_nonce fresh_fs w' = (None, M', v') \<and> inodes M' = inodes N'"
proof -
  obtain N' w' M' v' where s: "Sync first_env (\<lambda>_. 5) first_nonce first_fs fmempty = (None, N', w')"
      "loadOrInit first_env (\<lambda>_. 5) first_nonce fresh_fs w' = (None, M', v')" using first_Sync by blast
  have "inodes M' = inodes N'"
    using commit_survives_remount [OF mem_bucket.object_store_axioms first_commit_env _ _ _ first_mount(3) _ s(1) _ _ _ s(2)] first_mount
    by simp
  then show ?thesis using s by blast
qed

theorem prune_ends_and_keeps_witness:
  "\<exists>r w'. pruneSnapshots mem_store 1 (snapshotKey 3 [0]) (fmupd (snapshotKey 1 [0]) [1] fmempty) = Some (r, w') \<and>
     (\<forall>k. fmlookup w' k \<noteq> fmlookup (fmupd (snapshotKey 1 [0]) [1] fmempty) k \<longrightarrow> k < snapshotKey 3 [0])"
  using prune_ends_and_keeps [OF mem_bucket.object_store_axioms,
      where w = "fmupd (snapshotKey 1 [0]) [1] fmempty" and kp = 1 and current = "snapshotKey 3 [0]"]
  by blast

text \<open>A mount whose one buffer fills its budget: the write that comes next drains first.\<close>

definition full_fs :: fs where
  "full_fs = demo_fs\<lparr>budget_limit := 4096, dirty := True\<rparr>"

definition first_feed :: feed where
  "first_feed = \<lparr>fd_ctx = \<lambda>_. None, fd_clk = \<lambda>_ _. 5, fd_nonce = \<lambda>_. first_nonce\<rparr>"

lemma full_fs_ok: "mount_ok hex_sha full_fs" "stored_ok hex_sha (fmlookup fmempty) full_fs" "plain_fs full_fs" "budget_ok full_fs"
proof -
  show "mount_ok hex_sha full_fs"
    using demo_fs_ok [of hex_sha] by (simp add: mount_ok_def full_fs_def open_of_def)
  show "stored_ok hex_sha (fmlookup fmempty) full_fs"
    by (auto simp: stored_ok_def chunks_honest_def known_there_def files_there_def refs_there_def full_fs_def demo_fs_def
        fresh_fs_def root_inode_def demo_inode_def split: if_splits)
  show "plain_fs full_fs"
    by (auto simp: plain_fs_def full_fs_def demo_fs_def fresh_fs_def root_inode_def demo_inode_def plain_string_def isDir_def
        entries_def split: if_splits)
  show "budget_ok full_fs"
    by (simp add: budget_ok_def full_fs_def demo_fs_def open_of_def demo_open_def)
qed

theorem await_returns_after_one_drain_witness:
  "\<exists>r N' w'. await_alone first_env first_feed 0 full_fs fmempty = Some (r, N', w') \<and>
     (r = None \<longrightarrow> budget_used N' = 0 \<and> content hex_sha N' = content hex_sha full_fs)"
proof -
  have l: "budget_limit full_fs = 4096" "budget_used full_fs = 4096" "dirty full_fs"
    by (simp_all add: full_fs_def demo_fs_def)
  have n: "commit_env mem_store (\<lambda>_. True) first_env (fd_nonce first_feed (Suc 0))"
    using first_commit_env(1) by (simp add: first_feed_def)
  show ?thesis
    using await_returns_after_one_drain [OF mem_bucket.object_store_axioms n first_commit_env(2) _ _ _ full_fs_ok(3) _ full_fs_ok(4),
        where w = fmempty] full_fs_ok(1,2) l by (simp add: first_sel(1)) blast
qed

end
