(* ===== verification/Strs.thy ===== *)
theory Strs
  imports Prelude
begin

text \<open>
  What the code uses of Go's \<open>strings\<close>, \<open>strconv\<close> and \<open>net/url\<close> packages. White space and letter case
  are those of ASCII: the strings they are applied to are header names, header values and fixed
  words, which are ASCII.
\<close>

section \<open>Package strings\<close>

fun split_when :: "(char \<Rightarrow> bool) \<Rightarrow> string \<Rightarrow> string list" where
  "split_when P [] = [[]]"
| "split_when P (c # s) =
     (if P c then [] # split_when P s
      else (case split_when P s of [] \<Rightarrow> [[c]] | w # ws \<Rightarrow> (c # w) # ws))"

fun join :: "string list \<Rightarrow> string \<Rightarrow> string" where
  "join [] sep = []"
| "join [w] sep = w"
| "join (w # v # ws) sep = w @ sep @ join (v # ws) sep"

text \<open>\<open>strings.Cut\<close> at a character, without its third result.\<close>

definition cut :: "string \<Rightarrow> char \<Rightarrow> string \<times> string" where
  "cut s c = (takeWhile (\<lambda>x. x \<noteq> c) s, drop 1 (dropWhile (\<lambda>x. x \<noteq> c) s))"

definition has_prefix :: "string \<Rightarrow> string \<Rightarrow> bool" where
  "has_prefix s p \<longleftrightarrow> take (length p) s = p"

definition trim_prefix :: "string \<Rightarrow> string \<Rightarrow> string" where
  "trim_prefix s p = (if has_prefix s p then drop (length p) s else s)"

text \<open>\<open>strings.Trim\<close> and \<open>strings.TrimSpace\<close>: the characters of a set removed at both ends.\<close>

definition trim_chars :: "(char \<Rightarrow> bool) \<Rightarrow> string \<Rightarrow> string" where
  "trim_chars P s = rev (dropWhile P (rev (dropWhile P s)))"

definition is_space :: "char \<Rightarrow> bool" where
  "is_space c \<longleftrightarrow> of_char c \<in> {9, 10, 11, 12, 13, 32 :: nat}"

definition fields_of :: "string \<Rightarrow> string list" where
  "fields_of s = filter (\<lambda>w. w \<noteq> []) (split_when is_space s)"

definition lower_char :: "char \<Rightarrow> char" where
  "lower_char c = (if of_char c \<in> {65 .. 90 :: nat} then char_of (of_char c + 32 :: nat) else c)"

definition to_lower :: "string \<Rightarrow> string" where
  "to_lower s = map lower_char s"

section \<open>Package strconv\<close>

text \<open>\<open>Itoa\<close> of a number that is not negative.\<close>

fun itoa :: "nat \<Rightarrow> string" where
  "itoa n = (if n < 10 then [digit_char n] else itoa (n div 10) @ [digit_char (n mod 10)])"

declare itoa.simps [simp del]

definition digit_val :: "char \<Rightarrow> nat option" where
  "digit_val c = (let n = of_char c :: nat in if 48 \<le> n \<and> n \<le> 57 then Some (n - 48) else None)"

fun dec_val :: "nat \<Rightarrow> string \<Rightarrow> nat option" where
  "dec_val a [] = Some a"
| "dec_val a (c # s) = (case digit_val c of None \<Rightarrow> None | Some d \<Rightarrow> dec_val (10 * a + d) s)"

text \<open>
  \<open>ParseInt(s, 10, 64)\<close> of a string without a sign, its error ignored as the caller ignores it: 0 for
  what is not a number, the greatest \<open>int64\<close> for what is too large.
\<close>

definition parse_int :: "string \<Rightarrow> nat" where
  "parse_int s = (if s = [] then 0 else case dec_val 0 s of None \<Rightarrow> 0 | Some n \<Rightarrow> min n (2 ^ 63 - 1))"

lemma digit_val_char: "d < 10 \<Longrightarrow> digit_val (digit_char d) = Some d"
proof -
  assume "d < 10"
  then have "d \<in> set [0 ..< 10]" by simp
  moreover have "list_all (\<lambda>d. digit_val (digit_char d) = Some d) [0 ..< 10]"
    by (simp add: upt_rec digit_char_def digit_val_def)
  ultimately show ?thesis by (simp add: list_all_iff)
qed

lemma dec_val_append: "dec_val a (s @ t) = Option.bind (dec_val a s) (\<lambda>b. dec_val b t)"
  by (induction a s rule: dec_val.induct) (simp_all split: option.split)

lemma dec_val_itoa: "dec_val 0 (itoa n) = Some n"
proof (induction n rule: itoa.induct)
  case (1 n)
  show ?case
  proof (cases "n < 10")
    case True
    then show ?thesis by (simp add: itoa.simps [of n] digit_val_char)
  next
    case False
    then show ?thesis using 1 by (simp add: itoa.simps [of n] dec_val_append digit_val_char)
  qed
qed

lemma itoa_not_Nil [simp]: "itoa n \<noteq> []"
  by (simp add: itoa.simps [of n])

lemma parse_int_itoa [simp]: "n < 2 ^ 63 \<Longrightarrow> parse_int (itoa n) = n"
  by (simp add: parse_int_def dec_val_itoa)

section \<open>Splitting and joining\<close>

lemma split_when_not_Nil [simp]: "split_when P s \<noteq> []"
  by (cases s) (auto split: list.split)

lemma split_when_none: "list_all (\<lambda>c. \<not> P c) s \<Longrightarrow> split_when P s = [s]"
  by (induction s) auto

lemma split_when_append:
  "list_all (\<lambda>c. \<not> P c) w \<Longrightarrow> P c \<Longrightarrow> split_when P (w @ c # s) = w # split_when P s"
  by (induction w) auto

lemma split_of_join:
  assumes "ws \<noteq> []" "list_all (list_all (\<lambda>x. x \<noteq> c)) ws"
  shows "split_when (\<lambda>x. x = c) (join ws [c]) = ws"
  using assms
proof (induction ws "[c]" rule: join.induct)
  case (2 w)
  then show ?case by (simp add: split_when_none)
next
  case (3 w v ws)
  then show ?case by (simp add: split_when_append)
qed simp

lemma join_Nil_iff: "list_all (\<lambda>w. w \<noteq> []) ws \<Longrightarrow> join ws sep = [] \<longleftrightarrow> ws = []"
  by (induction ws sep rule: join.induct) auto

lemma cut_at: "list_all (\<lambda>x. x \<noteq> c) s \<Longrightarrow> cut (s @ c # t) c = (s, t)"
  by (induction s) (auto simp: cut_def)

end
