(* ===== verification/Check.thy ===== *)
theory Check
  imports Strs Store
begin

text \<open>
  \<open>cmd/strata/check.go\<close>: the probes of \<open>-check\<close> over any backend. What a row says beyond its name, its
  outcome and its severity is text for the reader of the report, and is left out together with the
  printing; the three ways the report can end are the values of \<open>verdict\<close>.
\<close>

record result =
  res_name :: string
  res_ok :: bool
  res_required :: bool

definition pass :: "string \<Rightarrow> result" where
  "pass name = \<lparr>res_name = name, res_ok = True, res_required = True\<rparr>"

definition fail :: "string \<Rightarrow> bool \<Rightarrow> result" where
  "fail name required = \<lparr>res_name = name, res_ok = False, res_required = required\<rparr>"

definition checkRoundTrip :: "'w store_ops \<Rightarrow> string \<Rightarrow> 'w \<Rightarrow> result \<times> 'w" where
  "checkRoundTrip st prefix w =
     (let name = ''put and get''; key = prefix @ ''roundtrip''; want = bytes_of_string ''strata compatibility probe''
      in case Put st key want w of
           (Some e, w1) \<Rightarrow> (fail name True, w1)
         | (None, w1) \<Rightarrow>
             (case Get st key w1 of
                (Inl e, w2) \<Rightarrow> (fail name True, w2)
              | (Inr got, w2) \<Rightarrow> (if got \<noteq> want then fail name True else pass name, w2)))"

text \<open>The keys that need escaping, in the bytes Go's source holds: the third is written in UTF-8.\<close>

definition awkward :: "string list" where
  "awkward = [''with space.txt'', ''plus+sign'',
     ''unicode-'' @ [CHR 0xC3, CHR 0xBC] @ ''n'' @ [CHR 0xC3, CHR 0xAF] @ ''c'' @ [CHR 0xC3, CHR 0xB6] @ ''d'' @ [CHR 0xC3, CHR 0xA9],
     ''parens(1)'']"

fun awkward_loop :: "'w store_ops \<Rightarrow> string \<Rightarrow> string \<Rightarrow> string list \<Rightarrow> 'w \<Rightarrow> result \<times> 'w" where
  "awkward_loop st prefix name [] w = (pass name, w)"
| "awkward_loop st prefix name (n # ns) w =
     (case Put st (prefix @ n) (bytes_of_string n) w of
        (Some e, w1) \<Rightarrow> (fail name True, w1)
      | (None, w1) \<Rightarrow>
          (case Get st (prefix @ n) w1 of
             (Inl e, w2) \<Rightarrow> (fail name True, w2)
           | (Inr got, w2) \<Rightarrow> if string_of_bytes got \<noteq> n then (fail name True, w2) else awkward_loop st prefix name ns w2))"

definition checkAwkwardKeys :: "'w store_ops \<Rightarrow> string \<Rightarrow> 'w \<Rightarrow> result \<times> 'w" where
  "checkAwkwardKeys st prefix w = awkward_loop st prefix ''keys needing escaping'' awkward w"

definition checkRange :: "'w store_ops \<Rightarrow> string \<Rightarrow> 'w \<Rightarrow> result \<times> 'w" where
  "checkRange st prefix w =
     (let name = ''ranged reads''; key = prefix @ ''range''
      in case Put st key (bytes_of_string ''0123456789abcdefghij'') w of
           (Some e, w1) \<Rightarrow> (fail name True, w1)
         | (None, w1) \<Rightarrow>
             (case GetRange st key 5 5 w1 of
                (Inl e, w2) \<Rightarrow> (fail name True, w2)
              | (Inr got, w2) \<Rightarrow> (if string_of_bytes got \<noteq> ''56789'' then fail name True else pass name, w2)))"

definition checkHeadETag :: "'w store_ops \<Rightarrow> string \<Rightarrow> 'w \<Rightarrow> result \<times> 'w" where
  "checkHeadETag st prefix w =
     (let name = ''head returns an etag''; key = prefix @ ''head''
      in case Put st key (bytes_of_string ''abcdef'') w of
           (Some e, w1) \<Rightarrow> (fail name True, w1)
         | (None, w1) \<Rightarrow>
             (case Head st key w1 of
                (Inl e, w2) \<Rightarrow> (fail name True, w2)
              | (Inr info, w2) \<Rightarrow> (if oi_Size info \<noteq> 6 \<or> oi_ETag info = [] then fail name True else pass name, w2)))"

definition checkMissingIsNotFound :: "'w store_ops \<Rightarrow> string \<Rightarrow> 'w \<Rightarrow> result \<times> 'w" where
  "checkMissingIsNotFound st prefix w =
     (let name = ''missing key reports 404''
      in case Get st (prefix @ ''definitely-absent'') w of
           (r, w1) \<Rightarrow> (if r = Inl ErrNotFound then pass name else fail name True, w1))"

fun put_each :: "'w store_ops \<Rightarrow> string \<Rightarrow> string list \<Rightarrow> 'w \<Rightarrow> serr option \<times> 'w" where
  "put_each st lp [] w = (None, w)"
| "put_each st lp (n # ns) w =
     (case Put st (lp @ n) (bytes_of_string n) w of (Some e, w1) \<Rightarrow> (Some e, w1) | (None, w1) \<Rightarrow> put_each st lp ns w1)"

definition checkList :: "'w store_ops \<Rightarrow> string \<Rightarrow> 'w \<Rightarrow> result \<times> 'w" where
  "checkList st prefix w =
     (let name = ''list with prefix''; lp = prefix @ ''list/''
      in case put_each st lp [''a'', ''b'', ''c''] w of
           (Some e, w1) \<Rightarrow> (fail name True, w1)
         | (None, w1) \<Rightarrow>
             (case List st lp [] 100 w1 of
                (Inl e, w2) \<Rightarrow> (fail name True, w2)
              | (Inr obs, w2) \<Rightarrow> (if length obs \<noteq> 3 then fail name True else pass name, w2)))"

definition checkDelete :: "'w store_ops \<Rightarrow> string \<Rightarrow> 'w \<Rightarrow> result \<times> 'w" where
  "checkDelete st prefix w =
     (let name = ''delete''; key = prefix @ ''doomed''
      in case Put st key (bytes_of_string ''x'') w of
           (Some e, w1) \<Rightarrow> (fail name True, w1)
         | (None, w1) \<Rightarrow>
             (case Delete st key w1 of
                (Some e, w2) \<Rightarrow> (fail name True, w2)
              | (None, w2) \<Rightarrow>
                  (case Get st key w2 of (r, w3) \<Rightarrow> (if r = Inl ErrNotFound then pass name else fail name True, w3))))"

section \<open>Conditional writes\<close>

definition nCreate :: string where "nCreate = ''conditional create (If-None-Match)''"
definition nUpdate :: string where "nUpdate = ''conditional update (If-Match)''"
definition nReject :: string where "nReject = ''stale If-Match is REJECTED''"

text \<open>The third probe: a write conditioned on the ETag that the second one superseded.\<close>

definition probe_stale :: "'w store_ops \<Rightarrow> bool \<Rightarrow> string \<Rightarrow> string \<Rightarrow> 'w \<Rightarrow> result \<times> 'w" where
  "probe_stale st allow key etag w =
     (case PutIfMatch st key (bytes_of_string ''{\"epoch\":3}'') etag w of
        (Inl e, w1) \<Rightarrow>
          (if e = ErrPrecondition then pass nReject
           else if e = ErrUnsupported then fail nReject (\<not> allow) else fail nReject False, w1)
      | (Inr _, w1) \<Rightarrow> (fail nReject False, w1))"

definition probe_update :: "'w store_ops \<Rightarrow> bool \<Rightarrow> string \<Rightarrow> string \<Rightarrow> 'w \<Rightarrow> result list \<times> 'w" where
  "probe_update st allow key etag w =
     (case PutIfMatch st key (bytes_of_string ''{\"epoch\":2}'') etag w of
        (Inl e, w1) \<Rightarrow>
          let required = (e = ErrUnsupported \<and> \<not> allow) in ([fail nUpdate required, fail nReject required], w1)
      | (Inr _, w1) \<Rightarrow> (case probe_stale st allow key etag w1 of (r, w2) \<Rightarrow> ([pass nUpdate, r], w2)))"

definition checkConditionalWrites :: "'w store_ops \<Rightarrow> string \<Rightarrow> bool \<Rightarrow> 'w \<Rightarrow> result list \<times> 'w" where
  "checkConditionalWrites st prefix allow w =
     (let key = prefix @ ''cas''
      in case PutIfMatch st key (bytes_of_string ''{\"epoch\":1}'') [] w of
           (Inl e, w1) \<Rightarrow>
             if e = ErrUnsupported
             then ([fail nCreate (\<not> allow), fail nUpdate (\<not> allow), fail nReject (\<not> allow)], w1)
             else ([fail nCreate False, fail nUpdate False, fail nReject False], w1)
         | (Inr etag, w1) \<Rightarrow>
             if etag = []
             then (case Head st key w1 of
                     (Inl e, w2) \<Rightarrow> ([pass nCreate, fail nUpdate False, fail nReject False], w2)
                   | (Inr info, w2) \<Rightarrow> (case probe_update st allow key (oi_ETag info) w2 of (rs, w3) \<Rightarrow> (pass nCreate # rs, w3)))
             else (case probe_update st allow key etag w1 of (rs, w2) \<Rightarrow> (pass nCreate # rs, w2)))"

section \<open>The report\<close>

fun delete_each :: "'w store_ops \<Rightarrow> object_info list \<Rightarrow> 'w \<Rightarrow> 'w" where
  "delete_each st [] w = w"
| "delete_each st (i # is) w = delete_each st is (snd (Delete st (oi_Key i) w))"

definition cleanup :: "'w store_ops \<Rightarrow> string \<Rightarrow> 'w \<Rightarrow> 'w" where
  "cleanup st prefix w = (case List st prefix [] 1000 w of (Inl e, w1) \<Rightarrow> w1 | (Inr is, w1) \<Rightarrow> delete_each st is w1)"

datatype verdict = Supports | Missing bool | Caveats

definition check_prefix :: "nat \<Rightarrow> string" where
  "check_prefix now = ''strata-check/'' @ itoa now @ ''/''"

text \<open>The rows in the order of the report, and the world before the probes' objects are removed.\<close>

definition run_probes :: "'w store_ops \<Rightarrow> string \<Rightarrow> bool \<Rightarrow> 'w \<Rightarrow> result list \<times> result list \<times> 'w" where
  "run_probes st prefix allow w =
     (let (r1, w1) = checkRoundTrip st prefix w;
          (r2, w2) = checkAwkwardKeys st prefix w1;
          (r3, w3) = checkRange st prefix w2;
          (r4, w4) = checkHeadETag st prefix w3;
          (r5, w5) = checkMissingIsNotFound st prefix w4;
          (r6, w6) = checkList st prefix w5;
          (r7, w7) = checkDelete st prefix w6;
          (cond, w8) = checkConditionalWrites st prefix allow w7
      in ([r1, r2, r3, r4, r5, r6, r7], cond, w8))"

definition verdict_of :: "result list \<Rightarrow> result list \<Rightarrow> verdict" where
  "verdict_of rs cond =
     (let results = rs @ cond;
          condRequired = list_ex (\<lambda>r. \<not> res_ok r \<and> res_required r) cond;
          failed = length (filter (\<lambda>r. \<not> res_ok r) results);
          required = length (filter (\<lambda>r. \<not> res_ok r \<and> res_required r) results)
      in if failed = 0 then Supports else if required > 0 then Missing condRequired else Caveats)"

definition runCheck :: "'w store_ops \<Rightarrow> bool \<Rightarrow> nat \<Rightarrow> 'w \<Rightarrow> (verdict \<times> string option) \<times> 'w" where
  "runCheck st allow now w =
     (let prefix = check_prefix now;
          (rs, cond, w1) = run_probes st prefix allow w;
          v = verdict_of rs cond;
          e = (case v of Missing _ \<Rightarrow> Some ''endpoint failed a required check'' | _ \<Rightarrow> None)
      in ((v, e), cleanup st prefix w1))"

section \<open>What a check touches\<close>

context object_store
begin

text \<open>From one world to another, only objects under a prefix may have changed.\<close>

definition within :: "string \<Rightarrow> 'w \<Rightarrow> 'w \<Rightarrow> bool" where
  "within p w w' \<longleftrightarrow> good w' \<and> (\<forall>k. \<not> starts_with p k \<longrightarrow> objs w' k = objs w k \<and> etag w' k = etag w k)"

lemma within_refl: "good w \<Longrightarrow> within p w w"
  by (simp add: within_def)

lemma within_good: "within p w w' \<Longrightarrow> good w'"
  by (simp add: within_def)

lemma within_steps:
  assumes "within p w w1"
  shows "starts_with p k \<Longrightarrow> key_ok k \<Longrightarrow> Put st k d w1 = (a, w2) \<Longrightarrow> within p w w2"
    "starts_with p k \<Longrightarrow> key_ok k \<Longrightarrow> Delete st k w1 = (a, w2) \<Longrightarrow> within p w w2"
    "starts_with p k \<Longrightarrow> key_ok k \<Longrightarrow> PutIfMatch st k d e w1 = (b, w2) \<Longrightarrow> within p w w2"
    "key_ok k \<Longrightarrow> Get st k w1 = (g, w2) \<Longrightarrow> within p w w2"
    "key_ok k \<Longrightarrow> ofs + n < 2 ^ 63 \<Longrightarrow> GetRange st k ofs n w1 = (g, w2) \<Longrightarrow> within p w w2"
    "key_ok k \<Longrightarrow> Head st k w1 = (i, w2) \<Longrightarrow> within p w w2"
    "List st q a' mx w1 = (l, w2) \<Longrightarrow> within p w w2"
proof -
  have g: "good w1" using assms by (rule within_good)
  show "starts_with p k \<Longrightarrow> key_ok k \<Longrightarrow> Put st k d w1 = (a, w2) \<Longrightarrow> within p w w2"
    using Put_law [OF g] assms unfolding within_def by metis
  show "starts_with p k \<Longrightarrow> key_ok k \<Longrightarrow> Delete st k w1 = (a, w2) \<Longrightarrow> within p w w2"
    using Delete_law [OF g] assms unfolding within_def by metis
  show "starts_with p k \<Longrightarrow> key_ok k \<Longrightarrow> PutIfMatch st k d e w1 = (b, w2) \<Longrightarrow> within p w w2"
    using PutIfMatch_law [OF g] assms unfolding within_def by metis
  show "key_ok k \<Longrightarrow> Get st k w1 = (g, w2) \<Longrightarrow> within p w w2"
    using Get_law [OF g] assms unfolding within_def by metis
  show "key_ok k \<Longrightarrow> ofs + n < 2 ^ 63 \<Longrightarrow> GetRange st k ofs n w1 = (g, w2) \<Longrightarrow> within p w w2"
    using GetRange_law [OF g] assms unfolding within_def by metis
  show "key_ok k \<Longrightarrow> Head st k w1 = (i, w2) \<Longrightarrow> within p w w2"
    using Head_law [OF g] assms unfolding within_def by metis
  show "List st q a' mx w1 = (l, w2) \<Longrightarrow> within p w w2"
    using List_law [OF g] assms unfolding within_def by metis
qed

lemma starts_self: "starts_with p (p @ q)" "starts_with p (p @ q @ r)"
  by (simp_all add: starts_with_def)

lemma awkward_within:
  assumes "within p w w1" "\<And>q. key_ok (p @ q)" "awkward_loop st p nm ns w1 = (r, w2)"
  shows "within p w w2"
  using assms(1,3)
proof (induction ns arbitrary: w1)
  case (Cons n ns)
  obtain a w3 where a: "Put st (p @ n) (bytes_of_string n) w1 = (a, w3)" by fastforce
  obtain g w4 where g: "Get st (p @ n) w3 = (g, w4)" by fastforce
  have "within p w w3" using within_steps(1) [OF Cons.prems(1) starts_self(1) assms(2) a] .
  moreover from this have "within p w w4" using within_steps(4) assms(2) g by blast
  ultimately show ?case using Cons a g by (auto split: option.splits sum.splits if_splits)
qed simp

lemma put_each_within:
  assumes "within p w w1" "\<And>q. key_ok (p @ q)" "put_each st (p @ l) ns w1 = (r, w2)"
  shows "within p w w2"
  using assms(1,3)
proof (induction ns arbitrary: w1)
  case (Cons n ns)
  obtain a w3 where a: "Put st ((p @ l) @ n) (bytes_of_string n) w1 = (a, w3)" by fastforce
  have "within p w w3" using within_steps(1) [OF Cons.prems(1) _ _ a] assms(2) starts_self by simp
  then show ?case using Cons a by (auto split: option.splits)
qed simp

lemma delete_each_within:
  assumes "within p w w1" "\<forall>i \<in> set is. key_ok (oi_Key i) \<and> starts_with p (oi_Key i)"
  shows "within p w (delete_each st is w1)"
  using assms
proof (induction "is" arbitrary: w1)
  case (Cons i "is")
  obtain a w3 where a: "Delete st (oi_Key i) w1 = (a, w3)" by fastforce
  have "within p w w3" using within_steps(2) [OF Cons.prems(1) _ _ a] Cons.prems(2) by simp
  then show ?case using Cons a by simp
qed simp

lemma cleanup_within:
  assumes "within p w w1"
  shows "within p w (cleanup st p w1)"
proof -
  obtain l w2 where l: "List st p [] 1000 w1 = (l, w2)" by fastforce
  have w2: "within p w w2" using within_steps(7) [OF assms l] .
  show ?thesis
  proof (cases l)
    case (Inl e)
    then show ?thesis using l w2 by (simp add: cleanup_def)
  next
    case (Inr "is")
    note L = List_law [OF within_good [OF assms] l]
    obtain ks m where ks: "set ks = {k. objs w1 k \<noteq> None \<and> starts_with p k \<and> [] < k}" "map oi_Key is = take m ks"
      using L Inr by blast
    have "starts_with p k" if "k \<in> set (map oi_Key is)" for k
      using that ks(1) in_set_takeD [of k m ks] unfolding ks(2) by blast
    then have "\<forall>i \<in> set is. key_ok (oi_Key i) \<and> starts_with p (oi_Key i)" using L Inr by auto
    then show ?thesis using delete_each_within [OF w2] l Inr by (simp add: cleanup_def)
  qed
qed

lemma probes_within:
  assumes "within p w w1" "\<And>q. key_ok (p @ q)"
  shows "checkRoundTrip st p w1 = (r, w2) \<Longrightarrow> within p w w2"
    "checkAwkwardKeys st p w1 = (r, w2) \<Longrightarrow> within p w w2"
    "checkRange st p w1 = (r, w2) \<Longrightarrow> within p w w2"
    "checkHeadETag st p w1 = (r, w2) \<Longrightarrow> within p w w2"
    "checkMissingIsNotFound st p w1 = (r, w2) \<Longrightarrow> within p w w2"
    "checkList st p w1 = (r, w2) \<Longrightarrow> within p w w2"
    "checkDelete st p w1 = (r, w2) \<Longrightarrow> within p w w2"
proof -
  have put: "Put st (p @ q) d w1 = (a, w2) \<Longrightarrow> within p w w1 \<Longrightarrow> within p w w2" for q d a w1 w2
    using within_steps(1) starts_self(1) assms(2) by blast
  have del: "Delete st (p @ q) w1 = (a, w2) \<Longrightarrow> within p w w1 \<Longrightarrow> within p w w2" for q a w1 w2
    using within_steps(2) starts_self(1) assms(2) by blast
  have get: "Get st (p @ q) w1 = (g, w2) \<Longrightarrow> within p w w1 \<Longrightarrow> within p w w2" for q g w1 w2
    using within_steps(4) assms(2) by blast
  have rng: "GetRange st (p @ q) 5 5 w1 = (g, w2) \<Longrightarrow> within p w w1 \<Longrightarrow> within p w w2" for q g w1 w2
    by (rule within_steps(5) [OF _ assms(2), of p w w1 5 5 q g w2]) simp_all
  have head: "Head st (p @ q) w1 = (i, w2) \<Longrightarrow> within p w w1 \<Longrightarrow> within p w w2" for q i w1 w2
    using within_steps(6) assms(2) by blast
  have lst: "List st lp k mx w1 = (l, w2) \<Longrightarrow> within p w w1 \<Longrightarrow> within p w w2" for lp k mx l w1 w2
    using within_steps(7) by blast
  note each = put_each_within [OF _ assms(2)]
  show "checkRoundTrip st p w1 = (r, w2) \<Longrightarrow> within p w w2"
    using assms(1) by (auto simp: checkRoundTrip_def Let_def split: prod.splits option.splits sum.splits dest!: put get)
  show "checkAwkwardKeys st p w1 = (r, w2) \<Longrightarrow> within p w w2"
    using awkward_within [OF assms] by (simp add: checkAwkwardKeys_def)
  show "checkRange st p w1 = (r, w2) \<Longrightarrow> within p w w2"
    using assms(1) by (auto simp: checkRange_def Let_def split: prod.splits option.splits sum.splits dest!: put rng)
  show "checkHeadETag st p w1 = (r, w2) \<Longrightarrow> within p w w2"
    using assms(1) by (auto simp: checkHeadETag_def Let_def split: prod.splits option.splits sum.splits dest!: put head)
  show "checkMissingIsNotFound st p w1 = (r, w2) \<Longrightarrow> within p w w2"
    using assms(1) by (auto simp: checkMissingIsNotFound_def Let_def split: prod.splits dest!: get)
  show "checkDelete st p w1 = (r, w2) \<Longrightarrow> within p w w2"
    using assms(1) by (auto simp: checkDelete_def Let_def split: prod.splits option.splits sum.splits dest!: put del get)
  show "within p w w2" if "checkList st p w1 = (r, w2)"
  proof -
    obtain a w3 where a: "put_each st (p @ ''list/'') [''a'', ''b'', ''c''] w1 = (a, w3)" by fastforce
    obtain l w4 where l: "List st (p @ ''list/'') [] 100 w3 = (l, w4)" by fastforce
    have "w2 = w3 \<or> w2 = w4" using that a l by (auto simp: checkList_def Let_def split: option.splits sum.splits)
    then show ?thesis using each [OF assms(1) a] lst [OF l] by blast
  qed
qed

lemma cond_within:
  assumes "within p w w1" "\<And>q. key_ok (p @ q)" "checkConditionalWrites st p allow w1 = (rs, w2)"
  shows "within p w w2"
proof -
  have cas: "PutIfMatch st (p @ q) d e w1 = (b, w2) \<Longrightarrow> within p w w1 \<Longrightarrow> within p w w2" for q d e b w1 w2
    using within_steps(3) starts_self(1) assms(2) by blast
  have head: "Head st (p @ q) w1 = (i, w2) \<Longrightarrow> within p w w1 \<Longrightarrow> within p w w2" for q i w1 w2
    using within_steps(6) assms(2) by blast
  have stale: "probe_stale st allow (p @ q) e w1 = (r, w2) \<Longrightarrow> within p w w1 \<Longrightarrow> within p w w2" for q e r w1 w2
    by (auto simp: probe_stale_def split: prod.splits sum.splits dest!: cas)
  have upd: "probe_update st allow (p @ q) e w1 = (r, w2) \<Longrightarrow> within p w w1 \<Longrightarrow> within p w w2" for q e r w1 w2
    by (auto simp: probe_update_def Let_def split: prod.splits sum.splits dest!: cas stale)
  show ?thesis
    using assms(1,3)
    by (auto simp: checkConditionalWrites_def Let_def split: prod.splits sum.splits if_splits dest!: cas head upd)
qed

lemma probes_cond:
  assumes "good w" "\<And>q. key_ok (p @ q)" "run_probes st p allow w = (rs, cond, w')"
  shows "\<exists>w7. checkConditionalWrites st p allow w7 = (cond, w') \<and> within p w w7 \<and> good w7"
proof -
  note step = probes_within [OF _ assms(2)]
  obtain r1 w1 where 1: "checkRoundTrip st p w = (r1, w1)" by fastforce
  obtain r2 w2 where 2: "checkAwkwardKeys st p w1 = (r2, w2)" by fastforce
  obtain r3 w3 where 3: "checkRange st p w2 = (r3, w3)" by fastforce
  obtain r4 w4 where 4: "checkHeadETag st p w3 = (r4, w4)" by fastforce
  obtain r5 w5 where 5: "checkMissingIsNotFound st p w4 = (r5, w5)" by fastforce
  obtain r6 w6 where 6: "checkList st p w5 = (r6, w6)" by fastforce
  obtain r7 w7 where 7: "checkDelete st p w6 = (r7, w7)" by fastforce
  have 8: "checkConditionalWrites st p allow w7 = (cond, w')" using assms(3) 1 2 3 4 5 6 7 by (auto simp: run_probes_def)
  have "within p w w7"
    using step(7) [OF step(6) [OF step(5) [OF step(4) [OF step(3) [OF step(2) [OF step(1) [OF within_refl [OF assms(1)] 1] 2] 3] 4] 5] 6] 7] .
  then show ?thesis using 8 within_good by blast
qed

lemma run_probes_within:
  assumes "good w" "\<And>q. key_ok (p @ q)" "run_probes st p allow w = (rs, cond, w')"
  shows "within p w w'"
  using probes_cond [OF assms] cond_within assms(2) by blast

end

lemma unsupported_cond:
  assumes "\<And>k d t x. fst (PutIfMatch st k d t x) = Inl ErrUnsupported"
  shows "fst (checkConditionalWrites st p allow w) = [fail nCreate (\<not> allow), fail nUpdate (\<not> allow), fail nReject (\<not> allow)]"
  using assms [of "p @ ''cas''" "bytes_of_string ''{\"epoch\":1}''" "[]" w]
  by (auto simp: checkConditionalWrites_def Let_def split: prod.splits)

text \<open>
  The three conditional writes of a run without a failed row: the key was created, a second write was
  accepted under the ETag of the first, and a third write under that same ETag, now superseded, was refused.
\<close>

definition stale_write_refused :: "'w store_ops \<Rightarrow> string \<Rightarrow> 'w \<Rightarrow> string \<Rightarrow> 'w \<Rightarrow> 'w \<Rightarrow> 'w \<Rightarrow> bool" where
  "stale_write_refused st key x0 tag x1 x2 x3 \<longleftrightarrow>
     (\<exists>t1 y. PutIfMatch st key (bytes_of_string ''{\"epoch\":1}'') [] x0 = (Inr t1, y) \<and>
        (t1 \<noteq> [] \<and> tag = t1 \<and> x1 = y \<or> t1 = [] \<and> (\<exists>i. Head st key y = (Inr i, x1) \<and> tag = oi_ETag i))) \<and>
     (\<exists>t2. PutIfMatch st key (bytes_of_string ''{\"epoch\":2}'') tag x1 = (Inr t2, x2)) \<and>
     PutIfMatch st key (bytes_of_string ''{\"epoch\":3}'') tag x2 = (Inl ErrPrecondition, x3)"

lemma probe_stale_ok:
  "probe_stale st allow k e w1 = (r, w2) \<Longrightarrow> res_ok r \<Longrightarrow>
     PutIfMatch st k (bytes_of_string ''{\"epoch\":3}'') e w1 = (Inl ErrPrecondition, w2)"
  by (auto simp: probe_stale_def pass_def fail_def split: prod.splits sum.splits if_splits)

lemma probe_update_ok:
  "probe_update st allow k e w1 = (r, w3) \<Longrightarrow> list_all res_ok r \<Longrightarrow>
     \<exists>t2 w2. PutIfMatch st k (bytes_of_string ''{\"epoch\":2}'') e w1 = (Inr t2, w2) \<and>
       PutIfMatch st k (bytes_of_string ''{\"epoch\":3}'') e w2 = (Inl ErrPrecondition, w3)"
  by (auto simp: probe_update_def Let_def fail_def split: prod.splits sum.splits dest: probe_stale_ok)

lemma stale_refused:
  assumes "checkConditionalWrites st p allow w = (rs, w')" "list_all res_ok rs"
  shows "\<exists>tag x1 x2. stale_write_refused st (p @ ''cas'') w tag x1 x2 w'"
  using assms unfolding checkConditionalWrites_def Let_def stale_write_refused_def
  by (auto simp: fail_def split: prod.splits sum.splits if_splits dest!: probe_update_ok)

context object_store
begin

text \<open>What the contract adds: the tag was that of the first body, and the second body has replaced it.\<close>

lemma stale_write_contract:
  assumes "stale_write_refused st k x0 tag x1 x2 x3" "good x0" "key_ok k"
  shows "objs x1 k = Some (bytes_of_string ''{\"epoch\":1}'') \<and> tag \<noteq> [] \<and> tag = etag x1 k \<and>
     objs x2 k = Some (bytes_of_string ''{\"epoch\":2}'') \<and>
     (etag x2 k \<noteq> tag \<longrightarrow> objs x3 k = Some (bytes_of_string ''{\"epoch\":2}''))"
proof -
  from assms(1) obtain t1 y t2 where
      c1: "PutIfMatch st k (bytes_of_string ''{\"epoch\":1}'') [] x0 = (Inr t1, y)"
    and h: "t1 \<noteq> [] \<and> tag = t1 \<and> x1 = y \<or> t1 = [] \<and> (\<exists>i. Head st k y = (Inr i, x1) \<and> tag = oi_ETag i)"
    and c2: "PutIfMatch st k (bytes_of_string ''{\"epoch\":2}'') tag x1 = (Inr t2, x2)"
    and c3: "PutIfMatch st k (bytes_of_string ''{\"epoch\":3}'') tag x2 = (Inl ErrPrecondition, x3)"
    by (auto simp: stale_write_refused_def)
  have y: "good y" "objs y k = Some (bytes_of_string ''{\"epoch\":1}'')"
    using PutIfMatch_law [OF assms(2,3) c1] by auto
  have x1: "good x1 \<and> objs x1 = objs y" using h Head_law [OF y(1) assms(3)] y(1) by blast
  note l2 = PutIfMatch_law [OF conjunct1 [OF x1] assms(3) c2]
  then have x2: "good x2" "objs x2 k = Some (bytes_of_string ''{\"epoch\":2}'')" "tag \<noteq> []" "tag = etag x1 k"
    using x1 y(2) by auto
  show ?thesis using x1 y(2) x2 PutIfMatch_law [OF x2(1) assms(3) c3] by (auto split: if_splits)
qed

end

text \<open>
  C26. A check can be run on a live bucket, and its verdict can be relied on. Over any store that keeps its
  contract, whichever calls fail, nothing outside the check's own prefix changes. An endpoint that
  answers every conditional write as unsupported fails the check when unconditional commits were not
  allowed, and when they were the conditional rows alone never fail it. And an endpoint that passes
  without a failed row has been seen, in this run and just before the probes' objects are removed, to
  refuse a stale write: one sent with the ETag of the first body after the second body had been accepted
  under that same ETag.
\<close>

theorem check_is_harmless:
  assumes "object_store st objs etg good kok" "good w" "\<And>q. kok (check_prefix now @ q)"
    and "runCheck st allow now w = ((v, e), w')"
  shows "good w' \<and> (\<forall>k. \<not> starts_with (check_prefix now) k \<longrightarrow> objs w' k = objs w k \<and> etg w' k = etg w k) \<and>
    ((\<forall>k d t x. fst (PutIfMatch st k d t x) = Inl ErrUnsupported) \<longrightarrow>
       (if allow then v = Missing False \<or> v = Caveats else e \<noteq> None \<and> v = Missing True)) \<and>
    (v = Supports \<longrightarrow> (\<exists>tag x1 x2 x3 t2.
       objs x1 (check_prefix now @ ''cas'') = Some (bytes_of_string ''{\"epoch\":1}'') \<and>
       tag \<noteq> [] \<and> tag = etg x1 (check_prefix now @ ''cas'') \<and>
       PutIfMatch st (check_prefix now @ ''cas'') (bytes_of_string ''{\"epoch\":2}'') tag x1 = (Inr t2, x2) \<and>
       objs x2 (check_prefix now @ ''cas'') = Some (bytes_of_string ''{\"epoch\":2}'') \<and>
       PutIfMatch st (check_prefix now @ ''cas'') (bytes_of_string ''{\"epoch\":3}'') tag x2 = (Inl ErrPrecondition, x3) \<and>
       (etg x2 (check_prefix now @ ''cas'') \<noteq> tag \<longrightarrow>
          objs x3 (check_prefix now @ ''cas'') = Some (bytes_of_string ''{\"epoch\":2}'')) \<and>
       w' = cleanup st (check_prefix now) x3))"
proof -
  let ?p = "check_prefix now"
  obtain rs cond w1 where r: "run_probes st ?p allow w = (rs, cond, w1)" by (metis prod_cases3)
  have ve: "v = verdict_of rs cond" "e = (case v of Missing _ \<Rightarrow> Some ''endpoint failed a required check'' | _ \<Rightarrow> None)"
      "w' = cleanup st ?p w1" using assms(4) r by (auto simp: runCheck_def Let_def)
  have "object_store.within objs etg good ?p w w'"
    using object_store.cleanup_within [OF assms(1) object_store.run_probes_within [OF assms(1-3) r]] ve(3) by simp
  then have W: "good w'" "\<forall>k. \<not> starts_with ?p k \<longrightarrow> objs w' k = objs w k \<and> etg w' k = etg w k"
    by (auto simp: object_store.within_def [OF assms(1)])
  obtain w7 where c: "checkConditionalWrites st ?p allow w7 = (cond, w1)" and g7: "good w7"
    using object_store.probes_cond [OF assms(1-3) r] by blast
  have "if allow then v = Missing False \<or> v = Caveats else e \<noteq> None \<and> v = Missing True"
    if "\<forall>k d t x. fst (PutIfMatch st k d t x) = Inl ErrUnsupported"
  proof -
    have "cond = [fail nCreate (\<not> allow), fail nUpdate (\<not> allow), fail nReject (\<not> allow)]"
      using unsupported_cond [of st ?p allow w7] that c by simp
    then show ?thesis using ve(1,2) by (auto simp: verdict_of_def fail_def Let_def)
  qed
  moreover have "\<exists>tag x1 x2 x3 t2. objs x1 (?p @ ''cas'') = Some (bytes_of_string ''{\"epoch\":1}'') \<and>
      tag \<noteq> [] \<and> tag = etg x1 (?p @ ''cas'') \<and>
      PutIfMatch st (?p @ ''cas'') (bytes_of_string ''{\"epoch\":2}'') tag x1 = (Inr t2, x2) \<and>
      objs x2 (?p @ ''cas'') = Some (bytes_of_string ''{\"epoch\":2}'') \<and>
      PutIfMatch st (?p @ ''cas'') (bytes_of_string ''{\"epoch\":3}'') tag x2 = (Inl ErrPrecondition, x3) \<and>
      (etg x2 (?p @ ''cas'') \<noteq> tag \<longrightarrow> objs x3 (?p @ ''cas'') = Some (bytes_of_string ''{\"epoch\":2}'')) \<and>
      w' = cleanup st ?p x3" if "v = Supports"
  proof -
    have "filter (\<lambda>r. \<not> res_ok r) cond = []" using that ve(1) by (auto simp: verdict_of_def Let_def split: if_splits)
    then have "list_all res_ok cond" by (simp add: filter_empty_conv list_all_iff)
    then obtain tag x1 x2 where s: "stale_write_refused st (?p @ ''cas'') w7 tag x1 x2 w1" using stale_refused [OF c] by blast
    then obtain t2 where "PutIfMatch st (?p @ ''cas'') (bytes_of_string ''{\"epoch\":2}'') tag x1 = (Inr t2, x2)"
      "PutIfMatch st (?p @ ''cas'') (bytes_of_string ''{\"epoch\":3}'') tag x2 = (Inl ErrPrecondition, w1)"
      unfolding stale_write_refused_def by blast
    then show ?thesis using object_store.stale_write_contract [OF assms(1) s g7 assms(3)] ve(3)
      by - (rule exI [of _ tag], rule exI [of _ x1], rule exI [of _ x2], rule exI [of _ w1], rule exI [of _ t2], blast)
  qed
  ultimately show ?thesis using W by (intro conjI impI) simp_all
qed

end
