(* ===== verification/Sigv4.thy ===== *)
theory Sigv4
  imports Strs "HOL-Library.Multiset"
begin

text \<open>
  \<open>internal/store/sigv4.go\<close>: the signing of a request, and the percent-encoding it shares with the S3
  client. SHA-256 and HMAC are arguments, a request is a record, and the order in which Go visits the
  header map is an argument too; the theorem on the header block says that it does not matter.
\<close>

section \<open>Percent-encoding\<close>

definition unreserved :: "char \<Rightarrow> bool" where
  "unreserved c \<longleftrightarrow>
     (let n = of_char c :: nat in
      65 \<le> n \<and> n \<le> 90 \<or> 97 \<le> n \<and> n \<le> 122 \<or> 48 \<le> n \<and> n \<le> 57 \<or> c \<in> {CHR ''-'', CHR ''.'', CHR ''_'', CHR ''~''})"

definition upperhex :: string where
  "upperhex = ''0123456789ABCDEF''"

definition pct :: "char \<Rightarrow> string" where
  "pct c = [CHR ''%'', upperhex ! (of_char c div 16), upperhex ! (of_char c mod 16)]"

definition uriEncode :: "string \<Rightarrow> bool \<Rightarrow> string" where
  "uriEncode s encodeSlash =
     concat (map (\<lambda>c. if unreserved c then [c] else if c = CHR ''/'' \<and> \<not> encodeSlash then [c] else pct c) s)"

definition fromHex :: "char \<Rightarrow> nat option" where
  "fromHex c =
     (let n = of_char c :: nat in
      if 48 \<le> n \<and> n \<le> 57 then Some (n - 48)
      else if 65 \<le> n \<and> n \<le> 70 then Some (n - 65 + 10)
      else if 97 \<le> n \<and> n \<le> 102 then Some (n - 97 + 10)
      else None)"

fun unescape :: "string \<Rightarrow> string" where
  "unescape (c # h # l # s) =
     (if c = CHR ''%''
      then (case (fromHex h, fromHex l) of
              (Some hi, Some lo) \<Rightarrow> char_of (16 * hi + lo) # unescape s
            | _ \<Rightarrow> c # unescape (h # l # s))
      else c # unescape (h # l # s))"
| "unescape [a, b] = [a, b]"
| "unescape [a] = [a]"
| "unescape [] = []"

section \<open>The canonical request\<close>

record url =
  u_Scheme :: string
  u_Host :: string
  u_Path :: string
  u_RawPath :: string
  u_RawQuery :: string

type_synonym header = "(string, string list) fmap"

record request =
  rq_Method :: string
  rq_URL :: url
  rq_Host :: string
  rq_Header :: header
  rq_Body :: "bytes option"

text \<open>\<open>Header.Set\<close>: every name the code sets is written in the canonical form the map has as its keys.\<close>

definition set_header :: "string \<Rightarrow> string \<Rightarrow> request \<Rightarrow> request" where
  "set_header k v r = r\<lparr>rq_Header := fmupd k [v] (rq_Header r)\<rparr>"

text \<open>
  \<open>URL.EscapedPath\<close>: the raw path if it is an encoding of the path, and the default encoding of the
  path otherwise. \<open>path_char\<close> says what the default encoding leaves alone.
\<close>

definition path_char :: "char \<Rightarrow> bool" where
  "path_char c \<longleftrightarrow> unreserved c \<or> c \<in> set ''$&+,/:;=@''"

fun path_unescape :: "string \<Rightarrow> string option" where
  "path_unescape [] = Some []"
| "path_unescape (c # s) =
     (if c = CHR ''%''
      then (case s of
              h # l # t \<Rightarrow>
                (case (fromHex h, fromHex l) of
                   (Some hi, Some lo) \<Rightarrow> map_option ((#) (char_of (16 * hi + lo))) (path_unescape t)
                 | _ \<Rightarrow> None)
            | _ \<Rightarrow> None)
      else map_option ((#) c) (path_unescape s))"

definition escapedPath :: "url \<Rightarrow> string" where
  "escapedPath u =
     (if u_RawPath u \<noteq> [] \<and> list_all (\<lambda>c. path_char c \<or> c \<in> set ''!()*[]%'' \<or> c = CHR 0x27) (u_RawPath u) \<and>
         path_unescape (u_RawPath u) = Some (u_Path u)
      then u_RawPath u
      else if u_Path u = ''*'' then ''*''
      else concat (map (\<lambda>c. if path_char c then [c] else pct c) (u_Path u)))"

definition trimAll :: "string \<Rightarrow> string" where
  "trimAll s = join (fields_of s) '' ''"

definition canonicalURI :: "string \<Rightarrow> string" where
  "canonicalURI escaped = (if escaped = [] then ''/'' else escaped)"

definition canonicalQuery :: "string \<Rightarrow> string" where
  "canonicalQuery raw =
     (if raw = [] then []
      else join (sort (map (\<lambda>kv. let (k, v) = cut kv (CHR ''='') in uriEncode (unescape k) True @ ''='' @ uriEncode (unescape v) True)
                     (filter (\<lambda>kv. kv \<noteq> []) (split_when (\<lambda>c. c = CHR ''&'') raw)))) ''&'')"

definition signed_name :: "string \<Rightarrow> bool" where
  "signed_name l \<longleftrightarrow> l \<noteq> ''host'' \<and> (l = ''content-type'' \<or> has_prefix l ''x-amz-'')"

definition req_host :: "request \<Rightarrow> string" where
  "req_host r = (if rq_Host r \<noteq> [] then rq_Host r else u_Host (rq_URL r))"

text \<open>\<open>ord\<close> lists the names of the header map as the loop visits them. The names it adds are distinct, so how \<open>sort.Slice\<close> orders equal ones is never asked.\<close>

definition header_list :: "string list \<Rightarrow> request \<Rightarrow> (string \<times> string) list" where
  "header_list ord r =
     (''host'', trimAll (req_host r)) #
     concat (map (\<lambda>name. let l = to_lower name in
                 if signed_name l then [(l, trimAll (join (the (fmlookup (rq_Header r) name)) '',''))] else []) ord)"

definition canonicalHeaders :: "string list \<Rightarrow> request \<Rightarrow> string \<times> string" where
  "canonicalHeaders ord r =
     (let hs = sort_key fst (header_list ord r)
      in (concat (map (\<lambda>(n, v). n @ '':'' @ v @ [CHR 10]) hs), join (map fst hs) '';''))"

section \<open>Signing\<close>

record credentials =
  cr_AccessKeyID :: string
  cr_SecretAccessKey :: string
  cr_SessionToken :: string

text \<open>The hash functions, the visiting order of a header map, and a reading of the clock in UTC.\<close>

record crypto =
  c_sha256 :: "bytes \<Rightarrow> bytes"
  c_hmac :: "bytes \<Rightarrow> bytes \<Rightarrow> bytes"
  c_range :: "header \<Rightarrow> string list"

record utc =
  t_year :: nat
  t_month :: nat
  t_day :: nat
  t_hour :: nat
  t_min :: nat
  t_sec :: nat

definition emptyPayloadHash :: string where
  "emptyPayloadHash = ''e3b0c44298fc1c149afbf4c8996fb92427ae41e4649b934ca495991b7852b855''"

definition dateStamp :: "utc \<Rightarrow> string" where
  "dateStamp t = pad_dec 4 (t_year t) @ pad_dec 2 (t_month t) @ pad_dec 2 (t_day t)"

definition amzDate :: "utc \<Rightarrow> string" where
  "amzDate t = dateStamp t @ ''T'' @ pad_dec 2 (t_hour t) @ pad_dec 2 (t_min t) @ pad_dec 2 (t_sec t) @ ''Z''"

definition hmacSHA256 :: "crypto \<Rightarrow> bytes \<Rightarrow> string \<Rightarrow> bytes" where
  "hmacSHA256 cx key data = c_hmac cx key (bytes_of_string data)"

definition deriveKey :: "crypto \<Rightarrow> string \<Rightarrow> string \<Rightarrow> string \<Rightarrow> string \<Rightarrow> bytes" where
  "deriveKey cx secret date region service =
     (let kDate = hmacSHA256 cx (bytes_of_string (''AWS4'' @ secret)) date;
          kRegion = hmacSHA256 cx kDate region;
          kService = hmacSHA256 cx kRegion service
      in hmacSHA256 cx kService ''aws4_request'')"

definition prepared :: "credentials \<Rightarrow> string \<Rightarrow> string \<Rightarrow> utc \<Rightarrow> request \<Rightarrow> request" where
  "prepared creds service payloadHash now r =
     (let r1 = set_header ''X-Amz-Date'' (amzDate now) r;
          r2 = (if service = ''s3'' then set_header ''X-Amz-Content-Sha256'' payloadHash r1 else r1);
          r3 = (if cr_SessionToken creds \<noteq> [] then set_header ''X-Amz-Security-Token'' (cr_SessionToken creds) r2 else r2)
      in set_header ''Host'' (req_host r3) r3)"

definition canonicalRequest :: "crypto \<Rightarrow> string \<Rightarrow> request \<Rightarrow> string" where
  "canonicalRequest cx payloadHash r =
     (let (canonHeaders, signedHeaders) = canonicalHeaders (c_range cx (rq_Header r)) r
      in join [rq_Method r, canonicalURI (escapedPath (rq_URL r)), canonicalQuery (u_RawQuery (rq_URL r)),
               canonHeaders, signedHeaders, payloadHash] [CHR 10])"

definition signV4 ::
  "crypto \<Rightarrow> credentials \<Rightarrow> string \<Rightarrow> string \<Rightarrow> string \<Rightarrow> utc \<Rightarrow> request \<Rightarrow> request" where
  "signV4 cx creds region service payloadHash now r0 =
     (let r = prepared creds service payloadHash now r0;
          signedHeaders = snd (canonicalHeaders (c_range cx (rq_Header r)) r);
          scope = join [dateStamp now, region, service, ''aws4_request''] ''/'';
          crHash = c_sha256 cx (bytes_of_string (canonicalRequest cx payloadHash r));
          stringToSign = join [''AWS4-HMAC-SHA256'', amzDate now, scope, hex_string crHash] [CHR 10];
          signingKey = deriveKey cx (cr_SecretAccessKey creds) (dateStamp now) region service;
          signature = hex_string (hmacSHA256 cx signingKey stringToSign)
      in set_header ''Authorization''
           (''AWS4-HMAC-SHA256 Credential='' @ cr_AccessKeyID creds @ ''/'' @ scope @ '', SignedHeaders='' @ signedHeaders @
            '', Signature='' @ signature) r)"

section \<open>Encoding and decoding\<close>

lemma hex_digit: "i < 16 \<Longrightarrow> fromHex (upperhex ! i) = Some i \<and> unreserved (upperhex ! i)"
proof -
  assume "i < 16"
  then have "i \<in> set [0 ..< 16]" by simp
  moreover have "list_all (\<lambda>i. fromHex (upperhex ! i) = Some i \<and> unreserved (upperhex ! i)) [0 ..< 16]"
    by (simp add: upt_rec upperhex_def fromHex_def unreserved_def)
  ultimately show ?thesis by (simp add: list_all_iff)
qed

lemma of_char_nibbles: "of_char c div 16 < (16 :: nat)" "of_char c mod 16 < (16 :: nat)"
    "16 * (of_char c div 16) + of_char c mod 16 = (of_char c :: nat)"
  using nat_of_char_less_256 [of c] by (auto simp: less_mult_imp_div_less)

lemma pct_parts:
  obtains h l where "pct c = [CHR ''%'', h, l]" "fromHex h = Some (of_char c div 16)" "fromHex l = Some (of_char c mod 16)"
    "unreserved h" "unreserved l"
  using hex_digit [OF of_char_nibbles(1) [of c]] hex_digit [OF of_char_nibbles(2) [of c]] by (auto simp: pct_def)

lemma unescape_plain: "c \<noteq> CHR ''%'' \<Longrightarrow> unescape (c # s) = c # unescape s"
  by (cases s; cases "tl s") (auto split: list.splits)

lemma unescape_pct: "unescape (pct c @ s) = c # unescape s"
  by (rule pct_parts [of c]) (simp add: of_char_nibbles(3))

lemma unreserved_not: "unreserved c \<Longrightarrow> c \<noteq> CHR ''%'' \<and> c \<noteq> CHR ''&'' \<and> c \<noteq> CHR ''='' \<and> c \<noteq> CHR ''/''"
  by (auto simp: unreserved_def)

lemma unescape_uriEncode [simp]: "unescape (uriEncode s b) = s"
proof (induction s)
  case (Cons c s)
  then show ?case
    using unescape_plain [of c "uriEncode s b"] unescape_pct [of c "uriEncode s b"] unreserved_not [of c]
    by (auto simp: uriEncode_def)
qed (simp add: uriEncode_def)

lemma path_unescape_uriEncode [simp]: "path_unescape (uriEncode s b @ t) = map_option ((@) s) (path_unescape t)"
proof (induction s)
  case Nil
  then show ?case by (cases "path_unescape t") (simp_all add: uriEncode_def)
next
  case (Cons c s)
  have p: "path_unescape (pct c @ u) = map_option ((#) c) (path_unescape u)" for u
    by (rule pct_parts [of c]) (simp add: of_char_nibbles(3))
  have "path_unescape (uriEncode (c # s) b @ t) = map_option ((#) c) (path_unescape (uriEncode s b @ t))"
    using p unreserved_not [of c] by (auto simp: uriEncode_def)
  then show ?case using Cons by (simp add: option.map_comp comp_def)
qed

text \<open>What an encoded string is made of.\<close>

lemma uriEncode_chars:
  "list_all (\<lambda>c. unreserved c \<or> c = CHR ''%'' \<or> c = CHR ''/'' \<and> \<not> b) (uriEncode s b)"
proof (induction s)
  case (Cons c s)
  moreover have "list_all (\<lambda>c. unreserved c \<or> c = CHR ''%'' \<or> c = CHR ''/'' \<and> \<not> b) (pct c)"
    by (rule pct_parts [of c]) simp
  ultimately show ?case by (auto simp: uriEncode_def)
qed (simp add: uriEncode_def)

lemma uriEncode_free: "list_all (\<lambda>x. x \<noteq> CHR ''&'') (uriEncode s b)" "list_all (\<lambda>x. x \<noteq> CHR ''='') (uriEncode s b)"
  using uriEncode_chars [of b s] unreserved_not by (auto simp: list_all_iff)

lemma uriEncode_inj: "uriEncode s b = uriEncode t b \<Longrightarrow> s = t"
  by (metis unescape_uriEncode)

section \<open>The canonical query\<close>

definition canon_pair :: "string \<Rightarrow> string" where
  "canon_pair kv = (let (k, v) = cut kv (CHR ''='') in uriEncode (unescape k) True @ ''='' @ uriEncode (unescape v) True)"

lemma canon_pair_again [simp]: "canon_pair (canon_pair kv) = canon_pair kv"
  by (simp add: canon_pair_def split_beta cut_at uriEncode_free(2))

lemma canon_pair_clean: "canon_pair kv \<noteq> []" "list_all (\<lambda>x. x \<noteq> CHR ''&'') (canon_pair kv)"
  by (auto simp: canon_pair_def split_beta uriEncode_free(1))

lemma canonicalQuery_alt:
  "canonicalQuery raw = join (sort (map canon_pair (filter (\<lambda>kv. kv \<noteq> []) (split_when (\<lambda>c. c = CHR ''&'') raw)))) ''&''"
  by (simp add: canonicalQuery_def canon_pair_def [abs_def])

lemma canonicalQuery_join:
  assumes "list_all (\<lambda>kv. kv \<noteq> [] \<and> list_all (\<lambda>x. x \<noteq> CHR ''&'') kv) kvs"
  shows "canonicalQuery (join kvs ''&'') = join (sort (map canon_pair kvs)) ''&''"
proof (cases "kvs = []")
  case False
  have "list_all (list_all (\<lambda>x. x \<noteq> CHR ''&'')) kvs" "filter (\<lambda>kv. kv \<noteq> []) kvs = kvs"
    using assms by (auto simp: list_all_iff intro!: filter_True)
  then show ?thesis using split_of_join [OF False] by (simp add: canonicalQuery_alt)
qed (simp add: canonicalQuery_alt)

text \<open>
  C32. The canonical forms are canonical. Decoding undoes encoding, whatever bytes the string holds, and an
  encoded string holds only unreserved characters, percent signs and, where asked, slashes. The
  canonical query depends neither on the order of the parameters nor on whether it is formed again.
\<close>

theorem canonical_encoding:
  "unescape (uriEncode s b) = s \<and>
   list_all (\<lambda>c. unreserved c \<or> c = CHR ''%'' \<or> c = CHR ''/'' \<and> \<not> b) (uriEncode s b) \<and>
   canonicalQuery (canonicalQuery q) = canonicalQuery q \<and>
   (mset kvs = mset kvs' \<longrightarrow> list_all (\<lambda>kv. kv \<noteq> [] \<and> CHR ''&'' \<notin> set kv) kvs \<longrightarrow>
      canonicalQuery (join kvs ''&'') = canonicalQuery (join kvs' ''&''))"
proof (intro conjI impI)
  show "unescape (uriEncode s b) = s" by simp
  show "list_all (\<lambda>c. unreserved c \<or> c = CHR ''%'' \<or> c = CHR ''/'' \<and> \<not> b) (uriEncode s b)" by (rule uriEncode_chars)
  let ?ps = "sort (map canon_pair (filter (\<lambda>kv. kv \<noteq> []) (split_when (\<lambda>c. c = CHR ''&'') q)))"
  have "list_all (\<lambda>kv. kv \<noteq> [] \<and> list_all (\<lambda>x. x \<noteq> CHR ''&'') kv) ?ps"
    using canon_pair_clean by (auto simp: list_all_iff)
  moreover have "map canon_pair ?ps = ?ps" by (intro map_idI) auto
  ultimately show "canonicalQuery (canonicalQuery q) = canonicalQuery q"
    using canonicalQuery_join [of ?ps] by (simp add: canonicalQuery_alt [of q] sorted_sort_id)
next
  assume m: "mset kvs = mset kvs'" and "list_all (\<lambda>kv. kv \<noteq> [] \<and> CHR ''&'' \<notin> set kv) kvs"
  then have k: "list_all (\<lambda>kv. kv \<noteq> [] \<and> list_all (\<lambda>x. x \<noteq> CHR ''&'') kv) kvs" by (auto simp: list_all_iff)
  then have "list_all (\<lambda>kv. kv \<noteq> [] \<and> list_all (\<lambda>x. x \<noteq> CHR ''&'') kv) kvs'"
    using mset_eq_setD [OF m] by (simp add: list_all_iff)
  moreover have "sort (map canon_pair kvs) = sort (map canon_pair kvs')"
    by (rule properties_for_sort) (simp_all add: m)
  ultimately show "canonicalQuery (join kvs ''&'') = canonicalQuery (join kvs' ''&'')"
    by (simp add: canonicalQuery_join k)
qed

theorem canonical_encoding_witness:
  "canonicalQuery (join [''b=2'', ''a=x%20y''] ''&'') = canonicalQuery (join [''a=x%20y'', ''b=2''] ''&'')"
  using canonical_encoding [of "[]" True "[]" "[''b=2'', ''a=x%20y'']" "[''a=x%20y'', ''b=2'']"]
  by (simp add: add_mset_commute)

section \<open>The header block\<close>

lemma mset_concat_map:
  assumes "mset xs = mset ys"
  shows "mset (concat (map f xs)) = mset (concat (map f ys))"
proof -
  have "mset (concat (map f zs)) = sum_mset (image_mset (\<lambda>x. mset (f x)) (mset zs))" for zs
    by (induction zs) simp_all
  then show ?thesis using assms by simp
qed

lemma canonicalHeaders_order:
  assumes "distinct ord" "set ord' = set ord" "distinct ord'" "inj_on to_lower (set ord)"
  shows "canonicalHeaders ord' r = canonicalHeaders ord r"
proof -
  have d: "distinct (map fst (header_list names r))" if "distinct names" "inj_on to_lower (set names)" for names
  proof -
    have "distinct (map fst (concat (map (\<lambda>name. let l = to_lower name in
        if signed_name l then [(l, trimAll (join (the (fmlookup (rq_Header r) name)) '',''))] else []) names)))"
      using that by (induction names) (auto simp: Let_def inj_on_def)
    then show ?thesis by (auto simp: header_list_def Let_def signed_name_def has_prefix_def split: if_splits)
  qed
  have m: "mset ord' = mset ord" using assms(1-3) by (metis set_eq_iff_mset_eq_distinct)
  then have "mset (header_list ord' r) = mset (header_list ord r)"
    unfolding header_list_def mset.simps(2) by (intro arg_cong2 [where f = add_mset] refl mset_concat_map)
  then have "sort_key fst (header_list ord' r) = sort_key fst (header_list ord r)"
    using d [OF assms(1,4)] by (intro sort_key_inj_key_eq [THEN sym] inj_onI) (auto simp: distinct_map inj_on_def)
  then show ?thesis by (simp add: canonicalHeaders_def)
qed

end
