(* ===== verification/S3.thy ===== *)
theory S3
  imports Sigv4 Store
begin

text \<open>
  \<open>internal/store/s3.go\<close>: the S3 client, as a backend in the sense of \<open>Store\<close>. The HTTP transport with
  the service behind it, the XML decoder and the clock are arguments, together with the end of the
  caller's context: what \<open>time.After\<close> and \<open>ctx.Done\<close> race for is read from the world. A request is
  built from the URL the client formed; parsing its printed form again gives the same escaped path,
  query and host.
\<close>

record response =
  rs_Status :: nat
  rs_Header :: "(string, string) fmap"
  rs_Body :: bytes
  rs_BodyErr :: "string option"

record s3Error =
  xe_Code :: string
  xe_Message :: string

record listedObject =
  lo_Key :: string
  lo_Size :: nat
  lo_ETag :: string

record listBucketResult =
  lb_IsTruncated :: bool
  lb_Contents :: "listedObject list"
  lb_NextContinuationToken :: string

record 'w http =
  h_Do :: "request \<Rightarrow> 'w \<Rightarrow> (string + response) \<times> 'w"
  h_NewRequest :: "string \<Rightarrow> url \<Rightarrow> string option"
  h_ctx :: "'w \<Rightarrow> string option"
  h_now :: "'w \<Rightarrow> utc"
  h_crypto :: crypto
  h_xmlError :: "bytes \<Rightarrow> s3Error"
  h_xmlList :: "bytes \<Rightarrow> string + listBucketResult"

record s3 =
  s3_endpoint :: url
  s3_bucket :: string
  s3_region :: string
  s3_creds :: credentials
  s3_pathStyle :: bool
  s3_maxRetries :: nat

record s3Config =
  sc_Endpoint :: string
  sc_Bucket :: string
  sc_Region :: string
  sc_Creds :: credentials
  sc_PathStyle :: bool

text \<open>\<open>NewS3\<close>, with \<open>url.Parse\<close> as an argument. The timeout is the transport's.\<close>

definition NewS3 :: "(string \<Rightarrow> string + url) \<Rightarrow> s3Config \<Rightarrow> serr + s3" where
  "NewS3 parse cfg =
     (if sc_Bucket cfg = [] then Inl (ErrOther ''store: bucket is required'')
      else let region = (if sc_Region cfg = [] then ''us-east-1'' else sc_Region cfg);
               endpoint = (if sc_Endpoint cfg = [] then ''https://s3.'' @ region @ ''.amazonaws.com'' else sc_Endpoint cfg)
           in case parse endpoint of
                Inl e \<Rightarrow> Inl (ErrOther (''store: bad endpoint '' @ [CHR 0x22] @ endpoint @ [CHR 0x22] @ '': '' @ e))
              | Inr u \<Rightarrow> Inr \<lparr>s3_endpoint = u, s3_bucket = sc_Bucket cfg, s3_region = region, s3_creds = sc_Creds cfg,
                                s3_pathStyle = sc_PathStyle cfg, s3_maxRetries = 3\<rparr>)"

section \<open>URLs\<close>

text \<open>\<open>url.QueryEscape\<close> and \<open>url.Values.Encode\<close>, the latter with its keys sorted.\<close>

definition queryEscape :: "string \<Rightarrow> string" where
  "queryEscape s = concat (map (\<lambda>c. if unreserved c then [c] else if c = CHR '' '' then ''+'' else pct c) s)"

definition values_encode :: "(string, string) fmap \<Rightarrow> string" where
  "values_encode q =
     join (map (\<lambda>k. queryEscape k @ ''='' @ queryEscape (the (fmlookup q k))) (sorted_list_of_fset (fmdom q))) ''&''"

text \<open>Every caller of \<open>url\<close> passes no query.\<close>

definition s3_url :: "s3 \<Rightarrow> string \<Rightarrow> url" where
  "s3_url s key =
     (let u = s3_endpoint s in
      if s3_pathStyle s
      then u\<lparr>u_Path := ''/'' @ s3_bucket s @ ''/'' @ key,
             u_RawPath := ''/'' @ uriEncode (s3_bucket s) True @ ''/'' @ uriEncode key False\<rparr>
      else u\<lparr>u_Host := s3_bucket s @ ''.'' @ u_Host u, u_Path := ''/'' @ key, u_RawPath := ''/'' @ uriEncode key False\<rparr>)"

definition list_query :: "string \<Rightarrow> string \<Rightarrow> int \<Rightarrow> (string, string) fmap" where
  "list_query prefix after mx =
     (let q1 = fmupd ''list-type'' ''2'' fmempty;
          q2 = (if prefix \<noteq> [] then fmupd ''prefix'' prefix q1 else q1);
          q3 = (if after \<noteq> [] then fmupd ''start-after'' after q2 else q2)
      in if mx > 0 then fmupd ''max-keys'' (itoa (nat mx)) q3 else q3)"

definition list_url :: "s3 \<Rightarrow> string \<Rightarrow> string \<Rightarrow> int \<Rightarrow> url" where
  "list_url s prefix after mx =
     (let u = s3_endpoint s;
          u1 = (if s3_pathStyle s
                then u\<lparr>u_Path := ''/'' @ s3_bucket s, u_RawPath := ''/'' @ uriEncode (s3_bucket s) True\<rparr>
                else u\<lparr>u_Host := s3_bucket s @ ''.'' @ u_Host u, u_Path := ''/'', u_RawPath := ''/''\<rparr>)
      in u1\<lparr>u_RawQuery := values_encode (list_query prefix after mx)\<rparr>)"

section \<open>Requests\<close>

definition add_headers :: "(string \<times> string) list \<Rightarrow> request \<Rightarrow> request" where
  "add_headers hs r = fold (\<lambda>(k, v). set_header k v) hs r"

definition s3_request ::
  "'w http \<Rightarrow> s3 \<Rightarrow> string \<Rightarrow> url \<Rightarrow> bytes option \<Rightarrow> (string \<times> string) list \<Rightarrow> utc \<Rightarrow> request" where
  "s3_request h s meth u body hs now =
     (let payloadHash = (case body of None \<Rightarrow> emptyPayloadHash | Some b \<Rightarrow> hex_string (c_sha256 (h_crypto h) b))
      in signV4 (h_crypto h) (s3_creds s) (s3_region s) ''s3'' payloadHash now
           (add_headers hs \<lparr>rq_Method = meth, rq_URL = u, rq_Host = u_Host u, rq_Header = fmempty, rq_Body = body\<rparr>))"

text \<open>
  \<open>do\<close>: \<open>left\<close> attempts remain, \<open>attempt\<close> were made. Between two of them the client waits, which the end
  of the context cuts short.
\<close>

fun s3_do_loop ::
  "'w http \<Rightarrow> s3 \<Rightarrow> string \<Rightarrow> url \<Rightarrow> bytes option \<Rightarrow> (string \<times> string) list \<Rightarrow> bool \<Rightarrow> nat \<Rightarrow> nat \<Rightarrow> string \<Rightarrow> 'w
   \<Rightarrow> (serr + response) \<times> 'w" where
  "s3_do_loop h s meth u body hs retry 0 attempt lastErr w = (Inl (ErrOther lastErr), w)"
| "s3_do_loop h s meth u body hs retry (Suc left) attempt lastErr w =
     (case (if attempt > 0 then h_ctx h w else None) of
        Some e \<Rightarrow> (Inl (ErrOther e), w)
      | None \<Rightarrow>
          (case h_NewRequest h meth u of
             Some e \<Rightarrow> (Inl (ErrOther e), w)
           | None \<Rightarrow>
               (case h_Do h (s3_request h s meth u body hs (h_now h w)) w of
                  (Inl e, w1) \<Rightarrow> s3_do_loop h s meth u body hs retry left (Suc attempt) e w1
                | (Inr resp, w1) \<Rightarrow>
                    if retry \<and> (rs_Status resp \<ge> 500 \<or> rs_Status resp = 429)
                    then s3_do_loop h s meth u body hs retry left (Suc attempt)
                           (''store: '' @ meth @ '' '' @ u_Path u @ '': HTTP '' @ itoa (rs_Status resp)) w1
                    else (Inr resp, w1))))"

definition s3_do ::
  "'w http \<Rightarrow> s3 \<Rightarrow> string \<Rightarrow> url \<Rightarrow> bytes option \<Rightarrow> (string \<times> string) list \<Rightarrow> bool \<Rightarrow> 'w \<Rightarrow> (serr + response) \<times> 'w" where
  "s3_do h s meth u body hs retry w =
     s3_do_loop h s meth u body hs retry (if retry then s3_maxRetries s + 1 else 1) 0 [] w"

section \<open>Answers\<close>

definition resp_header :: "response \<Rightarrow> string \<Rightarrow> string" where
  "resp_header p k = (case fmlookup (rs_Header p) k of Some v \<Rightarrow> v | None \<Rightarrow> [])"

definition cleanETag :: "string \<Rightarrow> string" where
  "cleanETag e = trim_chars (\<lambda>c. c = CHR 0x22) (trim_prefix e ''W/'')"

definition errorFor :: "'w http \<Rightarrow> string \<Rightarrow> string \<Rightarrow> response \<Rightarrow> serr" where
  "errorFor h meth key p =
     (let body = take 65536 (rs_Body p);
          e = h_xmlError h body
      in if rs_Status p = 404 \<or> xe_Code e = ''NoSuchKey'' \<or> xe_Code e = ''NoSuchBucket'' then ErrNotFound
         else if rs_Status p = 412 \<or> rs_Status p = 409 \<or> xe_Code e = ''PreconditionFailed'' \<or>
                 xe_Code e = ''ConditionalRequestConflict'' then ErrPrecondition
         else if rs_Status p = 501 then ErrUnsupported
         else let msg = (if xe_Message e = [] then trim_chars is_space (string_of_bytes body) else xe_Message e)
              in ErrOther (''store: '' @ meth @ '' '' @ key @ '': HTTP '' @ itoa (rs_Status p) @ '' '' @ xe_Code e @ '': '' @ msg))"

definition read_all :: "response \<Rightarrow> serr + bytes" where
  "read_all p = (case rs_BodyErr p of Some e \<Rightarrow> Inl (ErrOther e) | None \<Rightarrow> Inr (rs_Body p))"

section \<open>The verbs\<close>

definition s3_GetWithETag :: "'w http \<Rightarrow> s3 \<Rightarrow> string \<Rightarrow> 'w \<Rightarrow> (serr + bytes \<times> string) \<times> 'w" where
  "s3_GetWithETag h s key w =
     (case s3_do h s ''GET'' (s3_url s key) None [] True w of
        (Inl e, w1) \<Rightarrow> (Inl e, w1)
      | (Inr p, w1) \<Rightarrow>
          if rs_Status p \<noteq> 200 then (Inl (errorFor h ''GET'' key p), w1)
          else (sum_bind (read_all p) (\<lambda>data. Inr (data, cleanETag (resp_header p ''Etag''))), w1))"

definition s3_Get :: "'w http \<Rightarrow> s3 \<Rightarrow> string \<Rightarrow> 'w \<Rightarrow> (serr + bytes) \<times> 'w" where
  "s3_Get h s key w = (case s3_GetWithETag h s key w of (r, w1) \<Rightarrow> (map_sum id fst r, w1))"

text \<open>The sum of offset and length stays below \<open>2 ^ 63\<close> wherever \<open>GetRange\<close> is called.\<close>

definition s3_GetRange :: "'w http \<Rightarrow> s3 \<Rightarrow> string \<Rightarrow> nat \<Rightarrow> nat \<Rightarrow> 'w \<Rightarrow> (serr + bytes) \<times> 'w" where
  "s3_GetRange h s key ofs n w =
     (if n = 0 then (Inr [], w)
      else case s3_do h s ''GET'' (s3_url s key) None [(''Range'', ''bytes='' @ itoa ofs @ ''-'' @ itoa (ofs + n - 1))] True w of
             (Inl e, w1) \<Rightarrow> (Inl e, w1)
           | (Inr p, w1) \<Rightarrow>
               if rs_Status p \<noteq> 206 \<and> rs_Status p \<noteq> 200 then (Inl (errorFor h ''GET'' key p), w1)
               else (sum_bind (read_all p) (\<lambda>data.
                       if rs_Status p = 200
                       then if ofs \<ge> length data then Inr []
                            else Inr (slice ofs (if ofs + n > length data then length data else ofs + n) data)
                       else Inr data), w1))"

definition s3_Head :: "'w http \<Rightarrow> s3 \<Rightarrow> string \<Rightarrow> 'w \<Rightarrow> (serr + object_info) \<times> 'w" where
  "s3_Head h s key w =
     (case s3_do h s ''HEAD'' (s3_url s key) None [] True w of
        (Inl e, w1) \<Rightarrow> (Inl e, w1)
      | (Inr p, w1) \<Rightarrow>
          if rs_Status p \<noteq> 200 then (Inl (errorFor h ''HEAD'' key p), w1)
          else (Inr \<lparr>oi_Key = key, oi_Size = parse_int (resp_header p ''Content-Length''),
                     oi_ETag = cleanETag (resp_header p ''Etag'')\<rparr>, w1))"

definition s3_Put :: "'w http \<Rightarrow> s3 \<Rightarrow> string \<Rightarrow> bytes \<Rightarrow> 'w \<Rightarrow> serr option \<times> 'w" where
  "s3_Put h s key data w =
     (case s3_do h s ''PUT'' (s3_url s key) (Some data) [] True w of
        (Inl e, w1) \<Rightarrow> (Some e, w1)
      | (Inr p, w1) \<Rightarrow> (if rs_Status p \<noteq> 200 then Some (errorFor h ''PUT'' key p) else None, w1))"

definition match_header :: "string \<Rightarrow> string \<times> string" where
  "match_header etag = (if etag = [] then (''If-None-Match'', ''*'') else (''If-Match'', [CHR 0x22] @ etag @ [CHR 0x22]))"

definition s3_PutIfMatch :: "'w http \<Rightarrow> s3 \<Rightarrow> string \<Rightarrow> bytes \<Rightarrow> string \<Rightarrow> 'w \<Rightarrow> (serr + string) \<times> 'w" where
  "s3_PutIfMatch h s key data etag w =
     (case s3_do h s ''PUT'' (s3_url s key) (Some data) [match_header etag] False w of
        (Inl e, w1) \<Rightarrow> (Inl e, w1)
      | (Inr p, w1) \<Rightarrow>
          if rs_Status p \<noteq> 200 then (Inl (errorFor h ''PUT'' key p), w1)
          else (Inr (cleanETag (resp_header p ''Etag'')), w1))"

definition s3_Delete :: "'w http \<Rightarrow> s3 \<Rightarrow> string \<Rightarrow> 'w \<Rightarrow> serr option \<times> 'w" where
  "s3_Delete h s key w =
     (case s3_do h s ''DELETE'' (s3_url s key) None [] True w of
        (Inl e, w1) \<Rightarrow> (Some e, w1)
      | (Inr p, w1) \<Rightarrow>
          if rs_Status p \<noteq> 204 \<and> rs_Status p \<noteq> 200
          then if rs_Status p = 404 then (None, w1) else (Some (errorFor h ''DELETE'' key p), w1)
          else (None, w1))"

definition s3_List :: "'w http \<Rightarrow> s3 \<Rightarrow> string \<Rightarrow> string \<Rightarrow> int \<Rightarrow> 'w \<Rightarrow> (serr + object_info list) \<times> 'w" where
  "s3_List h s prefix after mx w =
     (case s3_do h s ''GET'' (list_url s prefix after mx) None [] True w of
        (Inl e, w1) \<Rightarrow> (Inl e, w1)
      | (Inr p, w1) \<Rightarrow>
          if rs_Status p \<noteq> 200 then (Inl (errorFor h ''GET'' ''?list-type=2'' p), w1)
          else (sum_bind (read_all p) (\<lambda>body.
                  case h_xmlList h body of
                    Inl e \<Rightarrow> Inl (ErrOther (''store: parse listing: '' @ e))
                  | Inr res \<Rightarrow> Inr (map (\<lambda>c. \<lparr>oi_Key = lo_Key c, oi_Size = lo_Size c, oi_ETag = cleanETag (lo_ETag c)\<rparr>)
                                      (lb_Contents res))), w1))"

definition S3_ops :: "'w http \<Rightarrow> s3 \<Rightarrow> 'w store_ops" where
  "S3_ops h s =
     \<lparr>Get = s3_Get h s, GetRange = s3_GetRange h s, Head = s3_Head h s, Put = s3_Put h s, Delete = s3_Delete h s,
      List = s3_List h s, PutIfMatch = s3_PutIfMatch h s, Name = ''s3://'' @ s3_bucket s, GetWithETag = s3_GetWithETag h s\<rparr>"

text \<open>
  \<open>url.Values\<close> writes a space as a plus sign and \<open>canonicalQuery\<close> does not read it as one, so a listing whose
  prefix or start holds a space is signed for a literal plus sign.
\<close>

lemma space_signed_as_plus:
  "u_RawQuery (list_url s ''a b'' [] 0) = ''list-type=2&prefix=a+b'' \<and>
   canonicalQuery ''list-type=2&prefix=a+b'' = ''list-type=2&prefix=a%2Bb''"
proof
  have "sorted_list_of_fset {|''prefix'', ''list-type''|} = [''list-type'', ''prefix'']"
    by (simp add: sorted_list_of_fset.rep_eq)
  then show "u_RawQuery (list_url s ''a b'' [] 0) = ''list-type=2&prefix=a+b''"
    by (simp add: list_url_def list_query_def values_encode_def queryEscape_def unreserved_def Let_def)
  show "canonicalQuery ''list-type=2&prefix=a+b'' = ''list-type=2&prefix=a%2Bb''" by code_simp
qed

end
