(* ===== verification/Cli.thy ===== *)
theory Cli
  imports Mounting Check S3
begin

text \<open>
  \<open>cmd/strata/main.go\<close>: the command line. Flags are judged before anything is opened, then the bucket is
  opened, checked or mounted and served, and every way out of serving makes a final commit. Go's \<open>int\<close>
  and \<open>int64\<close> have 64 bits and are integers here, with the shifts that could wrap reduced as the machine
  does. What the host supplies, the user and group it runs as, the credentials of its environment, the
  opening of a backend, and all that happens while the server runs, is the record \<open>host\<close>.
\<close>

definition maxInt64 :: int where "maxInt64 = 2 ^ 63 - 1"
definition maxUint32 :: int where "maxUint32 = 2 ^ 32 - 1"

text \<open>\<open>x << 20\<close> of an \<open>int64\<close>.\<close>

definition shl20 :: "int \<Rightarrow> int" where
  "shl20 x = signed_take_bit 63 (x * 2 ^ 20)"

definition maxDirtyBytes :: "int \<Rightarrow> int" where
  "maxDirtyBytes mib = (if mib \<le> 0 \<or> mib > drop_bit 20 maxInt64 then -1 else shl20 mib)"

definition chunkSizeBytes :: "int \<Rightarrow> err + u32" where
  "chunkSizeBytes kib =
     (if kib < 0 \<or> kib > drop_bit 10 maxUint32 then Inl (EMsg ''-chunk-size is out of range'')
      else Inr (word_of_int kib * 1024))"

definition cacheBytes :: "int \<Rightarrow> int" where
  "cacheBytes mib = (if mib \<le> 0 then 0 else if mib > drop_bit 20 maxInt64 then maxInt64 else shl20 mib)"

definition commitInterval :: "int \<Rightarrow> err + int" where
  "commitInterval d = (if d < 0 then Inl (EMsg ''-commit-interval is negative'') else Inr d)"

definition ownerID :: "string \<Rightarrow> int \<Rightarrow> u32 \<Rightarrow> err + u32" where
  "ownerID flagName given current =
     (let maxID = maxUint32 - 1
      in if given \<ge> 0 \<and> given \<le> maxID then Inr (word_of_int given)
         else if given = -1 \<and> current \<noteq> - 1 then Inr current
         else if given = -1 then Inl (EMsg (flagName @ '' -1 asks for an id this platform does not report''))
         else Inl (EMsg (flagName @ '' is out of range'')))"

text \<open>What \<open>openStore\<close> chose to open.\<close>

datatype backend = S3Bucket s3Config | LocalDir string

definition openStore :: "string \<Rightarrow> string \<Rightarrow> string \<Rightarrow> credentials \<Rightarrow> bool \<Rightarrow> err + backend" where
  "openStore spec endpoint region creds pathStyle =
     (if has_prefix spec ''s3://''
      then let bucket = fst (cut (drop 5 spec) (CHR ''/''))
           in if bucket = [] then Inl (EMsg (''no bucket name in '' @ spec))
              else if cr_AccessKeyID creds = [] \<or> cr_SecretAccessKey creds = []
              then Inl (EMsg ''AWS_ACCESS_KEY_ID and AWS_SECRET_ACCESS_KEY must be set to use an S3 bucket'')
              else Inr (S3Bucket \<lparr>sc_Endpoint = endpoint, sc_Bucket = bucket, sc_Region = region, sc_Creds = creds,
                                  sc_PathStyle = pathStyle\<rparr>)
      else Inr (LocalDir (trim_prefix spec ''file://'')))"

definition mountOptions :: "string \<Rightarrow> string \<Rightarrow> bool \<Rightarrow> string list" where
  "mountOptions goos port readOnly =
     [''vers=3'', ''tcp'', ''port='' @ port, ''mountport='' @ port, ''noresvport'', ''hard'', ''nosuid'', ''nodev''] @
     (if goos = ''darwin'' then [''nolocks'', ''locallocks''] else [''nolock'']) @
     (if readOnly then [''ro''] else [])"

section \<open>The command\<close>

record flags =
  fl_bucket :: string
  fl_endpoint :: string
  fl_region :: string
  fl_pathStyle :: bool
  fl_readOnly :: bool
  fl_check :: bool
  fl_chunkKiB :: int
  fl_cacheMiB :: int
  fl_interval :: int
  fl_retention :: int
  fl_maxDirty :: int
  fl_verifyChunks :: bool
  fl_allowUnconditional :: bool
  fl_uid :: int
  fl_gid :: int

text \<open>
  \<open>ho_serve\<close> is what happens from the successful return of \<open>New\<close> to the end of serving: requests, the
  background committer, and what ends it, a signal, which is \<open>None\<close>, or a failure to listen or serve.
\<close>

record 'w host =
  ho_uid :: u32
  ho_gid :: u32
  ho_creds :: credentials
  ho_open :: "backend \<Rightarrow> 'w \<Rightarrow> (err + 'w store_ops) \<times> 'w"
  ho_now :: nat
  ho_sha :: "bytes \<Rightarrow> string"
  ho_codec :: codec
  ho_clk :: "nat \<Rightarrow> clock"
  ho_writer :: string
  ho_verf :: bytes
  ho_nonce :: "nat \<Rightarrow> bytes"
  ho_serve :: "'w env \<Rightarrow> fs \<Rightarrow> 'w \<Rightarrow> err option \<times> fs \<times> 'w"

definition run_config :: "'w host \<Rightarrow> flags \<Rightarrow> err + ('w store_ops \<Rightarrow> 'w config)" where
  "run_config P fl =
     (if fl_bucket fl = [] then Inl (EMsg ''-bucket is required'')
      else sum_bind (chunkSizeBytes (fl_chunkKiB fl)) (\<lambda>chunkSize.
           sum_bind (commitInterval (fl_interval fl)) (\<lambda>commitEvery.
           sum_bind (ownerID ''-uid'' (fl_uid fl) (ho_uid P)) (\<lambda>uid.
           sum_bind (ownerID ''-gid'' (fl_gid fl) (ho_gid P)) (\<lambda>gid.
             Inr (\<lambda>bucket.
               \<lparr>cf_Store = Some bucket, cf_ChunkSize = unat chunkSize, cf_CacheBytes = cacheBytes (fl_cacheMiB fl),
                cf_CommitInterval = commitEvery, cf_OwnerUID = uid, cf_OwnerGID = gid, cf_ReadOnly = fl_readOnly fl,
                cf_SkipChunkVerification = \<not> fl_verifyChunks fl, cf_SnapshotRetention = fl_retention fl,
                cf_MaxDirtyBytes = maxDirtyBytes (fl_maxDirty fl),
                cf_AllowUnconditionalRoot = fl_allowUnconditional fl\<rparr>))))))"

text \<open>\<open>finalCommit\<close>: the joined errors, none of them for nil. Its context ends only with the store's calls.\<close>

definition finalCommit ::
  "err option \<Rightarrow> 'w env \<Rightarrow> clock \<Rightarrow> bytes \<Rightarrow> fs \<Rightarrow> 'w \<Rightarrow> err list \<times> fs \<times> 'w" where
  "finalCommit cause E clk nonce N w =
     (let c = (case cause of None \<Rightarrow> [] | Some e \<Rightarrow> [e])
      in case Sync E clk nonce N w of
           (Some e, N1, w1) \<Rightarrow> (c @ [EWrap ''final commit'' e], N1, w1)
         | (None, N1, w1) \<Rightarrow> (c, N1, w1))"

definition run_env :: "'w host \<Rightarrow> flags \<Rightarrow> 'w store_ops \<Rightarrow> 'w env" where
  "run_env P fl bucket =
     \<lparr>e_store = bucket, e_readonly = fl_readOnly fl, e_sha = ho_sha P, e_codec = ho_codec P,
      e_range = (\<lambda>m. sorted_list_of_fset (fmdom m)), e_others = (\<lambda>_ x. x)\<rparr>"

text \<open>The result is the errors \<open>main\<close> would print, the mount if there was one, and the world.\<close>

definition run :: "'w host \<Rightarrow> flags \<Rightarrow> 'w \<Rightarrow> err list \<times> fs option \<times> 'w" where
  "run P fl w =
     (case run_config P fl of
        Inl e \<Rightarrow> ([e], None, w)
      | Inr mk \<Rightarrow>
          (case openStore (fl_bucket fl) (fl_endpoint fl) (fl_region fl) (ho_creds P) (fl_pathStyle fl) of
             Inl e \<Rightarrow> ([EWrap ''bucket'' e], None, w)
           | Inr b \<Rightarrow>
               (case ho_open P b w of
                  (Inl e, w1) \<Rightarrow> ([EWrap ''bucket'' e], None, w1)
                | (Inr bucket, w1) \<Rightarrow>
                    if fl_check fl
                    then (case runCheck bucket (fl_allowUnconditional fl) (ho_now P) w1 of
                            ((_, None), w2) \<Rightarrow> ([], None, w2)
                          | ((_, Some e), w2) \<Rightarrow> ([EMsg e], None, w2))
                    else (case New (mk bucket) (ho_sha P) (ho_codec P) (ho_clk P 0) (ho_writer P) (ho_verf P) (ho_nonce P 0) w1 of
                            (Inl e, w2) \<Rightarrow> ([e], None, w2)
                          | (Inr N, w2) \<Rightarrow>
                              (case ho_serve P (run_env P fl bucket) N w2 of
                                 (cause, N1, w3) \<Rightarrow>
                                   (case finalCommit cause (run_env P fl bucket) (ho_clk P 1) (ho_nonce P 1) N1 w3 of
                                      (es, N2, w4) \<Rightarrow> (es, Some N2, w4)))))))"

section \<open>The flags\<close>

lemma shl20_exact: "0 \<le> x \<Longrightarrow> x * 2 ^ 20 < 2 ^ 63 \<Longrightarrow> shl20 x = x * 2 ^ 20"
  unfolding shl20_def by (rule signed_take_bit_int_eq_self) simp_all

lemma drop_bit_limits: "drop_bit 20 maxInt64 = 2 ^ 43 - 1" "drop_bit 10 maxUint32 = 2 ^ 22 - 1"
  by (simp_all add: maxInt64_def maxUint32_def drop_bit_eq_div)

lemma maxDirtyBytes_exact:
  "maxDirtyBytes n = (if 0 < n \<and> n * 2 ^ 20 < 2 ^ 63 then n * 2 ^ 20 else - 1)"
  using shl20_exact [of n] by (simp add: maxDirtyBytes_def drop_bit_limits)

lemma cacheBytes_exact:
  "cacheBytes n = (if n \<le> 0 then 0 else min (n * 2 ^ 20) (2 ^ 63 - 1))"
proof (cases "n > 2 ^ 43 - 1")
  case True
  then show ?thesis by (simp add: cacheBytes_def drop_bit_limits maxInt64_def min_def)
next
  case False
  then show ?thesis using shl20_exact [of n] by (simp add: cacheBytes_def drop_bit_limits min_def)
qed

lemma uint_small: "0 \<le> x \<Longrightarrow> x < 2 ^ 32 \<Longrightarrow> uint (word_of_int x :: u32) = x"
  by (simp add: unsigned_of_int take_bit_int_eq_self)

lemma uint_ones: "uint (- 1 :: u32) = 2 ^ 32 - 1"
  by (simp add: unsigned_minus_1_eq_mask mask_eq_exp_minus_1)

lemma chunkSizeBytes_exact:
  "(case chunkSizeBytes n of Inr b \<Rightarrow> uint b = n * 1024 \<and> 0 \<le> n \<and> n * 1024 < 2 ^ 32 | Inl _ \<Rightarrow> n < 0 \<or> 2 ^ 32 \<le> n * 1024)"
proof (cases "0 \<le> n \<and> n \<le> 2 ^ 22 - 1")
  case True
  have "(word_of_int n * 1024 :: u32) = word_of_int (n * 1024)" by simp
  moreover have "uint (word_of_int (n * 1024) :: u32) = n * 1024"
    using True by (intro uint_small) simp_all
  ultimately show ?thesis using True by (simp add: chunkSizeBytes_def drop_bit_limits)
qed (auto simp: chunkSizeBytes_def drop_bit_limits)

lemma ownerID_exact:
  "(case ownerID f n cur of
      Inr u \<Rightarrow> u \<noteq> - 1 \<and> (uint u = n \<or> n = - 1 \<and> u = cur)
    | Inl _ \<Rightarrow> n < - 1 \<or> 2 ^ 32 - 1 \<le> n \<or> n = - 1 \<and> cur = - 1)"
proof (cases "0 \<le> n \<and> n \<le> 2 ^ 32 - 2")
  case True
  have u: "uint (word_of_int n :: u32) = n" using True by (intro uint_small) simp_all
  have "(word_of_int n :: u32) \<noteq> - 1" using u uint_ones True by auto
  then show ?thesis using True u by (simp add: ownerID_def maxUint32_def)
qed (auto simp: ownerID_def maxUint32_def)

text \<open>An owner flag that is accepted: an id a file can have, or the one strata runs as where it has one.\<close>

definition id_accepted :: "int \<Rightarrow> u32 \<Rightarrow> bool" where
  "id_accepted n cur \<longleftrightarrow> 0 \<le> n \<and> n < 2 ^ 32 - 1 \<or> n = - 1 \<and> cur \<noteq> - 1"

definition flags_accepted :: "'w host \<Rightarrow> flags \<Rightarrow> bool" where
  "flags_accepted P fl \<longleftrightarrow>
     fl_bucket fl \<noteq> [] \<and> 0 \<le> fl_chunkKiB fl \<and> fl_chunkKiB fl * 1024 < 2 ^ 32 \<and> 0 \<le> fl_interval fl \<and>
     id_accepted (fl_uid fl) (ho_uid P) \<and> id_accepted (fl_gid fl) (ho_gid P)"

lemma ownerID_accepts: "(\<exists>u. ownerID f n cur = Inr u) \<longleftrightarrow> id_accepted n cur"
proof (cases "ownerID f n cur")
  case (Inl e)
  then show ?thesis using ownerID_exact [where f = f and n = n and cur = cur] by (auto simp: id_accepted_def)
next
  case (Inr u)
  have "uint u < 2 ^ 32" "0 \<le> uint u" using uint_lt2p [of u] by simp_all
  moreover have "uint u \<noteq> 2 ^ 32 - 1" if "u \<noteq> - 1" using that uint_ones by (metis word_uint_eq_iff)
  ultimately show ?thesis using Inr ownerID_exact [where f = f and n = n and cur = cur] by (auto simp: id_accepted_def)
qed

lemma chunkSizeBytes_accepts: "(\<exists>b. chunkSizeBytes n = Inr b) \<longleftrightarrow> 0 \<le> n \<and> n * 1024 < 2 ^ 32"
  using chunkSizeBytes_exact [of n] by (cases "chunkSizeBytes n") auto

lemma run_config_cases:
  "run_config P fl = Inr mk \<longleftrightarrow>
     fl_bucket fl \<noteq> [] \<and> (\<exists>b ev u g. chunkSizeBytes (fl_chunkKiB fl) = Inr b \<and> commitInterval (fl_interval fl) = Inr ev \<and>
       ownerID ''-uid'' (fl_uid fl) (ho_uid P) = Inr u \<and> ownerID ''-gid'' (fl_gid fl) (ho_gid P) = Inr g \<and>
       mk = (\<lambda>bucket. \<lparr>cf_Store = Some bucket, cf_ChunkSize = unat b, cf_CacheBytes = cacheBytes (fl_cacheMiB fl),
                cf_CommitInterval = ev, cf_OwnerUID = u, cf_OwnerGID = g, cf_ReadOnly = fl_readOnly fl,
                cf_SkipChunkVerification = \<not> fl_verifyChunks fl, cf_SnapshotRetention = fl_retention fl,
                cf_MaxDirtyBytes = maxDirtyBytes (fl_maxDirty fl),
                cf_AllowUnconditionalRoot = fl_allowUnconditional fl\<rparr>))"
  by (auto simp: run_config_def sum_bind_Inr)

text \<open>
  C27. Bad flags are refused before anything is touched, and good ones mean what they say. If the bucket is
  missing, or the chunk size, the interval or an owner is out of range, the command ends with one
  error and the world as it was, \<open>-check\<close> and \<open>-read-only\<close> included. Otherwise the filesystem gets
  exactly the chunk size and the owners asked for, none of them 4294967295, and the cache and the
  write buffer get the size asked for or, when no \<open>int64\<close> holds it, the largest and no limit: nothing
  wraps into a small number.
\<close>

theorem flags_are_exact:
  "(\<not> flags_accepted P fl \<longrightarrow> (\<exists>e. run P fl w = ([e], None, w))) \<and>
   (flags_accepted P fl \<longrightarrow> (\<exists>mk. run_config P fl = Inr mk \<and>
      (let cfg = mk bucket in
       int (cf_ChunkSize cfg) = fl_chunkKiB fl * 1024 \<and> cf_CommitInterval cfg = fl_interval fl \<and>
       cf_OwnerUID cfg \<noteq> - 1 \<and> (uint (cf_OwnerUID cfg) = fl_uid fl \<or> fl_uid fl = - 1 \<and> cf_OwnerUID cfg = ho_uid P) \<and>
       cf_OwnerGID cfg \<noteq> - 1 \<and> (uint (cf_OwnerGID cfg) = fl_gid fl \<or> fl_gid fl = - 1 \<and> cf_OwnerGID cfg = ho_gid P) \<and>
       cf_CacheBytes cfg = (if fl_cacheMiB fl \<le> 0 then 0 else min (fl_cacheMiB fl * 2 ^ 20) (2 ^ 63 - 1)) \<and>
       cf_MaxDirtyBytes cfg = (if 0 < fl_maxDirty fl \<and> fl_maxDirty fl * 2 ^ 20 < 2 ^ 63 then fl_maxDirty fl * 2 ^ 20 else - 1))))"
proof (intro conjI impI)
  assume no: "\<not> flags_accepted P fl"
  have "flags_accepted P fl" if mk: "run_config P fl = Inr mk" for mk
  proof -
    obtain b ev u g where m: "fl_bucket fl \<noteq> []" "chunkSizeBytes (fl_chunkKiB fl) = Inr b" "commitInterval (fl_interval fl) = Inr ev"
        "ownerID ''-uid'' (fl_uid fl) (ho_uid P) = Inr u" "ownerID ''-gid'' (fl_gid fl) (ho_gid P) = Inr g"
      using mk unfolding run_config_cases by blast
    then show ?thesis
      using ownerID_accepts [THEN iffD1, OF exI, OF m(4)] ownerID_accepts [THEN iffD1, OF exI, OF m(5)]
        chunkSizeBytes_accepts [THEN iffD1, OF exI, OF m(2)]
      by (auto simp: flags_accepted_def commitInterval_def split: if_splits)
  qed
  with no obtain e where "run_config P fl = Inl e" by (cases "run_config P fl") auto
  then show "\<exists>e. run P fl w = ([e], None, w)" by (simp add: run_def)
next
  assume a: "flags_accepted P fl"
  obtain b where b: "chunkSizeBytes (fl_chunkKiB fl) = Inr b"
    using a chunkSizeBytes_accepts by (auto simp: flags_accepted_def)
  obtain u g where ug: "ownerID ''-uid'' (fl_uid fl) (ho_uid P) = Inr u" "ownerID ''-gid'' (fl_gid fl) (ho_gid P) = Inr g"
    using a ownerID_accepts unfolding flags_accepted_def by metis
  have i: "commitInterval (fl_interval fl) = Inr (fl_interval fl)" "fl_bucket fl \<noteq> []"
    using a by (simp_all add: flags_accepted_def commitInterval_def)
  have ch: "int (unat b) = fl_chunkKiB fl * 1024" using chunkSizeBytes_exact [of "fl_chunkKiB fl"] b by simp
  have own: "u \<noteq> - 1 \<and> (uint u = fl_uid fl \<or> fl_uid fl = - 1 \<and> u = ho_uid P)"
      "g \<noteq> - 1 \<and> (uint g = fl_gid fl \<or> fl_gid fl = - 1 \<and> g = ho_gid P)"
    using ownerID_exact [where f = "''-uid''" and n = "fl_uid fl" and cur = "ho_uid P"]
      ownerID_exact [where f = "''-gid''" and n = "fl_gid fl" and cur = "ho_gid P"] ug by simp_all
  obtain mk where mk: "run_config P fl = Inr mk" "mk = (\<lambda>bucket. \<lparr>cf_Store = Some bucket, cf_ChunkSize = unat b,
       cf_CacheBytes = cacheBytes (fl_cacheMiB fl), cf_CommitInterval = fl_interval fl, cf_OwnerUID = u, cf_OwnerGID = g,
       cf_ReadOnly = fl_readOnly fl, cf_SkipChunkVerification = \<not> fl_verifyChunks fl, cf_SnapshotRetention = fl_retention fl,
       cf_MaxDirtyBytes = maxDirtyBytes (fl_maxDirty fl), cf_AllowUnconditionalRoot = fl_allowUnconditional fl\<rparr>)"
    unfolding run_config_cases using i b ug by blast
  have "cf_ChunkSize (mk bucket) = unat b" "cf_CommitInterval (mk bucket) = fl_interval fl" "cf_OwnerUID (mk bucket) = u"
      "cf_OwnerGID (mk bucket) = g" "cf_CacheBytes (mk bucket) = cacheBytes (fl_cacheMiB fl)"
      "cf_MaxDirtyBytes (mk bucket) = maxDirtyBytes (fl_maxDirty fl)" by (simp_all add: mk(2))
  note sel = this
  show "\<exists>mk. run_config P fl = Inr mk \<and>
      (let cfg = mk bucket in
       int (cf_ChunkSize cfg) = fl_chunkKiB fl * 1024 \<and> cf_CommitInterval cfg = fl_interval fl \<and>
       cf_OwnerUID cfg \<noteq> - 1 \<and> (uint (cf_OwnerUID cfg) = fl_uid fl \<or> fl_uid fl = - 1 \<and> cf_OwnerUID cfg = ho_uid P) \<and>
       cf_OwnerGID cfg \<noteq> - 1 \<and> (uint (cf_OwnerGID cfg) = fl_gid fl \<or> fl_gid fl = - 1 \<and> cf_OwnerGID cfg = ho_gid P) \<and>
       cf_CacheBytes cfg = (if fl_cacheMiB fl \<le> 0 then 0 else min (fl_cacheMiB fl * 2 ^ 20) (2 ^ 63 - 1)) \<and>
       cf_MaxDirtyBytes cfg = (if 0 < fl_maxDirty fl \<and> fl_maxDirty fl * 2 ^ 20 < 2 ^ 63 then fl_maxDirty fl * 2 ^ 20 else - 1))"
    unfolding Let_def using mk(1) ch own unfolding cacheBytes_exact [symmetric] maxDirtyBytes_exact [symmetric] sel
    by (intro exI [of _ mk]) (simp only: sel simp_thms)
qed

end
