(* ===== verification/S3Contract.thy ===== *)
theory S3Contract
  imports S3
begin

text \<open>
  The S3 client keeps the object-store contract, given what the service documents about its answers.
  \<open>s3_service\<close> states that: it speaks of requests as the service sees them, the key being what the
  percent-decoded path holds after the bucket, and promises nothing about when a request succeeds.
  Every answer but those listed, a lost reply among them, may follow a request that took effect and
  one that did not.
\<close>

section \<open>What the service documents\<close>

definition s3_host :: "s3 \<Rightarrow> string" where
  "s3_host s = (if s3_pathStyle s then u_Host (s3_endpoint s) else s3_bucket s @ ''.'' @ u_Host (s3_endpoint s))"

definition bucket_path :: "s3 \<Rightarrow> string" where
  "bucket_path s = (if s3_pathStyle s then ''/'' @ uriEncode (s3_bucket s) True @ ''/'' else ''/'')"

definition addressed :: "s3 \<Rightarrow> url \<Rightarrow> string option" where
  "addressed s u =
     (if u_Host u = s3_host s \<and> has_prefix (escapedPath u) (bucket_path s)
      then Some (unescape (drop (length (bucket_path s)) (escapedPath u))) else None)"

definition req_header :: "request \<Rightarrow> string \<Rightarrow> string option" where
  "req_header r k = (case fmlookup (rq_Header r) k of Some [v] \<Rightarrow> Some v | _ \<Rightarrow> None)"

definition quoted :: "string \<Rightarrow> string" where
  "quoted t = [CHR 0x22] @ t @ [CHR 0x22]"

definition says_missing :: "'w http \<Rightarrow> response \<Rightarrow> bool" where
  "says_missing h p \<longleftrightarrow> rs_Status p = 404 \<or> xe_Code (h_xmlError h (take 65536 (rs_Body p))) \<in> {''NoSuchKey'', ''NoSuchBucket''}"

text \<open>A read changes nothing. A whole answer is the object, a partial one the range asked for, and an error that says so means there is none.\<close>

definition serves_reads ::
  "'w http \<Rightarrow> s3 \<Rightarrow> ('w \<Rightarrow> string \<Rightarrow> bytes option) \<Rightarrow> ('w \<Rightarrow> string \<Rightarrow> string) \<Rightarrow> ('w \<Rightarrow> bool) \<Rightarrow> (string \<Rightarrow> bool) \<Rightarrow> bool" where
  "serves_reads h s objs tag good kok \<longleftrightarrow>
     (\<forall>r w x w'. good w \<longrightarrow> rq_Method r \<in> {''GET'', ''HEAD''} \<longrightarrow> h_Do h r w = (x, w') \<longrightarrow>
        good w' \<and> objs w' = objs w \<and> tag w' = tag w) \<and>
     (\<forall>r w p w' k. good w \<longrightarrow> rq_Method r = ''GET'' \<longrightarrow> addressed s (rq_URL r) = Some k \<longrightarrow> kok k \<longrightarrow>
        h_Do h r w = (Inr p, w') \<longrightarrow>
        (rs_Status p \<notin> {200, 206} \<longrightarrow> says_missing h p \<longrightarrow> objs w k = None) \<and>
        (rs_Status p = 200 \<longrightarrow> rs_BodyErr p = None \<longrightarrow>
           objs w k = Some (rs_Body p) \<and> resp_header p ''Etag'' \<in> {[], quoted (tag w k)}) \<and>
        (\<forall>a b. rs_Status p = 206 \<longrightarrow> rs_BodyErr p = None \<longrightarrow>
           req_header r ''Range'' = Some (''bytes='' @ itoa a @ ''-'' @ itoa b) \<longrightarrow> a \<le> b \<longrightarrow>
           map_option (slice a (b + 1)) (objs w k) = Some (rs_Body p)) \<and>
        (rs_Status p = 206 \<longrightarrow> req_header r ''Range'' \<noteq> None)) \<and>
     (\<forall>r w p w' k. good w \<longrightarrow> rq_Method r = ''HEAD'' \<longrightarrow> addressed s (rq_URL r) = Some k \<longrightarrow> kok k \<longrightarrow>
        h_Do h r w = (Inr p, w') \<longrightarrow>
        (rs_Status p \<noteq> 200 \<longrightarrow> says_missing h p \<longrightarrow> objs w k = None) \<and>
        (rs_Status p = 200 \<longrightarrow> resp_header p ''Etag'' \<in> {[], quoted (tag w k)} \<and>
           (\<exists>d. objs w k = Some d \<and> length d < 2 ^ 63 \<and> resp_header p ''Content-Length'' = itoa (length d))))"

text \<open>
  A put writes the whole body at its key or nothing, and only if the conditions it carries hold; 200
  means it was written. A delete removes the object or nothing, and 200, 204 and 404 mean it is gone.
  A request that takes effect does so before its call ends, also when its reply is lost; a service that
  applies a put after the client has given up on it is outside of this.
\<close>

definition serves_writes ::
  "'w http \<Rightarrow> s3 \<Rightarrow> ('w \<Rightarrow> string \<Rightarrow> bytes option) \<Rightarrow> ('w \<Rightarrow> string \<Rightarrow> string) \<Rightarrow> ('w \<Rightarrow> bool) \<Rightarrow> (string \<Rightarrow> bool) \<Rightarrow> bool" where
  "serves_writes h s objs tag good kok \<longleftrightarrow>
     (\<forall>r w x w' k d. good w \<longrightarrow> rq_Method r = ''PUT'' \<longrightarrow> addressed s (rq_URL r) = Some k \<longrightarrow> kok k \<longrightarrow> rq_Body r = Some d \<longrightarrow>
        h_Do h r w = (x, w') \<longrightarrow>
        good w' \<and> (\<forall>k'. k' \<noteq> k \<longrightarrow> objs w' k' = objs w k' \<and> tag w' k' = tag w k') \<and>
        (\<forall>p. x = Inr p \<longrightarrow> rs_Status p = 200 \<longrightarrow> resp_header p ''Etag'' \<in> {[], quoted (tag w' k)}) \<and>
        (objs w' k = Some d \<and> (req_header r ''If-None-Match'' = Some ''*'' \<longrightarrow> objs w k = None) \<and>
           (\<forall>e. req_header r ''If-Match'' = Some (quoted e) \<longrightarrow> objs w k \<noteq> None \<and> e = tag w k) \<or>
         (\<forall>p. x = Inr p \<longrightarrow> rs_Status p \<noteq> 200) \<and> objs w' k = objs w k \<and> tag w' k = tag w k)) \<and>
     (\<forall>r w x w' k. good w \<longrightarrow> rq_Method r = ''DELETE'' \<longrightarrow> addressed s (rq_URL r) = Some k \<longrightarrow> kok k \<longrightarrow>
        h_Do h r w = (x, w') \<longrightarrow>
        good w' \<and> (\<forall>k'. k' \<noteq> k \<longrightarrow> objs w' k' = objs w k' \<and> tag w' k' = tag w k') \<and>
        (objs w' k = None \<or>
         (\<forall>p. x = Inr p \<longrightarrow> rs_Status p \<notin> {200, 204, 404}) \<and> objs w' k = objs w k \<and> tag w' k = tag w k))"

text \<open>
  A listing request is a GET of the bucket itself with the query parameter \<open>list-type=2\<close>. The query is
  read as the service documents it, without reference to how a client writes one: parameters separated by
  ampersands, name and value by the first equals sign, both in the form encoding, where a plus sign
  stands for a space.
\<close>

definition form_decode :: "string \<Rightarrow> string" where
  "form_decode s = unescape (map (\<lambda>c. if c = CHR ''+'' then CHR '' '' else c) s)"

definition query_param :: "url \<Rightarrow> string \<Rightarrow> string option" where
  "query_param u =
     map_of (map (\<lambda>kv. case cut kv (CHR ''='') of (k, v) \<Rightarrow> (form_decode k, form_decode v))
       (filter (\<lambda>kv. kv \<noteq> []) (split_when (\<lambda>c. c = CHR ''&'') (u_RawQuery u))))"

definition at_bucket :: "s3 \<Rightarrow> url \<Rightarrow> bool" where
  "at_bucket s u \<longleftrightarrow> u_Host u = s3_host s \<and>
     (escapedPath u = bucket_path s \<or> s3_pathStyle s \<and> escapedPath u @ ''/'' = bucket_path s)"

definition asks_prefix :: "url \<Rightarrow> string" where
  "asks_prefix u = (case query_param u ''prefix'' of None \<Rightarrow> [] | Some p \<Rightarrow> p)"

definition asks_after :: "url \<Rightarrow> string" where
  "asks_after u = (case query_param u ''start-after'' of None \<Rightarrow> [] | Some a \<Rightarrow> a)"

definition asks_max :: "url \<Rightarrow> nat option" where
  "asks_max u = Option.bind (query_param u ''max-keys'') (dec_val 0)"

text \<open>
  The answer is a page of the keys that have the parameter \<open>prefix\<close> and come after \<open>start-after\<close>, in order
  and at most \<open>max-keys\<close> of them; a page is empty only at the end, or when none were asked for. An absent
  parameter is the empty string, which every key has as a prefix and comes after: keys are not empty.
\<close>

definition serves_lists ::
  "'w http \<Rightarrow> s3 \<Rightarrow> ('w \<Rightarrow> string \<Rightarrow> bytes option) \<Rightarrow> ('w \<Rightarrow> bool) \<Rightarrow> (string \<Rightarrow> bool) \<Rightarrow> bool" where
  "serves_lists h s objs good kok \<longleftrightarrow>
     (\<forall>r w p w' res. good w \<longrightarrow> rq_Method r = ''GET'' \<longrightarrow> at_bucket s (rq_URL r) \<longrightarrow>
        query_param (rq_URL r) ''list-type'' = Some ''2'' \<longrightarrow>
        h_Do h r w = (Inr p, w') \<longrightarrow> rs_Status p = 200 \<longrightarrow> rs_BodyErr p = None \<longrightarrow> h_xmlList h (rs_Body p) = Inr res \<longrightarrow>
        (\<exists>ks m. sorted_wrt (<) ks \<and>
           set ks = {k. objs w k \<noteq> None \<and> starts_with (asks_prefix (rq_URL r)) k \<and> asks_after (rq_URL r) < k} \<and>
           map lo_Key (lb_Contents res) = take m ks \<and> (\<forall>n. asks_max (rq_URL r) = Some n \<longrightarrow> m \<le> n) \<and>
           (lb_Contents res = [] \<longrightarrow> ks = [] \<or> asks_max (rq_URL r) = Some 0)) \<and>
        (\<forall>c \<in> set (lb_Contents res). kok (lo_Key c)))"

definition s3_service ::
  "'w http \<Rightarrow> s3 \<Rightarrow> ('w \<Rightarrow> string \<Rightarrow> bytes option) \<Rightarrow> ('w \<Rightarrow> string \<Rightarrow> string) \<Rightarrow> ('w \<Rightarrow> bool) \<Rightarrow> (string \<Rightarrow> bool) \<Rightarrow> bool" where
  "s3_service h s objs tag good kok \<longleftrightarrow>
     serves_reads h s objs tag good kok \<and> serves_writes h s objs tag good kok \<and> serves_lists h s objs good kok \<and>
     (\<forall>w k. CHR 0x22 \<notin> set (tag w k))"

section \<open>The requests the client sends\<close>

lemma escapedPath_raw:
  assumes "u_RawPath u \<noteq> []" "list_all (\<lambda>c. unreserved c \<or> c = CHR ''%'' \<or> c = CHR ''/'') (u_RawPath u)"
    "path_unescape (u_RawPath u) = Some (u_Path u)"
  shows "escapedPath u = u_RawPath u"
proof -
  have "list_all (\<lambda>c. path_char c \<or> c \<in> set ''!()*[]%'' \<or> c = CHR 0x27) (u_RawPath u)"
  proof -
    have "path_char c \<or> c \<in> set ''!()*[]%'' \<or> c = CHR 0x27" if "unreserved c \<or> c = CHR ''%'' \<or> c = CHR ''/''" for c
    proof (cases "unreserved c")
      case False
      then show ?thesis using that by (elim disjE) (simp_all add: path_char_def)
    qed (simp add: path_char_def)
    then show ?thesis using assms(2) unfolding list_all_iff by blast
  qed
  then show ?thesis using assms(1,3) by (simp add: escapedPath_def)
qed

lemma path_unescape_uriEncode_end [simp]: "path_unescape (uriEncode s b) = Some s"
  using path_unescape_uriEncode [of s b "[]"] by simp

lemma uriEncode_path_chars: "list_all (\<lambda>c. unreserved c \<or> c = CHR ''%'' \<or> c = CHR ''/'') (uriEncode s b)"
  using uriEncode_chars [of b s] by (auto simp: list_all_iff)

text \<open>What is signed is what is sent: the raw path the client sets is the escaped path.\<close>

lemma escapedPath_url: "escapedPath (s3_url s key) = bucket_path s @ uriEncode key False"
proof -
  have "escapedPath (s3_url s key) = u_RawPath (s3_url s key)"
    by (rule escapedPath_raw) (simp_all add: s3_url_def Let_def uriEncode_path_chars)
  then show ?thesis by (simp add: s3_url_def bucket_path_def Let_def)
qed

lemma addressed_url [simp]: "addressed s (s3_url s key) = Some key"
proof -
  have "u_Host (s3_url s key) = s3_host s" by (simp add: s3_url_def s3_host_def Let_def)
  then show ?thesis by (simp add: addressed_def escapedPath_url has_prefix_def)
qed

lemma set_header_sel [simp]:
  "rq_Method (set_header k v r) = rq_Method r" "rq_URL (set_header k v r) = rq_URL r" "rq_Body (set_header k v r) = rq_Body r"
  "fmlookup (rq_Header (set_header k v r)) k' = (if k' = k then Some [v] else fmlookup (rq_Header r) k')"
  by (simp_all add: set_header_def)

lemma s3_request_sel [simp]:
  "rq_Method (s3_request h s meth u body hs now) = meth" "rq_URL (s3_request h s meth u body hs now) = u"
  "rq_Body (s3_request h s meth u body hs now) = body"
proof -
  have a: "rq_Method (add_headers hs r) = rq_Method r \<and> rq_URL (add_headers hs r) = rq_URL r \<and> rq_Body (add_headers hs r) = rq_Body r" for hs r
    by (induction hs arbitrary: r) (auto simp: add_headers_def)
  show "rq_Method (s3_request h s meth u body hs now) = meth" "rq_URL (s3_request h s meth u body hs now) = u"
    "rq_Body (s3_request h s meth u body hs now) = body"
    by (simp_all add: s3_request_def signV4_def prepared_def a Let_def)
qed

lemma s3_request_header:
  assumes "k \<notin> {''X-Amz-Date'', ''X-Amz-Content-Sha256'', ''X-Amz-Security-Token'', ''Host'', ''Authorization''}"
  shows "req_header (s3_request h s meth u body [] now) k = None"
    "req_header (s3_request h s meth u body [(k', v)] now) k = (if k = k' then Some v else None)"
  using assms by (simp_all add: req_header_def s3_request_def signV4_def prepared_def Let_def add_headers_def)

text \<open>A query the client writes says to the service what the client put into it.\<close>

lemma form_decode_queryEscape [simp]: "form_decode (queryEscape s) = s"
proof (induction s)
  case (Cons c s)
  have plus: "c \<noteq> CHR ''+''" if "unreserved c" for c using that by (auto simp: unreserved_def)
  obtain x y where p: "pct c = [CHR ''%'', x, y]" "unreserved x" "unreserved y" by (rule pct_parts [of c])
  have e: "queryEscape (c # s) = (if unreserved c then [c] else if c = CHR '' '' then ''+'' else pct c) @ queryEscape s"
    by (simp add: queryEscape_def)
  have "form_decode (pct c @ t) = c # form_decode t" for t
    using unescape_pct [of c] p plus [OF p(2)] plus [OF p(3)] by (simp add: form_decode_def)
  moreover have "form_decode (c # t) = c # form_decode t" if "unreserved c" for t
    using that plus unreserved_not [OF that] by (simp add: form_decode_def unescape_plain)
  moreover have "form_decode (CHR ''+'' # t) = CHR '' '' # form_decode t" for t
    by (simp add: form_decode_def unescape_plain)
  ultimately show ?case using Cons by (simp add: e)
qed (simp add: form_decode_def queryEscape_def)

lemma queryEscape_free: "list_all (\<lambda>x. x \<noteq> CHR ''&'') (queryEscape s)" "list_all (\<lambda>x. x \<noteq> CHR ''='') (queryEscape s)"
proof -
  have "list_all (\<lambda>x. x \<noteq> CHR ''&'' \<and> x \<noteq> CHR ''='') (queryEscape s)"
  proof (induction s)
    case (Cons c s)
    have "list_all (\<lambda>x. x \<noteq> CHR ''&'' \<and> x \<noteq> CHR ''='') (pct c)"
      by (rule pct_parts [of c]) (auto dest: unreserved_not)
    then show ?case using Cons unreserved_not [of c] by (auto simp: queryEscape_def)
  qed (simp add: queryEscape_def)
  then show "list_all (\<lambda>x. x \<noteq> CHR ''&'') (queryEscape s)" "list_all (\<lambda>x. x \<noteq> CHR ''='') (queryEscape s)"
    by (auto simp: list_all_iff)
qed

lemma query_param_encode: "u_RawQuery u = values_encode q \<Longrightarrow> query_param u = fmlookup q"
proof -
  assume u: "u_RawQuery u = values_encode q"
  let ?ks = "sorted_list_of_fset (fmdom q)" and ?e = "\<lambda>k. queryEscape k @ ''='' @ queryEscape (the (fmlookup q k))"
  have free: "list_all (list_all (\<lambda>x. x \<noteq> CHR ''&'')) (map ?e ?ks)"
    using queryEscape_free by (auto simp: list_all_iff)
  have sp: "filter (\<lambda>kv. kv \<noteq> []) (split_when (\<lambda>c. c = CHR ''&'') (values_encode q)) = map ?e ?ks"
  proof (cases "?ks = []")
    case False
    then have "split_when (\<lambda>c. c = CHR ''&'') (values_encode q) = map ?e ?ks"
      using split_of_join [OF _ free] by (simp add: values_encode_def)
    then show ?thesis by simp
  qed (simp add: values_encode_def)
  have "map (\<lambda>kv. case cut kv (CHR ''='') of (k, v) \<Rightarrow> (form_decode k, form_decode v)) (map ?e ?ks) =
      map (\<lambda>k. (k, the (fmlookup q k))) ?ks"
    by (simp add: comp_def cut_at [OF queryEscape_free(2)])
  then have "query_param u = map_of (map (\<lambda>k. (k, the (fmlookup q k))) ?ks)"
    unfolding query_param_def u sp by (simp only: )
  also have "\<dots> = fmlookup q"
    by (rule ext) (auto simp: map_of_map_restrict restrict_map_def fmlookup_dom_iff)
  finally show ?thesis .
qed

lemma list_url_asks:
  "query_param (list_url s pre a mx) ''list-type'' = Some ''2''" "asks_prefix (list_url s pre a mx) = pre"
  "asks_after (list_url s pre a mx) = a" "asks_max (list_url s pre a mx) = (if mx > 0 then Some (nat mx) else None)"
proof -
  have q: "query_param (list_url s pre a mx) = fmlookup (list_query pre a mx)"
    by (rule query_param_encode) (simp add: list_url_def Let_def)
  show "query_param (list_url s pre a mx) ''list-type'' = Some ''2''" "asks_prefix (list_url s pre a mx) = pre"
    "asks_after (list_url s pre a mx) = a" "asks_max (list_url s pre a mx) = (if mx > 0 then Some (nat mx) else None)"
    unfolding asks_prefix_def asks_after_def asks_max_def q by (simp_all add: list_query_def Let_def dec_val_itoa)
qed

lemma at_bucket_list_url: "at_bucket s (list_url s pre a mx)"
proof -
  have "escapedPath (list_url s pre a mx) = u_RawPath (list_url s pre a mx)"
    by (rule escapedPath_raw) (simp_all add: list_url_def Let_def uriEncode_path_chars)
  then show ?thesis by (simp add: at_bucket_def list_url_def s3_host_def bucket_path_def Let_def)
qed

lemma at_bucket_no_key: "at_bucket s u \<Longrightarrow> addressed s u = Some k \<Longrightarrow> k = []"
  by (auto simp: at_bucket_def addressed_def has_prefix_def split: if_splits)
    (metis append_eq_conv_conj length_append_singleton n_not_Suc_n append_take_drop_id length_take min.absorb2 nat_le_linear take_all)

text \<open>One attempt after another, with what each keeps.\<close>

lemma s3_do_loop_keeps:
  assumes "s3_do_loop h s meth u body hs retry left attempt le w = (y, w')" "I w"
    and "\<And>w now x w'. I w \<Longrightarrow> h_Do h (s3_request h s meth u body hs now) w = (x, w') \<Longrightarrow> I w' \<and> (\<forall>p. x = Inr p \<longrightarrow> J p w')"
  shows "I w' \<and> (case y of Inr p \<Rightarrow> J p w' | Inl e \<Rightarrow> \<exists>m. e = ErrOther m)"
  using assms(1,2)
proof (induction left arbitrary: attempt le w)
  case (Suc left)
  show ?case
  proof (cases "(if attempt > 0 then h_ctx h w else None) = None \<and> h_NewRequest h meth u = None")
    case False
    then have "w' = w" "\<exists>m. y = Inl (ErrOther m)" using Suc.prems(1) by (auto split: option.splits)
    then show ?thesis using Suc.prems(2) by auto
  next
    case True
    obtain x w1 where x: "h_Do h (s3_request h s meth u body hs (h_now h w)) w = (x, w1)" by fastforce
    note S = assms(3) [OF Suc.prems(2) x]
    show ?thesis
    proof (cases x)
      case (Inl e)
      then have "s3_do_loop h s meth u body hs retry left (Suc attempt) e w1 = (y, w')" using Suc.prems(1) True x by simp
      then show ?thesis using Suc.IH S by blast
    next
      case (Inr p)
      show ?thesis
      proof (cases "retry \<and> (rs_Status p \<ge> 500 \<or> rs_Status p = 429)")
        case True': True
        then show ?thesis using Suc.IH S Suc.prems(1) True x Inr by (simp only: s3_do_loop.simps) auto
      next
        case False
        then have "y = Inr p" "w' = w1" using Suc.prems(1) True x Inr by auto
        then show ?thesis using S Inr by simp
      qed
    qed
  qed
qed auto

lemma s3_do_keeps:
  assumes "s3_do h s meth u body hs retry w = (y, w')" "I w"
    and "\<And>w now x w'. I w \<Longrightarrow> h_Do h (s3_request h s meth u body hs now) w = (x, w') \<Longrightarrow> I w' \<and> (\<forall>p. x = Inr p \<longrightarrow> J p w')"
  shows "I w' \<and> (case y of Inr p \<Rightarrow> J p w' | Inl e \<Rightarrow> \<exists>m. e = ErrOther m)"
  using s3_do_loop_keeps [where I = I and J = J, OF assms(1) [unfolded s3_do_def] assms(2,3)] .

text \<open>A request that is not retried is sent once at most.\<close>

lemma s3_do_once:
  assumes "s3_do h s meth u body hs False w = (y, w')"
  shows "(\<exists>m. y = Inl (ErrOther m)) \<and> w' = w \<or>
    (\<exists>x. h_Do h (s3_request h s meth u body hs (h_now h w)) w = (x, w') \<and>
       (case x of Inl e \<Rightarrow> y = Inl (ErrOther e) | Inr p \<Rightarrow> y = Inr p))"
  using assms by (auto simp: s3_do_def split: option.splits prod.splits sum.splits)

section \<open>The contract\<close>

lemma cleanETag_quoted: "CHR 0x22 \<notin> set t \<Longrightarrow> e \<in> {[], quoted t} \<Longrightarrow> cleanETag e = [] \<or> cleanETag e = t"
proof -
  assume t: "CHR 0x22 \<notin> set t" and e: "e \<in> {[], quoted t}"
  show ?thesis
  proof (cases t)
    case Nil
    then show ?thesis using e by (auto simp: cleanETag_def quoted_def trim_prefix_def has_prefix_def trim_chars_def)
  next
    case (Cons c t')
    have "dropWhile (\<lambda>c. c = CHR 0x22) (rev t) = rev t" using t by (cases "rev t") (auto simp: rev_eq_Cons_iff)
    then show ?thesis using e t
      by (auto simp: cleanETag_def quoted_def trim_prefix_def has_prefix_def trim_chars_def Cons)
  qed
qed

lemma errorFor_missing: "errorFor h meth key p = ErrNotFound \<Longrightarrow> says_missing h p"
  by (auto simp: errorFor_def says_missing_def Let_def split: if_splits)

lemma serves_readsD:
  assumes "s3_service h s objs tag good kok" "good w" "h_Do h r w = (x, w')"
  shows "rq_Method r \<in> {''GET'', ''HEAD''} \<Longrightarrow> good w' \<and> objs w' = objs w \<and> tag w' = tag w"
  using assms unfolding s3_service_def serves_reads_def by blast

text \<open>What a read answers, in terms of the objects it found, which it leaves.\<close>

lemma read_do:
  assumes S: "s3_service h s objs tag good kok" "good w" "meth \<in> {''GET'', ''HEAD''}"
    and "s3_do h s meth u body hs retry w = (y, w')"
    and "\<And>w1 now p w2. good w1 \<Longrightarrow> objs w1 = objs w \<Longrightarrow> tag w1 = tag w \<Longrightarrow>
      h_Do h (s3_request h s meth u body hs now) w1 = (Inr p, w2) \<Longrightarrow> J p"
  shows "good w' \<and> objs w' = objs w \<and> tag w' = tag w \<and> (case y of Inr p \<Rightarrow> J p | Inl e \<Rightarrow> \<exists>m. e = ErrOther m)"
proof -
  let ?I = "\<lambda>w'. good w' \<and> objs w' = objs w \<and> tag w' = tag w"
  have "?I w' \<and> (case y of Inr p \<Rightarrow> J p | Inl e \<Rightarrow> \<exists>m. e = ErrOther m)"
  proof (rule s3_do_keeps [OF assms(4), where I = ?I and J = "\<lambda>p _. J p"])
    fix w1 now x w2
    assume i: "?I w1" and d: "h_Do h (s3_request h s meth u body hs now) w1 = (x, w2)"
    have "?I w2" using serves_readsD [OF S(1) _ d] i S(3) by simp
    moreover have "J p" if "x = Inr p" for p using assms(5) i d that by blast
    ultimately show "?I w2 \<and> (\<forall>p. x = Inr p \<longrightarrow> J p)" by blast
  qed (simp add: S(2))
  then show ?thesis by blast
qed

lemma serves_getD:
  assumes "s3_service h s objs tag good kok" "good w" "kok k"
    and "h_Do h (s3_request h s ''GET'' (s3_url s k) body hs now) w = (Inr p, w')"
  shows "rs_Status p \<noteq> 200 \<Longrightarrow> rs_Status p \<noteq> 206 \<Longrightarrow> says_missing h p \<Longrightarrow> objs w k = None"
    "rs_Status p = 200 \<Longrightarrow> rs_BodyErr p = None \<Longrightarrow> objs w k = Some (rs_Body p) \<and> resp_header p ''Etag'' \<in> {[], quoted (tag w k)}"
    "rs_Status p = 206 \<Longrightarrow> rs_BodyErr p = None \<Longrightarrow> hs = [(''Range'', ''bytes='' @ itoa a @ ''-'' @ itoa b)] \<Longrightarrow> a \<le> b \<Longrightarrow>
      map_option (slice a (b + 1)) (objs w k) = Some (rs_Body p)"
    "rs_Status p = 206 \<Longrightarrow> hs \<noteq> []"
proof -
  let ?r = "s3_request h s ''GET'' (s3_url s k) body hs now"
  have "addressed s (rq_URL ?r) = Some k" "rq_Method ?r = ''GET''" by simp_all
  note L = assms(1) [unfolded s3_service_def serves_reads_def, THEN conjunct1, THEN conjunct2, THEN conjunct1, rule_format,
      OF assms(2) this(2,1) assms(3,4)]
  show "rs_Status p \<noteq> 200 \<Longrightarrow> rs_Status p \<noteq> 206 \<Longrightarrow> says_missing h p \<Longrightarrow> objs w k = None" using L by blast
  show "rs_Status p = 200 \<Longrightarrow> rs_BodyErr p = None \<Longrightarrow> objs w k = Some (rs_Body p) \<and> resp_header p ''Etag'' \<in> {[], quoted (tag w k)}"
    using L by blast
  show "rs_Status p = 206 \<Longrightarrow> rs_BodyErr p = None \<Longrightarrow> hs = [(''Range'', ''bytes='' @ itoa a @ ''-'' @ itoa b)] \<Longrightarrow> a \<le> b \<Longrightarrow>
      map_option (slice a (b + 1)) (objs w k) = Some (rs_Body p)"
  proof -
    assume h: "rs_Status p = 206" "rs_BodyErr p = None" "hs = [(''Range'', ''bytes='' @ itoa a @ ''-'' @ itoa b)]" "a \<le> b"
    have "req_header ?r ''Range'' = Some (''bytes='' @ itoa a @ ''-'' @ itoa b)"
      unfolding h(3) by (subst s3_request_header(2)) simp_all
    then show ?thesis using L h(1,2,4) by blast
  qed
  show "rs_Status p = 206 \<Longrightarrow> hs \<noteq> []" 
  proof -
    assume "rs_Status p = 206"
    then have "req_header ?r ''Range'' \<noteq> None" using L by blast
    then show ?thesis by (cases "hs = []") (simp_all add: s3_request_header(1))
  qed
qed

lemma s3_GetWithETag_law:
  assumes S: "s3_service h s objs tag good kok" "good w" "kok k" and "s3_GetWithETag h s k w = (r, w')"
  shows "good w' \<and> objs w' = objs w \<and> tag w' = tag w \<and>
      (case r of Inr (d, e) \<Rightarrow> objs w k = Some d \<and> (e = [] \<or> e = tag w k) | Inl e \<Rightarrow> e = ErrNotFound \<longrightarrow> objs w k = None)"
proof -
  obtain y w1 where d: "s3_do h s ''GET'' (s3_url s k) None [] True w = (y, w1)" by fastforce
  let ?J = "\<lambda>p. (rs_Status p \<noteq> 200 \<longrightarrow> says_missing h p \<longrightarrow> objs w k = None) \<and>
     (rs_Status p = 200 \<longrightarrow> rs_BodyErr p = None \<longrightarrow> objs w k = Some (rs_Body p) \<and> resp_header p ''Etag'' \<in> {[], quoted (tag w k)})"
  have R: "good w1 \<and> objs w1 = objs w \<and> tag w1 = tag w \<and> (case y of Inr p \<Rightarrow> ?J p | Inl e \<Rightarrow> \<exists>m. e = ErrOther m)"
  proof (rule read_do [OF S(1,2) _ d])
    fix w1 now p w2
    assume "good w1" "objs w1 = objs w" "tag w1 = tag w"
      and "h_Do h (s3_request h s ''GET'' (s3_url s k) None [] now) w1 = (Inr p, w2)"
    then show "?J p" using serves_getD [OF S(1) _ S(3)] by metis
  qed simp
  have q: "CHR 0x22 \<notin> set (tag w k)" using S(1) by (simp add: s3_service_def)
  show ?thesis
    using assms(4) d R cleanETag_quoted [OF q]
    by (auto simp: s3_GetWithETag_def read_all_def split: sum.splits if_splits option.splits dest: errorFor_missing)
qed

lemma s3_Get_law:
  assumes "s3_service h s objs tag good kok" "good w" "kok k" and "s3_Get h s k w = (r, w')"
  shows "good w' \<and> objs w' = objs w \<and> tag w' = tag w \<and>
      (case r of Inr d \<Rightarrow> objs w k = Some d | Inl e \<Rightarrow> e = ErrNotFound \<longrightarrow> objs w k = None)"
proof -
  obtain y w1 where g: "s3_GetWithETag h s k w = (y, w1)" by fastforce
  show ?thesis using s3_GetWithETag_law [OF assms(1-3) g] assms(4) g by (cases y) (auto simp: s3_Get_def)
qed

lemma s3_GetRange_law:
  assumes S: "s3_service h s objs tag good kok" "good w" "kok k" and "s3_GetRange h s k ofs n w = (r, w')"
  shows "good w' \<and> objs w' = objs w \<and> tag w' = tag w \<and>
      (case r of Inr d \<Rightarrow> map_option (slice ofs (ofs + n)) (objs w k) = Some d \<or> n = 0 \<and> d = []
       | Inl e \<Rightarrow> e = ErrNotFound \<longrightarrow> objs w k = None)"
proof (cases "n = 0")
  case True
  then show ?thesis using assms by (auto simp: s3_GetRange_def)
next
  case False
  let ?hs = "[(''Range'', ''bytes='' @ itoa ofs @ ''-'' @ itoa (ofs + n - 1))]"
  obtain y w1 where d: "s3_do h s ''GET'' (s3_url s k) None ?hs True w = (y, w1)" by fastforce
  let ?J = "\<lambda>p. (rs_Status p \<noteq> 200 \<longrightarrow> rs_Status p \<noteq> 206 \<longrightarrow> says_missing h p \<longrightarrow> objs w k = None) \<and>
     (rs_Status p = 200 \<longrightarrow> rs_BodyErr p = None \<longrightarrow> objs w k = Some (rs_Body p)) \<and>
     (rs_Status p = 206 \<longrightarrow> rs_BodyErr p = None \<longrightarrow> map_option (slice ofs (ofs + n)) (objs w k) = Some (rs_Body p))"
  have R: "good w1 \<and> objs w1 = objs w \<and> tag w1 = tag w \<and> (case y of Inr p \<Rightarrow> ?J p | Inl e \<Rightarrow> \<exists>m. e = ErrOther m)"
  proof (rule read_do [OF S(1,2) _ d])
    fix w1 now p w2
    assume w1: "good w1" "objs w1 = objs w" "tag w1 = tag w"
      and q: "h_Do h (s3_request h s ''GET'' (s3_url s k) None ?hs now) w1 = (Inr p, w2)"
    have "ofs + n - 1 + 1 = ofs + n" "ofs \<le> ofs + n - 1" using False by simp_all
    then show "?J p" using serves_getD(1,2) [OF S(1) w1(1) S(3) q] serves_getD(3) [OF S(1) w1(1) S(3) q, of ofs "ofs + n - 1"] w1(2) by simp
  qed simp
  have cut: "slice ofs (if ofs + n > length data then length data else ofs + n) data = slice ofs (ofs + n) data" for data :: bytes
    by (simp add: slice_def)
  have past: "length data \<le> ofs \<Longrightarrow> slice ofs (ofs + n) data = []" for data :: bytes by (simp add: slice_def)
  show ?thesis
    using assms(4) d R False
    by (auto simp: s3_GetRange_def read_all_def cut past split: sum.splits if_splits option.splits dest: errorFor_missing)
qed

lemma s3_Head_law:
  assumes S: "s3_service h s objs tag good kok" "good w" "kok k" and "s3_Head h s k w = (r, w')"
  shows "good w' \<and> objs w' = objs w \<and> tag w' = tag w \<and>
      (case r of Inr i \<Rightarrow> oi_Key i = k \<and> map_option length (objs w k) = Some (oi_Size i) \<and> (oi_ETag i = [] \<or> oi_ETag i = tag w k)
       | Inl e \<Rightarrow> e = ErrNotFound \<longrightarrow> objs w k = None)"
proof -
  obtain y w1 where d: "s3_do h s ''HEAD'' (s3_url s k) None [] True w = (y, w1)" by fastforce
  let ?J = "\<lambda>p. (rs_Status p \<noteq> 200 \<longrightarrow> says_missing h p \<longrightarrow> objs w k = None) \<and>
     (rs_Status p = 200 \<longrightarrow> resp_header p ''Etag'' \<in> {[], quoted (tag w k)} \<and>
        map_option length (objs w k) = Some (parse_int (resp_header p ''Content-Length'')))"
  have R: "good w1 \<and> objs w1 = objs w \<and> tag w1 = tag w \<and> (case y of Inr p \<Rightarrow> ?J p | Inl e \<Rightarrow> \<exists>m. e = ErrOther m)"
  proof (rule read_do [OF S(1,2) _ d])
    fix w1 now p w2
    assume w1: "good w1" "objs w1 = objs w" "tag w1 = tag w"
      and q: "h_Do h (s3_request h s ''HEAD'' (s3_url s k) None [] now) w1 = (Inr p, w2)"
    note L = S(1) [unfolded s3_service_def serves_reads_def, THEN conjunct1, THEN conjunct2, THEN conjunct2, rule_format,
        OF w1(1) s3_request_sel(1) _ S(3) q, simplified]
    then show "?J p" using w1 by auto
  qed simp
  have q: "CHR 0x22 \<notin> set (tag w k)" using S(1) by (simp add: s3_service_def)
  show ?thesis
  proof (cases y)
    case (Inl e)
    then show ?thesis using assms(4) d R by (auto simp: s3_Head_def)
  next
    case (Inr p)
    then have J: "?J p" "good w1 \<and> objs w1 = objs w \<and> tag w1 = tag w" using R by simp_all
    show ?thesis
    proof (cases "rs_Status p = 200")
      case True
      then show ?thesis using assms(4) d Inr J cleanETag_quoted [OF q, of "resp_header p ''Etag''"] by (auto simp: s3_Head_def)
    next
      case False
      then have "r = Inl (errorFor h ''HEAD'' k p)" "w' = w1" using assms(4) d Inr by (simp_all add: s3_Head_def)
      then show ?thesis using J False errorFor_missing [of h "''HEAD''" k p] by auto
    qed
  qed
qed

lemma serves_putD:
  assumes "s3_service h s objs tag good kok" "good w" "kok k"
    and "h_Do h (s3_request h s ''PUT'' (s3_url s k) (Some d) hs now) w = (x, w')"
  shows "good w' \<and> (\<forall>k'. k' \<noteq> k \<longrightarrow> objs w' k' = objs w k' \<and> tag w' k' = tag w k') \<and>
    (\<forall>p. x = Inr p \<longrightarrow> rs_Status p = 200 \<longrightarrow> resp_header p ''Etag'' \<in> {[], quoted (tag w' k)}) \<and>
    (objs w' k = Some d \<and> (req_header (s3_request h s ''PUT'' (s3_url s k) (Some d) hs now) ''If-None-Match'' = Some ''*'' \<longrightarrow> objs w k = None) \<and>
       (\<forall>e. req_header (s3_request h s ''PUT'' (s3_url s k) (Some d) hs now) ''If-Match'' = Some (quoted e) \<longrightarrow> objs w k \<noteq> None \<and> e = tag w k) \<or>
     (\<forall>p. x = Inr p \<longrightarrow> rs_Status p \<noteq> 200) \<and> objs w' k = objs w k \<and> tag w' k = tag w k)"
  using assms(1) [unfolded s3_service_def serves_writes_def, THEN conjunct2, THEN conjunct1, THEN conjunct1, rule_format,
      OF assms(2) s3_request_sel(1) _ assms(3) s3_request_sel(3) assms(4), unfolded s3_request_sel(2), OF addressed_url] .

lemma s3_Put_law:
  assumes S: "s3_service h s objs tag good kok" "good w" "kok k" and "s3_Put h s k d w = (r, w')"
  shows "good w' \<and> (\<forall>k'. k' \<noteq> k \<longrightarrow> objs w' k' = objs w k' \<and> tag w' k' = tag w k') \<and>
      (objs w' k = Some d \<or> r \<noteq> None \<and> objs w' k = objs w k \<and> tag w' k = tag w k)"
proof -
  obtain y w1 where q: "s3_do h s ''PUT'' (s3_url s k) (Some d) [] True w = (y, w1)" by fastforce
  let ?I = "\<lambda>w'. good w' \<and> (\<forall>k'. k' \<noteq> k \<longrightarrow> objs w' k' = objs w k' \<and> tag w' k' = tag w k') \<and>
      (objs w' k = Some d \<or> objs w' k = objs w k \<and> tag w' k = tag w k)"
  let ?J = "\<lambda>p w'. rs_Status p = 200 \<longrightarrow> objs w' k = Some d"
  have "?I w1 \<and> (case y of Inr p \<Rightarrow> ?J p w1 | Inl e \<Rightarrow> \<exists>m. e = ErrOther m)"
  proof (rule s3_do_keeps [OF q, where I = ?I and J = ?J])
    fix w1 now x w2
    assume i: "?I w1" and h: "h_Do h (s3_request h s ''PUT'' (s3_url s k) (Some d) [] now) w1 = (x, w2)"
    then have g: "good w1" by blast
    note P = serves_putD [OF S(1) g S(3) h]
    have "good w2" "\<forall>k'. k' \<noteq> k \<longrightarrow> objs w2 k' = objs w1 k' \<and> tag w2 k' = tag w1 k'"
      "objs w2 k = Some d \<or> (\<forall>p. x = Inr p \<longrightarrow> rs_Status p \<noteq> 200) \<and> objs w2 k = objs w1 k \<and> tag w2 k = tag w1 k"
      using P by blast+
    then show "?I w2 \<and> (\<forall>p. x = Inr p \<longrightarrow> ?J p w2)" using i by auto
  qed (use S(2) in simp)
  then show ?thesis using assms(4) q by (cases y) (auto simp: s3_Put_def split: if_splits)
qed

lemma s3_Delete_law:
  assumes S: "s3_service h s objs tag good kok" "good w" "kok k" and "s3_Delete h s k w = (r, w')"
  shows "good w' \<and> (\<forall>k'. k' \<noteq> k \<longrightarrow> objs w' k' = objs w k' \<and> tag w' k' = tag w k') \<and>
      (objs w' k = None \<or> r \<noteq> None \<and> objs w' k = objs w k \<and> tag w' k = tag w k)"
proof -
  obtain y w1 where q: "s3_do h s ''DELETE'' (s3_url s k) None [] True w = (y, w1)" by fastforce
  let ?I = "\<lambda>w'. good w' \<and> (\<forall>k'. k' \<noteq> k \<longrightarrow> objs w' k' = objs w k' \<and> tag w' k' = tag w k') \<and>
      (objs w' k = None \<or> objs w' k = objs w k \<and> tag w' k = tag w k)"
  let ?J = "\<lambda>p w'. rs_Status p \<in> {200, 204, 404} \<longrightarrow> objs w' k = None"
  have "?I w1 \<and> (case y of Inr p \<Rightarrow> ?J p w1 | Inl e \<Rightarrow> \<exists>m. e = ErrOther m)"
  proof (rule s3_do_keeps [OF q, where I = ?I and J = ?J])
    fix w1 now x w2
    assume i: "?I w1" and h: "h_Do h (s3_request h s ''DELETE'' (s3_url s k) None [] now) w1 = (x, w2)"
    then have g: "good w1" by blast
    note D = S(1) [unfolded s3_service_def serves_writes_def, THEN conjunct2, THEN conjunct1, THEN conjunct2, rule_format,
        OF g s3_request_sel(1) _ S(3) h, unfolded s3_request_sel(2), OF addressed_url]
    have "good w2" "\<forall>k'. k' \<noteq> k \<longrightarrow> objs w2 k' = objs w1 k' \<and> tag w2 k' = tag w1 k'"
      "objs w2 k = None \<or> (\<forall>p. x = Inr p \<longrightarrow> rs_Status p \<notin> {200, 204, 404}) \<and> objs w2 k = objs w1 k \<and> tag w2 k = tag w1 k"
      using D by blast+
    then show "?I w2 \<and> (\<forall>p. x = Inr p \<longrightarrow> ?J p w2)" using i by auto
  qed (use S(2) in simp)
  then show ?thesis using assms(4) q by (cases y) (auto simp: s3_Delete_def split: if_splits)
qed

lemma match_header_seen:
  "req_header (s3_request h s meth u body [match_header e] now) ''If-None-Match'' = (if e = [] then Some ''*'' else None)"
  "req_header (s3_request h s meth u body [match_header e] now) ''If-Match'' = (if e = [] then None else Some (quoted e))"
  by (simp_all add: match_header_def s3_request_header(2) quoted_def)

text \<open>The conditional put is one request: what it reports is what that request did.\<close>

lemma s3_PutIfMatch_law:
  assumes S: "s3_service h s objs tag good kok" "good w" "kok k" and "s3_PutIfMatch h s k d e w = (r, w')"
  shows "good w' \<and> (\<forall>k'. k' \<noteq> k \<longrightarrow> objs w' k' = objs w k' \<and> tag w' k' = tag w k') \<and>
      (objs w' k = Some d \<and> (if objs w k = None then e = [] else e \<noteq> [] \<and> e = tag w k) \<and>
         (case r of Inr e' \<Rightarrow> e' = [] \<or> e' = tag w' k | Inl _ \<Rightarrow> True) \<or>
       (\<exists>x. r = Inl x) \<and> objs w' k = objs w k \<and> tag w' k = tag w k)"
proof -
  obtain y where q: "s3_do h s ''PUT'' (s3_url s k) (Some d) [match_header e] False w = (y, w')"
    using assms(4) by (auto simp: s3_PutIfMatch_def split: prod.splits sum.splits if_splits)
  have r: "r = (case y of Inl e \<Rightarrow> Inl e | Inr p \<Rightarrow>
      if rs_Status p \<noteq> 200 then Inl (errorFor h ''PUT'' k p) else Inr (cleanETag (resp_header p ''Etag'')))"
    using assms(4) q by (auto simp: s3_PutIfMatch_def split: sum.splits if_splits)
  from s3_do_once [OF q] consider m where "y = Inl (ErrOther m)" "w' = w"
    | x where "h_Do h (s3_request h s ''PUT'' (s3_url s k) (Some d) [match_header e] (h_now h w)) w = (x, w')"
        "case x of Inl e \<Rightarrow> y = Inl (ErrOther e) | Inr p \<Rightarrow> y = Inr p" by blast
  then show ?thesis
  proof cases
    case 1
    then show ?thesis using r S(2) by simp
  next
    case (2 x)
    note P = serves_putD [OF S(1,2,3) 2(1), unfolded match_header_seen]
    have q: "CHR 0x22 \<notin> set (tag w' k)" using S(1) by (simp add: s3_service_def)
    have tag: "cleanETag (resp_header p ''Etag'') = [] \<or> cleanETag (resp_header p ''Etag'') = tag w' k"
      if "x = Inr p" "rs_Status p = 200" for p
      using cleanETag_quoted [OF q] P that by blast
    show ?thesis
    proof (cases "objs w' k = Some d \<and> (e = [] \<longrightarrow> objs w k = None) \<and> (e \<noteq> [] \<longrightarrow> objs w k \<noteq> None \<and> e = tag w k)")
      case True
      then show ?thesis using P r 2(2) tag by (auto split: sum.splits)
    next
      case False
      then have "\<forall>p. x = Inr p \<longrightarrow> rs_Status p \<noteq> 200" "objs w' k = objs w k \<and> tag w' k = tag w k"
        using P by (auto split: if_splits)
      then show ?thesis using P r 2(2) by (auto split: sum.splits)
    qed
  qed
qed

lemma s3_List_law:
  assumes S: "s3_service h s objs tag good kok" "good w" and "s3_List h s p a mx w = (r, w')"
  shows "good w' \<and> objs w' = objs w \<and> tag w' = tag w \<and>
      (\<forall>is. r = Inr is \<longrightarrow>
         (\<exists>ks. sorted_wrt (<) ks \<and> set ks = {k. objs w k \<noteq> None \<and> starts_with p k \<and> a < k} \<and>
               (\<exists>m. map oi_Key is = take m ks \<and> (mx > 0 \<longrightarrow> m \<le> nat mx)) \<and> (is = [] \<longrightarrow> ks = [])) \<and>
         (\<forall>i \<in> set is. kok (oi_Key i)))"
proof -
  obtain y w1 where d: "s3_do h s ''GET'' (list_url s p a mx) None [] True w = (y, w1)" by fastforce
  let ?J = "\<lambda>q. rs_Status q = 200 \<longrightarrow> rs_BodyErr q = None \<longrightarrow> (\<forall>res. h_xmlList h (rs_Body q) = Inr res \<longrightarrow>
     (\<exists>ks m. sorted_wrt (<) ks \<and> set ks = {k. objs w k \<noteq> None \<and> starts_with p k \<and> a < k} \<and>
        map lo_Key (lb_Contents res) = take m ks \<and> (mx > 0 \<longrightarrow> m \<le> nat mx) \<and> (lb_Contents res = [] \<longrightarrow> ks = [])) \<and>
     (\<forall>c \<in> set (lb_Contents res). kok (lo_Key c)))"
  have R: "good w1 \<and> objs w1 = objs w \<and> tag w1 = tag w \<and> (case y of Inr q \<Rightarrow> ?J q | Inl e \<Rightarrow> \<exists>m. e = ErrOther m)"
  proof (rule read_do [OF S(1,2) _ d])
    fix w1 now q w2
    assume w1: "good w1" "objs w1 = objs w" "tag w1 = tag w"
      and h: "h_Do h (s3_request h s ''GET'' (list_url s p a mx) None [] now) w1 = (Inr q, w2)"
    have u: "at_bucket s (rq_URL (s3_request h s ''GET'' (list_url s p a mx) None [] now))"
      "query_param (rq_URL (s3_request h s ''GET'' (list_url s p a mx) None [] now)) ''list-type'' = Some ''2''"
      by (simp_all add: at_bucket_list_url list_url_asks)
    note L = S(1) [unfolded s3_service_def serves_lists_def, THEN conjunct2, THEN conjunct2, THEN conjunct1, rule_format,
        OF w1(1) s3_request_sel(1) u h, unfolded s3_request_sel(2) list_url_asks]
    show "?J q" using L unfolding w1(2) by (auto split: if_splits)
  qed simp
  show ?thesis
  proof (cases "\<exists>is. r = Inr is")
    case False
    then show ?thesis using assms(3) d R by (cases y) (auto simp: s3_List_def split: if_splits)
  next
    case True
    then obtain "is" where i: "r = Inr is" by blast
    then obtain q res where q: "y = Inr q" "rs_Status q = 200" "rs_BodyErr q = None" "h_xmlList h (rs_Body q) = Inr res" "w' = w1"
        "is = map (\<lambda>c. \<lparr>oi_Key = lo_Key c, oi_Size = lo_Size c, oi_ETag = cleanETag (lo_ETag c)\<rparr>) (lb_Contents res)"
      using assms(3) d by (auto simp: s3_List_def read_all_def split: sum.splits if_splits option.splits)
    have k: "map oi_Key is = map lo_Key (lb_Contents res)" "is = [] \<longleftrightarrow> lb_Contents res = []" by (simp_all add: q(6) comp_def)
    have J: "?J q" using R q(1) by simp
    then obtain ks m where ks: "sorted_wrt (<) ks" "set ks = {k. objs w k \<noteq> None \<and> starts_with p k \<and> a < k}"
        "map lo_Key (lb_Contents res) = take m ks" "mx > 0 \<longrightarrow> m \<le> nat mx" "lb_Contents res = [] \<longrightarrow> ks = []"
      using q(2-4) by blast
    moreover have "\<forall>i \<in> set is. kok (oi_Key i)" using J q(2-4) by (auto simp: q(6))
    ultimately show ?thesis using R i q(5) k by auto
  qed
qed

lemma s3_is_store:
  assumes "s3_service h s objs tag good kok"
  shows "object_store (S3_ops h s) objs tag good kok"
proof (unfold_locales, goal_cases)
  case (1 w k r w')
  then show ?case using s3_Get_law [OF assms] by (simp add: S3_ops_def)
next
  case (2 w k ofs n r w')
  then show ?case using s3_GetRange_law [OF assms] by (simp add: S3_ops_def)
next
  case (3 w k r w')
  then show ?case using s3_Head_law [OF assms] by (simp add: S3_ops_def)
next
  case (4 w k r w')
  then show ?case using s3_GetWithETag_law [OF assms] by (simp add: S3_ops_def)
next
  case (5 w k d r w')
  then show ?case using s3_Put_law [OF assms] by (simp add: S3_ops_def)
next
  case (6 w k r w')
  then show ?case using s3_Delete_law [OF assms] by (simp add: S3_ops_def)
next
  case (7 w k d e r w')
  then show ?case using s3_PutIfMatch_law [OF assms 7(1,2)] by (simp add: S3_ops_def)
next
  case (8 w p a mx r w')
  then show ?case using s3_List_law [OF assms] by (simp add: S3_ops_def)
qed

text \<open>The transport with a record of the requests it was given, in their order.\<close>

definition logged :: "'w http \<Rightarrow> ('w \<times> request list) http" where
  "logged h =
     \<lparr>h_Do = \<lambda>r (w, l). (case h_Do h r w of (x, w') \<Rightarrow> (x, (w', l @ [r]))), h_NewRequest = h_NewRequest h,
      h_ctx = \<lambda>(w, l). h_ctx h w, h_now = \<lambda>(w, l). h_now h w, h_crypto = h_crypto h, h_xmlError = h_xmlError h,
      h_xmlList = h_xmlList h\<rparr>"

lemma s3_do_logged:
  assumes "s3_do h s meth u body hs False w = (y, w')"
  shows "\<exists>sent. s3_do (logged h) s meth u body hs False (w, l) = (y, (w', l @ sent)) \<and> length sent \<le> 1 \<and>
    (\<forall>r \<in> set sent. \<exists>now. r = s3_request h s meth u body hs now)"
proof -
  have "s3_request (logged h) s meth u body hs now = s3_request h s meth u body hs now" for now
    by (simp add: s3_request_def logged_def cong: option.case_cong)
  then show ?thesis
    using assms by (auto simp: s3_do_def logged_def split: option.splits prod.splits sum.splits)
qed

lemma PutIfMatch_sent_once:
  assumes "s3_PutIfMatch h s k d e w = (r, w')"
  shows "\<exists>sent. s3_PutIfMatch (logged h) s k d e (w, l) = (r, (w', l @ sent)) \<and> length sent \<le> 1 \<and>
    (\<forall>q \<in> set sent. rq_Method q = ''PUT'' \<and> addressed s (rq_URL q) = Some k \<and> rq_Body q = Some d \<and>
       req_header q ''If-None-Match'' = (if e = [] then Some ''*'' else None) \<and>
       req_header q ''If-Match'' = (if e = [] then None else Some (quoted e)))"
proof -
  obtain y where q: "s3_do h s ''PUT'' (s3_url s k) (Some d) [match_header e] False w = (y, w')"
    using assms by (auto simp: s3_PutIfMatch_def split: prod.splits sum.splits if_splits)
  obtain sent where sent: "s3_do (logged h) s ''PUT'' (s3_url s k) (Some d) [match_header e] False (w, l) = (y, (w', l @ sent))"
      "length sent \<le> 1" "\<forall>r \<in> set sent. \<exists>now. r = s3_request h s ''PUT'' (s3_url s k) (Some d) [match_header e] now"
    using s3_do_logged [OF q] by blast
  have "errorFor (logged h) m key p = errorFor h m key p" for m key p by (simp add: errorFor_def logged_def)
  then have "s3_PutIfMatch (logged h) s k d e (w, l) = (r, (w', l @ sent))"
    using assms q sent(1) by (auto simp: s3_PutIfMatch_def split: sum.splits if_splits)
  then show ?thesis using sent(2,3) by (auto simp: match_header_seen intro!: exI [of _ sent])
qed

text \<open>
  C19. The S3 client is an object store. Over a service that keeps what it documents, whatever requests
  fail, are answered by 5xx or lose their reply before or after taking effect: the client, with its
  retries, its signing, its escaping of keys and of listing parameters and its reading of ETags and error
  documents, keeps every law of the contract the filesystem relies on. And a conditional put is never sent
  twice: over the transport with a record of what it was given, the call adds at most one request, a PUT of
  the body at the key with the condition for the given ETag, and answers and changes the service as it
  does without the record.
\<close>

theorem s3_store_contract:
  assumes "s3_service h s objs tag good kok"
  shows "object_store (S3_ops h s) objs tag good kok \<and>
    (\<forall>k d e w l r w'. PutIfMatch (S3_ops h s) k d e w = (r, w') \<longrightarrow>
       (\<exists>sent. PutIfMatch (S3_ops (logged h) s) k d e (w, l) = (r, (w', l @ sent)) \<and> length sent \<le> 1 \<and>
          (\<forall>q \<in> set sent. rq_Method q = ''PUT'' \<and> addressed s (rq_URL q) = Some k \<and> rq_Body q = Some d \<and>
             req_header q ''If-None-Match'' = (if e = [] then Some ''*'' else None) \<and>
             req_header q ''If-Match'' = (if e = [] then None else Some (quoted e)))))"
proof -
  have p: "PutIfMatch (S3_ops h s) = s3_PutIfMatch h s" for h :: "'w http" by (simp add: S3_ops_def)
  have "PutIfMatch (S3_ops (logged h) s) = s3_PutIfMatch (logged h) s" by (simp add: S3_ops_def)
  then show ?thesis using s3_is_store [OF assms] PutIfMatch_sent_once [of h s] unfolding p by blast
qed

section \<open>A service in memory\<close>

text \<open>
  A service that answers at once and ignores ranges, as it may. Its listings are rows of key, size and tag;
  a row is written with each character behind a one, and a zero at the end of each of its three strings.
\<close>

type_synonym mem_bucket = "(string, bytes) fmap"

definition hex_tag :: "mem_bucket \<Rightarrow> string \<Rightarrow> string" where
  "hex_tag w k = (case fmlookup w k of None \<Rightarrow> [] | Some d \<Rightarrow> hex_string d)"

definition answer :: "nat \<Rightarrow> (string \<times> string) list \<Rightarrow> bytes \<Rightarrow> response" where
  "answer code hs body = \<lparr>rs_Status = code, rs_Header = fmap_of_list hs, rs_Body = body, rs_BodyErr = None\<rparr>"

definition conditions_hold :: "request \<Rightarrow> string \<Rightarrow> mem_bucket \<Rightarrow> bool" where
  "conditions_hold r k w \<longleftrightarrow>
     (req_header r ''If-None-Match'' \<noteq> None \<longrightarrow> fmlookup w k = None) \<and>
     (\<forall>v \<in> set_option (req_header r ''If-Match''). fmlookup w k \<noteq> None \<and> v = quoted (hex_tag w k))"

definition write_string :: "string \<Rightarrow> bytes" where
  "write_string t = concat (map (\<lambda>b. [1, b]) (bytes_of_string t)) @ [0]"

fun read_strings :: "bytes \<Rightarrow> bytes \<Rightarrow> string list" where
  "read_strings acc (b # bs) =
     (if b = 0 then string_of_bytes acc # read_strings [] bs else case bs of c # cs \<Rightarrow> read_strings (acc @ [c]) cs | [] \<Rightarrow> [])"
| "read_strings acc [] = []"

fun rows :: "string list \<Rightarrow> listedObject list" where
  "rows (k # n # t # xs) = \<lparr>lo_Key = k, lo_Size = parse_int n, lo_ETag = t\<rparr> # rows xs"
| "rows _ = []"

definition mem_xmlList :: "bytes \<Rightarrow> string + listBucketResult" where
  "mem_xmlList b = Inr \<lparr>lb_IsTruncated = False, lb_Contents = rows (read_strings [] b), lb_NextContinuationToken = []\<rparr>"

definition listed_keys :: "url \<Rightarrow> mem_bucket \<Rightarrow> string list" where
  "listed_keys u w = filter (\<lambda>k. starts_with (asks_prefix u) k \<and> asks_after u < k) (sorted_list_of_fset (fmdom w))"

definition mem_page :: "url \<Rightarrow> mem_bucket \<Rightarrow> string list" where
  "mem_page u w = (case asks_max u of None \<Rightarrow> listed_keys u w | Some n \<Rightarrow> take n (listed_keys u w))"

definition mem_listing :: "url \<Rightarrow> mem_bucket \<Rightarrow> bytes" where
  "mem_listing u w =
     concat (map (\<lambda>k. write_string k @ write_string (itoa (length (the (fmlookup w k)))) @ write_string (quoted (hex_tag w k)))
       (mem_page u w))"

definition mem_Do :: "s3 \<Rightarrow> request \<Rightarrow> mem_bucket \<Rightarrow> (string + response) \<times> mem_bucket" where
  "mem_Do s r w =
     (if rq_Method r = ''GET'' \<and> at_bucket s (rq_URL r) \<and> query_param (rq_URL r) ''list-type'' = Some ''2''
      then (Inr (answer 200 [] (mem_listing (rq_URL r) w)), w)
      else case addressed s (rq_URL r) of
        None \<Rightarrow> (Inl ''refused'', w)
      | Some k \<Rightarrow>
          if rq_Method r = ''GET''
          then (Inr (case fmlookup w k of None \<Rightarrow> answer 404 [] [] | Some d \<Rightarrow> answer 200 [(''Etag'', quoted (hex_tag w k))] d), w)
          else if rq_Method r = ''HEAD''
          then (case fmlookup w k of
                  None \<Rightarrow> (Inr (answer 404 [] []), w)
                | Some d \<Rightarrow> if length d < 2 ^ 63
                            then (Inr (answer 200 [(''Etag'', quoted (hex_tag w k)), (''Content-Length'', itoa (length d))] []), w)
                            else (Inl ''too long'', w))
          else if rq_Method r = ''PUT''
          then (case rq_Body r of
                  None \<Rightarrow> (Inl ''no body'', w)
                | Some d \<Rightarrow> if conditions_hold r k w
                            then (Inr (answer 200 [(''Etag'', quoted (hex_string d))] []), fmupd k d w)
                            else (Inr (answer 412 [] []), w))
          else if rq_Method r = ''DELETE'' then (Inr (answer 204 [] []), fmdrop k w)
          else (Inl ''refused'', w))"

definition mem_http :: "s3 \<Rightarrow> mem_bucket http" where
  "mem_http s =
     \<lparr>h_Do = mem_Do s, h_NewRequest = \<lambda>_ _. None, h_ctx = \<lambda>_. None,
      h_now = \<lambda>_. \<lparr>t_year = 2024, t_month = 1, t_day = 2, t_hour = 3, t_min = 4, t_sec = 5\<rparr>,
      h_crypto = \<lparr>c_sha256 = \<lambda>b. b, c_hmac = \<lambda>k b. k @ b, c_range = \<lambda>m. sorted_list_of_fset (fmdom m)\<rparr>,
      h_xmlError = \<lambda>_. \<lparr>xe_Code = [], xe_Message = []\<rparr>, h_xmlList = mem_xmlList\<rparr>"

lemma hex_no_quote: "CHR 0x22 \<notin> set (hex_string d)"
proof -
  have "digit_char i \<noteq> CHR 0x22" if "i < 16" for i
  proof -
    have "i \<in> set [0 ..< 16]" using that by simp
    moreover have "list_all (\<lambda>i. digit_char i \<noteq> CHR 0x22) [0 ..< 16]" by (simp add: upt_rec digit_char_def)
    ultimately show ?thesis by (simp add: list_all_iff)
  qed
  moreover have "unat x div 16 < 16" for x :: u8
  proof -
    have "unat x < 256" using unsigned_less [of x] by simp
    then show ?thesis by simp
  qed
  ultimately have "CHR 0x22 \<noteq> digit_char (unat x div 16)" "CHR 0x22 \<noteq> digit_char (unat x mod 16)" for x :: u8
    by (metis, metis mod_less_divisor zero_less_numeral)
  then show ?thesis by (auto simp: hex_string_def)
qed

lemma read_write_bytes: "read_strings acc (concat (map (\<lambda>b. [1, b]) t) @ 0 # bs) = string_of_bytes (acc @ t) # read_strings [] bs"
  by (induction t arbitrary: acc) simp_all

lemma read_write_string: "read_strings [] (write_string t @ bs) = t # read_strings [] bs"
  using read_write_bytes [of "[]" "bytes_of_string t" bs] by (simp add: write_string_def)

lemma mem_listing_keys:
  "mem_xmlList (mem_listing u w) = Inr res \<Longrightarrow> map lo_Key (lb_Contents res) = mem_page u w"
proof -
  have "map lo_Key (rows (read_strings [] (concat (map (\<lambda>k. write_string k @ write_string (f k) @ write_string (g k)) ks)))) = ks" for f g ks
    by (induction ks) (simp_all add: read_write_string)
  then show "mem_xmlList (mem_listing u w) = Inr res \<Longrightarrow> map lo_Key (lb_Contents res) = mem_page u w"
    by (auto simp: mem_xmlList_def mem_listing_def)
qed

lemma listed_keys_spec:
  "sorted_wrt (<) (listed_keys u w) \<and> set (listed_keys u w) = {k. fmlookup w k \<noteq> None \<and> starts_with (asks_prefix u) k \<and> asks_after u < k}"
proof -
  have "sorted_wrt (<) (sorted_list_of_fset (fmdom w))" by (simp add: sorted_list_of_fset.rep_eq)
  then show ?thesis by (auto simp: listed_keys_def sorted_wrt_filter fmlookup_dom_iff)
qed

lemma mem_serves_lists: "serves_lists (mem_http s) s fmlookup (\<lambda>_. True) (\<lambda>k. k \<noteq> [])"
proof -
  have "(\<exists>ks m. sorted_wrt (<) ks \<and> set ks = {k. fmlookup w k \<noteq> None \<and> starts_with (asks_prefix u) k \<and> asks_after u < k} \<and>
        map lo_Key (lb_Contents res) = take m ks \<and> (\<forall>n. asks_max u = Some n \<longrightarrow> m \<le> n) \<and>
        (lb_Contents res = [] \<longrightarrow> ks = [] \<or> asks_max u = Some 0)) \<and>
      (\<forall>c \<in> set (lb_Contents res). lo_Key c \<noteq> [])"
    if "mem_xmlList (mem_listing u w) = Inr res" for u w res
  proof -
    note k = mem_listing_keys [OF that]
    let ?m = "case asks_max u of None \<Rightarrow> length (listed_keys u w) | Some n \<Rightarrow> n"
    have t: "mem_page u w = take ?m (listed_keys u w)" by (simp add: mem_page_def split: option.split)
    have e: "lb_Contents res = [] \<longrightarrow> listed_keys u w = [] \<or> asks_max u = Some 0" using k t by (auto split: option.splits)
    have "lo_Key c \<noteq> []" if "c \<in> set (lb_Contents res)" for c
    proof -
      have "lo_Key c \<in> set (listed_keys u w)" using that k t by (metis image_eqI in_set_takeD list.set_map)
      then show ?thesis using listed_keys_spec [of u w] by (metis (mono_tags, lifting) mem_Collect_eq not_less_Nil)
    qed
    then show ?thesis using listed_keys_spec [of u w] k t e
      by (intro conjI exI [of _ "listed_keys u w"] exI [of _ ?m]) (auto split: option.split)
  qed
  moreover have "h_Do (mem_http s) r w = (Inr (answer 200 [] (mem_listing (rq_URL r) w)), w)"
    if "rq_Method r = ''GET''" "at_bucket s (rq_URL r)" "query_param (rq_URL r) ''list-type'' = Some ''2''" for r w
    using that by (simp add: mem_http_def mem_Do_def)
  moreover have "h_xmlList (mem_http s) = mem_xmlList" by (simp add: mem_http_def)
  ultimately show ?thesis unfolding serves_lists_def by (auto simp: answer_def)
qed

lemma mem_serves: "s3_service (mem_http s) s fmlookup hex_tag (\<lambda>_. True) (\<lambda>k. k \<noteq> [])"
proof -
  have d: "h_Do (mem_http s) = mem_Do s" by (simp add: mem_http_def)
  have a: "rs_Status (answer c hs b) = c" "rs_Body (answer c hs b) = b" "rs_BodyErr (answer c hs b) = None"
      "resp_header (answer c [] b) k = []" "resp_header (answer c ((k', v) # hs) b) k = (if k = k' then v else resp_header (answer c hs b) k)"
    for c hs b k k' v by (simp_all add: answer_def resp_header_def)
  have t: "hex_tag (fmupd k d w) k = hex_string d" "k' \<noteq> k \<Longrightarrow> hex_tag (fmupd k d w) k' = hex_tag w k'"
      "k' \<noteq> k \<Longrightarrow> hex_tag (fmdrop k w) k' = hex_tag w k'" for k k' d w by (simp_all add: hex_tag_def)
  have "serves_reads (mem_http s) s fmlookup hex_tag (\<lambda>_. True) (\<lambda>k. k \<noteq> [])"
    unfolding serves_reads_def d by (auto simp: mem_Do_def a split: option.splits if_splits dest: at_bucket_no_key)
  moreover have "serves_writes (mem_http s) s fmlookup hex_tag (\<lambda>_. True) (\<lambda>k. k \<noteq> [])"
    unfolding serves_writes_def d
    by (auto simp: mem_Do_def a t conditions_hold_def quoted_def split: option.splits if_splits)
  moreover note mem_serves_lists
  moreover have "CHR 0x22 \<notin> set (hex_tag w k)" for w k by (auto simp: hex_tag_def hex_no_quote split: option.split)
  ultimately show ?thesis by (simp add: s3_service_def)
qed

definition demo_s3 :: s3 where
  "demo_s3 = \<lparr>s3_endpoint = \<lparr>u_Scheme = ''http'', u_Host = ''localhost:9000'', u_Path = [], u_RawPath = [], u_RawQuery = []\<rparr>,
     s3_bucket = ''b'', s3_region = ''us-east-1'',
     s3_creds = \<lparr>cr_AccessKeyID = ''id'', cr_SecretAccessKey = ''secret'', cr_SessionToken = []\<rparr>,
     s3_pathStyle = True, s3_maxRetries = 3\<rparr>"

theorem s3_store_contract_witness:
  "object_store (S3_ops (mem_http demo_s3) demo_s3) fmlookup hex_tag (\<lambda>_. True) (\<lambda>k. k \<noteq> []) \<and>
   (\<exists>sent. PutIfMatch (S3_ops (logged (mem_http demo_s3)) demo_s3) ''root'' [1] [] (fmempty, []) =
      (fst (PutIfMatch (S3_ops (mem_http demo_s3) demo_s3) ''root'' [1] [] fmempty),
       (snd (PutIfMatch (S3_ops (mem_http demo_s3) demo_s3) ''root'' [1] [] fmempty), sent)) \<and> length sent \<le> 1)"
  using s3_store_contract [OF mem_serves, of demo_s3] by (metis append_Nil surjective_pairing)

interpretation s3_mem: object_store "S3_ops (mem_http demo_s3) demo_s3" fmlookup hex_tag "\<lambda>_. True" "\<lambda>k. k \<noteq> []"
  by (rule s3_is_store [OF mem_serves])

end
