(* ===== verification/CliRun.thy ===== *)
theory CliRun
  imports Cli S3Contract
begin

text \<open>Concrete runs of the command over the S3 service in memory: what the theorems on \<open>-check\<close> and on the flags assume can hold.\<close>

definition demo_host :: "mem_bucket host" where
  "demo_host =
     \<lparr>ho_uid = 1000, ho_gid = 1000, ho_creds = s3_creds demo_s3,
      ho_open = (\<lambda>_ w. (Inr (S3_ops (mem_http demo_s3) demo_s3), w)), ho_now = 7, ho_sha = hex_string,
      ho_codec = \<lparr>json_snapshot = \<lambda>_. Inl EPanic, gzip = Inr, gunzip = Inr, unjson_snapshot = \<lambda>_. Inl EPanic,
                  json_root = \<lambda>_. Inl EPanic, unjson_root = \<lambda>_. Inl EPanic\<rparr>,
      ho_clk = \<lambda>_ _. 0, ho_writer = ''host:1'', ho_verf = replicate 8 0, ho_nonce = \<lambda>_. replicate 6 0,
      ho_serve = \<lambda>E N w. (None, N, w)\<rparr>"

definition demo_flags :: flags where
  "demo_flags =
     \<lparr>fl_bucket = ''s3://b'', fl_endpoint = ''http://localhost:9000'', fl_region = ''us-east-1'', fl_pathStyle = True,
      fl_readOnly = False, fl_check = True, fl_chunkKiB = 1024, fl_cacheMiB = 256, fl_interval = 5 * 10 ^ 9,
      fl_retention = 10, fl_maxDirty = 256, fl_verifyChunks = True, fl_allowUnconditional = False,
      fl_uid = - 1, fl_gid = - 1\<rparr>"

abbreviation demo_bucket :: "mem_bucket store_ops" where
  "demo_bucket \<equiv> S3_ops (mem_http demo_s3) demo_s3"

lemma host_sel:
  "ho_uid demo_host = 1000" "ho_gid demo_host = 1000" "fl_chunkKiB demo_flags = 1024" "fl_uid demo_flags = - 1" "fl_gid demo_flags = - 1"
  by (simp_all add: demo_host_def demo_flags_def)

theorem flags_are_exact_witness:
  "(\<exists>e. run demo_host (demo_flags\<lparr>fl_chunkKiB := 4194304\<rparr>) fmempty = ([e], None, fmempty)) \<and>
   (\<exists>mk. run_config demo_host demo_flags = Inr mk \<and> cf_ChunkSize (mk demo_bucket) = 1048576 \<and> cf_OwnerUID (mk demo_bucket) = 1000)"
proof
  have "\<not> flags_accepted demo_host (demo_flags\<lparr>fl_chunkKiB := 4194304\<rparr>)" by (simp add: flags_accepted_def)
  then show "\<exists>e. run demo_host (demo_flags\<lparr>fl_chunkKiB := 4194304\<rparr>) fmempty = ([e], None, fmempty)"
    using flags_are_exact [of demo_host "demo_flags\<lparr>fl_chunkKiB := 4194304\<rparr>" fmempty demo_bucket] by blast
  have "flags_accepted demo_host demo_flags"
    by (simp add: flags_accepted_def demo_flags_def id_accepted_def demo_host_def)
  then obtain mk where mk: "run_config demo_host demo_flags = Inr mk" "int (cf_ChunkSize (mk demo_bucket)) = 1024 * 1024"
      "uint (cf_OwnerUID (mk demo_bucket)) = - 1 \<or> cf_OwnerUID (mk demo_bucket) = 1000"
    using flags_are_exact [of demo_host demo_flags fmempty demo_bucket] unfolding Let_def host_sel by blast
  moreover have "uint (cf_OwnerUID (mk demo_bucket)) \<noteq> - 1" using unsigned_greater_eq [of "cf_OwnerUID (mk demo_bucket)", where ?'a = int] by linarith
  ultimately show "\<exists>mk. run_config demo_host demo_flags = Inr mk \<and> cf_ChunkSize (mk demo_bucket) = 1048576 \<and>
      cf_OwnerUID (mk demo_bucket) = 1000" by (intro exI [of _ mk]) simp
qed

theorem check_is_harmless_witness:
  "\<exists>v e w'. runCheck (S3_ops (mem_http demo_s3) demo_s3) False 7 fmempty = ((v, e), w') \<and>
     (\<forall>k. \<not> starts_with (check_prefix 7) k \<longrightarrow> fmlookup w' k = None)"
proof -
  obtain v e w' where r: "runCheck (S3_ops (mem_http demo_s3) demo_s3) False 7 fmempty = ((v, e), w')"
    by (metis surj_pair)
  have "check_prefix 7 @ q \<noteq> []" for q by (simp add: check_prefix_def)
  from check_is_harmless [OF s3_mem.object_store_axioms TrueI this r] show ?thesis using r by auto
qed

end
