(* ===== verification/CallInv.thy ===== *)
theory CallInv
  imports DurableSpec
begin

text \<open>
  Every call on a mount keeps the whole of what the commit protocol relies on. \<open>NamespaceSpec\<close> and
  \<open>FileSpec\<close> show that the calls keep the tree and the data; here are the rest of the mount and the
  bucket, so that the invariant \<open>safe_state\<close> holds between any two calls, and with it \<open>caught_up\<close>: a
  mount with nothing to commit is the one the bucket holds.
\<close>

section \<open>The budget's account\<close>

lemma budget_ok_over:
  assumes "finite D" "fset (fmdom (fopen N)) \<subseteq> D"
  shows "budget_ok N \<longleftrightarrow> budget_used N = (\<Sum>i \<in> D. of_bytes (open_of N i))"
proof -
  have "of_bytes (open_of N i) = 0" if "i \<in> D - fset (fmdom (fopen N))" for i
    using that by (auto simp: open_of_def new_openFile_def fmlookup_dom_iff split: option.split)
  then have "(\<Sum>i \<in> D. of_bytes (open_of N i)) = (\<Sum>i \<in> fset (fmdom (fopen N)). of_bytes (open_of N i))"
    by (intro sum.mono_neutral_right [OF assms]) blast
  then show ?thesis by (simp add: budget_ok_def)
qed

text \<open>A call that changes the buffers of one file and charges the difference.\<close>

lemma budget_ok_change:
  assumes "budget_ok N" "\<And>j. j \<noteq> i \<Longrightarrow> open_of N' j = open_of N j"
    and "budget_used N' - budget_used N = of_bytes (open_of N' i) - of_bytes (open_of N i)"
  shows "budget_ok N'"
proof -
  let ?D = "insert i (fset (fmdom (fopen N)) \<union> fset (fmdom (fopen N')))"
  have u: "budget_used N = (\<Sum>j \<in> ?D. of_bytes (open_of N j))" using assms(1) budget_ok_over [of ?D N] by auto
  have "(\<Sum>j \<in> ?D. of_bytes (open_of N' j)) - (\<Sum>j \<in> ?D. of_bytes (open_of N j)) = of_bytes (open_of N' i) - of_bytes (open_of N i)"
    by (subst (1 2) sum.remove [of _ i]) (auto simp: assms(2) intro!: sum.cong)
  then have "budget_used N' = (\<Sum>j \<in> ?D. of_bytes (open_of N' j))" using u assms(3) by simp
  then show ?thesis using budget_ok_over [of ?D N'] by auto
qed

lemma budget_ok_drop: "budget_ok N \<Longrightarrow> budget_ok (drop_inode i N)"
proof (rule budget_ok_change [where i = i])
  show "budget_ok N \<Longrightarrow> budget_ok N" .
  show "open_of (drop_inode i N) j = open_of N j" if "j \<noteq> i" for j using that by (simp add: open_of_def)
  show "budget_used (drop_inode i N) - budget_used N = of_bytes (open_of (drop_inode i N) i) - of_bytes (open_of N i)"
    by (simp add: open_of_def new_openFile_def split: option.split)
qed

lemma budget_ok_cong: "fopen N' = fopen N \<Longrightarrow> budget_used N' = budget_used N \<Longrightarrow> budget_ok N' = budget_ok N"
  by (simp add: budget_ok_def open_of_def)

section \<open>The namespace calls and the data\<close>

text \<open>
  What a namespace call that adds no inode leaves of the data: an inode that stays keeps its contents and
  its buffers, and gains no name but those in \<open>S\<close>.
\<close>

definition data_kept :: "string set \<Rightarrow> fs \<Rightarrow> fs \<Rightarrow> bool" where
  "data_kept S N M \<longleftrightarrow>
     chunkSize M = chunkSize N \<and> maxFileSize M = maxFileSize N \<and> cache M = cache N \<and> skipVerify M = skipVerify N \<and>
     knownChunks M = knownChunks N \<and> writerID M = writerID N \<and> (budget_ok N \<longrightarrow> budget_ok M) \<and>
     (\<forall>j m. fmlookup (inodes M) j = Some m \<longrightarrow> fmlookup (fopen M) j = fmlookup (fopen N) j \<and>
        (\<exists>n. fmlookup (inodes N) j = Some n \<and> ID m = ID n \<and> Size m = Size n \<and> Chunks m = Chunks n \<and> Target m = Target n \<and>
             fset (fmdom (entries m)) \<subseteq> fset (fmdom (entries n)) \<union> S))"

lemma data_kept_refl [simp]: "data_kept S N N"
  by (auto simp: data_kept_def)

lemma writerID_sel [simp]:
  "writerID (upd_inode i g M) = writerID M" "writerID (markDirty M) = writerID M" "writerID (put_open i x M) = writerID M"
  "writerID (budget_release k M) = writerID M"
  by (simp_all add: upd_inode_def markDirty_def put_open_def budget_release_def split: option.split)

lemma put_open_rest [simp]:
  "nextIno (put_open i x M) = nextIno M" "perm (put_open i x M) = perm M" "knownChunks (put_open i x M) = knownChunks M"
  "dirty (put_open i x M) = dirty M"
  by (simp_all add: put_open_def)

lemma entries_marks [simp]:
  "entries (touchM t n) = entries n" "entries (touchC t n) = entries n" "entries (n\<lparr>Parent := p\<rparr>) = entries n"
  "entries (n\<lparr>NLink := l\<rparr>) = entries n"
  by (simp_all add: entries_def touchM_def touchC_def)

lemma data_kept_upd [intro]:
  assumes "data_kept S N M"
    and "\<And>n. ID (g n) = ID n \<and> Size (g n) = Size n \<and> Chunks (g n) = Chunks n \<and> Target (g n) = Target n \<and>
           fset (fmdom (entries (g n))) \<subseteq> fset (fmdom (entries n)) \<union> S"
  shows "data_kept S N (upd_inode i g M)"
proof -
  have "\<exists>n. fmlookup (inodes N) j = Some n \<and> ID m = ID n \<and> Size m = Size n \<and> Chunks m = Chunks n \<and> Target m = Target n \<and>
      fset (fmdom (entries m)) \<subseteq> fset (fmdom (entries n)) \<union> S"
    if m: "fmlookup (inodes (upd_inode i g M)) j = Some m" for j m
  proof -
    obtain k where k: "fmlookup (inodes M) j = Some k" "m = (if j = i then g k else k)"
      using m by (auto simp: fmlookup_upd_inode split: if_splits)
    then obtain n where "fmlookup (inodes N) j = Some n" "ID k = ID n" "Size k = Size n" "Chunks k = Chunks n" "Target k = Target n"
        "fset (fmdom (entries k)) \<subseteq> fset (fmdom (entries n)) \<union> S"
      using assms(1) unfolding data_kept_def by blast
    then show ?thesis using k(2) assms(2) [of k] by (intro exI [of _ n]) (auto split: if_splits)
  qed
  moreover have "fmlookup (fopen M) j = fmlookup (fopen N) j" if "fmlookup (inodes (upd_inode i g M)) j = Some m" for j m
    using that assms(1) by (auto simp: fmlookup_upd_inode data_kept_def split: if_splits)
  moreover have "budget_ok (upd_inode i g M) = budget_ok M" by (rule budget_ok_cong) simp_all
  ultimately show ?thesis using assms(1) unfolding data_kept_def upd_inode_sel writerID_sel by blast
qed

lemma drop_inode_frame [simp]:
  "chunkSize (drop_inode i N) = chunkSize N" "maxFileSize (drop_inode i N) = maxFileSize N" "cache (drop_inode i N) = cache N"
  "skipVerify (drop_inode i N) = skipVerify N" "knownChunks (drop_inode i N) = knownChunks N"
  "writerID (drop_inode i N) = writerID N"
  by (simp_all add: drop_inode_def dropOpen_def Let_def budget_release_def split: option.splits)

lemma data_kept_drop [intro]: "data_kept S N M \<Longrightarrow> data_kept S N (drop_inode i M)"
  using budget_ok_drop [of M i] by (auto simp: data_kept_def)

lemma data_kept_mark [intro]: "data_kept S N M \<Longrightarrow> data_kept S N (markDirty M)"
  using budget_ok_cong [of "markDirty M" M] by (auto simp: data_kept_def)

lemma data_kept_relink [intro]: "data_kept S N M \<Longrightarrow> data_kept S N (snd (relink a b t M))"
  unfolding relink_def by (auto simp: Let_def split: option.splits intro!: data_kept_upd)

lemma entry_upd_data [simp]:
  "ID (set_entry nm i n) = ID n" "Size (set_entry nm i n) = Size n" "Chunks (set_entry nm i n) = Chunks n"
  "Target (set_entry nm i n) = Target n" "ID (del_entry nm n) = ID n" "Size (del_entry nm n) = Size n"
  "Chunks (del_entry nm n) = Chunks n" "Target (del_entry nm n) = Target n"
  "fset (fmdom (entries (set_entry nm i n))) \<subseteq> insert nm (fset (fmdom (entries n)))"
  "fset (fmdom (entries (del_entry nm n))) \<subseteq> fset (fmdom (entries n))"
  by (auto simp: set_entry_def del_entry_def entries_def split: option.splits)

lemma data_kept_do_rename [intro]:
  "data_kept S N M \<Longrightarrow> nm' \<in> S \<Longrightarrow> data_kept S N (snd (do_rename clk a nm b nm' mv M))"
  using entry_upd_data(9,10) unfolding do_rename_def Let_def
  by (auto intro!: data_kept_upd data_kept_mark data_kept_relink simp: subset_iff) (auto simp: touchC_def touchM_def)

lemma data_kept_evicted: "data_kept S N (evicted N vi v d)"
  using data_kept_relink [OF data_kept_refl, of S N "(vi, v)" d None]
  unfolding evicted_def by (auto simp: Let_def split: prod.splits)

lemma data_kept_removed: "data_kept S N (removed clk N di d nm i n)"
proof -
  have "data_kept S N (upd_inode di (touchM (clk 0) \<circ> del_entry nm) N)"
    using entry_upd_data(10) by (intro data_kept_upd) (auto simp: subset_iff touchM_def entries_def)
  from data_kept_relink [OF this, of "(i, n)" "(di, d)" None] show ?thesis
    unfolding removed_def by (auto simp: Let_def intro!: data_kept_mark data_kept_drop split: prod.splits)
qed

lemma unlink_keeps:
  assumes "unlink clk N c dir nm v = (r, M)"
  shows "data_kept S N M \<and> (M = N \<or> dirty M)"
  using assms
proof (cases rule: unlink_cases)
  case (removed di d i n)
  have "dirty M" unfolding removed(9) by (simp add: removed_def Let_def markDirty_def split: prod.split)
  then show ?thesis using data_kept_removed removed(9) by blast
qed simp

lemma do_rename_dirty: "do_rename clk a nm b nm' mv M = (Inr (), M') \<Longrightarrow> dirty M'"
  by (auto simp: do_rename_def Let_def markDirty_def split: if_splits)

lemma Rename_keeps:
  assumes "ns_wf N" "Rename clk N c d nm d' nm' = (r, M)" "nm' \<in> S"
  shows "data_kept S N M \<and> (M = N \<or> dirty M)"
proof -
  have kept: "data_kept S N M"
    using Rename_shape [of clk N c d nm d' nm'] data_kept_evicted data_kept_do_rename [OF _ assms(3)] assms(2) data_kept_refl
    by (elim disjE exE conjE) (metis snd_conv)+
  have "M = N \<or> dirty M"
  proof (cases r)
    case (Inl e)
    then show ?thesis using Rename_good [OF assms(1), of clk c d nm d' nm'] assms(2) by (simp add: good_step_def)
  next
    case (Inr u)
    then have "Rename clk N c d nm d' nm' = (Inr (), M)" using assms(2) by simp
    with Rename_shape [of clk N c d nm d' nm'] show ?thesis
      by (elim disjE exE conjE) (auto dest: do_rename_dirty)
  qed
  then show ?thesis using kept by blast
qed

lemma file_ok_cong: "Chunks m = Chunks n \<Longrightarrow> Size m = Size n \<Longrightarrow> file_ok sha cs m x = file_ok sha cs n x"
  by (simp add: file_ok_def tail_clean_def)

lemma open_of_lookup: "fmlookup (fopen M) j = fmlookup (fopen N) j \<Longrightarrow> open_of M j = open_of N j"
  by (simp add: open_of_def)

lemma ns_wf_entries: "ns_wf N \<Longrightarrow> fmlookup (inodes N) i = Some n \<Longrightarrow> isDir n \<longleftrightarrow> Entries n \<noteq> None"
  by (auto simp: ns_wf_def inode_ok_def)

lemma data_kept_safe:
  assumes "data_kept S N M" "ns_wf M" "\<And>nm. nm \<in> S \<Longrightarrow> plain_string nm" "safe_state kok cd sha obj gd N w"
  shows "safe_state kok cd sha obj gd M w"
proof -
  have s: "gd w" "mount_ok sha N" "stored_ok sha (obj w) N" "plain_fs N" "budget_ok N" "bucket_ok kok cd sha (obj w)"
    using assms(4) by (auto simp: safe_state_def)
  have fr: "chunkSize M = chunkSize N" "maxFileSize M = maxFileSize N" "cache M = cache N" "skipVerify M = skipVerify N"
      "knownChunks M = knownChunks N" "writerID M = writerID N" "budget_ok M"
    using assms(1) s(5) by (auto simp: data_kept_def)
  have each: "\<exists>n. fmlookup (inodes N) j = Some n \<and> ID m = ID n \<and> Size m = Size n \<and> Chunks m = Chunks n \<and> Target m = Target n \<and>
      fset (fmdom (entries m)) \<subseteq> fset (fmdom (entries n)) \<union> S \<and> open_of M j = open_of N j"
    if "fmlookup (inodes M) j = Some m" for j m
    using that assms(1) open_of_lookup unfolding data_kept_def by metis
  have "ID m = j \<and> file_ok sha (chunkSize N) m (open_of M j)" if m: "fmlookup (inodes M) j = Some m" for j m
    using each [OF m] mount_okD(6,7) [OF s(2)] file_ok_cong by metis
  then have "mount_ok sha M" using s(2) fr ns_wfD(7) [OF assms(2)] by (simp add: mount_ok_def)
  moreover have "refs_there (obj w) (Chunks m)" if m: "fmlookup (inodes M) j = Some m" for j m
    using each [OF m] s(3) by (auto simp: stored_ok_def files_there_def)
  then have "stored_ok sha (obj w) M" using s(3) fr by (simp add: stored_ok_def files_there_def known_there_def)
  moreover have "plain_string (Target m) \<and> (\<forall>nm. nm |\<in>| fmdom (entries m) \<longrightarrow> plain_string nm)"
    if m: "fmlookup (inodes M) j = Some m" for j m
  proof -
    obtain n where n: "fmlookup (inodes N) j = Some n" "Target m = Target n"
        "fset (fmdom (entries m)) \<subseteq> fset (fmdom (entries n)) \<union> S"
      using each [OF m] by blast
    then have "plain_string (Target n)" "\<And>nm. nm |\<in>| fmdom (entries n) \<Longrightarrow> plain_string nm"
      using s(4) by (auto simp: plain_fs_def)
    then show ?thesis using n(2,3) assms(3) by (metis UnE subsetD)
  qed
  then have "plain_fs M" using s(4) fr(6) ns_wf_entries [OF assms(2)] by (simp add: plain_fs_def)
  ultimately show ?thesis using s(1,6) assms(2) fr(7) by (simp add: safe_state_def)
qed

text \<open>A creation: the new inode is empty, and only its directory gains a name.\<close>

lemma addEntry_frame:
  "chunkSize (snd (addEntry clk N c di d name t sa tgt)) = chunkSize N \<and>
   maxFileSize (snd (addEntry clk N c di d name t sa tgt)) = maxFileSize N \<and>
   cache (snd (addEntry clk N c di d name t sa tgt)) = cache N \<and>
   skipVerify (snd (addEntry clk N c di d name t sa tgt)) = skipVerify N \<and>
   knownChunks (snd (addEntry clk N c di d name t sa tgt)) = knownChunks N \<and>
   writerID (snd (addEntry clk N c di d name t sa tgt)) = writerID N \<and>
   budget_used (snd (addEntry clk N c di d name t sa tgt)) = budget_used N"
  by (simp add: addEntry_def allocInode_def Let_def)

lemma named_dir_data [simp]:
  "Size (named_dir t nm i dir d) = Size d" "Chunks (named_dir t nm i dir d) = Chunks d" "Target (named_dir t nm i dir d) = Target d"
  by (simp_all add: named_dir_def set_entry_def touchM_def Let_def)

lemma fresh_inode_data:
  "Size (fresh_inode clk N c d t sa tgt) = (if t = TypeLnk then length tgt else 0)"
  "Target (fresh_inode clk N c d t sa tgt) = (if t = TypeLnk then tgt else [])"
  by (simp_all add: fresh_inode_def entry_attrs_def new_inode_def Let_def split: option.splits)

lemma addEntry_safe:
  assumes "ns_wf N" "nextIno N \<noteq> - 1" "fmlookup (inodes N) di = Some d" "isDir d" "fmlookup (entries d) name = None"
    and "validName name = None" "plain_string name" "plain_string tgt" "length tgt < 2 ^ 64" "safe_state kok cd sha obj gd N w"
  shows "safe_state kok cd sha obj gd (snd (addEntry clk N c di d name t sa tgt)) w"
proof -
  let ?M = "snd (addEntry clk N c di d name t sa tgt)" and ?n = "fresh_inode clk N c d t sa tgt"
  have free: "fmlookup (inodes N) (nextIno N) = None" using assms(1) by (rule nextIno_free)
  then have ne: "di \<noteq> nextIno N" using assms(3) by auto
  note en = dir_has_entries [OF assms(1,3,4)]
  note A = addEntry_ok [OF assms(3) ne en, of clk c name t sa tgt] and fr = addEntry_frame [of clk N c di d name t sa tgt]
  have wf: "ns_wf ?M" using addEntry_wf [OF assms(1-6)] .
  have s: "gd w" "mount_ok sha N" "stored_ok sha (obj w) N" "plain_fs N" "budget_ok N" "bucket_ok kok cd sha (obj w)"
    using assms(10) by (auto simp: safe_state_def)
  note M = mount_okD [OF s(2)]
  have op: "open_of ?M = open_of N" using A(4) by (rule open_of_cong)
  have o: "open_of N (nextIno N) = new_openFile"
    using free ns_wfD(7) [OF assms(1)]
    by (cases "fmlookup (fopen N) (nextIno N)") (auto simp: open_of_def dest!: fmdomI fmdom_notI)
  have fresh: "file_ok sha (chunkSize N) ?n new_openFile"
    using assms(9) by (simp add: file_ok_def bufs_ok_def apart_def trims_ok_def tail_clean_def fresh_inode_data fbyte_def eff_def
        new_openFile_def byte_at_def)
  have dir: "file_ok sha (chunkSize N) (named_dir (clk 1) name (nextIno N) (t = TypeDir) d) (open_of N di)"
    using M(7) [OF assms(3)] file_ok_cong [of "named_dir (clk 1) name (nextIno N) (t = TypeDir) d" d] by simp
  have "ID m = j \<and> file_ok sha (chunkSize N) m (open_of N j)" if "fmlookup (inodes ?M) j = Some m" for j m
    using that fresh dir o M(6,7) M(6) [OF assms(3)] unfolding A(2) by (auto split: if_splits)
  then have "mount_ok sha ?M" using s(2) fr ns_wfD(7) [OF wf] by (simp add: mount_ok_def op)
  moreover have "refs_there (obj w) (Chunks m)" if "fmlookup (inodes ?M) j = Some m" for j m
    using that s(3) assms(3) unfolding A(2) by (auto simp: stored_ok_def files_there_def split: if_splits)
  then have "stored_ok sha (obj w) ?M" using s(3) fr by (simp add: stored_ok_def files_there_def known_there_def)
  moreover have "plain_string (Target m) \<and> (\<forall>nm. nm |\<in>| fmdom (entries m) \<longrightarrow> plain_string nm)"
    if "fmlookup (inodes ?M) j = Some m" for j m
  proof -
    have "plain_string []" by (simp add: plain_string_def)
    moreover have "entries (named_dir (clk 1) name (nextIno N) (t = TypeDir) d) = fmupd name (nextIno N) (entries d)"
      using en by (auto simp: entries_def)
    moreover have "fmdom (entries ?n) = {||}" by (simp add: entries_def)
    ultimately show ?thesis
      using that assms(3,7,8) s(4) unfolding A(2) by (auto simp: plain_fs_def fresh_inode_data split: if_splits)
  qed
  then have "plain_fs ?M" using s(4) fr ns_wf_entries [OF wf] by (simp add: plain_fs_def)
  moreover have "budget_ok ?M" using s(5) budget_ok_cong [OF A(4)] fr by simp
  ultimately show ?thesis using s(1,6) wf by (simp add: safe_state_def)
qed

text \<open>The arguments a namespace call may carry: its new names and its target are plain.\<close>

fun plain_call :: "ns_op \<Rightarrow> bool" where
  "plain_call (NCreate dir nm sa excl) = plain_string nm"
| "plain_call (NMkdir dir nm sa) = plain_string nm"
| "plain_call (NSymlink dir nm tgt sa) = (plain_string nm \<and> plain_string tgt \<and> length tgt < 2 ^ 64)"
| "plain_call (NRemove dir nm) = True"
| "plain_call (NRmdir dir nm) = True"
| "plain_call (NRename d nm d' nm') = plain_string nm'"

lemma createEntry_safe:
  assumes "createEntry clk N c dir name t sa tgt excl = (r, M)" "nextIno N \<noteq> - 1"
    and "plain_string name" "plain_string tgt" "length tgt < 2 ^ 64" "safe_state kok cd sha obj gd N w"
  shows "safe_state kok cd sha obj gd M w \<and> (M = N \<or> dirty M)"
  using assms(1)
proof (cases rule: createEntry_cases)
  case (added di d)
  have wf: "ns_wf N" using assms(6) by (simp add: safe_state_def)
  have d: "fmlookup (inodes N) di = Some d" using added(1) by (rule resolve_Inr_lookup)
  have dir: "isDir d" using unix_dir_ops(1) [OF ns_wfD(8) [OF wf] added(4)] .
  have ne: "di \<noteq> nextIno N" using d nextIno_free [OF wf] by auto
  have M: "M = snd (addEntry clk N c di d name t sa tgt)" using added(6) by (metis snd_conv)
  show ?thesis
    using addEntry_safe [OF wf assms(2) d dir added(2,3) assms(3-6)] addEntry_ok(7) [OF d ne dir_has_entries [OF wf d dir]]
    unfolding M by blast
qed (use assms(6) in auto)

lemma ns_exec_safe:
  assumes "ns_exec clk c k N = (r, M)" "nextIno N \<noteq> - 1" "plain_call k" "safe_state kok cd sha obj gd N w"
  shows "safe_state kok cd sha obj gd M w \<and> (M = N \<or> dirty M)"
proof -
  have wf: "ns_wf N" using assms(4) by (simp add: safe_state_def)
  have wfM: "ns_wf M" using ns_exec_good [OF wf assms(2), of clk c k] assms(1) by (simp add: good_step_def)
  have e: "plain_string []" "length ([] :: string) < 2 ^ 64" by (simp_all add: plain_string_def)
  have mk: ?thesis if "createEntry clk N c dir nm t sa tgt excl = (q, M)" "plain_string nm" "plain_string tgt" "length tgt < 2 ^ 64"
    for dir nm t sa tgt excl q
    using createEntry_safe [OF that(1) assms(2) that(2-4) assms(4)] .
  have rm: ?thesis if "unlink clk N c dir nm v = (q, M)" for dir nm v q
    using unlink_keeps [OF that] data_kept_safe [OF _ wfM _ assms(4), of "{}"] by blast
  have pr: "\<exists>q'. q = (q', snd q)" for q :: "(err + handle \<times> attr) \<times> fs" by (metis surjective_pairing)
  show ?thesis
  proof (cases k)
    case (NCreate dir nm sa excl)
    then have M: "M = snd (Create clk N c dir nm sa excl)" using assms(1) by (metis drop_answer_sel(2) ns_exec.simps(1) snd_conv)
    show ?thesis
      using mk [of dir nm] assms(3,4) NCreate e pr [of "Create clk N c dir nm sa excl"]
      unfolding M Create_def by (auto split: if_splits)
  next
    case (NMkdir dir nm sa)
    then have M: "M = snd (Mkdir clk N c dir nm sa)" using assms(1) by (metis drop_answer_sel(2) ns_exec.simps(2) snd_conv)
    show ?thesis using mk [of dir nm] assms(3) NMkdir e pr [of "Mkdir clk N c dir nm sa"] unfolding M Mkdir_def by auto
  next
    case (NSymlink dir nm tgt sa)
    then have M: "M = snd (Symlink clk N c dir nm tgt sa)" using assms(1) by (metis drop_answer_sel(2) ns_exec.simps(3) snd_conv)
    show ?thesis
      using mk [of dir nm _ _ tgt] assms(3,4) NSymlink pr [of "Symlink clk N c dir nm tgt sa"]
      unfolding M Symlink_def by (auto split: if_splits)
  next
    case (NRename d nm d' nm')
    then show ?thesis
      using Rename_keeps [OF wf, of clk c d nm d' nm' r M "{nm'}"] data_kept_safe [OF _ wfM _ assms(4), of "{nm'}"] assms(1,3) by auto
  qed (use rm assms(1) in \<open>auto simp: Remove_def Rmdir_def\<close>)
qed

section \<open>The calls on one file\<close>

text \<open>
  A call on the data of inode \<open>i\<close>: every inode keeps its place in the tree and names no chunk it did not
  name, only the buffers of \<open>i\<close> change and the budget is charged for them, and a change of an inode marks the
  mount.
\<close>

definition file_call :: "u64 \<Rightarrow> fs \<Rightarrow> fs \<Rightarrow> bool" where
  "file_call i N N' \<longleftrightarrow>
     nextIno N' = nextIno N \<and> perm N' = perm N \<and> writerID N' = writerID N \<and> chunkSize N' = chunkSize N \<and>
     (\<forall>j. rel_option same_place (fmlookup (inodes N) j) (fmlookup (inodes N') j)) \<and>
     (\<forall>j n n'. fmlookup (inodes N) j = Some n \<longrightarrow> fmlookup (inodes N') j = Some n' \<longrightarrow>
        (\<forall>ref \<in> set (Chunks n'). isHole ref \<or> ref \<in> set (Chunks n))) \<and>
     (\<forall>j. j \<noteq> i \<longrightarrow> open_of N' j = open_of N j) \<and>
     budget_used N' - budget_used N = of_bytes (open_of N' i) - of_bytes (open_of N i) \<and>
     (dirty N \<longrightarrow> dirty N') \<and> (inodes N' = inodes N \<or> dirty N')"

lemma same_place_refl [simp]: "same_place n n"
  by (simp add: same_place_def)

lemma file_callI:
  assumes "fmlookup (inodes N) i = Some n" "\<And>j. fmlookup (inodes N') j = (if j = i then Some n' else fmlookup (inodes N) j)"
    and "same_place n n'" "\<And>ref. ref \<in> set (Chunks n') \<Longrightarrow> isHole ref \<or> ref \<in> set (Chunks n)"
    and "\<And>j. j \<noteq> i \<Longrightarrow> open_of N' j = open_of N j"
    and "budget_used N' - budget_used N = of_bytes (open_of N' i) - of_bytes (open_of N i)"
    and "nextIno N' = nextIno N" "perm N' = perm N" "writerID N' = writerID N" "chunkSize N' = chunkSize N"
    and "dirty N \<Longrightarrow> dirty N'" "n' = n \<or> dirty N'"
  shows "file_call i N N'"
proof -
  have "rel_option same_place (fmlookup (inodes N) j) (fmlookup (inodes N') j)" for j
    using assms(1,3) unfolding assms(2) by (cases "fmlookup (inodes N) j") auto
  moreover have "inodes N' = inodes N \<or> dirty N'" using assms(1,2,12) by (metis fmap_ext)
  ultimately show ?thesis using assms unfolding file_call_def by (auto split: if_splits)
qed

lemma file_call_same:
  assumes "inodes N' = inodes N" "open_of N' = open_of N" "budget_used N' = budget_used N"
    and "nextIno N' = nextIno N" "perm N' = perm N" "writerID N' = writerID N" "chunkSize N' = chunkSize N" "dirty N' = dirty N"
  shows "file_call i N N'"
  using assms by (auto simp: file_call_def intro!: option.rel_refl)

lemma file_call_safe:
  assumes "file_call i N N'" "mount_ok sha N'" "known_there (obj w') N'" "gd w'" "obj w' = obj w" "safe_state kok cd sha obj gd N w"
  shows "safe_state kok cd sha obj gd N' w'"
proof -
  have s: "stored_ok sha (obj w) N" "plain_fs N" "ns_wf N" "budget_ok N" "bucket_ok kok cd sha (obj w)"
    using assms(6) by (auto simp: safe_state_def)
  have f: "\<And>j. rel_option same_place (fmlookup (inodes N) j) (fmlookup (inodes N') j)" "nextIno N' = nextIno N" "perm N' = perm N"
      "writerID N' = writerID N"
      "\<And>j n n'. fmlookup (inodes N) j = Some n \<Longrightarrow> fmlookup (inodes N') j = Some n' \<Longrightarrow>
         (\<forall>ref \<in> set (Chunks n'). isHole ref \<or> ref \<in> set (Chunks n))"
      "\<And>j. j \<noteq> i \<Longrightarrow> open_of N' j = open_of N j"
      "budget_used N' - budget_used N = of_bytes (open_of N' i) - of_bytes (open_of N i)"
    using assms(1) unfolding file_call_def by blast+
  have "refs_there (obj w) (Chunks n')" if n': "fmlookup (inodes N') j = Some n'" for j n'
  proof -
    obtain n where n: "fmlookup (inodes N) j = Some n" using n' same_place_look [OF f(1)] by metis
    then have "refs_there (obj w) (Chunks n)" using s(1) by (auto simp: stored_ok_def files_there_def)
    then show ?thesis using f(5) [OF n n'] by (auto simp: refs_there_def)
  qed
  then have "stored_ok sha (obj w') N'" using s(1) assms(3,5) by (simp add: stored_ok_def files_there_def)
  moreover have "ns_wf N'" using ns_wf_place [OF f(1-3) mount_okD(8) [OF assms(2)] s(3)] .
  moreover have "plain_fs N'" using plain_fs_place [OF f(1,4) s(2)] .
  moreover have "budget_ok N'" using budget_ok_change [OF s(4) f(6,7)] .
  ultimately show ?thesis using assms(2,4,5) s(5) by (simp add: safe_state_def)
qed

lemma applySetAttr_place: "same_place n (fst (applySetAttr n sa t))" "\<not> snd (applySetAttr n sa t) \<Longrightarrow> fst (applySetAttr n sa t) = n"
  by (auto simp: applySetAttr_def apply_opt_def same_place_def touchC_def split: option.splits)

lemma same_place_trans: "same_place a b \<Longrightarrow> same_place b c \<Longrightarrow> same_place a c"
  by (simp add: same_place_def)

lemma getOpen_frame:
  "getOpen i N = (x, N1) \<Longrightarrow> nextIno N1 = nextIno N \<and> perm N1 = perm N \<and> writerID N1 = writerID N \<and> dirty N1 = dirty N \<and>
     knownChunks N1 = knownChunks N \<and> fsid N1 = fsid N"
  by (auto simp: getOpen_def split: option.splits)

lemma truncate_call:
  assumes "Datapath.truncate clk c h sa N = (r, N')" "s_Size sa = Some sz" "mount_ok sha N"
  shows "\<exists>i. file_call i N N' \<and> knownChunks N' = knownChunks N"
proof (cases "maxFileSize N < sz \<or> (\<exists>e. resolve N h = Inl e) \<or> (\<exists>i n. resolve N h = Inr (i, n) \<and> setAttrRequests N c n sa \<noteq> None)")
  case True
  then have "N' = N" using assms by (auto simp: Datapath.truncate_def split: if_splits)
  then show ?thesis using file_call_same [of N' N] by simp
next
  case False
  then obtain i n where sz: "sz \<le> maxFileSize N" and res: "resolve N h = Inr (i, n)" and ok: "setAttrRequests N c n sa = None"
    by (metis not_less sum.exhaust surj_pair)
  note M = mount_okD [OF assms(3)]
  have n: "fmlookup (inodes N) i = Some n" using res by auto
  have id: "ID n = i" using M(6) [OF n] .
  obtain x N1 where g: "getOpen i N = (x, N1)" by fastforce
  note G = getOpen_open [OF g] and N1 = getOpen_frame [OF g]
  have req: "setAttrRequests N1 c n sa = None" using ok by (simp add: setAttrRequests_def N1)
  have res1: "resolve N1 h = Inr (i, n)" using resolve_cong [of N1 N h] G(4) res by simp
  define L t where "L = sz div chunkSize N1" and "t = sz mod chunkSize N1"
  define c0 where "c0 = cut_chunks L t (Chunks n)"
  define c2 where "c2 = (if Size n < sz then fill_holes (chunkSize N1) L c0 else c0)"
  define x' where "x' = truncate_open L t c0 x"
  define n1 where "n1 = touchM (clk 0) (n\<lparr>Chunks := c2, Size := sz\<rparr>)"
  define n' where "n' = fst (applySetAttr n1 sa (clk 0))"
  define F where "F = sum_caps (fmfilter (cut_idx L t) (of_dirty x))"
  define N2 where "N2 = (if F > 0 then budget_release F N1 else N1)"
  have N': "N' = markDirty (upd_inode i (\<lambda>_. n') (put_open i x' N2))"
    using assms(1,2) sz res g id res1 req M(1) [folded G(5)] ok
    unfolding n'_def n1_def c2_def c0_def x'_def N2_def F_def L_def t_def
    by (simp add: Datapath.truncate_def Let_def split del: if_split)
  have N2: "fopen N2 = fopen N1" "inodes N2 = inodes N" "chunkSize N2 = chunkSize N" "budget_used N2 = budget_used N - F"
      "nextIno N2 = nextIno N" "perm N2 = perm N" "writerID N2 = writerID N" "knownChunks N2 = knownChunks N"
    using G N1 sum_caps_nonneg [of "fmfilter (cut_idx L t) (of_dirty x)"] by (auto simp: N2_def F_def budget_release_def)
  have d: "i |\<in>| fmdom (fopen N2)" using G(3) N2(1) by simp
  have o2: "open_of N2 = open_of N" using open_of_cong [OF N2(1)] G(2) by simp
  have oN': "open_of N' j = (if j = i then x' else open_of N j)" for j
    using open_of_cong [of N' "put_open i x' N2"] by (simp add: N' open_of_put_open [OF d] o2)
  have "same_place n n1" by (simp add: n1_def same_place_def touchM_def)
  then have pl: "same_place n n'" using same_place_trans applySetAttr_place(1) unfolding n'_def by blast
  have ch: "isHole ref \<or> ref \<in> set (Chunks n)" if "ref \<in> set (Chunks n')" for ref
    using that set_cut_chunks [of L t "Chunks n"]
    by (auto simp: n'_def n1_def applySetAttr_keeps c2_def c0_def fill_holes_def hole_def isHole_def touchM_def split: if_splits)
  have "file_call i N N'"
  proof (rule file_callI [OF n _ pl ch])
    show "budget_used N' - budget_used N = of_bytes (open_of N' i) - of_bytes (open_of N i)"
    proof -
      have "of_bytes (open_of N' i) = of_bytes x - F" unfolding oN' by (simp add: x'_def truncate_open_budget F_def)
      moreover have "budget_used N' = budget_used N - F" using N2(4) by (simp add: N')
      ultimately show ?thesis using G(1) by simp
    qed
  qed (use N2 n in \<open>simp_all add: N' oN' [unfolded N'] fmlookup_upd_inode\<close>)
  then show ?thesis using N2(8) by (auto simp: N')
qed

lemma SetAttr_safe:
  assumes "SetAttr clk c h sa N = (r, N')" "hash_ok sha" "safe_state kok cd sha obj gd N w"
  shows "safe_state kok cd sha obj gd N' w \<and> (\<exists>i. file_call i N N')"
proof -
  have s: "gd w" "mount_ok sha N" "known_there (obj w) N" using assms(3) by (auto simp: safe_state_def stored_ok_def)
  have "\<exists>i. file_call i N N' \<and> knownChunks N' = knownChunks N"
  proof (cases "mutable N")
    case (Some st)
    then show ?thesis using assms(1) file_call_same [of N' N] by (auto simp: SetAttr_def simp del: mutable_None)
  next
    case mut: None
    show ?thesis
    proof (cases "s_Size sa")
      case (Some sz)
      then have "Datapath.truncate clk c h sa N = (r, N')" using assms(1) mut by (simp add: SetAttr_def del: mutable_None)
      from truncate_call [OF this Some s(2)] show ?thesis .
    next
      case None
      show ?thesis
      proof (cases "\<exists>i n. resolve N h = Inr (i, n) \<and> setAttrRequests N c n sa = None")
        case True
        then obtain i n where res: "resolve N h = Inr (i, n)" and ok: "setAttrRequests N c n sa = None" by blast
        have n: "fmlookup (inodes N) i = Some n" using res by auto
        obtain n' ap where n': "applySetAttr n sa (clk 0) = (n', ap)" by fastforce
        have N': "N' = (if ap then markDirty (upd_inode i (\<lambda>_. n') N) else upd_inode i (\<lambda>_. n') N)"
          using assms(1) mut None res ok n' by (auto simp: SetAttr_def Let_def simp del: mutable_None)
        have pl: "same_place n n'" "\<not> ap \<Longrightarrow> n' = n" "Chunks n' = Chunks n"
          using applySetAttr_place [of n sa "clk 0"] applySetAttr_keeps(3) [of n sa "clk 0"] n' by simp_all
        have "open_of N' = open_of N" by (rule open_of_cong) (simp add: N')
        then have "file_call i N N'"
          by (intro file_callI [OF n _ pl(1)]) (use n pl(2,3) in \<open>auto simp: N' fmlookup_upd_inode\<close>)
        then show ?thesis by (auto simp: N')
      next
        case False
        then have "N' = N" using assms(1) mut None
          by (cases "resolve N h") (auto simp: SetAttr_def simp del: mutable_None split: option.splits)
        then show ?thesis using file_call_same [of N' N] by simp
      qed
    qed
  qed
  moreover have "mount_ok sha N'" using SetAttr_right [OF assms(1,2) s(2)] by blast
  ultimately show ?thesis using file_call_safe [OF _ _ _ s(1) refl assms(3)] s(3) by (metis known_there_def)
qed

end
