(* ===== verification/DataCalls.thy ===== *)
theory DataCalls
  imports CallInv
begin

text \<open>
  The calls that reach the store: READ and WRITE load chunks and leave the bucket as it is, a flush and
  \<open>Sync\<close> add to it, and a mount starts from it. Each keeps \<open>safe_state\<close> and \<open>caught_up\<close>.
\<close>

section \<open>Reading and buffering\<close>

context object_store
begin

text \<open>A chunk that is loaded is read from the bucket, which stays as it was.\<close>

definition only_reads :: "fs \<Rightarrow> 'w \<Rightarrow> 'w \<Rightarrow> bool" where
  "only_reads N' w w' \<longleftrightarrow> good w' \<and> objs w' = objs w \<and> etag w' = etag w \<and> known_there (objs w) N'"

lemma read_fetch_store:
  assumes "read_fetch sha st a b refs out N w = (r, N', w')" "good w" "\<And>d. key_ok (chunkPrefix @ sha d)"
    and "\<And>q. q \<in> set refs \<Longrightarrow> ref_ok sha cs (rr_ref q)" "known_there (objs w) N"
  shows "only_reads N' w w'"
  using assms
proof (induction refs arbitrary: out N w)
  case Nil
  then show ?case by (simp add: only_reads_def)
next
  case (Cons q refs)
  obtain d N1 w1 where d: "loadChunk sha st (rr_ref q) N w = (d, N1, w1)" by (metis prod_cases3)
  have L: "good w1" "objs w1 = objs w" "etag w1 = etag w" "known_there (objs w) N1"
    using loadChunk_store [OF d Cons.prems(2) _ Cons.prems(3,5), of cs] Cons.prems(4) by auto
  show ?case
  proof (cases d)
    case (Inl e)
    then show ?thesis using Cons.prems(1) d L by (simp add: only_reads_def)
  next
    case (Inr db)
    then obtain o1 where "read_fetch sha st a b refs o1 N1 w1 = (r, N', w')" using Cons.prems(1) d by (auto simp: Let_def)
    from Cons.IH [OF this L(1) Cons.prems(3)] show ?thesis using Cons.prems(4) L by (simp add: only_reads_def)
  qed
qed

lemma readRef_of_chunks: "q \<in> set (readRef_of cs chunks dirt trims a idx) \<Longrightarrow> rr_ref q \<in> set chunks"
  by (cases "fmlookup trims idx"; cases "idx < length chunks") (auto simp: readRef_of_def Let_def if_distrib [of set] split: if_splits)

lemma readRefs_chunks: "q \<in> set (readRefs cs n dirt trims a b) \<Longrightarrow> rr_ref q \<in> set (Chunks n)"
  unfolding readRefs_def using readRef_of_chunks by auto

lemma Read_store:
  assumes "Read sha st c h ofs count N w = (r, N', w')" "good w" "\<And>d. key_ok (chunkPrefix @ sha d)"
    and "mount_ok sha N" "known_there (objs w) N"
  shows "only_reads N' w w'"
proof (cases "N' = N \<and> w' = w")
  case True
  then show ?thesis using assms(2,5) by (simp add: only_reads_def)
next
  case False
  obtain i n e out1 refs q where n: "readable N c h = Inr (i, n)" and f: "read_fetch sha st ofs e refs out1 N w = (q, N', w')"
      and refs: "\<And>rr. rr \<in> set refs \<Longrightarrow> rr_ref rr \<in> set (Chunks n)"
    using assms(1) False readRefs_chunks
    by (auto simp: Read_def readBuffered_def Let_def split: if_splits prod.splits option.splits sum.splits)
  have "fmlookup (inodes N) i = Some n" using n by (auto simp: readable_Inr)
  then have "list_all (ref_ok sha (chunkSize N)) (Chunks n)" using mount_okD(7) [OF assms(4)] file_okD(1) by blast
  then have "ref_ok sha (chunkSize N) (rr_ref rr)" if "rr \<in> set refs" for rr using refs [OF that] by (simp add: list_all_iff)
  from read_fetch_store [OF f assms(2,3) this assms(5)] show ?thesis .
qed

lemma start_buf_store:
  assumes "start_buf sha st refs x idx full N w = (q, N1, w1)" "good w" "\<And>d. key_ok (chunkPrefix @ sha d)"
    and "list_all (ref_ok sha cs) refs" "known_there (objs w) N"
  shows "only_reads N1 w w1"
proof -
  have "(N1 = N \<and> w1 = w) \<or> (\<exists>l. idx < length refs \<and> loadChunk sha st (refs ! idx) N w = (l, N1, w1))"
    using assms(1) by (auto simp: start_buf_def Let_def split: option.splits if_splits prod.splits sum.splits)
  then show ?thesis
  proof (elim disjE exE conjE)
    fix l assume l: "idx < length refs" "loadChunk sha st (refs ! idx) N w = (l, N1, w1)"
    have "ref_ok sha cs (refs ! idx)" using assms(4) l(1) by (simp add: list_all_iff)
    from loadChunk_store [OF l(2) assms(2) this assms(3,5)] show ?thesis by (simp add: only_reads_def)
  qed (use assms(2,5) in \<open>simp add: only_reads_def\<close>)
qed

lemma only_reads_trans: "only_reads N1 w w1 \<Longrightarrow> only_reads N2 w1 w2 \<Longrightarrow> only_reads N2 w w2"
  by (simp add: only_reads_def)

lemma write_loop_store:
  assumes "write_loop sha st refs ofs data k ch x N w = (r, ch', x', N', w')" "good w" "\<And>d. key_ok (chunkPrefix @ sha d)"
    and "list_all (ref_ok sha cs) refs" "known_there (objs w) N"
  shows "only_reads N' w w'"
  using assms(1,2,5)
proof (induction "length data - k" arbitrary: k ch x N w rule: less_induct)
  case less
  note prems = less.prems
  show ?case
  proof (cases "length data \<le> k \<or> chunkSize N = 0")
    case True
    then show ?thesis
      using prems by (auto simp: write_loop.simps [of sha st refs ofs data k ch x N w] only_reads_def split: if_splits)
  next
    case False
    let ?cs = "chunkSize N" and ?p = "wrap64 (ofs + k)"
    let ?full = "?p mod ?cs = 0 \<and> ?cs \<le> length data - k"
    obtain q N1 w1 where q: "start_buf sha st refs x (?p div ?cs) ?full N w = (q, N1, w1)" by (metis prod_cases3)
    note L = start_buf_store [OF q prems(2) assms(3,4) prems(3)]
    show ?thesis
    proof (cases q)
      case (Inl e)
      then have "N' = N1 \<and> w' = w1"
        using prems(1) False q by (simp add: write_loop.simps [of sha st refs ofs data k ch x N w] Let_def)
      then show ?thesis using L by simp
    next
      case (Inr bf)
      then obtain nw ch1 x1 where nw: "nw = min (?cs - ?p mod ?cs) (length data - k)"
          and run: "write_loop sha st refs ofs data (k + nw) ch1 x1 N1 w1 = (r, ch', x', N', w')"
        using prems(1) False q by (simp add: write_loop.simps [of sha st refs ofs data k ch x N w] Let_def)
      have "length data - (k + nw) < length data - k"
        using write_progress [of ?cs "length data" k ?p] False unfolding nw by simp
      from less.hyps [OF this run] have "only_reads N' w1 w'" using L by (simp add: only_reads_def)
      with L show ?thesis by (rule only_reads_trans)
    qed
  qed
qed

lemma bufferWrite_store:
  assumes "bufferWrite clk sha st h x ofs data N w = (r, x', N', w')" "good w" "\<And>d. key_ok (chunkPrefix @ sha d)"
    and "resolve N h = Inr (i, n)" "list_all (ref_ok sha cs) (Chunks n)" "known_there (objs w) N"
  shows "only_reads N' w w'"
proof -
  obtain q ch x1 N1 w1 where l: "write_loop sha st (Chunks n) ofs data 0 0 x N w = (q, ch, x1, N1, w1)" by (metis prod_cases5)
  note L = write_loop_store [OF l assms(2,3,5,6)]
  have "w' = w1 \<and> knownChunks N' = knownChunks N1"
    using assms(1,4) l by (auto simp: bufferWrite_def Let_def budget_add_def budget_release_def split: sum.splits if_splits prod.splits)
  then show ?thesis using L by (simp add: only_reads_def known_there_def)
qed

end

lemma write_admitted_call:
  assumes "write_admitted E fd h i ofs data Unstable N w = (r, N', w')"
    and "resolve N h = Inr (i, n)" "hash_ok (e_sha E)" "mount_ok (e_sha E) N" "ofs + length data < 2 ^ 64"
  shows "file_call i N N'"
proof -
  let ?sha = "e_sha E" and ?clk = "fd_clk fd 0"
  obtain x N1 where g: "getOpen i N = (x, N1)" by fastforce
  note G = getOpen_open [OF g] and F = getOpen_frame [OF g] and M = mount_okD [OF assms(4)]
  have n: "fmlookup (inodes N) i = Some n" using assms(2) by auto
  have res: "resolve N1 h = Inr (i, n)" using resolve_cong [of N1 N h] G(4) assms(2) by simp
  obtain q x1 N2 w1 where b: "bufferWrite ?clk ?sha (mount_store E) h x ofs data N1 w = (q, x1, N2, w1)"
    by (metis prod_cases4)
  have fok: "file_ok ?sha (chunkSize N1) n x" using M(7) [OF n] G by simp
  note B = bufferWrite_live [OF b res assms(3) M(1) [folded G(5)] M(4) [folded G(8)] M(5) [folded G(7)] fok assms(5)]
  have wid: "same_ns N1 K \<Longrightarrow> writerID K = writerID N1" for K by (auto simp: same_ns_def)
  have N': "N' = put_open i x1 N2" using assms(1) g b by (cases q) (auto simp: write_admitted_def)
  show ?thesis
  proof (cases q)
    case (Inl e)
    then have s: "x1 = x" "same_ns N1 N2" using B by auto
    have "i |\<in>| fmdom (fopen N2)" using G(3) same_ns_sel(2) [OF s(2)] by simp
    then have "open_of N' = open_of N" using s(1) same_ns_open_of [OF s(2)] G(1,2) by (auto simp: N' open_of_put_open fun_eq_iff)
    then show ?thesis
      using same_ns_sel [OF s(2)] wid [OF s(2)] G F by (intro file_call_same) (simp_all add: N')
  next
    case (Inr m)
    let ?g = "\<lambda>n. touchA (?clk 0) (touchM (?clk 0) (if ofs + m > Size n then n\<lparr>Size := ofs + m\<rparr> else n))"
    from B [unfolded Inr sum.case] obtain N3 where
        s: "same_ns N1 N3" "N2 = markDirty (upd_inode i ?g (N3\<lparr>budget_used := budget_used N1 + (of_bytes x1 - of_bytes x)\<rparr>))"
      by blast
    have d: "i |\<in>| fmdom (fopen N2)" using G(3) same_ns_sel(2) [OF s(1)] by (simp add: s(2))
    have "open_of N2 = open_of N" using open_of_cong [of N2 N1] same_ns_sel(2) [OF s(1)] G(2) by (simp add: s(2))
    then have o: "open_of N' j = (if j = i then x1 else open_of N j)" for j by (simp add: N' open_of_put_open [OF d])
    have pl: "same_place n (?g n)" "Chunks (?g n) = Chunks n" by (simp_all add: same_place_def touchA_def touchM_def)
    show ?thesis
    proof (rule file_callI [OF n _ pl(1)])
      show "budget_used N' - budget_used N = of_bytes (open_of N' i) - of_bytes (open_of N i)"
        using G(1,9) unfolding o by (simp add: N' s(2))
      show "fmlookup (inodes N') j = (if j = i then Some (?g n) else fmlookup (inodes N) j)" for j
        using same_ns_sel(1) [OF s(1)] G(4) n by (simp add: N' s(2) fmlookup_upd_inode)
      show "isHole ref \<or> ref \<in> set (Chunks n)" if "ref \<in> set (Chunks (?g n))" for ref using that pl(2) by simp
      show "\<And>j. j \<noteq> i \<Longrightarrow> open_of N' j = open_of N j" unfolding o by simp
    qed (use same_ns_sel [OF s(1)] wid [OF s(1)] G F in \<open>simp_all add: N' s(2)\<close>)
  qed
qed

section \<open>What holds between two calls\<close>

definition whole ::
  "(string \<Rightarrow> bool) \<Rightarrow> codec \<Rightarrow> (bytes \<Rightarrow> string) \<Rightarrow> ('w \<Rightarrow> string \<Rightarrow> bytes option) \<Rightarrow> ('w \<Rightarrow> bool) \<Rightarrow> fs \<Rightarrow> 'w \<Rightarrow> bool" where
  "whole kok cd sha obj gd N w \<longleftrightarrow> safe_state kok cd sha obj gd N w \<and> (dirty N \<or> remountable kok cd (obj w) N)"

lemma wholeD:
  assumes "whole kok cd sha obj gd N w"
  shows "safe_state kok cd sha obj gd N w" "dirty N \<or> remountable kok cd (obj w) N" "gd w" "mount_ok sha N"
    "stored_ok sha (obj w) N" "plain_fs N" "ns_wf N" "budget_ok N" "known_there (obj w) N"
  using assms by (auto simp: whole_def safe_state_def stored_ok_def)

lemma whole_ns:
  assumes "ns_exec clk c k N = (r, M)" "nextIno N \<noteq> - 1" "plain_call k" "whole kok cd sha obj gd N w"
  shows "whole kok cd sha obj gd M w"
  using ns_exec_safe [OF assms(1-3) wholeD(1) [OF assms(4)]] assms(4) by (auto simp: whole_def)

lemma whole_file_call:
  assumes "file_call i N N'" "safe_state kok cd sha obj gd N' w'" "obj w' = obj w" "whole kok cd sha obj gd N w"
  shows "whole kok cd sha obj gd N' w'"
proof -
  have "dirty N' \<or> remountable kok cd (obj w) N'"
    using assms(1) wholeD(2) [OF assms(4)] by (auto simp: file_call_def remountable_def holds_fs_def)
  then show ?thesis using assms(2,3) by (simp add: whole_def)
qed

lemma whole_SetAttr:
  assumes "SetAttr clk c h sa N = (r, N')" "hash_ok sha" "whole kok cd sha obj gd N w"
  shows "whole kok cd sha obj gd N' w"
  using SetAttr_safe [OF assms(1,2) wholeD(1) [OF assms(3)]] whole_file_call [OF _ _ refl assms(3)] by blast

context object_store
begin

abbreviation whole_here :: "'w env \<Rightarrow> fs \<Rightarrow> 'w \<Rightarrow> bool" where
  "whole_here E \<equiv> whole key_ok (e_codec E) (e_sha E) objs good"

lemma whole_Read:
  assumes "Read (e_sha E) st c h ofs count N w = (r, N', w')" "commit_env st key_ok E nonce" "whole_here E N w"
  shows "whole_here E N' w'"
proof -
  note W = wholeD [OF assms(3)]
  have E: "hash_ok (e_sha E)" "\<And>d. key_ok (chunkPrefix @ e_sha E d)" using assms(2) by (auto simp: commit_env_def)
  have s: "same_ns N N'" using assms(1) by (rule Read_same_ns)
  have R: "only_reads N' w w'" using Read_store [OF assms(1) W(3) E(2) W(4,9)] .
  have m: "mount_ok (e_sha E) N'" using Read_keeps [OF assms(1) E(1) W(4)] by blast
  have f: "file_call 0 N N'"
    using same_ns_sel [OF s] same_ns_open_of [OF s] s by (intro file_call_same) (auto simp: same_ns_def)
  have "safe_state key_ok (e_codec E) (e_sha E) objs good N' w'"
    using file_call_safe [OF f m _ _ _ W(1)] R by (simp add: only_reads_def)
  then show ?thesis using whole_file_call [OF f _ _ assms(3)] R by (simp add: only_reads_def)
qed

lemma write_admitted_store:
  assumes "write_admitted E fd h i ofs data Unstable N w = (r, N', w')" "resolve N h = Inr (i, n)"
    and "commit_env st key_ok E nonce" "good w" "mount_ok (e_sha E) N" "known_there (objs w) N"
  shows "only_reads N' w w'"
proof -
  have E: "\<And>d. key_ok (chunkPrefix @ e_sha E d)" "mount_store E = st" using assms(3) by (auto simp: commit_env_def)
  obtain x N1 where g: "getOpen i N = (x, N1)" by fastforce
  have N1: "inodes N1 = inodes N" "known_there (objs w) N1"
    using getOpen_open(4) [OF g] getOpen_frame [OF g] assms(6) by (auto simp: known_there_def)
  have res: "resolve N1 h = Inr (i, n)" using resolve_cong [OF N1(1)] assms(2) by simp
  have "fmlookup (inodes N) i = Some n" using assms(2) by auto
  then have refs: "list_all (ref_ok (e_sha E) (chunkSize N)) (Chunks n)" using mount_okD(7) [OF assms(5)] file_okD(1) by blast
  obtain q x1 N2 w1 where b: "bufferWrite (fd_clk fd 0) (e_sha E) st h x ofs data N1 w = (q, x1, N2, w1)" by (metis prod_cases4)
  have "N' = put_open i x1 N2" "w' = w1" using assms(1) g b E(2) by (cases q; auto simp: write_admitted_def)+
  then show ?thesis using bufferWrite_store [OF b assms(4) E(1) res refs N1(2)] by (simp add: only_reads_def known_there_def)
qed

lemma whole_buffer:
  assumes "write_admitted E fd h i ofs data Unstable N w = (r, N', w')" "resolve N h = Inr (i, n)" "ofs + length data < 2 ^ 64"
    and "commit_env st key_ok E nonce" "whole_here E N w"
  shows "whole_here E N' w' \<and> objs w' = objs w"
proof -
  note W = wholeD [OF assms(5)]
  have hash: "hash_ok (e_sha E)" using assms(4) by (auto simp: commit_env_def)
  have f: "file_call i N N'" using write_admitted_call [OF assms(1,2) hash W(4) assms(3)] .
  have m: "mount_ok (e_sha E) N'" using write_admitted_right [OF assms(1,2) hash W(4) assms(3)] by blast
  have R: "good w'" "objs w' = objs w" "known_there (objs w) N'"
    using write_admitted_store [OF assms(1,2,4) W(3,4,9)] by (simp_all add: only_reads_def)
  have "safe_state key_ok (e_codec E) (e_sha E) objs good N' w'" using file_call_safe [OF f m _ R(1,2) W(1)] R(2,3) by simp
  then show ?thesis using whole_file_call [OF f _ R(2) assms(5)] R(2) by simp
qed

lemma whole_flush:
  assumes "flush_list (e_sha E) st ids N w = (r, N', w')" "commit_env st key_ok E nonce" "whole_here E N w"
  shows "whole_here E N' w'"
proof -
  note W = wholeD [OF assms(3)]
  have E: "hash_ok (e_sha E)" "\<And>d. key_ok (chunkPrefix @ e_sha E d)" using assms(2) by (auto simp: commit_env_def)
  have f: "flush_frame N N'" using flush_list_frame [OF assms(1)] .
  have ch: "chunks_only (objs w) (etag w) (objs w') (etag w')" using flush_list_store [OF assms(1) W(3) E(2,1) W(4,5)] by blast
  have "dirty N' \<or> remountable key_ok (e_codec E) (objs w') N'"
  proof (cases "dirty N'")
    case False
    then have "inodes N' = inodes N" "nextIno N' = nextIno N" "chunkSize N' = chunkSize N" "\<not> dirty N"
      using f by (auto simp: flush_frame_def)
    then show ?thesis using remountable_chunks [OF _ ch] W(2) by blast
  qed simp
  then show ?thesis using flush_safe(1) [OF assms(1) E(2,1) W(1)] by (simp add: whole_def)
qed

lemma whole_commitFile:
  assumes "commitFile (e_sha E) st i N w = (r, N', w')" "commit_env st key_ok E nonce" "whole_here E N w"
  shows "whole_here E N' w'"
  using whole_flush [of E "[i]" N w r N' w'] assms by (cases r) auto

section \<open>A commit\<close>

text \<open>
  What a commit does to the bucket, whatever it returns. Beside chunks it writes only the root pointer
  and a snapshot under its own nonce; and the root pointer stays, or names a snapshot that holds every
  file as it was when the commit began.
\<close>

definition outcome :: "'w env \<Rightarrow> bytes \<Rightarrow> fs \<Rightarrow> 'w \<Rightarrow> 'w \<Rightarrow> bool" where
  "outcome E nonce N w w' \<longleftrightarrow>
     good w' \<and> (\<forall>k. k \<noteq> rootKey \<and> \<not> starts_with chunkPrefix k \<and> (\<forall>ep. k \<noteq> snapshotKey ep nonce) \<longrightarrow> objs w' k = objs w k) \<and>
     (objs w' rootKey = objs w rootKey \<or>
      (\<exists>key snap F. bucket_at key_ok (e_codec E) (objs w') key snap \<and> holds_fs snap F \<and> same_files (e_sha E) N F \<and>
         nextIno F = nextIno N \<and> chunkSize F = chunkSize N \<and> (\<forall>j. clean (open_of F j))))"

lemma commitSealed_outcome:
  assumes "commitSealed E clk s N0 w0 = (r, N', w')" "mount_store E = st" "key_ok rootKey" "key_ok (sc_key s)"
    and "sealed_as (e_codec E) s snap" "good w0" "alone E"
  shows "good w' \<and> same_data N0 N' \<and> (r \<noteq> None \<longrightarrow> dirty N' = dirty N0) \<and>
    (\<forall>k. k \<noteq> rootKey \<and> k \<noteq> sc_key s \<longrightarrow> objs w' k = objs w0 k) \<and>
    (objs w' rootKey = objs w0 rootKey \<or> bucket_at key_ok (e_codec E) (objs w') (sc_key s) snap)"
proof -
  have o: "e_others E k p = p" for k p using assms(7) by (simp add: alone_def)
  have ne: "sc_key s \<noteq> rootKey" using assms(5) prefix_apart(2) by (auto simp: sealed_as_def)
  obtain p w1 where p: "Put st (sc_key s) (sc_body s) w0 = (p, w1)" by fastforce
  have P: "good w1" "\<And>k. k \<noteq> sc_key s \<Longrightarrow> objs w1 k = objs w0 k" "p = None \<Longrightarrow> objs w1 (sc_key s) = Some (sc_body s)"
    using Put_law [OF assms(6,4) p] by auto
  show ?thesis
  proof (cases p)
    case (Some e)
    then show ?thesis using assms(1,2) p P ne by (auto simp: commitSealed_def o)
  next
    case None
    obtain fl w2 where f: "swap_root E (fallbackAllowed N0) s w1 = (fl, w2)" by fastforce
    have S: "good w2" "swapped (e_codec E) s (objs w1) (objs w2) fl"
      using swap_root_store [OF f assms(2) P(1) assms(3,4,5)] by auto
    have B: "objs w2 rootKey = objs w0 rootKey \<or> bucket_at key_ok (e_codec E) (objs w2) (sc_key s) snap"
      using S(2) P(2) [of rootKey] P(3) [OF None] ne sealed_names [OF assms(5), of "objs w2"] assms(4,5)
      by (auto simp: swapped_def bucket_at_def sealed_as_def)
    have K: "objs w2 k = objs w0 k" if "k \<noteq> rootKey" "k \<noteq> sc_key s" for k
      using S(2) P(2) that by (simp add: swapped_def)
    have rest: "good w' \<and> objs w' = objs w2 \<and> same_data N0 N' \<and> (r \<noteq> None \<longrightarrow> dirty N' = dirty N0)"
    proof (cases fl)
      case (FKnown et)
      then show ?thesis using assms(1,2) p None f S(1)
        by (auto simp: commitSealed_def o split: option.splits intro: same_data_trans [OF fire_root_data])
    next
      case (FRefused e)
      then show ?thesis using assms(1,2) p None f S(1) by (simp add: commitSealed_def o)
    next
      case (FDoubt e1 e2 e3)
      show ?thesis
      proof (cases "fire_root rootSwapUnknown (N0\<lparr>doubtKey := sc_key s\<rparr>)")
        case fr: None
        then show ?thesis using assms(1,2) p None f S(1) FDoubt
          by (auto simp: commitSealed_def o split: option.splits intro: same_data_trans [of _ "N0\<lparr>doubtKey := []\<rparr>"])
      next
        case (Some N1)
        have n1: "same_marks N0 N1" using fire_root_marks [OF Some] same_marks_trans [OF same_marks_simps(2)] by blast
        obtain v N2 w3 where v: "resolveRoot E N1 w2 = (v, N2, w3)" by (metis prod_cases3)
        have R: "good w3" "objs w3 = objs w2" "same_marks N0 N2"
          using resolveRoot_alone [OF v assms(2,3,7) S(1)] same_marks_trans [OF n1] by auto
        then have "same_data N0 N2" "dirty N2 = dirty N0" by (simp_all add: same_marks_def)
        then show ?thesis using assms(1,2) p None f FDoubt Some v R same_data_trans [OF _ same_data_simps(2)]
          by (cases v) (auto simp: commitSealed_def o)
      qed
    qed
    then show ?thesis using B K by simp
  qed
qed

lemma commitPhase_outcome:
  assumes "commitPhase E clk nonce N w = (r, N', w')" "commit_env st key_ok E nonce" "alone E"
    and "good w" "mount_ok (e_sha E) N" "stored_ok (e_sha E) (objs w) N" "plain_fs N" "\<And>j. clean (open_of N j)" "dirty N"
  shows "outcome E nonce N w w' \<and> (r \<noteq> None \<longrightarrow> dirty N')"
proof -
  note E = assms(2) [unfolded commit_env_def]
  have keys: "\<And>d. key_ok (chunkPrefix @ e_sha E d)" and hash: "hash_ok (e_sha E)" using E by blast+
  obtain q N1 w1 where q: "settleAll (e_sha E) st (e_range E (fopen N)) N w = (q, N1, w1)" by (metis prod_cases3)
  note q' = q [unfolded settleAll_def]
  have same: "same_files (e_sha E) N N1" using flush_list_right [OF q' hash assms(5)] by blast
  have st1: "good w1" "chunks_only (objs w) (etag w) (objs w1) (etag w1)"
    using flush_list_store [OF q' assms(4) keys hash assms(5,6)] by auto
  have fr: "flush_frame N N1" using flush_list_frame [OF q'] .
  have d1: "dirty N1" using fr assms(9) by (simp add: flush_frame_def)
  have k1: "\<not> starts_with chunkPrefix k \<Longrightarrow> objs w1 k = objs w k" for k using st1(2) by (simp add: chunks_only_def)
  have r1: "objs w1 rootKey = objs w rootKey" using k1 prefix_apart(3) by blast
  have stop: "outcome E nonce N w w1" using st1(1) k1 r1 by (simp add: outcome_def)
  show ?thesis
  proof (cases q)
    case (Some e)
    then show ?thesis using assms(1) q E stop d1 by (simp add: commitPhase_def)
  next
    case None
    show ?thesis
    proof (cases "seal E clk nonce N1")
      case (Inl e)
      then show ?thesis using assms(1) q E None stop d1 by (simp add: commitPhase_def)
    next
      case (Inr s)
      then have c: "commitSealed E clk s N1 w1 = (r, N', w')" using assms(1) q E None by (simp add: commitPhase_def)
      have M1: "mount_ok (e_sha E) N1" using same by (simp add: same_files_def)
      have plain: "plain_fs N1" using same_files_plain [OF same _ assms(7)] fr by (simp add: flush_frame_def)
      obtain snap where snap: "sealed_as (e_codec E) s snap" "holds_fs snap N1" "sc_key s = snapshotKey (wrap64 (epoch N1 + 1)) nonce"
        using seal_right [OF Inr _ M1 plain] E by auto
      note C = commitSealed_outcome [OF c _ _ _ snap(1) st1(1) assms(3)]
      have C': "good w'" "same_data N1 N'" "r \<noteq> None \<longrightarrow> dirty N' = dirty N1" "\<And>k. k \<noteq> rootKey \<and> k \<noteq> sc_key s \<Longrightarrow> objs w' k = objs w1 k"
          "objs w' rootKey = objs w1 rootKey \<or> bucket_at key_ok (e_codec E) (objs w') (sc_key s) snap"
        using C E by (auto simp: snap(3))
      have "clean (open_of N1 j)" for j using same assms(8) unfolding same_files_def by metis
      then have "objs w' rootKey = objs w rootKey \<or> (\<exists>key snap F. bucket_at key_ok (e_codec E) (objs w') key snap \<and> holds_fs snap F \<and>
          same_files (e_sha E) N F \<and> nextIno F = nextIno N \<and> chunkSize F = chunkSize N \<and> (\<forall>j. clean (open_of F j)))"
        using C'(5) r1 snap(2) same fr unfolding flush_frame_def by metis
      moreover have "objs w' k = objs w k" if "k \<noteq> rootKey \<and> \<not> starts_with chunkPrefix k \<and> (\<forall>ep. k \<noteq> snapshotKey ep nonce)" for k
        using that C'(4) k1 by (simp add: snap(3))
      ultimately show ?thesis using C'(1,3) d1 unfolding outcome_def by blast
    qed
  qed
qed

lemma outcome_before:
  assumes "outcome E nonce N1 w1 w'" "same_files (e_sha E) N N1" "nextIno N1 = nextIno N" "chunkSize N1 = chunkSize N"
    and "\<And>k. \<not> starts_with chunkPrefix k \<Longrightarrow> objs w1 k = objs w k"
  shows "outcome E nonce N w w'"
proof -
  have r: "objs w1 rootKey = objs w rootKey" using assms(5) prefix_apart(3) by blast
  have "objs w' k = objs w k" if "k \<noteq> rootKey \<and> \<not> starts_with chunkPrefix k \<and> (\<forall>ep. k \<noteq> snapshotKey ep nonce)" for k
    using that assms(1) assms(5) [of k] by (simp add: outcome_def)
  moreover have "same_files (e_sha E) N1 F \<Longrightarrow> same_files (e_sha E) N F" for F using same_files_trans [OF assms(2)] .
  ultimately show ?thesis using assms(1,3,4) r unfolding outcome_def by metis
qed

lemma Sync_outcome:
  assumes "Sync E clk nonce N w = (r, N', w')" "commit_env st key_ok E nonce" "alone E"
    and "good w" "mount_ok (e_sha E) N" "stored_ok (e_sha E) (objs w) N" "plain_fs N"
    and "dirty N \<or> remountable key_ok (e_codec E) (objs w) N"
  shows "outcome E nonce N w w' \<and> (dirty N' \<or> remountable key_ok (e_codec E) (objs w') N')"
proof -
  note E = assms(2) [unfolded commit_env_def]
  have keys: "\<And>d. key_ok (chunkPrefix @ e_sha E d)" and hash: "hash_ok (e_sha E)" using E by blast+
  have o: "e_others E k p = p" for k p using assms(3) by (simp add: alone_def)
  have nil: "r = None \<Longrightarrow> remountable key_ok (e_codec E) (objs w') N'"
    using Sync_durable [OF _ assms(2-8)] assms(1) by (auto simp: durable_def)
  obtain q N1 w1 where q: "flushAll (e_sha E) st (e_range E (fopen N)) N w = (q, N1, w1)" by (metis prod_cases3)
  note q' = q [unfolded flushAll_def]
  have F: "same_files (e_sha E) N N1" "q = None \<Longrightarrow> i |\<in>| fmdom (fopen N) \<Longrightarrow> clean (open_of N1 i)" for i
    using flush_list_right [OF q' hash assms(5)] E by auto
  have st1: "good w1" "chunks_only (objs w) (etag w) (objs w1) (etag w1)" "stored_ok (e_sha E) (objs w1) N1"
    using flush_list_store [OF q' assms(4) keys hash assms(5,6)] by auto
  have fr: "flush_frame N N1" using flush_list_frame [OF q'] .
  have k1: "\<not> starts_with chunkPrefix k \<Longrightarrow> objs w1 k = objs w k" for k using st1(2) by (simp add: chunks_only_def)
  have r1: "objs w1 rootKey = objs w rootKey" using k1 prefix_apart(3) by blast
  have stop: "outcome E nonce N w w1" using st1(1) k1 r1 by (simp add: outcome_def)
  have up: "dirty N1 \<or> remountable key_ok (e_codec E) (objs w1) N1"
    using fr assms(8) remountable_chunks [OF _ st1(2), of key_ok "e_codec E" N N1] by (auto simp: flush_frame_def)
  have cl: "clean (open_of N1 i)" if "q = None" for i
  proof (cases "i |\<in>| fmdom (fopen N)")
    case False
    then have "i |\<notin>| fmdom (fopen N1)" using F(1) by (simp add: same_files_def)
    then have "open_of N1 i = new_openFile" by (auto simp: open_of_def dest: fmdomI split: option.split)
    then show ?thesis by (simp add: clean_def new_openFile_def)
  qed (rule F(2) [OF that])
  have M1: "mount_ok (e_sha E) N1" using F(1) by (simp add: same_files_def)
  have plain: "plain_fs N1" using same_files_plain [OF F(1) _ assms(7)] fr by (simp add: flush_frame_def)
  show ?thesis
  proof (cases "q = None \<and> dirty N1 \<and> mode N1 \<noteq> mountDiverged")
    case False
    then have "w' = w1 \<and> N' = N1" using assms(1) q E by (cases q) (auto simp: Sync_def o split: if_splits)
    then show ?thesis using stop up by simp
  next
    case True
    have fin: ?thesis if N2: "same_marks N1 N2" "good w2" "objs w2 = objs w1" "commitPhase E clk nonce N2 w2 = (r, N', w')" for N2 w2
    proof -
      have d: "same_data N1 N2" "dirty N2" using N2(1) True by (auto simp: same_marks_def)
      have op: "open_of N2 = open_of N1" using d(1) by (intro open_of_cong) (simp add: same_data_def)
      have sf: "same_files (e_sha E) N N2" using same_data_files [OF F(1) d(1)] .
      have "stored_ok (e_sha E) (objs w2) N2" "plain_fs N2" "mount_ok (e_sha E) N2"
        using st1(3) plain d(1) N2(3) sf
        by (auto simp: stored_ok_def known_there_def files_there_def same_data_def plain_fs_def same_files_def)
      from commitPhase_outcome [OF N2(4) assms(2,3) N2(2) this(3,1,2) _ d(2)] cl True op
      have "outcome E nonce N2 w2 w'" "r \<noteq> None \<longrightarrow> dirty N'" by auto
      then show ?thesis using outcome_before [OF _ sf] nil k1 N2(3) fr d(1) by (auto simp: flush_frame_def same_data_def)
    qed
    show ?thesis
    proof (cases "rootKnowledge N1 = rootInDoubt")
      case False
      then have "commitPhase E clk nonce N1 w1 = (r, N', w')" using assms(1) q E True by (auto simp: Sync_def o)
      from fin [OF _ st1(1) refl this] show ?thesis by simp
    next
      case doubt: True
      obtain v N2 w2 where v: "resolveRoot E N1 w1 = (v, N2, w2)" by (metis prod_cases3)
      have R: "good w2" "objs w2 = objs w1" "same_marks N1 N2" using resolveRoot_alone [OF v _ _ assms(3) st1(1)] E by auto
      have st2: "outcome E nonce N w w2" "dirty N2" using stop R True by (auto simp: outcome_def same_marks_def)
      have "commitPhase E clk nonce N2 w2 = (r, N', w') \<or> N' = N2 \<and> w' = w2"
        using assms(1) q E True doubt v by (cases v) (auto simp: Sync_def o)
      then show ?thesis using fin [OF R(3,1,2)] st2 by blast
    qed
  qed
qed

lemma whole_Sync:
  assumes "Sync E clk nonce N w = (r, N', w')" "commit_env st key_ok E nonce" "alone E"
    and "whole_here E N w" "fresh_nonce nonce (objs w)"
  shows "whole_here E N' w' \<and> outcome E nonce N w w'"
proof -
  note W = wholeD [OF assms(4)]
  have ok: "others_keep E P" for P using assms(3) by (simp add: alone_def others_keep_def)
  show ?thesis
    using Sync_safe [OF assms(1,2) W(1) assms(5) ok ok] Sync_outcome [OF assms(1-3) W(3-6,2)] by (simp add: whole_def)
qed

text \<open>Another nonce stays fresh.\<close>

lemma outcome_fresh:
  assumes "outcome E nonce N w w'" "fresh_nonce m (objs w)" "\<And>ep ep'. snapshotKey ep m \<noteq> snapshotKey ep' nonce"
  shows "fresh_nonce m (objs w')"
  using assms prefix_apart(1,2) [OF snapshotKey_prefix] unfolding outcome_def fresh_nonce_def by metis

end

end
