(* ===== verification/RootOrder.thy ===== *)
theory RootOrder
  imports DataCalls PruneSpec
begin

text \<open>
  Why pruning can run beside everything else. A pass deletes the snapshots that sort below the one it was
  begun for; that one, or a later one, is what the root pointer names, because the epochs of the commits
  rise and the keys sort by epoch. \<open>in_order\<close> says so between two calls, and every call keeps it.
\<close>

section \<open>What a call leaves of the epoch and of the pass\<close>

definition root_mark :: "fs \<Rightarrow> nat \<times> string option" where
  "root_mark N = (epoch N, pruning N)"

lemma root_mark_upds [simp]:
  "root_mark (upd_inode i g N) = root_mark N" "root_mark (markDirty N) = root_mark N" "root_mark (put_open i x N) = root_mark N"
  "root_mark (budget_add k N) = root_mark N" "root_mark (budget_release k N) = root_mark N"
  by (simp_all add: root_mark_def upd_inode_def markDirty_def put_open_def budget_add_def budget_release_def split: option.split)

lemma root_mark_fields [simp]:
  "root_mark (N\<lparr>cache := c, knownChunks := k\<rparr>) = root_mark N" "root_mark (N\<lparr>maxFileSize := m\<rparr>) = root_mark N"
  "root_mark (N\<lparr>nextIno := i, inodes := t\<rparr>) = root_mark N"
  "root_mark (N\<lparr>doubtKey := d\<rparr>) = root_mark N" "root_mark (N\<lparr>rootKnowledge := rk\<rparr>) = root_mark N"
  "root_mark (N\<lparr>rootETag := e, doubtKey := d\<rparr>) = root_mark N" "root_mark (fire_mode ev N) = root_mark N"
  by (simp_all add: root_mark_def fire_mode_def split: option.split)

lemma same_ns_mark: "same_ns N N' \<Longrightarrow> root_mark N' = root_mark N"
  by (auto simp: same_ns_def)

lemma flush_frame_mark: "flush_frame N N' \<Longrightarrow> root_mark N' = root_mark N"
  by (simp add: flush_frame_def root_mark_def)

lemma commitFile_mark: "commitFile sha st i N w = (r, N', w') \<Longrightarrow> root_mark N' = root_mark N"
  using flush_frame_mark [OF flush_list_frame, of sha st "[i]" N w r N' w'] by (cases r) auto

lemma drop_inode_mark [simp]: "root_mark (drop_inode i N) = root_mark N"
  by (simp add: root_mark_def drop_inode_def dropOpen_def Let_def budget_release_def split: option.splits)

lemma relink_mark [simp]: "root_mark (snd (relink a b t N)) = root_mark N"
  by (simp add: relink_def Let_def split: option.split)

lemma relink_run_mark: "relink a b t N = (v, N') \<Longrightarrow> root_mark N' = root_mark N"
  using relink_mark [of a b t N] by simp

lemma do_rename_mark [simp]: "root_mark (snd (do_rename clk a nm b nm' mv N)) = root_mark N"
  by (simp add: do_rename_def Let_def)

lemma evicted_mark [simp]: "root_mark (evicted N vi v d) = root_mark N"
  by (auto simp: evicted_def Let_def dest: relink_run_mark split: prod.split)

lemma removed_mark [simp]: "root_mark (removed clk N di d nm i n) = root_mark N"
  by (auto simp: removed_def Let_def dest: relink_run_mark split: prod.split)

lemma addEntry_mark [simp]: "root_mark (snd (addEntry clk N c di d nm t sa tgt)) = root_mark N"
  by (simp add: addEntry_def allocInode_def Let_def)

lemma createEntry_mark:
  assumes "createEntry clk N c dir nm t sa tgt excl = (r, M)"
  shows "root_mark M = root_mark N"
  using assms
proof (cases rule: createEntry_cases)
  case (added di d)
  then show ?thesis using addEntry_mark [of clk N c di d nm t sa tgt] by (metis snd_conv)
qed auto

lemma unlink_mark: "unlink clk N c dir nm v = (r, M) \<Longrightarrow> root_mark M = root_mark N"
  by (erule unlink_cases) simp_all

lemma Rename_mark: "Rename clk N c d nm d' nm' = (r, M) \<Longrightarrow> root_mark M = root_mark N"
  using Rename_shape [of clk N c d nm d' nm'] by (elim disjE exE conjE) (metis snd_conv do_rename_mark evicted_mark)+

lemma ns_exec_mark:
  assumes "ns_exec clk c k N = (r, M)"
  shows "root_mark M = root_mark N"
proof -
  have M: "M = snd (ns_exec clk c k N)" using assms by simp
  have mk: "root_mark (snd (createEntry clk N c dir nm t sa tgt excl)) = root_mark N" for dir nm t sa tgt excl
    by (metis createEntry_mark surjective_pairing)
  have rm: "root_mark (snd (unlink clk N c dir nm v)) = root_mark N" for dir nm v by (metis unlink_mark surjective_pairing)
  have mv: "root_mark (snd (Rename clk N c d nm d' nm')) = root_mark N" for d nm d' nm' by (metis Rename_mark surjective_pairing)
  show ?thesis
    unfolding M by (cases k) (simp_all add: Create_def Mkdir_def Symlink_def Remove_def Rmdir_def mk rm mv)
qed

lemma getOpen_mark: "getOpen i N = (x, N1) \<Longrightarrow> root_mark N1 = root_mark N"
  by (auto simp: getOpen_def root_mark_def split: option.splits)

lemma SetAttr_mark: "SetAttr clk c h sa N = (r, N') \<Longrightarrow> root_mark N' = root_mark N"
  by (auto simp: SetAttr_def Datapath.truncate_def Let_def or_fail_def with_ok_def dest!: getOpen_mark
      split: option.splits sum.splits if_splits prod.splits simp del: mutable_None)

lemma start_buf_mark: "start_buf sha st refs x idx full N w = (q, N1, w1) \<Longrightarrow> root_mark N1 = root_mark N"
  by (auto simp: start_buf_def Let_def split: option.splits if_splits prod.splits sum.splits
      dest!: loadChunk_same_ns same_ns_mark)

lemma write_loop_mark:
  assumes "write_loop sha st refs ofs data k ch x N w = (r, ch', x', N', w')"
  shows "root_mark N' = root_mark N"
  using assms
proof (induction "length data - k" arbitrary: k ch x N w rule: less_induct)
  case less
  let ?cs = "chunkSize N" and ?p = "wrap64 (ofs + k)"
  show ?case
  proof (cases "length data \<le> k \<or> ?cs = 0")
    case True
    then show ?thesis using less.prems by (auto simp: write_loop.simps [of sha st refs ofs data k ch x N w] split: if_splits)
  next
    case False
    obtain q N1 w1 where q: "start_buf sha st refs x (?p div ?cs) (?p mod ?cs = 0 \<and> ?cs \<le> length data - k) N w = (q, N1, w1)"
      by (metis prod_cases3)
    note L = start_buf_mark [OF q]
    show ?thesis
    proof (cases q)
      case (Inl e)
      then have "N' = N1" using less.prems False q by (simp add: write_loop.simps [of sha st refs ofs data k ch x N w] Let_def)
      then show ?thesis using L by simp
    next
      case (Inr bf)
      then obtain nw ch1 x1 where nw: "nw = min (?cs - ?p mod ?cs) (length data - k)"
          and run: "write_loop sha st refs ofs data (k + nw) ch1 x1 N1 w1 = (r, ch', x', N', w')"
        using less.prems False q by (simp add: write_loop.simps [of sha st refs ofs data k ch x N w] Let_def)
      have "length data - (k + nw) < length data - k"
        using write_progress [of ?cs "length data" k ?p] False unfolding nw by simp
      from less.hyps [OF this run] show ?thesis using L by simp
    qed
  qed
qed

lemma bufferWrite_mark: "bufferWrite clk sha st h x ofs data N w = (r, x', N', w') \<Longrightarrow> root_mark N' = root_mark N"
  by (auto simp: bufferWrite_def Let_def split: sum.splits if_splits prod.splits dest!: write_loop_mark)

lemma write_admitted_mark:
  assumes "write_admitted E fd h i ofs data Unstable N w = (r, N', w')"
  shows "root_mark N' = root_mark N"
proof -
  obtain x N1 where g: "getOpen i N = (x, N1)" by fastforce
  obtain q x1 N2 w1 where b: "bufferWrite (fd_clk fd 0) (e_sha E) (mount_store E) h x ofs data N1 w = (q, x1, N2, w1)"
    by (metis prod_cases4)
  have "N' = put_open i x1 N2" using assms g b by (cases q) (auto simp: write_admitted_def)
  then show ?thesis using getOpen_mark [OF g] bufferWrite_mark [OF b] by simp
qed

section \<open>The root pointer and the pass\<close>

definition root_at :: "codec \<Rightarrow> (string \<Rightarrow> bytes option) \<Rightarrow> rootPointer \<Rightarrow> bool" where
  "root_at cd ob rp \<longleftrightarrow> (\<exists>raw. ob rootKey = Some raw \<and> unjson_root cd raw = Inr rp \<and> rp_Version rp = snapshotVersion)"

text \<open>The root pointer, the key it names and the snapshot under it agree on the epoch.\<close>

definition keyed :: "codec \<Rightarrow> (string \<Rightarrow> bytes option) \<Rightarrow> bool" where
  "keyed cd ob \<longleftrightarrow> (\<forall>rp. root_at cd ob rp \<longrightarrow>
     rp_Epoch rp < 2 ^ 64 \<and> (\<exists>n. rp_Snapshot rp = snapshotKey (rp_Epoch rp) n) \<and>
     (\<forall>body s. ob (rp_Snapshot rp) = Some body \<longrightarrow> decodeSnapshot cd body = Inr s \<longrightarrow> sn_Epoch s = rp_Epoch rp))"

text \<open>
  The mount is at most one epoch behind the root pointer, by a swap it does not know of; and a pass that is
  to run was begun for a snapshot of the mount's past, which does not sort above the one the root names.
\<close>

definition in_order :: "codec \<Rightarrow> (string \<Rightarrow> bytes option) \<Rightarrow> fs \<Rightarrow> bool" where
  "in_order cd ob N \<longleftrightarrow> keyed cd ob \<and> epoch N < 2 ^ 64 \<and>
     (\<forall>rp. root_at cd ob rp \<longrightarrow> rp_Epoch rp \<le> epoch N + 1 \<and> (\<forall>cur. pruning N = Some cur \<longrightarrow> cur \<le> rp_Snapshot rp)) \<and>
     (\<forall>cur. pruning N = Some cur \<longrightarrow> (\<exists>e n. cur = snapshotKey e n \<and> e \<le> epoch N))"

lemma in_orderD:
  assumes "in_order cd ob N"
  shows "keyed cd ob" "epoch N < 2 ^ 64" "root_at cd ob rp \<Longrightarrow> rp_Epoch rp \<le> epoch N + 1"
    "root_at cd ob rp \<Longrightarrow> pruning N = Some cur \<Longrightarrow> cur \<le> rp_Snapshot rp"
    "pruning N = Some cur \<Longrightarrow> \<exists>e n. cur = snapshotKey e n \<and> e \<le> epoch N"
  using assms by (auto simp: in_order_def)

lemma keyedD:
  assumes "keyed cd ob" "root_at cd ob rp"
  shows "rp_Epoch rp < 2 ^ 64" "\<exists>n. rp_Snapshot rp = snapshotKey (rp_Epoch rp) n" "starts_with snapshotPrefix (rp_Snapshot rp)"
    "ob (rp_Snapshot rp) = Some body \<Longrightarrow> decodeSnapshot cd body = Inr s \<Longrightarrow> sn_Epoch s = rp_Epoch rp"
  using assms snapshotKey_prefix unfolding keyed_def by (blast, blast, metis, blast)

lemma root_at_fun: "root_at cd ob rp \<Longrightarrow> root_at cd ob rp' \<Longrightarrow> rp' = rp"
  by (auto simp: root_at_def)

lemma root_at_cong: "ob' rootKey = ob rootKey \<Longrightarrow> root_at cd ob' rp = root_at cd ob rp"
  by (simp add: root_at_def)

lemma names_root_at: "names_root cd ob key \<longleftrightarrow> (\<exists>rp. root_at cd ob rp \<and> rp_Snapshot rp = key)"
  by (auto simp: names_root_def root_at_def)

lemma snapshotKey_le: "snapshotKey e m \<le> snapshotKey e' n \<Longrightarrow> e < 2 ^ 64 \<Longrightarrow> e \<le> e'"
  using snapshotKey_mono [of e' e n m] by (cases "e' < e") auto

lemma snapshotKey_epoch: "snapshotKey e m = snapshotKey e' n \<Longrightarrow> e < 2 ^ 64 \<Longrightarrow> e' < 2 ^ 64 \<Longrightarrow> e = e'"
  using snapshotKey_le [of e m e' n] snapshotKey_le [of e' n e m] by simp

lemma in_order_cong:
  assumes "in_order cd ob N" "root_mark N' = root_mark N" "ob' rootKey = ob rootKey"
    and "\<And>rp. root_at cd ob rp \<Longrightarrow> ob' (rp_Snapshot rp) = ob (rp_Snapshot rp)"
  shows "in_order cd ob' N'"
proof -
  have m: "epoch N' = epoch N" "pruning N' = pruning N" using assms(2) by (simp_all add: root_mark_def)
  have "keyed cd ob'" using in_orderD(1) [OF assms(1)] assms(4) by (simp add: keyed_def root_at_cong [of ob' ob, OF assms(3)])
  then show ?thesis using assms(1) by (simp add: in_order_def m root_at_cong [of ob' ob, OF assms(3)])
qed

lemma in_order_mark: "in_order cd ob N \<Longrightarrow> root_mark N' = root_mark N \<Longrightarrow> in_order cd ob N'"
  by (rule in_order_cong) simp_all

lemma in_order_chunks:
  assumes "in_order cd ob N" "root_mark N' = root_mark N" "chunks_only ob et ob' et'"
  shows "in_order cd ob' N'"
proof (rule in_order_cong [OF assms(1,2)])
  show "ob' rootKey = ob rootKey" using assms(3) prefix_apart(3) by (auto simp: chunks_only_def)
  show "ob' (rp_Snapshot rp) = ob (rp_Snapshot rp)" if "root_at cd ob rp" for rp
    using keyedD(3) [OF in_orderD(1) [OF assms(1)] that] prefix_apart(1) assms(3) by (auto simp: chunks_only_def)
qed

section \<open>A commit\<close>

text \<open>What was sealed agrees with itself on its epoch.\<close>

definition sealed_at :: "codec \<Rightarrow> sealedCommit \<Rightarrow> bytes \<Rightarrow> bool" where
  "sealed_at cd s nonce \<longleftrightarrow> sc_epoch s < 2 ^ 64 \<and> sc_key s = snapshotKey (sc_epoch s) nonce \<and>
     (\<forall>rp. unjson_root cd (sc_rpBody s) = Inr rp \<longrightarrow> rp_Epoch rp = sc_epoch s \<and> rp_Snapshot rp = sc_key s) \<and>
     (\<forall>snap. decodeSnapshot cd (sc_body s) = Inr snap \<longrightarrow> sn_Epoch snap = sc_epoch s)"

lemma decode_epoch: "decodeSnapshot cd b = Inr s \<Longrightarrow> \<exists>z s0. gunzip cd b = Inr z \<and> unjson_snapshot cd z = Inr s0 \<and> sn_Epoch s = sn_Epoch s0"
  by (auto simp: decodeSnapshot_def sum_bind_Inr split: option.splits if_splits)

lemma seal_at:
  assumes "seal E clk nonce N = Inr s" "codec_ok (e_codec E)" "mount_ok (e_sha E) N" "plain_fs N" "\<And>d. plain_string (e_sha E d)"
  shows "sealed_at (e_codec E) s nonce \<and> sc_epoch s = wrap64 (epoch N + 1)"
proof -
  from assms(1) obtain body rb where b: "encodeSnapshot (e_codec E) (snapshot_of (clk 0) N) = Inr body"
      "json_root (e_codec E) (root_of (clk 1) nonce N) = Inr rb"
      "s = \<lparr>sc_epoch = wrap64 (epoch N + 1), sc_key = snapshotKey (wrap64 (epoch N + 1)) nonce,
            sc_body = body, sc_rpBody = rb, sc_rootETag = rootETag N, sc_changes = changes N\<rparr>"
    by (auto simp: seal_def sum_bind_Inr split: if_splits sum.splits)
  have "unjson_root (e_codec E) rb = Inr (root_of (clk 1) nonce N)"
    using assms(2,4) b(2) snapshotKey_plain by (simp add: codec_ok_def root_of_def plain_fs_def)
  moreover have "sn_Epoch snap = wrap64 (epoch N + 1)" if d: "decodeSnapshot (e_codec E) body = Inr snap" for snap
  proof -
    obtain z where z: "json_snapshot (e_codec E) (snapshot_of (clk 0) N) = Inr z" "gzip (e_codec E) z = Inr body"
      using b(1) by (auto simp: encodeSnapshot_def sum_bind_Inr)
    then have "gunzip (e_codec E) body = Inr z" "unjson_snapshot (e_codec E) z = Inr (json_image (snapshot_of (clk 0) N))"
      using assms(2) snapshot_plain [OF assms(3-5)] by (auto simp: codec_ok_def)
    then show ?thesis using decode_epoch [OF d] by (auto simp: json_image_def snapshot_of_def)
  qed
  ultimately show ?thesis by (auto simp: b(3) sealed_at_def root_of_def)
qed

lemma commit_objs_order:
  assumes "in_order cd ob N" "sealed_at cd s nonce" "sc_epoch s = epoch N + 1"
    and "\<And>k. k \<noteq> rootKey \<Longrightarrow> k \<noteq> sc_key s \<Longrightarrow> ob' k = ob k"
    and "ob' rootKey = ob rootKey \<or> ob' rootKey = Some (sc_rpBody s) \<and> ob' (sc_key s) = Some (sc_body s)"
    and "ob' (sc_key s) = ob (sc_key s) \<or> ob' (sc_key s) = Some (sc_body s) \<or> \<not> names_root cd ob' (sc_key s)"
  shows "in_order cd ob' N"
proof -
  note s = assms(2) [unfolded sealed_at_def] and K = keyedD [OF in_orderD(1) [OF assms(1)]]
  have old: "root_at cd ob rp" if "root_at cd ob' rp" "ob' rootKey = ob rootKey" for rp
    using that root_at_cong by blast
  have new: "rp_Epoch rp = sc_epoch s \<and> rp_Snapshot rp = sc_key s" if "root_at cd ob' rp" "ob' rootKey = Some (sc_rpBody s)" for rp
    using that s by (auto simp: root_at_def)
  have up: "cur \<le> sc_key s" if cur: "pruning N = Some cur" for cur
  proof -
    obtain e n where "cur = snapshotKey e n" "e \<le> epoch N" using in_orderD(5) [OF assms(1) cur] by blast
    then show ?thesis using snapshotKey_mono [of e "sc_epoch s" n nonce] s assms(3) by simp
  qed
  have "rp_Epoch rp < 2 ^ 64 \<and> (\<exists>n. rp_Snapshot rp = snapshotKey (rp_Epoch rp) n) \<and>
      (\<forall>body sn. ob' (rp_Snapshot rp) = Some body \<longrightarrow> decodeSnapshot cd body = Inr sn \<longrightarrow> sn_Epoch sn = rp_Epoch rp) \<and>
      rp_Epoch rp \<le> epoch N + 1 \<and> (\<forall>cur. pruning N = Some cur \<longrightarrow> cur \<le> rp_Snapshot rp)"
    if r: "root_at cd ob' rp" for rp
  proof (cases "ob' rootKey = ob rootKey")
    case True
    note o = old [OF r True]
    have e: "rp_Epoch rp = sc_epoch s" if "rp_Snapshot rp = sc_key s"
      using K(1,2) [OF o] s that snapshotKey_epoch by metis
    have ne: "rp_Snapshot rp \<noteq> rootKey" using prefix_apart(2) [OF K(3) [OF o]] .
    have "sn_Epoch sn = rp_Epoch rp" if b: "ob' (rp_Snapshot rp) = Some body" "decodeSnapshot cd body = Inr sn" for body sn
    proof -
      have "ob (rp_Snapshot rp) = Some body \<or> rp_Snapshot rp = sc_key s \<and> body = sc_body s"
        using b(1) assms(4) [OF ne] assms(6) r by (cases "rp_Snapshot rp = sc_key s") (auto simp: names_root_at)
      then show ?thesis using K(4) [OF o _ b(2)] e s b(2) by metis
    qed
    then show ?thesis using K(1,2) [OF o] in_orderD(3,4) [OF assms(1) o] by blast
  next
    case False
    then have "ob' rootKey = Some (sc_rpBody s)" "ob' (sc_key s) = Some (sc_body s)" using assms(5) by auto
    with new [OF r] show ?thesis using s assms(3) up by auto
  qed
  then show ?thesis using in_orderD(2,5) [OF assms(1)] unfolding in_order_def keyed_def by blast
qed

lemma applyLocked_order:
  assumes "in_order cd ob N" "sealed_at cd s nonce" "\<And>rp. root_at cd ob rp \<Longrightarrow> rp_Snapshot rp = sc_key s" "epoch N \<le> sc_epoch s"
  shows "in_order cd ob (applyLocked t s etg N)"
proof -
  note s = assms(2) [unfolded sealed_at_def] and K = keyedD [OF in_orderD(1) [OF assms(1)]]
  let ?N = "applyLocked t s etg N"
  have ep: "epoch ?N = sc_epoch s" by (simp add: applyLocked_def schedulePrune_def)
  have pr: "pruning ?N = pruning N \<or> pruning ?N = Some (sc_key s)" by (simp add: applyLocked_def schedulePrune_def)
  have "rp_Epoch rp = sc_epoch s" if "root_at cd ob rp" for rp
    using K(1,2) [OF that] assms(3) [OF that] s snapshotKey_epoch by metis
  moreover have "cur \<le> rp_Snapshot rp" if "root_at cd ob rp" "pruning ?N = Some cur" for rp cur
    using pr that assms(3) [OF that(1)] in_orderD(4) [OF assms(1) that(1)] by auto
  moreover have "\<exists>e n. cur = snapshotKey e n \<and> e \<le> sc_epoch s" if "pruning ?N = Some cur" for cur
    using pr that in_orderD(5) [OF assms(1), of cur] s assms(4) by (metis le_trans option.inject order_refl)
  ultimately show ?thesis using in_orderD(1) [OF assms(1)] s unfolding in_order_def ep by auto
qed

context object_store
begin

lemma resolveRoot_order:
  assumes "resolveRoot E N w = (v, N', w')" "mount_store E = st" "key_ok rootKey" "alone E" "good w"
    and "in_order (e_codec E) (objs w) N"
  shows "in_order (e_codec E) (objs w) N' \<and> epoch N' \<le> epoch N + 1 \<and>
    (v = probeOurs \<longrightarrow> (\<forall>rp. root_at (e_codec E) (objs w) rp \<longrightarrow> rp_Snapshot rp = doubtKey N))"
proof -
  obtain r w1 where g: "GetWithETag st rootKey w = (r, w1)" by fastforce
  have G: "\<And>raw et. r = Inr (raw, et) \<Longrightarrow> objs w rootKey = Some raw" using GetWithETag_law [OF assms(5,3) g] by auto
  obtain v0 rp where c: "classifyRoot (e_codec E) r (rootSnapshot N) (doubtKey N) = (v0, rp)" by fastforce
  have e: "e_others E 3 (N, w1) = (N, w1)" using assms(4) by (simp add: alone_def)
  have run: "(root_mark N' = root_mark N \<and> v \<noteq> probeOurs) \<or> (v0 = probeOurs \<and> epoch N' = rp_Epoch rp \<and> pruning N' = pruning N)"
    using assms(1,2) g c e
    by (auto simp: resolveRoot_def Let_def fire_root_def root_mark_def fire_mode_def split: probeVerdict.splits option.splits)
  then consider (same) "root_mark N' = root_mark N" "v \<noteq> probeOurs"
    | (ours) "v0 = probeOurs" "epoch N' = rp_Epoch rp" "pruning N' = pruning N" by blast
  then show ?thesis
  proof cases
    case same
    then show ?thesis using in_order_mark [OF assms(6)] by (simp add: root_mark_def)
  next
    case ours
    obtain raw et' where "r = Inr (raw, et')" "unjson_root (e_codec E) raw = Inr rp" "rp_Version rp = snapshotVersion"
        "rp_Snapshot rp = doubtKey N"
      using classifyRoot_ours c ours(1) by metis
    then have r: "root_at (e_codec E) (objs w) rp" "rp_Snapshot rp = doubtKey N" using G by (auto simp: root_at_def)
    note O = in_orderD [OF assms(6)] and K = keyedD [OF in_orderD(1) [OF assms(6)] r(1)]
    have "\<exists>e n. cur = snapshotKey e n \<and> e \<le> rp_Epoch rp" if cur: "pruning N = Some cur" for cur
    proof -
      obtain e n where en: "cur = snapshotKey e n" "e \<le> epoch N" using O(5) [OF cur] by blast
      obtain n' where "rp_Snapshot rp = snapshotKey (rp_Epoch rp) n'" using K(2) by blast
      then have "e \<le> rp_Epoch rp" using O(4) [OF r(1) cur] en O(2) snapshotKey_le [of e n "rp_Epoch rp" n'] by simp
      then show ?thesis using en(1) by blast
    qed
    moreover have "rp' = rp" if "root_at (e_codec E) (objs w) rp'" for rp' using root_at_fun [OF r(1) that] .
    ultimately show ?thesis using O(1,3,4) K(1) r unfolding in_order_def ours by (metis le_add1)
  qed
qed

lemma commitSealed_order:
  assumes "commitSealed E clk s N0 w0 = (r, N', w')" "mount_store E = st" "key_ok rootKey" "key_ok (sc_key s)"
    and "sealed_as (e_codec E) s snap" "good w0" "alone E"
    and "in_order (e_codec E) (objs w0) N0" "sealed_at (e_codec E) s nonce" "sc_epoch s = epoch N0 + 1"
  shows "in_order (e_codec E) (objs w') N' \<and> epoch N' \<le> epoch N0 + 1"
proof -
  let ?cd = "e_codec E"
  have o: "e_others E k p = p" for k p using assms(7) by (simp add: alone_def)
  have ne: "sc_key s \<noteq> rootKey" using assms(5) prefix_apart(2) by (auto simp: sealed_as_def)
  obtain p w1 where p: "Put st (sc_key s) (sc_body s) w0 = (p, w1)" by fastforce
  have P: "good w1" "\<And>k. k \<noteq> sc_key s \<Longrightarrow> objs w1 k = objs w0 k" "p = None \<Longrightarrow> objs w1 (sc_key s) = Some (sc_body s)"
      "objs w1 (sc_key s) = objs w0 (sc_key s) \<or> objs w1 (sc_key s) = Some (sc_body s)"
    using Put_law [OF assms(6,4) p] by auto
  show ?thesis
  proof (cases p)
    case (Some e)
    have "in_order ?cd (objs w1) N0" using commit_objs_order [OF assms(8-10), of "objs w1"] P(2,4) ne by auto
    then show ?thesis using assms(1,2) p Some by (auto simp: commitSealed_def o)
  next
    case None
    obtain fl w2 where f: "swap_root E (fallbackAllowed N0) s w1 = (fl, w2)" by fastforce
    have S: "good w2" "swapped ?cd s (objs w1) (objs w2) fl" using swap_root_store [OF f assms(2) P(1) assms(3,4,5)] by auto
    have b: "objs w1 (sc_key s) = Some (sc_body s)" using P(3) None by simp
    have del: "objs w2 (sc_key s) = Some (sc_body s) \<or> \<not> names_root ?cd (objs w2) (sc_key s)"
      using S(2) b names_root_cong [of "objs w2" "objs w1"] by (auto simp: swapped_def)
    have O: "in_order ?cd (objs w2) N0"
    proof (rule commit_objs_order [OF assms(8-10)])
      show "objs w2 k = objs w0 k" if "k \<noteq> rootKey" "k \<noteq> sc_key s" for k using S(2) P(2) that by (simp add: swapped_def)
      show "objs w2 rootKey = objs w0 rootKey \<or> objs w2 rootKey = Some (sc_rpBody s) \<and> objs w2 (sc_key s) = Some (sc_body s)"
        using S(2) P(2) [of rootKey] ne b by (auto simp: swapped_def)
    qed (use del in auto)
    have mark: "in_order ?cd (objs w2) M" if "root_mark M = root_mark N0" for M using in_order_mark [OF O that] .
    have le: "root_mark M = root_mark N0 \<Longrightarrow> epoch M \<le> sc_epoch s" for M using assms(10) by (simp add: root_mark_def)
    have appl: "in_order ?cd (objs w2) (applyLocked t s et M) \<and> epoch (applyLocked t s et M) = epoch N0 + 1"
      if "in_order ?cd (objs w2) M" "epoch M \<le> sc_epoch s" "\<And>rp. root_at ?cd (objs w2) rp \<Longrightarrow> rp_Snapshot rp = sc_key s" for t et M
      using applyLocked_order [OF that(1) assms(9) that(3,2)] assms(10) by (simp add: applyLocked_def schedulePrune_def)
    have written: "rp_Snapshot rp = sc_key s" if "reported_written fl" "root_at ?cd (objs w2) rp" for rp
      using that S(2) assms(9) by (auto simp: swapped_def root_at_def sealed_at_def)
    have e0: "epoch N0 \<le> epoch N0 + 1" by simp
    show ?thesis
    proof (cases fl)
      case (FKnown et)
      let ?N1 = "case fire_root rootSwapOK N0 of Some N1 \<Rightarrow> N1 | None \<Rightarrow> N0"
      have m: "root_mark ?N1 = root_mark N0" by (auto simp: fire_root_def split: option.split)
      have "N' = applyLocked (clk 2) s et ?N1" "w' = w2" using assms(1,2) p None f FKnown by (auto simp: commitSealed_def o)
      then show ?thesis using appl [OF mark [OF m] le [OF m]] written FKnown by simp
    next
      case (FRefused e)
      then show ?thesis using assms(1,2) p None f O by (auto simp: commitSealed_def o)
    next
      case (FDoubt e1 e2 e3)
      show ?thesis
      proof (cases "fire_root rootSwapUnknown (N0\<lparr>doubtKey := sc_key s\<rparr>)")
        case fr: None
        have m: "root_mark (N0\<lparr>doubtKey := []\<rparr>) = root_mark N0" by simp
        have "w' = w2" "e1 = None \<and> N' = applyLocked (clk 2) s [] (N0\<lparr>doubtKey := []\<rparr>) \<or> N' = N0\<lparr>doubtKey := []\<rparr>"
          using assms(1,2) p None f FDoubt fr by (auto simp: commitSealed_def o split: option.splits)
        then show ?thesis using appl [OF mark [OF m] le [OF m]] written FDoubt mark [OF m] by auto
      next
        case (Some N1)
        have m: "root_mark N1 = root_mark N0" and d: "doubtKey N1 = sc_key s" using Some by (auto simp: fire_root_def)
        obtain v N2 w3 where v: "resolveRoot E N1 w2 = (v, N2, w3)" by (metis prod_cases3)
        note R = resolveRoot_order [OF v assms(2,3,7) S(1) mark [OF m]]
        have ob: "objs w3 = objs w2" using resolveRoot_alone [OF v assms(2,3,7) S(1)] by blast
        have e2: "epoch N2 \<le> sc_epoch s" using R m assms(10) by (simp add: root_mark_def)
        have "w' = w3" "v = probeOurs \<and> N' = applyLocked (clk 2) s (rootETag N2) N2 \<or> N' = N2"
          using assms(1,2) p None f FDoubt Some v by (cases v; auto simp: commitSealed_def o)+
        then show ?thesis using appl [OF conjunct1 [OF R] e2] R ob e2 d assms(10) by auto
      qed
    qed
  qed
qed

lemma commitPhase_order:
  assumes "commitPhase E clk nonce N w = (r, N', w')" "commit_env st key_ok E nonce" "alone E"
    and "good w" "mount_ok (e_sha E) N" "stored_ok (e_sha E) (objs w) N" "plain_fs N"
    and "in_order (e_codec E) (objs w) N" "epoch N + 1 < 2 ^ 64"
  shows "in_order (e_codec E) (objs w') N' \<and> epoch N' \<le> epoch N + 1"
proof -
  note E = assms(2) [unfolded commit_env_def]
  have keys: "\<And>d. key_ok (chunkPrefix @ e_sha E d)" and hash: "hash_ok (e_sha E)" using E by blast+
  obtain q N1 w1 where q: "settleAll (e_sha E) st (e_range E (fopen N)) N w = (q, N1, w1)" by (metis prod_cases3)
  note q' = q [unfolded settleAll_def]
  have same: "same_files (e_sha E) N N1" using flush_list_right [OF q' hash assms(5)] by blast
  have st1: "good w1" "chunks_only (objs w) (etag w) (objs w1) (etag w1)"
    using flush_list_store [OF q' assms(4) keys hash assms(5,6)] by auto
  have fr: "flush_frame N N1" using flush_list_frame [OF q'] .
  have O: "in_order (e_codec E) (objs w1) N1" using in_order_chunks [OF assms(8) flush_frame_mark [OF fr] st1(2)] .
  have e1: "epoch N1 = epoch N" using fr by (simp add: flush_frame_def)
  have stop: ?thesis if "N' = N1" "w' = w1" using O e1 that by simp
  show ?thesis
  proof (cases q)
    case (Some e)
    then show ?thesis using assms(1) q E stop by (simp add: commitPhase_def)
  next
    case None
    show ?thesis
    proof (cases "seal E clk nonce N1")
      case (Inl e)
      then show ?thesis using assms(1) q E None stop by (simp add: commitPhase_def)
    next
      case (Inr s)
      then have c: "commitSealed E clk s N1 w1 = (r, N', w')" using assms(1) q E None by (simp add: commitPhase_def)
      have M1: "mount_ok (e_sha E) N1" using same by (simp add: same_files_def)
      have plain: "plain_fs N1" using same_files_plain [OF same _ assms(7)] fr by (simp add: flush_frame_def)
      obtain snap where snap: "sealed_as (e_codec E) s snap" "sc_key s = snapshotKey (wrap64 (epoch N1 + 1)) nonce"
        using seal_right [OF Inr _ M1 plain] E by auto
      have s: "sealed_at (e_codec E) s nonce" "sc_epoch s = epoch N1 + 1"
        using seal_at [OF Inr _ M1 plain] E assms(9) e1 by auto
      show ?thesis using commitSealed_order [OF c _ _ _ snap(1) st1(1) assms(3) O s] E e1 by (simp add: snap(2))
    qed
  qed
qed

lemma Sync_order:
  assumes "Sync E clk nonce N w = (r, N', w')" "commit_env st key_ok E nonce" "alone E" "whole_here E N w"
    and "in_order (e_codec E) (objs w) N" "epoch N + 2 < 2 ^ 64"
  shows "in_order (e_codec E) (objs w') N' \<and> epoch N' \<le> epoch N + 2"
proof -
  note E = assms(2) [unfolded commit_env_def] and W = wholeD [OF assms(4)]
  have keys: "\<And>d. key_ok (chunkPrefix @ e_sha E d)" and hash: "hash_ok (e_sha E)" using E by blast+
  have o: "e_others E k p = p" for k p using assms(3) by (simp add: alone_def)
  obtain q N1 w1 where q: "flushAll (e_sha E) st (e_range E (fopen N)) N w = (q, N1, w1)" by (metis prod_cases3)
  note q' = q [unfolded flushAll_def]
  have W1: "whole_here E N1 w1" using whole_flush [OF q' assms(2,4)] .
  have ch: "chunks_only (objs w) (etag w) (objs w1) (etag w1)" using flush_list_store [OF q' W(3) keys hash W(4,5)] by auto
  have fr: "flush_frame N N1" using flush_list_frame [OF q'] .
  have O: "in_order (e_codec E) (objs w1) N1" using in_order_chunks [OF assms(5) flush_frame_mark [OF fr] ch] .
  have e1: "epoch N1 = epoch N" using fr by (simp add: flush_frame_def)
  note W1' = wholeD [OF W1]
  show ?thesis
  proof (cases "q = None \<and> dirty N1 \<and> mode N1 \<noteq> mountDiverged")
    case False
    then have "w' = w1 \<and> N' = N1" using assms(1) q E by (cases q) (auto simp: Sync_def o split: if_splits)
    then show ?thesis using O e1 by simp
  next
    case True
    show ?thesis
    proof (cases "rootKnowledge N1 = rootInDoubt")
      case False
      then have "commitPhase E clk nonce N1 w1 = (r, N', w')" using assms(1) q E True by (auto simp: Sync_def o)
      from commitPhase_order [OF this assms(2,3) W1'(3-6) O] show ?thesis using e1 assms(6) by simp
    next
      case doubt: True
      obtain v N2 w2 where v: "resolveRoot E N1 w1 = (v, N2, w2)" by (metis prod_cases3)
      have R: "good w2" "objs w2 = objs w1" "same_data N1 N2"
        using resolveRoot_alone [OF v _ _ assms(3) W1'(3)] E by (auto simp: same_marks_def)
      have O2: "in_order (e_codec E) (objs w2) N2" "epoch N2 \<le> epoch N + 1"
        using resolveRoot_order [OF v _ _ assms(3) W1'(3) O] E R(2) e1 by auto
      have "safe (e_codec E) (e_sha E) N2 w2" using same_data_safe [OF R(3) safe_same_objs [OF W1'(1) R(1,2)]] .
      then have s2: "mount_ok (e_sha E) N2" "stored_ok (e_sha E) (objs w2) N2" "plain_fs N2" by (simp_all add: safe_state_def)
      have "commitPhase E clk nonce N2 w2 = (r, N', w') \<or> N' = N2 \<and> w' = w2"
        using assms(1) q E True doubt v by (cases v) (auto simp: Sync_def o)
      then show ?thesis
        using commitPhase_order [of E clk nonce N2 w2 r N' w', OF _ assms(2,3) R(1) s2 O2(1)] O2 assms(6) by auto
    qed
  qed
qed

section \<open>A pass\<close>

text \<open>A pass leaves the root pointer and the snapshot it names, and with them all that holds between two calls.\<close>

lemma prune_pass_keeps:
  assumes "prune_pass E N w = Some (N', w')" "mount_store E = st" "whole_here E N w" "in_order (e_codec E) (objs w) N"
  shows "whole_here E N' w' \<and> in_order (e_codec E) (objs w') N' \<and> objs w' rootKey = objs w rootKey \<and>
    (\<forall>key s. bucket_at key_ok (e_codec E) (objs w) key s \<longrightarrow> objs w' key = objs w key)"
proof (cases "pruning N")
  case None
  then show ?thesis using assms(1,3,4) by (simp add: prune_pass_def)
next
  case (Some cur)
  note W = wholeD [OF assms(3)]
  obtain r where p: "pruneSnapshots st (retention N) cur w = Some (r, w')" and N': "N' = N\<lparr>pruning := None\<rparr>"
    using assms(1,2) Some by (auto simp: prune_pass_def)
  have P: "good w'" "\<And>k. objs w' k \<noteq> objs w k \<Longrightarrow> starts_with snapshotPrefix k \<and> k < cur"
    using pruneSnapshots_store [OF W(3), of "retention N" cur] p by auto
  have r: "objs w' rootKey = objs w rootKey" using P(2) prefix_apart(2) by blast
  have c: "objs w' (chunkPrefix @ h) = objs w (chunkPrefix @ h)" for h
    using P(2) prefix_apart(1) starts_chunk by metis
  have at: "objs w' (rp_Snapshot rp) = objs w (rp_Snapshot rp)" if "root_at (e_codec E) (objs w) rp" for rp
    using P(2) in_orderD(4) [OF assms(4) that Some] leD by blast
  have key: "objs w' key = objs w key" if "bucket_at key_ok (e_codec E) (objs w) key s" for key s
    using that at by (auto simp: bucket_at_def names_root_at)
  have d: "same_data N N'" by (simp add: N' same_data_def)
  have b: "bucket_ok key_ok (e_codec E) (e_sha E) (objs w)" using W(1) by (simp add: safe_state_def)
  have "bucket_ok key_ok (e_codec E) (e_sha E) (objs w')"
    using bucket_ok_cong [OF b r _ key] by (simp add: chunk_there_def c)
  then have "safe (e_codec E) (e_sha E) N w'"
    using W(1) P(1) stored_ok_chunks [of "objs w'" "objs w", OF c] by (simp add: safe_state_def)
  from same_data_safe [OF d this] have "safe (e_codec E) (e_sha E) N' w'" .
  moreover have "dirty N' \<or> remountable key_ok (e_codec E) (objs w') N'"
  proof (cases "dirty N")
    case False
    then obtain k s where k: "bucket_at key_ok (e_codec E) (objs w) k s" "holds_fs s N" using W(2) by (auto simp: remountable_def)
    have "bucket_at key_ok (e_codec E) (objs w') k s" using bucket_at_cong [OF k(1) r key [OF k(1)]] .
    moreover have "holds_fs s N'" using k(2) by (simp add: N' holds_fs_def)
    ultimately show ?thesis by (auto simp: remountable_def)
  qed (simp add: N')
  moreover have "in_order (e_codec E) (objs w') N'"
  proof -
    have "in_order (e_codec E) (objs w') N" by (rule in_order_cong [OF assms(4) refl r at])
    then show ?thesis by (simp add: in_order_def N')
  qed
  ultimately show ?thesis using r key by (auto simp: whole_def)
qed

end

end
