(* ===== verification/Lifetime.thy ===== *)
theory Lifetime
  imports RootOrder
begin

text \<open>
  The life of a bucket: mounts, calls, commits, failures and crashes, in any order. The calls are steps of
  a relation on the mounted filesystem, if there is one, and the world of the store; what holds between
  two steps is shown once, by induction over it, and with it what a client may rely on from one mount to
  the next.
\<close>

section \<open>Mounting\<close>

text \<open>
  A bucket nobody has mounted: its chunks are what they are named, it holds nothing or a sound snapshot, and
  its root pointer, the key that names and the snapshot under it are of one epoch.
\<close>

definition bucket_sound :: "(string \<Rightarrow> bool) \<Rightarrow> codec \<Rightarrow> (bytes \<Rightarrow> string) \<Rightarrow> (string \<Rightarrow> bytes option) \<Rightarrow> bool" where
  "bucket_sound kok cd sha ob \<longleftrightarrow> chunks_honest sha ob \<and> bucket_ok kok cd sha ob \<and> keyed cd ob"

lemma safe_bucket_sound:
  "safe_state kok cd sha obj gd N w \<Longrightarrow> in_order cd (obj w) N \<Longrightarrow> gd w \<and> bucket_sound kok cd sha (obj w)"
  by (simp add: safe_state_def stored_ok_def bucket_sound_def in_order_def)

text \<open>A filesystem as \<open>New\<close> prepares it, before it has read the bucket.\<close>

definition blank :: "(bytes \<Rightarrow> string) \<Rightarrow> fs \<Rightarrow> bool" where
  "blank sha N \<longleftrightarrow>
     fopen N = fmempty \<and> perm N = unix_Check \<and> \<not> skipVerify N \<and> cache_ok sha (cache N) \<and> knownChunks N = {||} \<and>
     plain_string (writerID N) \<and> budget_used N = 0 \<and> 0 < chunkSize N \<and> chunkSize N < 2 ^ 32 \<and> maxFileSize N < 2 ^ 64 \<and> \<not> dirty N \<and> pruning N = None"

lemma blank_budget: "fopen N = fmempty \<Longrightarrow> budget_used N = 0 \<Longrightarrow> budget_ok N"
  by (simp add: budget_ok_def)

lemma root_only_wf:
  assumes "inodes N = fmupd 1 r fmempty" "same_place root_inode r" "nextIno N = 2" "fopen N = fmempty" "perm N = unix_Check"
  shows "ns_wf N"
proof (rule ns_wf_place [OF _ _ _ _ fresh_fs_wf])
  show "rel_option same_place (fmlookup (inodes fresh_fs) j) (fmlookup (inodes N) j)" for j using assms(1,2) by simp
qed (use assms in simp_all)

lemma adopt_order:
  assumes "keyed cd ob" "ob rootKey = Some raw" "unjson_root cd raw = Inr rp" "rp_Version rp = snapshotVersion"
    and "ob (rp_Snapshot rp) = Some body" "decodeSnapshot cd body = Inr s" "pruning N = None"
  shows "in_order cd ob (adopt rp et s N)"
proof -
  have r: "root_at cd ob rp" using assms(2-4) by (simp add: root_at_def)
  have e: "sn_Epoch s = rp_Epoch rp" using keyedD(4) [OF assms(1) r assms(5,6)] .
  have "rp' = rp" if "root_at cd ob rp'" for rp' using root_at_fun [OF r that] .
  then show ?thesis using assms(1,7) keyedD(1) [OF assms(1) r] by (auto simp: in_order_def adopt_def e)
qed

context object_store
begin

lemma adopt_whole:
  assumes "bucket_at key_ok (e_codec E) (objs w) key s" "snap_ok (e_sha E) (objs w) s" "blank (e_sha E) N"
    and "chunks_honest (e_sha E) (objs w)" "good w"
  shows "whole_here E (adopt rp et s N) w"
proof -
  let ?N = "adopt rp et s N"
  obtain M where M: "holds_fs s M" "fopen M = fmempty" "mount_ok (e_sha E) M" "ns_wf M" "plain_fs M" "files_there (objs w) M"
    using assms(2) by (auto simp: snap_ok_def)
  note b = assms(3) [unfolded blank_def]
  have a: "inodes ?N = inodes M" "nextIno ?N = nextIno M" "chunkSize ?N = chunkSize M" "fopen ?N = fmempty"
    using M(1) b by (simp_all add: adopt_def holds_fs_def)
  have op: "open_of ?N = open_of M" using a(4) M(2) by (intro open_of_cong) simp
  have r: "maxFileSize ?N = maxFileSize N" "cache ?N = cache N" "skipVerify ?N = skipVerify N" "knownChunks ?N = knownChunks N"
      "writerID ?N = writerID N" "perm ?N = perm N" "budget_used ?N = budget_used N" "dirty ?N = dirty N"
    by (simp_all add: adopt_def)
  have "mount_ok (e_sha E) ?N" using M(2,3) b by (simp add: mount_ok_def a r op)
  moreover have "ns_wf ?N = ns_wf M" by (rule ns_wf_cong) (use M(2,4) b ns_wfD(8) [OF M(4)] in \<open>simp_all add: a r\<close>)
  moreover have "stored_ok (e_sha E) (objs w) ?N" using assms(4) M(6) b by (simp add: stored_ok_def known_there_def files_there_def a r)
  moreover have "plain_fs ?N" using M(5) b by (simp add: plain_fs_def a r)
  moreover have "bucket_ok key_ok (e_codec E) (e_sha E) (objs w)" using assms(1,2) by (auto simp: bucket_ok_def)
  moreover have "remountable key_ok (e_codec E) (objs w) ?N"
    using assms(1) M(1) unfolding remountable_def holds_fs_def a by blast
  ultimately show ?thesis using assms(5) M(4) blank_budget [of ?N] a(4) b by (simp add: whole_def safe_state_def r)
qed

lemma initEmpty_whole:
  assumes "initEmpty E clk nonce N w = (r, N', w')" "commit_env st key_ok E nonce" "alone E" "blank (e_sha E) N"
    and "chunks_honest (e_sha E) (objs w)" "objs w rootKey = None" "good w" "fresh_nonce nonce (objs w)"
  shows "safe (e_codec E) (e_sha E) N' w' \<and> in_order (e_codec E) (objs w') N' \<and> (r = None \<longrightarrow> whole_here E N' w')"
proof -
  note E = assms(2) [unfolded commit_env_def] and b = assms(4) [unfolded blank_def]
  define N1 where "N1 = N\<lparr>inodes := fmupd rootInodeID (empty_root (clk 0) N) fmempty, nextIno := rootInodeID + 1,
      epoch := 0, fsid := fsidFor (Name (mount_store E)), rootETag := [], rootSnapshot := []\<rparr>"
  let ?r = "empty_root (clk 0) N"
  have i: "inodes N1 = fmupd 1 ?r fmempty" by (simp add: N1_def rootInodeID_def)
  have keep: "fopen N1 = fmempty" "perm N1 = unix_Check" "nextIno N1 = 2" "chunkSize N1 = chunkSize N" "maxFileSize N1 = maxFileSize N"
      "cache N1 = cache N" "skipVerify N1 = skipVerify N" "knownChunks N1 = {||}" "writerID N1 = writerID N" "budget_used N1 = 0"
    using b by (simp_all add: N1_def rootInodeID_def)
  have f: "file_ok (e_sha E) cs ?r new_openFile" for cs
    by (simp add: file_ok_def empty_root_def bufs_ok_def apart_def trims_ok_def new_openFile_def fbyte_def eff_def tail_clean_def byte_at_def)
  have mo: "mount_ok (e_sha E) N1"
    using f b by (simp add: mount_ok_def i keep open_of_def) (simp add: empty_root_def rootInodeID_def)
  have pl: "plain_fs N1" using b
    by (auto simp: plain_fs_def i keep empty_root_def plain_string_def isDir_def entries_def split: if_splits)
  have wf: "ns_wf N1"
    by (rule root_only_wf [OF i _ keep(3,1,2)]) (simp add: same_place_def root_inode_def empty_root_def rootInodeID_def)
  have sto: "stored_ok (e_sha E) (objs w) N1"
    using assms(5) by (auto simp: stored_ok_def known_there_def files_there_def keep i empty_root_def split: if_splits)
  have S1: "safe (e_codec E) (e_sha E) N1 w"
    using mo pl wf sto assms(6,7) blank_budget [OF keep(1,10)] by (simp add: safe_state_def bucket_ok_def)
  have O1: "in_order (e_codec E) (objs w) N1" using b assms(6) by (simp add: N1_def in_order_def keyed_def root_at_def)
  show ?thesis
  proof (cases "seal E (clk \<circ> Suc) nonce N1")
    case (Inl e)
    then show ?thesis using assms(1) S1 O1 by (auto simp: initEmpty_def N1_def [symmetric] Let_def)
  next
    case (Inr s)
    then have c: "commitSealed E (clk \<circ> Suc) s N1 w = (r, N', w')" using assms(1) by (simp add: initEmpty_def N1_def [symmetric] Let_def)
    obtain snap where s: "sealed_as (e_codec E) s snap" "holds_fs snap N1" "sc_key s = snapshotKey (wrap64 (epoch N1 + 1)) nonce"
        "sc_changes s = changes N1"
      using seal_right [OF Inr _ mo pl] E by auto
    have sk: "key_ok (sc_key s)" "objs w (sc_key s) = None" using E assms(8) by (auto simp: s(3) fresh_nonce_def)
    have "snap_ok (e_sha E) (objs w) snap"
      using settled_image [OF mo wf pl _ s(2)] sto by (simp add: stored_ok_def open_of_def keep new_openFile_def)
    moreover have "others_keep E P" for P using assms(3) by (simp add: alone_def others_keep_def)
    ultimately have safe: "safe (e_codec E) (e_sha E) N' w'"
      using commitSealed_safe [OF c _ _ sk(1) s(1) S1 sk(2)] E by blast
    moreover have "in_order (e_codec E) (objs w') N'"
    proof -
      have "sealed_at (e_codec E) s nonce" "sc_epoch s = epoch N1 + 1" using seal_at [OF Inr _ mo pl] E by (auto simp: N1_def)
      from commitSealed_order [OF c _ _ sk(1) s(1) assms(7,3) O1 this] show ?thesis using E by blast
    qed
    moreover have "remountable key_ok (e_codec E) (objs w') N'" if "r = None"
    proof -
      have n: "bucket_at key_ok (e_codec E) (objs w') (sc_key s) snap" "same_data N1 N'"
        using commitSealed_nil [OF c [unfolded that] _ _ sk(1) s(1) assms(7,3) s(4)] E by auto
      then have "holds_fs snap N'" using s(2) by (simp add: holds_fs_def same_data_def)
      then show ?thesis using n(1) by (auto simp: remountable_def)
    qed
    ultimately show ?thesis by (simp add: whole_def)
  qed
qed

lemma loadOrInit_whole:
  assumes "loadOrInit E clk nonce N w = (r, N', w')" "commit_env st key_ok E nonce" "alone E" "blank (e_sha E) N"
    and "bucket_sound key_ok (e_codec E) (e_sha E) (objs w)" "good w" "fresh_nonce nonce (objs w)"
  shows "good w' \<and> bucket_sound key_ok (e_codec E) (e_sha E) (objs w') \<and>
    (r = None \<longrightarrow> whole_here E N' w' \<and> in_order (e_codec E) (objs w') N')"
proof -
  note E = assms(2) [unfolded commit_env_def] and B = assms(5) [unfolded bucket_sound_def]
  obtain q w1 where g: "GetWithETag st rootKey w = (q, w1)" by fastforce
  have G: "good w1" "objs w1 = objs w" "q = Inl ErrNotFound \<Longrightarrow> objs w rootKey = None"
      "\<And>raw et. q = Inr (raw, et) \<Longrightarrow> objs w rootKey = Some raw"
    using GetWithETag_law [OF assms(6) _ g] E by auto
  have same: ?thesis if "objs w' = objs w" "good w'" "r \<noteq> None" using that assms(5) by auto
  show ?thesis
  proof (cases q)
    case (Inl e)
    show ?thesis
    proof (cases "e = ErrNotFound \<and> mode N \<noteq> mountReadOnly")
      case True
      then have "initEmpty E clk nonce N w1 = (r, N', w')" using assms(1) g E Inl by (auto simp: loadOrInit_def)
      from initEmpty_whole [OF this assms(2-4)] B G True Inl assms(7)
      have "safe (e_codec E) (e_sha E) N' w' \<and> in_order (e_codec E) (objs w') N' \<and> (r = None \<longrightarrow> whole_here E N' w')" by simp
      then show ?thesis using safe_bucket_sound [of key_ok "e_codec E" "e_sha E" objs good N' w'] by blast
    next
      case False
      then have "w' = w1" "r \<noteq> None" using assms(1) g E Inl by (auto simp: loadOrInit_def split: if_splits)
      then show ?thesis using same G by simp
    qed
  next
    case (Inr p)
    then obtain raw et where p: "q = Inr (raw, et)" by (cases p) auto
    then obtain key s where k: "bucket_at key_ok (e_codec E) (objs w) key s" "snap_ok (e_sha E) (objs w) s"
      using B G(4) [OF p] by (auto simp: bucket_ok_def)
    obtain rp body where rp: "unjson_root (e_codec E) raw = Inr rp" "rp_Snapshot rp = key" "key_ok key" "objs w key = Some body"
        "decodeSnapshot (e_codec E) body = Inr s"
      using k(1) G(4) [OF p] by (auto simp: bucket_at_def names_root_def)
    obtain q2 w2 where g2: "Get st key w1 = (q2, w2)" by fastforce
    have G2: "good w2" "objs w2 = objs w" "\<And>d. q2 = Inr d \<Longrightarrow> d = body"
      using Get_law [OF G(1) rp(3) g2] G(2) rp(4) by auto
    have "(r \<noteq> None \<and> objs w' = objs w \<and> good w') \<or> (r = None \<and> w' = w2 \<and> N' = adopt rp et s N)"
      using assms(1) g E p rp g2 G G2
      by (cases q2) (auto simp: loadOrInit_def Let_def split: if_splits)
    moreover have "in_order (e_codec E) (objs w) (adopt rp et s N)"
      using adopt_order [of "e_codec E" "objs w" raw rp body s N et] B G(4) [OF p] rp k(1) assms(4)
      by (simp add: bucket_at_def names_root_def blank_def)
    ultimately show ?thesis
      using same adopt_whole [of E w2 key s N rp et] k assms(4,5) B G2 by auto
  qed
qed

text \<open>A mount of a bucket that holds a filesystem only reads.\<close>

lemma loadOrInit_reads:
  assumes "loadOrInit E clk nonce N w = (r, N', w')" "commit_env st key_ok E nonce"
    and "bucket_at key_ok (e_codec E) (objs w) key s" "good w"
  shows "objs w' = objs w"
proof -
  note E = assms(2) [unfolded commit_env_def]
  obtain raw rp where rp: "objs w rootKey = Some raw" "unjson_root (e_codec E) raw = Inr rp" "rp_Snapshot rp = key" "key_ok key"
    using assms(3) by (auto simp: bucket_at_def names_root_def)
  obtain q w1 where g: "GetWithETag st rootKey w = (q, w1)" by fastforce
  have G: "good w1" "objs w1 = objs w" "q \<noteq> Inl ErrNotFound" "\<And>x. q = Inr x \<Longrightarrow> fst x = raw"
    using GetWithETag_law [OF assms(4) _ g] E rp(1) by auto
  obtain q2 w2 where g2: "Get st key w1 = (q2, w2)" by fastforce
  have G2: "objs w2 = objs w" using Get_law [OF G(1) rp(4) g2] G(2) by auto
  show ?thesis
    using assms(1) g E rp g2 G G2
    by (cases q; cases q2) (auto simp: loadOrInit_def Let_def split: if_splits sum.splits)
qed

end

section \<open>The steps\<close>

text \<open>What a mount is configured with: the store of the environment, and chunks that are verified.\<close>

definition plain_config :: "'w env \<Rightarrow> 'w config \<Rightarrow> string \<Rightarrow> bool" where
  "plain_config E cfg host \<longleftrightarrow>
     cf_Store cfg = Some (e_store E) \<and> cf_ReadOnly cfg = e_readonly E \<and> \<not> cf_SkipChunkVerification cfg \<and>
     cf_ChunkSize cfg < 2 ^ 32 \<and> plain_string host"

text \<open>
  One step: the state is the mounted filesystem, if the process runs, and the world. Each rule is one
  stretch of the code that holds the mount's locks: a mount, a crash, a namespace call, SETATTR, READ, the
  buffering half of WRITE, the flush of one file, \<open>Sync\<close>, and the pass a commit has scheduled. The random
  nonces are taken not to repeat, names to be plain, and the 64-bit inode numbers and epochs not to run out.
\<close>

inductive life_step :: "'w env \<Rightarrow> ('w \<Rightarrow> string \<Rightarrow> bytes option) \<Rightarrow> fs option \<times> 'w \<Rightarrow> fs option \<times> 'w \<Rightarrow> bool"
  for E :: "'w env" and obj :: "'w \<Rightarrow> string \<Rightarrow> bytes option" where
  mount: "plain_config E cfg host \<Longrightarrow> fresh_nonce nonce (obj w) \<Longrightarrow>
      New cfg (e_sha E) (e_codec E) clk host verf nonce w = (q, w') \<Longrightarrow>
      life_step E obj (None, w) (case q of Inl e \<Rightarrow> None | Inr N \<Rightarrow> Some N, w')"
| crash: "life_step E obj (Some N, w) (None, w)"
| namespace: "ns_exec clk c k N = (r, N') \<Longrightarrow> nextIno N \<noteq> - 1 \<Longrightarrow> plain_call k \<Longrightarrow>
      life_step E obj (Some N, w) (Some N', w)"
| setattr: "SetAttr clk c h sa N = (r, N') \<Longrightarrow> life_step E obj (Some N, w) (Some N', w)"
| read: "Read (e_sha E) (mount_store E) c h ofs count N w = (r, N', w') \<Longrightarrow> life_step E obj (Some N, w) (Some N', w')"
| buffer: "resolve N h = Inr (i, n) \<Longrightarrow> ofs + length data < 2 ^ 64 \<Longrightarrow>
      write_admitted E fd h i ofs data Unstable N w = (r, N', w') \<Longrightarrow> life_step E obj (Some N, w) (Some N', w')"
| flush: "commitFile (e_sha E) (mount_store E) i N w = (r, N', w') \<Longrightarrow> life_step E obj (Some N, w) (Some N', w')"
| sync: "fresh_nonce nonce (obj w) \<Longrightarrow> epoch N + 2 < 2 ^ 64 \<Longrightarrow> Sync E clk nonce N w = (r, N', w') \<Longrightarrow>
      life_step E obj (Some N, w) (Some N', w')"
| prune: "prune_pass E N w = Some (N', w') \<Longrightarrow> life_step E obj (Some N, w) (Some N', w')"

inductive_cases life_mountE: "life_step E obj (None, w) (Some N, w')"

text \<open>What holds after any history.\<close>

definition life_ok :: "(string \<Rightarrow> bool) \<Rightarrow> 'w env \<Rightarrow> ('w \<Rightarrow> string \<Rightarrow> bytes option) \<Rightarrow> ('w \<Rightarrow> bool) \<Rightarrow> fs option \<times> 'w \<Rightarrow> bool" where
  "life_ok kok E obj gd = (\<lambda>(m, w). gd w \<and> bucket_sound kok (e_codec E) (e_sha E) (obj w) \<and>
     (\<forall>N. m = Some N \<longrightarrow> whole kok (e_codec E) (e_sha E) obj gd N w \<and> in_order (e_codec E) (obj w) N))"

lemma whole_life:
  "whole kok (e_codec E) (e_sha E) obj gd N w \<Longrightarrow> in_order (e_codec E) (obj w) N \<Longrightarrow> life_ok kok E obj gd (Some N, w)"
  using wholeD(1) safe_bucket_sound by (fastforce simp: life_ok_def)

definition new_env :: "'w env \<Rightarrow> 'w env" where
  "new_env E = E\<lparr>e_range := \<lambda>m. sorted_list_of_fset (fmdom m), e_others := \<lambda>_ x. x\<rparr>"

lemma new_env_sel [simp]:
  "e_sha (new_env E) = e_sha E" "e_codec (new_env E) = e_codec E" "mount_store (new_env E) = mount_store E" "alone (new_env E)"
  by (simp_all add: new_env_def mount_store_def alone_def)

lemma new_env_commit: "commit_env st kok E nonce \<Longrightarrow> commit_env st kok (new_env E) nonce"
  by (simp add: commit_env_def) (simp add: new_env_def sorted_list_of_fset.rep_eq)

lemma New_run:
  assumes "plain_config E cfg host" "New cfg (e_sha E) (e_codec E) clk host verf nonce w = (q, w')"
  obtains (refused) e where "q = Inl e" "w' = w"
  | (failed) e N1 where "loadOrInit (new_env E) clk nonce (new_fs cfg host verf) w = (Some e, N1, w')" "q = Inl e"
  | (mounted) N1 where "loadOrInit (new_env E) clk nonce (new_fs cfg host verf) w = (None, N1, w')"
      "q = Inr (N1\<lparr>maxFileSize := chunkSize N1 * maxFileChunks\<rparr>)" "4096 \<le> chunkSize (new_fs cfg host verf)"
proof -
  have E: "\<lparr>e_store = e_store E, e_readonly = cf_ReadOnly cfg, e_sha = e_sha E, e_codec = e_codec E,
      e_range = \<lambda>m. sorted_list_of_fset (fmdom m), e_others = \<lambda>_ x. x\<rparr> = new_env E"
    using assms(1) by (simp add: new_env_def plain_config_def)
  obtain r N1 w1 where l: "loadOrInit (new_env E) clk nonce (new_fs cfg host verf) w = (r, N1, w1)" by (metis prod_cases3)
  have st: "cf_Store cfg = Some (e_store E)" using assms(1) by (simp add: plain_config_def)
  show thesis
  proof (cases "chunkSize (new_fs cfg host verf) < 4096 \<or> cf_CommitInterval cfg < 0")
    case True
    then obtain e where "q = Inl e" "w' = w" using assms(2) st by (auto simp: New_def Let_def split: if_splits)
    then show thesis by (rule refused)
  next
    case False
    then have "(q, w') = (case r of Some e \<Rightarrow> (Inl e, w1) | None \<Rightarrow> (Inr (N1\<lparr>maxFileSize := chunkSize N1 * maxFileChunks\<rparr>), w1))"
      using assms(2) st l by (auto simp: New_def Let_def E split: option.split)
    then show thesis using l False failed mounted by (cases r) auto
  qed
qed

lemma blank_new: "plain_config E cfg host \<Longrightarrow> blank sha (new_fs cfg host verf)"
  by (simp add: blank_def new_fs_def plain_config_def defaultChunkSize_def cache_ok_def cache_inv_def cache_shape_def
      addressed_def newChunkCache_def)

lemma whole_limit: "whole kok cd sha obj gd N w \<Longrightarrow> whole kok cd sha obj gd (N\<lparr>maxFileSize := chunkSize N * maxFileChunks\<rparr>) w"
proof -
  let ?M = "N\<lparr>maxFileSize := chunkSize N * maxFileChunks\<rparr>"
  assume W: "whole kok cd sha obj gd N w"
  have "chunkSize N < 2 ^ 32" using mount_okD(2) [OF wholeD(4) [OF W]] .
  then have "chunkSize N * 2 ^ 20 < 2 ^ 32 * 2 ^ 20" by simp
  then have "chunkSize N * maxFileChunks < 2 ^ 64" by (simp add: maxFileChunks_def)
  moreover have "open_of ?M = open_of N" by (rule open_of_cong) simp
  moreover have "ns_wf ?M = ns_wf N" by (rule ns_wf_cong) simp_all
  ultimately show ?thesis using W
    by (simp add: whole_def safe_state_def mount_ok_def stored_ok_def known_there_def files_there_def plain_fs_def budget_ok_def
        remountable_def holds_fs_def)
qed

text \<open>
  The bucket holds the filesystem \<open>N\<close> as it was at some moment: its current snapshot is of \<open>N\<close> with every file
  flushed.
\<close>

definition held :: "(string \<Rightarrow> bool) \<Rightarrow> 'w env \<Rightarrow> (string \<Rightarrow> bytes option) \<Rightarrow> fs \<Rightarrow> bool" where
  "held kok E ob N \<longleftrightarrow>
     (\<exists>key snap F. bucket_at kok (e_codec E) ob key snap \<and> holds_fs snap F \<and> same_files (e_sha E) N F \<and>
        nextIno F = nextIno N \<and> chunkSize F = chunkSize N \<and> (\<forall>j. clean (open_of F j)))"

lemma heldE:
  assumes "held kok E ob N"
  obtains key snap F where "bucket_at kok (e_codec E) ob key snap" "holds_fs snap F" "same_files (e_sha E) N F"
    "nextIno F = nextIno N" "chunkSize F = chunkSize N" "\<And>j. clean (open_of F j)"
  using assms unfolding held_def by blast

lemma held_cong:
  assumes "held kok E ob N" "ob' rootKey = ob rootKey" "\<And>key s. bucket_at kok (e_codec E) ob key s \<Longrightarrow> ob' key = ob key"
  shows "held kok E ob' N"
  using assms(1)
proof (rule heldE)
  fix key snap F
  assume b: "bucket_at kok (e_codec E) ob key snap" and F: "holds_fs snap F" "same_files (e_sha E) N F"
    "nextIno F = nextIno N" "chunkSize F = chunkSize N" "\<And>j. clean (open_of F j)"
  have "bucket_at kok (e_codec E) ob' key snap" using bucket_at_cong [OF b assms(2) assms(3) [OF b]] .
  then show ?thesis using F unfolding held_def by blast
qed

text \<open>Two filesystems a client cannot tell apart: the same tree, attributes, bytes and next inode number.\<close>

definition same_image :: "(bytes \<Rightarrow> string) \<Rightarrow> fs \<Rightarrow> fs \<Rightarrow> bool" where
  "same_image sha N M \<longleftrightarrow>
     nextIno M = nextIno N \<and> content sha M = content sha N \<and>
     (\<forall>j. map_option (\<lambda>n. n\<lparr>Chunks := []\<rparr>) (fmlookup (inodes M) j) = map_option (\<lambda>n. n\<lparr>Chunks := []\<rparr>) (fmlookup (inodes N) j))"

context object_store
begin

lemma New_whole:
  assumes "plain_config E cfg host" "fresh_nonce nonce (objs w)" "New cfg (e_sha E) (e_codec E) clk host verf nonce w = (q, w')"
    and "commit_env st key_ok E nonce" "good w" "bucket_sound key_ok (e_codec E) (e_sha E) (objs w)"
  shows "life_ok key_ok E objs good (case q of Inl e \<Rightarrow> None | Inr N \<Rightarrow> Some N, w')"
  using assms(1,3)
proof (cases rule: New_run)
  case (refused e)
  then show ?thesis using assms(5,6) by (simp add: life_ok_def)
next
  case (failed e N1)
  from loadOrInit_whole [OF failed(1) new_env_commit [OF assms(4)]] assms blank_new [OF assms(1)] failed(2)
  show ?thesis by (simp add: life_ok_def)
next
  case (mounted N1)
  from loadOrInit_whole [OF mounted(1) new_env_commit [OF assms(4)]] assms blank_new [OF assms(1)]
  have "whole_here E N1 w'" "in_order (e_codec E) (objs w') N1" by auto
  from whole_life [OF whole_limit [OF this(1)] in_order_mark [OF this(2)]] show ?thesis by (simp add: mounted(2))
qed

lemma life_step_keeps:
  assumes "life_step E objs p p'" "\<And>nonce. commit_env st key_ok E nonce" "alone E" "life_ok key_ok E objs good p"
  shows "life_ok key_ok E objs good p'"
proof -
  have E: "mount_store E = st" "hash_ok (e_sha E)" "\<And>d. key_ok (chunkPrefix @ e_sha E d)"
    using assms(2) [of "[]"] by (auto simp: commit_env_def)
  have W: "whole_here E N w" and O: "in_order (e_codec E) (objs w) N" if "p = (Some N, w)" for N w
    using assms(4) that by (simp_all add: life_ok_def)
  have fin: ?thesis if "p' = (Some N', w')" "whole_here E N' w'" "in_order (e_codec E) (objs w') N'" for N' w'
    using whole_life [OF that(2,3)] that(1) by simp
  have kept: ?thesis if "p = (Some N, w)" "p' = (Some N', w')" "whole_here E N' w'" "root_mark N' = root_mark N" "objs w' = objs w" for N w N' w'
    using fin [OF that(2,3)] in_order_mark [OF O [OF that(1)] that(4)] that(5) by simp
  from assms(1) show ?thesis
  proof cases
    case (mount cfg host nonce w clk verf q w')
    then show ?thesis using New_whole [OF mount(3-5) assms(2)] assms(4) by (simp add: life_ok_def)
  next
    case (crash N w)
    then show ?thesis using assms(4) by (simp add: life_ok_def)
  next
    case (namespace clk c k N r N' w)
    show ?thesis by (rule kept [OF namespace(1,2) whole_ns [OF namespace(3-5) W [OF namespace(1)]] ns_exec_mark [OF namespace(3)] refl])
  next
    case (setattr clk c h sa N r N' w)
    show ?thesis by (rule kept [OF setattr(1,2) whole_SetAttr [OF setattr(3) E(2) W [OF setattr(1)]] SetAttr_mark [OF setattr(3)] refl])
  next
    case (read c h ofs count N w r N' w')
    note r = read(3) [unfolded E(1)] and w = W [OF read(1)]
    have "objs w' = objs w" using Read_store [OF r wholeD(3) [OF w] E(3) wholeD(4,9) [OF w]] by (simp add: only_reads_def)
    then show ?thesis by (rule kept [OF read(1,2) whole_Read [OF r assms(2) w] same_ns_mark [OF Read_same_ns [OF r]]])
  next
    case (buffer N h i n ofs data fd w r N' w')
    have "whole_here E N' w'" "objs w' = objs w" using whole_buffer [OF buffer(5,3,4) assms(2) W [OF buffer(1)]] by auto
    then show ?thesis using kept [OF buffer(1,2)] write_admitted_mark [OF buffer(5)] by blast
  next
    case (flush i N w r N' w')
    note f = flush(3) [unfolded E(1)] and w = W [OF flush(1)]
    have "chunks_only (objs w) (etag w) (objs w') (etag w')" using commitFile_store [OF f wholeD(3) [OF w] E(3,2) wholeD(4,5) [OF w]] by blast
    from in_order_chunks [OF O [OF flush(1)] commitFile_mark [OF f] this] show ?thesis
      by (rule fin [OF flush(2) whole_commitFile [OF f assms(2) w]])
  next
    case (sync nonce w N clk r N' w')
    show ?thesis
      using fin [OF sync(2)] whole_Sync [OF sync(5) assms(2,3) W [OF sync(1)] sync(3)]
        Sync_order [OF sync(5) assms(2,3) W [OF sync(1)] O [OF sync(1)] sync(4)] by blast
  next
    case (prune N w N' w')
    show ?thesis using fin [OF prune(2)] prune_pass_keeps [OF prune(3) E(1) W [OF prune(1)] O [OF prune(1)]] by blast
  qed
qed

lemma life_run_keeps:
  assumes "(life_step E objs)\<^sup>*\<^sup>* p p'" "\<And>nonce. commit_env st key_ok E nonce" "alone E" "life_ok key_ok E objs good p"
  shows "life_ok key_ok E objs good p'"
  using assms(1,4) by (induction rule: rtranclp_induct) (auto intro: life_step_keeps [OF _ assms(2,3)])

text \<open>What the bucket holds is kept, or replaced by the filesystem as it is now.\<close>

lemma held_step:
  assumes "life_step E objs (m, w) (m', w')" "\<And>nonce. commit_env st key_ok E nonce" "alone E" "life_ok key_ok E objs good (m, w)"
    and "held key_ok E (objs w) N3"
  shows "held key_ok E (objs w') N3 \<or> (\<exists>N. m = Some N \<and> held key_ok E (objs w') N)"
proof -
  have E: "mount_store E = st" "hash_ok (e_sha E)" "\<And>d. key_ok (chunkPrefix @ e_sha E d)"
    using assms(2) [of "[]"] by (auto simp: commit_env_def)
  have gd: "good w" using assms(4) by (simp add: life_ok_def)
  have W: "whole_here E N w" if "m = Some N" for N using assms(4) that by (simp add: life_ok_def)
  from assms(1) show ?thesis
  proof cases
    case (mount cfg host nonce clk verf q)
    obtain key snap where b: "bucket_at key_ok (e_codec (new_env E)) (objs w) key snap" using assms(5) by (auto elim: heldE)
    have "objs w' = objs w"
      using mount(3,5) by (cases rule: New_run) (use loadOrInit_reads [OF _ new_env_commit [OF assms(2)] b gd] in auto)
    then show ?thesis using assms(5) by simp
  next
    case (read c h ofs count N r N')
    have "objs w' = objs w"
      using Read_store [OF read(3) [unfolded E(1)] gd E(3) wholeD(4,9) [OF W [OF read(1)]]] by (simp add: only_reads_def)
    then show ?thesis using assms(5) by simp
  next
    case (buffer N h i n ofs data fd r N')
    from whole_buffer [OF buffer(5,3,4) assms(2) W [OF buffer(1)]] have "objs w' = objs w" by simp
    then show ?thesis using assms(5) by simp
  next
    case (flush i N r N')
    have "chunks_only (objs w) (etag w) (objs w') (etag w')"
      using commitFile_store [OF flush(3) [unfolded E(1)] gd E(3,2) wholeD(4,5) [OF W [OF flush(1)]]] by blast
    then have "objs w' rootKey = objs w rootKey" "\<And>key s. bucket_at key_ok (e_codec E) (objs w) key s \<Longrightarrow> objs w' key = objs w key"
      using prefix_apart(1,3) by (auto simp: chunks_only_def bucket_at_def)
    then show ?thesis using held_cong [OF assms(5), of "objs w'"] by blast
  next
    case (sync nonce N clk r N')
    have o: "outcome E nonce N w w'" using whole_Sync [OF sync(5) assms(2,3) W [OF sync(1)] sync(3)] by blast
    show ?thesis
    proof (cases "objs w' rootKey = objs w rootKey")
      case True
      have "objs w' key = objs w key" if b: "bucket_at key_ok (e_codec E) (objs w) key s" for key s
      proof -
        have "key \<noteq> rootKey" "\<not> starts_with chunkPrefix key" "objs w key \<noteq> None"
          using b prefix_apart(1,2) by (auto simp: bucket_at_def)
        moreover from this have "key \<noteq> snapshotKey ep nonce" for ep using sync(3) unfolding fresh_nonce_def by metis
        ultimately show ?thesis using o by (simp add: outcome_def)
      qed
      then show ?thesis using held_cong [OF assms(5), of "objs w'"] True by blast
    next
      case False
      then have "held key_ok E (objs w') N" using o unfolding outcome_def held_def by blast
      then show ?thesis using sync(1) by blast
    qed
  next
    case (prune N N')
    have "in_order (e_codec E) (objs w) N" using assms(4) prune(1) by (simp add: life_ok_def)
    from prune_pass_keeps [OF prune(3) E(1) W [OF prune(1)] this] show ?thesis using held_cong [OF assms(5), of "objs w'"] by blast
  qed (use assms(5) in auto)
qed

lemma held_run:
  assumes "(life_step E objs)\<^sup>*\<^sup>* (Some N1, w1) (m, w)" "\<And>nonce. commit_env st key_ok E nonce" "alone E"
    and "life_ok key_ok E objs good (Some N1, w1)" "held key_ok E (objs w1) N1"
  shows "\<exists>N3 w3. (life_step E objs)\<^sup>*\<^sup>* (Some N1, w1) (Some N3, w3) \<and> (life_step E objs)\<^sup>*\<^sup>* (Some N3, w3) (m, w) \<and>
    held key_ok E (objs w) N3"
  using assms(1)
proof (induction "(m, w)" arbitrary: m w rule: rtranclp_induct)
  case base
  then show ?case using assms(5) by blast
next
  case (step q)
  obtain m0 w0 where q: "q = (m0, w0)" by fastforce
  obtain N3 w3 where n: "(life_step E objs)\<^sup>*\<^sup>* (Some N1, w1) (Some N3, w3)" "(life_step E objs)\<^sup>*\<^sup>* (Some N3, w3) (m0, w0)"
      "held key_ok E (objs w0) N3"
    using step(3) [OF q] by blast
  have st: "life_step E objs (m0, w0) (m, w)" using step(2) q by simp
  have "life_ok key_ok E objs good (m0, w0)" using life_run_keeps [OF step(1) assms(2-4)] q by simp
  from held_step [OF st assms(2,3) this n(3)] show ?case
  proof (elim disjE exE conjE)
    assume "held key_ok E (objs w) N3"
    then show ?thesis using n rtranclp.rtrancl_into_rtrancl [OF n(2) st] by blast
  next
    fix N assume "m0 = Some N" "held key_ok E (objs w) N"
    then show ?thesis using step(1) st q by (metis r_into_rtranclp)
  qed
qed

lemma durable_held:
  assumes "durable E N N' w'"
  shows "held key_ok E (objs w') N'"
proof -
  have d: "remountable key_ok (e_codec E) (objs w') N'" "\<And>j. clean (open_of N' j)" "mount_ok (e_sha E) N'"
    using assms by (auto simp: durable_def same_files_def)
  then obtain key s where "bucket_at key_ok (e_codec E) (objs w') key s" "holds_fs s N'" by (auto simp: remountable_def)
  then show ?thesis using same_files_refl [OF d(3)] d(2) unfolding held_def by blast
qed

lemma mount_shows_held:
  assumes "life_step E objs (None, w) (Some M, w')" "held key_ok E (objs w) N" "good w" "\<And>nonce. commit_env st key_ok E nonce"
  shows "same_image (e_sha E) N M"
  using assms(1)
proof (rule life_mountE)
  fix cfg host nonce clk verf q
  assume p: "plain_config E cfg host" and n: "New cfg (e_sha E) (e_codec E) clk host verf nonce w = (q, w')"
    and q: "Some M = (case q of Inl e \<Rightarrow> None | Inr N \<Rightarrow> Some N)"
  obtain key snap F where F: "bucket_at key_ok (e_codec E) (objs w) key snap" "holds_fs snap F" "same_files (e_sha E) N F"
      "nextIno F = nextIno N" "chunkSize F = chunkSize N" "\<And>j. clean (open_of F j)"
    using assms(2) unfolding held_def by blast
  have E: "mount_store (new_env E) = st" "key_ok rootKey" using assms(4) [of "[]"] by (auto simp: commit_env_def)
  from p n show ?thesis
  proof (cases rule: New_run)
    case (mounted N1)
    have M: "M = N1\<lparr>maxFileSize := chunkSize N1 * maxFileChunks\<rparr>" using q mounted(2) by simp
    have l: "inodes M = inodes F" "nextIno M = nextIno F" "chunkSize M = chunkSize F" "fopen M = fmempty"
      using loadOrInit_finds [OF mounted(1) E assms(3)] F(1,2) by (auto simp: M holds_fs_def new_fs_def)
    have "content (e_sha E) M = content (e_sha E) F" using content_clean [OF F(6) l(4,1,3)] .
    then show ?thesis using F(3,4) l by (simp add: same_image_def same_files_def)
  qed (use q in auto)
qed

text \<open>From a filesystem the bucket holds, through any history, to the next mount.\<close>

lemma held_remount:
  assumes "(life_step E objs)\<^sup>*\<^sup>* (Some N1, w1) (None, w2)" "life_step E objs (None, w2) (Some M, w3)"
    and "\<And>nonce. commit_env st key_ok E nonce" "alone E" "life_ok key_ok E objs good (Some N1, w1)" "held key_ok E (objs w1) N1"
  shows "\<exists>N' w'. (life_step E objs)\<^sup>*\<^sup>* (Some N1, w1) (Some N', w') \<and> (life_step E objs)\<^sup>*\<^sup>* (Some N', w') (None, w2) \<and>
    same_image (e_sha E) N' M"
proof -
  obtain N' w' where n: "(life_step E objs)\<^sup>*\<^sup>* (Some N1, w1) (Some N', w')" "(life_step E objs)\<^sup>*\<^sup>* (Some N', w') (None, w2)"
      "held key_ok E (objs w2) N'"
    using held_run [OF assms(1,3-6)] by blast
  have "good w2" using life_run_keeps [OF assms(1,3-5)] by (simp add: life_ok_def)
  from mount_shows_held [OF assms(2) n(3) this assms(3)] n(1,2) show ?thesis by blast
qed

end

section \<open>What a client may rely on\<close>

text \<open>
  C2. Nothing a bucket goes through makes it unsound. Start from a bucket that is empty, or sound, over any
  store that keeps its contract: after any history of mounts, calls, failed calls, commits, prune passes,
  crashes and remounts the bucket holds nothing or a snapshot that is a well-formed tree of files with all
  their chunks, under a key of its epoch; and while a mount runs, its data, its tree, its budget and its
  chunks in the bucket are right, and if it has nothing to commit the bucket holds exactly it.
\<close>

theorem every_history_sound:
  assumes "object_store st objs etg good key_ok" "\<And>nonce. commit_env st key_ok E nonce" "alone E"
    and "good w0" "bucket_sound key_ok (e_codec E) (e_sha E) (objs w0)"
    and "(life_step E objs)\<^sup>*\<^sup>* (None, w0) (m, w)"
  shows "bucket_sound key_ok (e_codec E) (e_sha E) (objs w) \<and>
    (\<forall>N. m = Some N \<longrightarrow> mount_ok (e_sha E) N \<and> ns_wf N \<and> budget_ok N \<and> stored_ok (e_sha E) (objs w) N \<and>
       (dirty N \<or> remountable key_ok (e_codec E) (objs w) N))"
proof -
  have "life_ok key_ok E objs good (m, w)"
    using object_store.life_run_keeps [OF assms(1,6,2,3)] assms(4,5) by (simp add: life_ok_def)
  then show ?thesis by (auto simp: life_ok_def whole_def safe_state_def)
qed

text \<open>
  C1. An acknowledged commit is never rolled back. When \<open>Sync\<close> has returned nil, then after any further
  history, crashes, failed commits and prune passes among it, the next mount shows the filesystem as it was at a moment
  of that history, at or after the acknowledgement: the same tree, attributes, bytes and inode numbers.
\<close>

theorem never_rolls_back:
  assumes "object_store st objs etg good key_ok" "\<And>nonce. commit_env st key_ok E nonce" "alone E"
    and "good w0" "bucket_sound key_ok (e_codec E) (e_sha E) (objs w0)"
    and "(life_step E objs)\<^sup>*\<^sup>* (None, w0) (Some N, w)"
    and "fresh_nonce nonce (objs w)" "epoch N + 2 < 2 ^ 64" "Sync E clk nonce N w = (None, N1, w1)"
    and "(life_step E objs)\<^sup>*\<^sup>* (Some N1, w1) (None, w2)" "life_step E objs (None, w2) (Some M, w3)"
  shows "\<exists>N' w'. (life_step E objs)\<^sup>*\<^sup>* (Some N1, w1) (Some N', w') \<and> (life_step E objs)\<^sup>*\<^sup>* (Some N', w') (None, w2) \<and>
    same_image (e_sha E) N' M"
proof -
  note st = assms(1)
  have ok0: "life_ok key_ok E objs good (None, w0)" using assms(4,5) by (simp add: life_ok_def)
  have ok: "life_ok key_ok E objs good (Some N, w)" using object_store.life_run_keeps [OF st assms(6,2,3) ok0] .
  then have W: "whole key_ok (e_codec E) (e_sha E) objs good N w" by (simp add: life_ok_def)
  have "life_step E objs (Some N, w) (Some N1, w1)" using assms(7-9) by (rule sync)
  then have ok1: "life_ok key_ok E objs good (Some N1, w1)" using object_store.life_step_keeps [OF st _ assms(2,3) ok] by blast
  have "object_store.durable objs good key_ok E N N1 w1"
    using object_store.Sync_durable [OF st assms(9,2,3) wholeD(3-6,2) [OF W]] .
  then have h: "held key_ok E (objs w1) N1" using object_store.durable_held [OF st] by blast
  from object_store.held_remount [OF st assms(10,11,2,3) ok1 h] show ?thesis .
qed

end
