(* ===== verification/WriteCalls.thy ===== *)
theory WriteCalls
  imports DurableSpec
begin

text \<open>
  WRITE at every stability level and whatever the budget holds. A drain and a commit leave the files as
  they are, whatever the store answers; so what a write does to the files is what its buffering does, and
  a stable write whose commit fails leaves its bytes buffered.
\<close>

section \<open>A commit leaves the files alone\<close>

lemma resolveRoot_data:
  assumes "resolveRoot E N w = (v, N', w')" "alone E"
  shows "same_data N N'"
proof -
  obtain r w1 where g: "GetWithETag (mount_store E) rootKey w = (r, w1)" by fastforce
  obtain v0 rp where c: "classifyRoot (e_codec E) r (rootSnapshot N) (doubtKey N) = (v0, rp)" by fastforce
  show ?thesis
    using assms g c
    by (auto simp: resolveRoot_def Let_def alone_def split: probeVerdict.splits option.splits dest!: fire_root_data
        intro: same_data_trans)
qed

lemma commitSealed_data:
  assumes "commitSealed E clk s N w = (r, N', w')" "alone E"
  shows "same_data N N'"
proof -
  have o: "e_others E k x = x" for k x using assms(2) by (simp add: alone_def)
  have doubt: "same_data N N2" if "fire_root ev (N\<lparr>doubtKey := k\<rparr>) = Some N1" "resolveRoot E N1 w1 = (v, N2, w2)" for ev k N1 w1 v N2 w2
    using fire_root_data [OF that(1)] resolveRoot_data [OF that(2) assms(2)] same_data_trans same_data_simps(3) by blast
  have known: "same_data N (applyLocked t s e (case fire_root ev N of Some N1 \<Rightarrow> N1 | None \<Rightarrow> N))" for t e ev
    using fire_root_data [of ev N] same_data_trans [OF _ same_data_simps(2)] by (cases "fire_root ev N") auto
  have clear: "same_data N (applyLocked t s e (N\<lparr>doubtKey := k\<rparr>))" for t e k
    by (rule same_data_trans [OF same_data_simps(3) same_data_simps(2)])
  show ?thesis
    using assms(1) known clear
    by (auto simp: commitSealed_def o split: prod.splits option.splits flight.splits probeVerdict.splits
        dest: doubt intro: same_data_trans [OF _ same_data_simps(2)] same_data_trans [OF fire_root_data same_data_simps(2)])
qed

lemma commitPhase_files:
  assumes "commitPhase E clk nonce N w = (r, N', w')" "alone E" "hash_ok (e_sha E)" "mount_ok (e_sha E) N"
  shows "same_files (e_sha E) N N'"
proof -
  obtain q N1 w1 where q: "settleAll (e_sha E) (mount_store E) (e_range E (fopen N)) N w = (q, N1, w1)" by (metis prod_cases3)
  have f: "same_files (e_sha E) N N1" using flush_list_right [OF q [unfolded settleAll_def] assms(3,4)] by blast
  show ?thesis
    using assms(1) q f same_data_files [OF f] commitSealed_data [OF _ assms(2)]
    by (auto simp: commitPhase_def split: option.splits sum.splits)
qed

lemma Sync_files:
  assumes "Sync E clk nonce N w = (r, N', w')" "alone E" "hash_ok (e_sha E)" "mount_ok (e_sha E) N"
  shows "same_files (e_sha E) N N'"
proof -
  obtain q N1 w1 where q: "flushAll (e_sha E) (mount_store E) (e_range E (fopen N)) N w = (q, N1, w1)" by (metis prod_cases3)
  have f: "same_files (e_sha E) N N1" using flush_list_right [OF q [unfolded flushAll_def] assms(3,4)] by blast
  have o: "e_others E k x = x" for k x using assms(2) by (simp add: alone_def)
  obtain v N2 w2 where v: "resolveRoot E N1 w1 = (v, N2, w2)" by (metis prod_cases3)
  have f2: "same_files (e_sha E) N N2" using same_data_files [OF f resolveRoot_data [OF v assms(2)]] .
  have phase: "same_files (e_sha E) N N'" if "same_files (e_sha E) N M" "commitPhase E clk nonce M u = (r, N', w')" for M u
  proof -
    have "mount_ok (e_sha E) M" using that(1) by (simp add: same_files_def)
    from commitPhase_files [OF that(2) assms(2,3) this] show ?thesis using that(1) same_files_trans by blast
  qed
  show ?thesis
    using assms(1) q f v f2 by (auto simp: Sync_def o split: option.splits if_splits probeVerdict.splits intro: phase)
qed

text \<open>The wait for the budget is any number of drains.\<close>

lemma await_files:
  assumes "await_alone E fd k N w = Some y" "alone E" "hash_ok (e_sha E)" "mount_ok (e_sha E) N"
  shows "same_files (e_sha E) N (fst (snd y))"
  using assms
proof (induction rule: await_alone.raw_induct [rotated, consumes 1, case_names step])
  case (step f E fd k N w y)
  obtain s N1 w1 where s: "Sync E (fd_clk fd (Suc k)) (fd_nonce fd (Suc k)) N w = (s, N1, w1)" by (metis prod_cases3)
  note F = Sync_files [OF s step(3-5)]
  then have M: "mount_ok (e_sha E) N1" by (simp add: same_files_def)
  have R: "same_files (e_sha E) N N" using step(5) by (rule same_files_refl)
  show ?case
  proof (cases "(budget_limit N \<le> 0 \<or> budget_used N < budget_limit N) \<or> fd_ctx fd (2 * k) \<noteq> None")
    case True
    then show ?thesis using step(2) R by (auto split: if_splits)
  next
    case False
    show ?thesis
    proof (cases s)
      case None
      then have "f E fd (Suc k) N1 w1 = Some y" using step(2) False s by simp
      from step(1) [OF this step(3,4) M] F show ?thesis by (rule same_files_trans [rotated])
    next
      case (Some e)
      then have "fst (snd y) = N1" using step(2) False s by auto
      then show ?thesis using F by simp
    qed
  qed
qed

lemma syncFile_files:
  assumes "syncFileAndNamespace E fd i N w = (r, N', w')" "alone E" "hash_ok (e_sha E)" "mount_ok (e_sha E) N"
  shows "same_files (e_sha E) N N'"
proof -
  obtain q N1 w1 where q: "commitFile (e_sha E) (mount_store E) i N w = (q, N1, w1)" by (metis prod_cases3)
  have f: "same_files (e_sha E) N N1" using commitFile_right [OF q assms(3,4)] by blast
  then have "mount_ok (e_sha E) N1" by (simp add: same_files_def)
  from Sync_files [OF _ assms(2,3) this] show ?thesis
    using assms(1) q f same_files_trans [OF f] by (auto simp: syncFileAndNamespace_def split: option.splits)
qed

section \<open>A stable write\<close>

definition asks_stable :: "stability \<Rightarrow> bool" where
  "asks_stable how \<longleftrightarrow> how = FileSync \<or> how = DataSync"

text \<open>A write that has been admitted buffers its data, and then, if it is to be stable, flushes and commits.\<close>

lemma write_admitted_split:
  assumes "write_admitted E fd h i ofs data how N w = (r, N', w')"
  obtains (failed) e where "write_admitted E fd h i ofs data Unstable N w = (Inl e, N', w')" "r = Inl e"
  | (buffered) m where "\<not> asks_stable how" "write_admitted E fd h i ofs data Unstable N w = (Inr m, N', w')" "r = Inr m"
  | (synced) m N1 w1 s where "write_admitted E fd h i ofs data Unstable N w = (Inr m, N1, w1)"
      "syncFileAndNamespace E fd i N1 w1 = (s, N', w')" "s = None \<longleftrightarrow> (\<exists>p. r = Inr p)" "asks_stable how"
      "r = (case s of Some e \<Rightarrow> Inl e | None \<Rightarrow> Inr (fst m, FileSync))"
proof -
  obtain x N1 where g: "getOpen i N = (x, N1)" by fastforce
  obtain q x1 N2 w1 where b: "bufferWrite (fd_clk fd 0) (e_sha E) (mount_store E) h x ofs data N1 w = (q, x1, N2, w1)"
    by (metis prod_cases4)
  obtain s N4 w2 where s: "syncFileAndNamespace E fd i (put_open i x1 N2) w1 = (s, N4, w2)" by (metis prod_cases3)
  show thesis
  proof (cases q)
    case (Inl e)
    then show thesis using assms g b failed by (auto simp: write_admitted_def)
  next
    case (Inr k)
    have u: "write_admitted E fd h i ofs data Unstable N w = (Inr (wrap32 k, Unstable), put_open i x1 N2, w1)"
      using g b Inr by (simp add: write_admitted_def)
    show thesis
    proof (cases "asks_stable how")
      case False
      then show thesis using buffered u assms g b Inr by (auto simp: write_admitted_def asks_stable_def)
    next
      case True
      then have "(r, N', w') = (case s of Some e \<Rightarrow> (Inl e, N4, w2) | None \<Rightarrow> (Inr (wrap32 k, FileSync), N4, w2))"
        using assms g b Inr s by (auto simp: write_admitted_def asks_stable_def split: option.split)
      then show thesis using synced [OF u, of s] s True by (cases s) auto
    qed
  qed
qed

section \<open>What a write does to the files\<close>

text \<open>Every attribute of an inode but the list of its chunks, which a flush rewrites without changing the contents.\<close>

definition attributes :: "fs \<Rightarrow> u64 \<Rightarrow> inode option" where
  "attributes N j = map_option (\<lambda>n. n\<lparr>Chunks := []\<rparr>) (fmlookup (inodes N) j)"

definition untouched :: "(bytes \<Rightarrow> string) \<Rightarrow> fs \<Rightarrow> fs \<Rightarrow> bool" where
  "untouched sha N N' \<longleftrightarrow> attributes N' = attributes N \<and> content sha N' = content sha N"

text \<open>The first \<open>m\<close> bytes of the data stand at the offset of file \<open>i\<close>, whose size covers them; nothing else differs.\<close>

definition wrote :: "(bytes \<Rightarrow> string) \<Rightarrow> u64 \<Rightarrow> nat \<Rightarrow> bytes \<Rightarrow> nat \<Rightarrow> fs \<Rightarrow> fs \<Rightarrow> bool" where
  "wrote sha i ofs data m N N' \<longleftrightarrow>
     content sha N' i = overwritten ofs data ofs (ofs + m) (content sha N i) \<and>
     (\<exists>n n'. fmlookup (inodes N) i = Some n \<and> fmlookup (inodes N') i = Some n' \<and> Gen n' = Gen n \<and> Size n' = max (Size n) (ofs + m)) \<and>
     (\<forall>j. j \<noteq> i \<longrightarrow> attributes N' j = attributes N j \<and> content sha N' j = content sha N j)"

lemma same_files_untouched: "same_files sha N N' \<Longrightarrow> untouched sha N N'"
  by (auto simp: same_files_def untouched_def attributes_def fun_eq_iff)

lemma untouched_look:
  assumes "untouched sha N N'" "fmlookup (inodes N) i = Some n"
  obtains n' where "fmlookup (inodes N') i = Some n'" "Gen n' = Gen n" "Size n' = Size n"
proof -
  have "attributes N' i = Some (n\<lparr>Chunks := []\<rparr>)" using assms by (auto simp: untouched_def attributes_def)
  then obtain n' where n': "fmlookup (inodes N') i = Some n'" "n'\<lparr>Chunks := []\<rparr> = n\<lparr>Chunks := []\<rparr>" by (auto simp: attributes_def)
  from arg_cong [OF n'(2), of Gen] arg_cong [OF n'(2), of Size] that [OF n'(1)] show thesis by simp
qed

lemma untouched_sym: "untouched sha N N' \<Longrightarrow> untouched sha N' N"
  by (simp add: untouched_def)

lemma wrote_around:
  assumes "untouched sha N0 N1" "wrote sha i ofs data m N1 N2" "untouched sha N2 N3"
  shows "wrote sha i ofs data m N0 N3"
proof -
  obtain n n' where n: "fmlookup (inodes N1) i = Some n" "fmlookup (inodes N2) i = Some n'" "Gen n' = Gen n" "Size n' = max (Size n) (ofs + m)"
    using assms(2) by (auto simp: wrote_def)
  obtain n0 where n0: "fmlookup (inodes N0) i = Some n0" "Gen n0 = Gen n" "Size n0 = Size n"
    by (rule untouched_look [OF untouched_sym [OF assms(1)] n(1)])
  obtain n3 where n3: "fmlookup (inodes N3) i = Some n3" "Gen n3 = Gen n'" "Size n3 = Size n'"
    by (rule untouched_look [OF assms(3) n(2)])
  show ?thesis using assms n n0 n3 by (simp add: wrote_def untouched_def)
qed

lemma untouched_trans: "untouched sha N N1 \<Longrightarrow> untouched sha N1 N2 \<Longrightarrow> untouched sha N N2"
  by (simp add: untouched_def)

lemma write_admitted_files:
  assumes "write_admitted E fd h i ofs data how N w = (r, N', w')" "alone E" "hash_ok (e_sha E)" "mount_ok (e_sha E) N"
    and "resolve N h = Inr (i, n)" "data \<noteq> []" "ofs + length data < 2 ^ 64" "length data < 2 ^ 32"
  shows "mount_ok (e_sha E) N' \<and>
    (case r of
       Inl e \<Rightarrow> untouched (e_sha E) N N' \<or> asks_stable how \<and> (\<exists>m. 0 < m \<and> m \<le> length data \<and> wrote (e_sha E) i ofs data m N N')
     | Inr (m, lvl) \<Rightarrow> 0 < m \<and> m \<le> length data \<and> wrote (e_sha E) i ofs data m N N' \<and>
         lvl = (if asks_stable how then FileSync else Unstable))"
proof -
  let ?sha = "e_sha E"
  have ok: "mount_ok ?sha N1 \<and> 0 < m \<and> m \<le> length data \<and> wrote ?sha i ofs data m N N1 \<and> lvl = Unstable"
    if wr: "write_admitted E fd h i ofs data Unstable N w = (Inr (m, lvl), N1, w1)" for m lvl N1 w1
  proof -
    have n: "fmlookup (inodes N) i = Some n" using assms(5) by auto
    obtain m0 where m0: "m = wrap32 m0" "m0 \<le> length data" "0 < m0"
      and W: "mount_ok ?sha N1" "lvl = Unstable" "content ?sha N1 i = overwritten ofs data ofs (ofs + m0) (content ?sha N i)"
        "\<exists>n'. fmlookup (inodes N1) i = Some n' \<and> Gen n' = Gen n \<and> Size n' = max (Size n) (ofs + m0)"
        "\<forall>j. j \<noteq> i \<longrightarrow> fmlookup (inodes N1) j = fmlookup (inodes N) j \<and> content ?sha N1 j = content ?sha N j"
      using write_admitted_right [OF wr assms(5,3,4,7)] assms(6) by auto
    have "m = m0" using m0(1,2) assms(8) by simp
    then show ?thesis using m0 W n by (auto simp: wrote_def attributes_def)
  qed
  from assms(1) show ?thesis
  proof (cases rule: write_admitted_split)
    case (failed e)
    then have "mount_ok ?sha N' \<and> inodes N' = inodes N \<and> content ?sha N' = content ?sha N"
      using write_admitted_right [OF failed(1) assms(5,3,4,7)] by simp
    then show ?thesis using failed(2) by (simp add: untouched_def attributes_def fun_eq_iff)
  next
    case (buffered p)
    then show ?thesis using ok by (cases p) auto
  next
    case (synced p N1 w1 s)
    obtain m lvl where p: "p = (m, lvl)" by (cases p)
    have B: "mount_ok ?sha N1" "0 < m" "m \<le> length data" "wrote ?sha i ofs data m N N1"
      using ok [OF synced(1) [unfolded p]] by auto
    have f: "same_files ?sha N1 N'" using syncFile_files [OF synced(2) assms(2,3) B(1)] .
    have "wrote ?sha i ofs data m N N'"
      using wrote_around [OF _ B(4) same_files_untouched [OF f]] by (simp add: untouched_def)
    moreover have "mount_ok ?sha N'" using f by (simp add: same_files_def)
    ultimately show ?thesis using B synced p by (auto split: sum.splits)
  qed
qed

text \<open>
  C6. WRITE replaces the bytes it was given, and only those, at every stability level and whether or not it
  had to drain the budget first. A write that succeeds with count \<open>m\<close> puts the first \<open>m\<close> bytes of the data
  at the offset, grows the size to cover them, and changes no other byte of the file and neither the
  contents nor an attribute of another file. A write of data always makes progress, never passes the size
  limit, and reports FILE_SYNC exactly if it was asked to be stable; an empty one changes nothing. A write
  that fails changes nothing, except that a stable one may fail after its bytes are buffered, when its flush
  or commit fails: then the file holds what the successful write of those bytes would have left. The
  invariant of the data is kept in every case. No other caller is in the commit, and the store may answer
  anything.
\<close>

theorem Write_replaces_bytes:
  assumes "hash_ok (e_sha E)" "mount_ok (e_sha E) N" "alone E" "resolve N h = Inr (i, n)" "length data < 2 ^ 32"
    and "Write E fd c h ofs data how N w = Some (r, N', w')"
  shows "mount_ok (e_sha E) N' \<and>
    (case r of
       Inl e \<Rightarrow>
         untouched (e_sha E) N N' \<or>
         asks_stable how \<and> (\<exists>m. 0 < m \<and> m \<le> length data \<and> ofs + m \<le> maxFileSize N \<and> wrote (e_sha E) i ofs data m N N')
     | Inr (m, lvl) \<Rightarrow>
         if data = [] then m = 0 \<and> lvl = FileSync \<and> N' = N
         else 0 < m \<and> m \<le> length data \<and> ofs + m \<le> maxFileSize N \<and> wrote (e_sha E) i ofs data m N N' \<and>
           lvl = (if asks_stable how then FileSync else Unstable))"
proof -
  let ?sha = "e_sha E"
  note M = mount_okD [OF assms(2)]
  have n: "fmlookup (inodes N) i = Some n" using assms(4) by auto
  have u: "untouched ?sha N N" by (simp add: untouched_def)
  consider (early) "N' = N" "\<exists>e. r = Inl e" | (empty) "data = []" "N' = N" "r = Inr (0, FileSync)"
    | (wait) a N1 w1 where "data \<noteq> []" "ofs < maxFileSize N" "await_alone E fd 0 N w = Some (a, N1, w1)"
        "case a of Some e \<Rightarrow> (r, N', w') = (Inl e, N1, w1)
         | None \<Rightarrow> write_admitted E fd h i ofs (take (maxFileSize N - ofs) data) how N1 w1 = (r, N', w')"
    using assms(4,6) M(6) [OF n]
    by (auto simp: Write_def Let_def simp del: mutable_None split: option.splits if_splits prod.splits)
  then show ?thesis
  proof cases
    case early
    then show ?thesis using assms(2) u by auto
  next
    case empty
    then show ?thesis using assms(2) by simp
  next
    case (wait a N1 w1)
    have f: "same_files ?sha N N1" using await_files [OF wait(3) assms(3,1,2)] by simp
    note U = same_files_untouched [OF f]
    have M1: "mount_ok ?sha N1" using f by (simp add: same_files_def)
    show ?thesis
    proof (cases a)
      case (Some e)
      then show ?thesis using wait(4) M1 U by simp
    next
      case None
      define k where "k = maxFileSize N - ofs"
      have wa: "write_admitted E fd h i ofs (take k data) how N1 w1 = (r, N', w')" using wait(4) None by (simp add: k_def)
      obtain n1 where n1: "fmlookup (inodes N1) i = Some n1" "Gen n1 = Gen n" "Size n1 = Size n" by (rule untouched_look [OF U n])
      have res: "resolve N1 h = Inr (i, n1)" using assms(4) n1 by (auto simp: resolve_def split: option.splits if_splits)
      have fit: "take k data \<noteq> []" "ofs + length (take k data) < 2 ^ 64" "length (take k data) < 2 ^ 32"
        using wait(1,2) M(3) assms(5) by (auto simp: k_def)
      have lift: "0 < m \<and> m \<le> length data \<and> ofs + m \<le> maxFileSize N \<and> wrote ?sha i ofs data m N N'"
        if "0 < m" "m \<le> length (take k data)" "wrote ?sha i ofs (take k data) m N1 N'" for m
      proof -
        have "wrote ?sha i ofs data m N1 N'" using that overwritten_take [of m k ofs data] by (simp add: wrote_def)
        then have "wrote ?sha i ofs data m N N'" by (rule wrote_around [OF U]) (simp add: untouched_def)
        then show ?thesis using that(1,2) wait(2) by (auto simp: k_def)
      qed
      note W = write_admitted_files [OF wa assms(3,1) M1 res fit]
      show ?thesis
      proof (cases r)
        case (Inl e)
        then show ?thesis using W lift untouched_trans [OF U, of N'] by auto
      next
        case (Inr p)
        then show ?thesis using W lift wait(1) by (cases p) auto
      qed
    qed
  qed
qed

theorem Write_replaces_bytes_witness:
  "\<exists>N' w'. Write demo_env plain_feed superuser (encodeHandle 2 1) 1 [9] Unstable demo_fs empty_world =
       Some (Inr (1, Unstable), N', w') \<and> wrote tag_sha 2 1 [9] 1 demo_fs N'"
proof -
  obtain N' w' where w: "Write demo_env plain_feed superuser (encodeHandle 2 1) 1 [9] Unstable demo_fs empty_world =
      Some (Inr (1, Unstable), N', w')" using demo_Write by blast
  have s: "e_sha demo_env = tag_sha" by (simp add: demo_env_def)
  have a: "alone demo_env" by (simp add: alone_def demo_env_def plain_env_def)
  have r: "resolve demo_fs (encodeHandle 2 1) = Inr (2, demo_inode)" by (simp add: resolve_Inr demo_inode_def)
  have "wrote tag_sha 2 1 [9] 1 demo_fs N'"
    using Write_replaces_bytes [where E = demo_env, unfolded s, OF tag_sha_ok demo_fs_ok a r _ w] by simp
  with w show ?thesis by blast
qed

end
