(* ===== verification/StableCalls.thy ===== *)
theory StableCalls
  imports Lifetime WriteCalls
begin

text \<open>
  \<open>Write\<close> and \<open>Commit\<close> as runs of the steps of \<open>Lifetime\<close>: the wait for the budget is a \<open>Sync\<close> or nothing, the write is
  buffered, and a stable write or a COMMIT flushes its file and commits. So what they acknowledge as
  stable is never rolled back.
\<close>

section \<open>The calls as runs\<close>

text \<open>What a call runs with: nonces that no object is named with, and that differ.\<close>

definition fresh_feed :: "feed \<Rightarrow> (string \<Rightarrow> bytes option) \<Rightarrow> bool" where
  "fresh_feed fd ob \<longleftrightarrow> fresh_nonce (fd_nonce fd 0) ob \<and> fresh_nonce (fd_nonce fd 1) ob \<and> fd_nonce fd 0 \<noteq> fd_nonce fd 1"

context object_store
begin

lemma fresh_after:
  assumes "outcome E n N w w'" "fresh_nonce m (objs w)" "m \<noteq> n"
  shows "fresh_nonce m (objs w')"
  using outcome_fresh [OF assms(1,2)] assms(3) snapshotKey_inj by blast

lemma flush_fresh:
  assumes "commitFile (e_sha E) st i N w = (r, N', w')" "commit_env st key_ok E n" "whole_here E N w" "fresh_nonce m (objs w)"
  shows "fresh_nonce m (objs w')"
proof -
  have E: "hash_ok (e_sha E)" "\<And>d. key_ok (chunkPrefix @ e_sha E d)" using assms(2) by (auto simp: commit_env_def)
  note W = wholeD [OF assms(3)]
  have "chunks_only (objs w) (etag w) (objs w') (etag w')" using commitFile_store [OF assms(1) W(3) E(2,1) W(4,5)] by blast
  then show ?thesis using assms(4) prefix_apart(1) by (simp add: fresh_nonce_def chunks_only_def)
qed

text \<open>The wait for the budget drains at most once.\<close>

lemma await_run:
  assumes "await_alone E fd 0 N w = Some (r, N', w')" "commit_env st key_ok E (fd_nonce fd 1)" "alone E" "whole_here E N w"
  shows "N' = N \<and> w' = w \<or> (\<exists>s. Sync E (fd_clk fd 1) (fd_nonce fd 1) N w = (s, N', w') \<and> (r = None \<longrightarrow> s = None))"
proof (cases "(budget_limit N \<le> 0 \<or> budget_used N < budget_limit N) \<or> fd_ctx fd 0 \<noteq> None")
  case True
  then show ?thesis using assms(1) by (subst (asm) await_alone.simps) (auto split: if_splits)
next
  case False
  obtain s N1 w1 where s: "Sync E (fd_clk fd 1) (fd_nonce fd 1) N w = (s, N1, w1)" by (metis prod_cases3)
  show ?thesis
  proof (cases s)
    case (Some e)
    then show ?thesis using assms(1) False s by (subst (asm) await_alone.simps) auto
  next
    case None
    note W = wholeD [OF assms(4)]
    have d: "durable E N N1 w1" using Sync_durable [OF s [unfolded None] assms(2,3) W(3-6,2)] .
    then have "budget_used N1 = 0" "budget_limit N1 = budget_limit N" using clean_budget W(8) by (auto simp: durable_def)
    then have "budget_room N1" using False by (simp add: budget_room_def)
    moreover have "await_alone E fd 0 N w = await_alone E fd 1 N1 w1"
      using False s None by (subst await_alone.simps) auto
    ultimately have "Some (r, N', w') = Some (None, N1, w1)" using await_room assms(1) by metis
    then show ?thesis using s None by simp
  qed
qed

lemma sync_file_run:
  assumes "syncFileAndNamespace E fd i N w = (s, N', w')" "\<And>nonce. commit_env st key_ok E nonce" "alone E"
    and "whole_here E N w" "fresh_nonce (fd_nonce fd 0) (objs w)" "epoch N + 2 < 2 ^ 64"
  shows "(life_step E objs)\<^sup>*\<^sup>* (Some N, w) (Some N', w') \<and> (s = None \<longrightarrow> held key_ok E (objs w') N')"
proof -
  have E: "mount_store E = st" using assms(2) [of "[]"] by (simp add: commit_env_def)
  obtain q N1 w1 where q: "commitFile (e_sha E) st i N w = (q, N1, w1)" by (metis prod_cases3)
  have f: "life_step E objs (Some N, w) (Some N1, w1)" using q by (intro flush [of _ i _ _ q]) (simp add: E)
  show ?thesis
  proof (cases q)
    case (Some e)
    then show ?thesis using assms(1) q f E by (auto simp: syncFileAndNamespace_def)
  next
    case None
    then have y: "Sync E (fd_clk fd 0) (fd_nonce fd 0) N1 w1 = (s, N', w')" using assms(1) q E by (simp add: syncFileAndNamespace_def)
    have fr: "fresh_nonce (fd_nonce fd 0) (objs w1)" using flush_fresh [OF q assms(2,4,5)] .
    have W: "whole_here E N1 w1" using whole_commitFile [OF q assms(2,4)] .
    have "held key_ok E (objs w') N'" if "s = None"
      using durable_held Sync_durable [OF y [unfolded that] assms(2,3) wholeD(3-6,2) [OF W]] by blast
    moreover have "life_step E objs (Some N1, w1) (Some N', w')"
      using fr assms(6) commitFile_mark [OF q] y by (intro sync) (simp_all add: root_mark_def)
    ultimately show ?thesis using f by (meson converse_rtranclp_into_rtranclp r_into_rtranclp)
  qed
qed

lemma Commit_run:
  assumes "Commit E fd h N w = (s, N', w')" "\<And>nonce. commit_env st key_ok E nonce" "alone E"
    and "whole_here E N w" "fresh_nonce (fd_nonce fd 0) (objs w)" "epoch N + 2 < 2 ^ 64"
  shows "(life_step E objs)\<^sup>*\<^sup>* (Some N, w) (Some N', w') \<and> (s = None \<longrightarrow> held key_ok E (objs w') N')"
proof (cases "resolve N h")
  case (Inl e)
  then show ?thesis using assms(1) by (auto simp: Commit_def)
next
  case (Inr p)
  then have "syncFileAndNamespace E fd (ID (snd p)) N w = (s, N', w')"
    using assms(1) by (auto simp: Commit_def syncFileAndNamespace_def split: prod.splits)
  from sync_file_run [OF this assms(2-6)] show ?thesis .
qed

lemma admitted_run:
  assumes "write_admitted E fd h i ofs data how N w = (r, N', w')" "\<And>nonce. commit_env st key_ok E nonce" "alone E"
    and "whole_here E N w" "fresh_nonce (fd_nonce fd 0) (objs w)" "resolve N h = Inr (i, n)" "ofs + length data < 2 ^ 64"
    and "epoch N + 2 < 2 ^ 64"
  shows "(life_step E objs)\<^sup>*\<^sup>* (Some N, w) (Some N', w') \<and> (asks_stable how \<and> (\<exists>p. r = Inr p) \<longrightarrow> held key_ok E (objs w') N')"
proof -
  have b: "life_step E objs (Some N, w) (Some N1, w1)" if "write_admitted E fd h i ofs data Unstable N w = (q, N1, w1)" for q N1 w1
    using buffer [OF assms(6,7) that] .
  from assms(1) show ?thesis
  proof (cases rule: write_admitted_split)
    case (synced m N1 w1 s)
    have W: "whole_here E N1 w1" "objs w1 = objs w" using whole_buffer [OF synced(1) assms(6,7,2,4)] by auto
    have "epoch N1 + 2 < 2 ^ 64" using write_admitted_mark [OF synced(1)] assms(8) by (simp add: root_mark_def)
    from sync_file_run [OF synced(2) assms(2,3) W(1) _ this] W(2) assms(5) synced(3) b [OF synced(1)] show ?thesis
      by (metis converse_rtranclp_into_rtranclp)
  qed (use b in auto)
qed

lemma same_files_resolve:
  assumes "same_files sha N N'" "resolve N h = Inr (i, n)"
  obtains n' where "resolve N' h = Inr (i, n')" "ID n' = ID n"
proof -
  have n: "fmlookup (inodes N) i = Some n" using assms(2) by auto
  then obtain n' where n': "fmlookup (inodes N') i = Some n'" using same_files_dom [OF assms(1), of i] by fastforce
  then have e: "n' = n\<lparr>Chunks := Chunks n'\<rparr>" using same_files_inode [OF assms(1) n'] n by (metis option.inject)
  have "Gen n' = Gen n" "ID n' = ID n" by (subst e, simp)+
  moreover from this have "resolve N' h = Inr (i, n')" using assms(2) n' by (simp add: resolve_Inr)
  ultimately show ?thesis using that by blast
qed

lemma Write_run:
  assumes "Write E fd c h ofs data how N w = Some (r, N', w')" "\<And>nonce. commit_env st key_ok E nonce" "alone E"
    and "whole_here E N w" "fresh_feed fd (objs w)" "in_order (e_codec E) (objs w) N" "epoch N + 4 < 2 ^ 64"
  shows "(life_step E objs)\<^sup>*\<^sup>* (Some N, w) (Some N', w') \<and>
    (asks_stable how \<and> data \<noteq> [] \<and> (\<exists>p. r = Inr p) \<longrightarrow> held key_ok E (objs w') N')"
proof (cases "mutable N = None \<and> data \<noteq> [] \<and> ofs < maxFileSize N \<and> (\<exists>i n. resolve N h = Inr (i, n) \<and> checkPerm N OpWrite c n = None)")
  case False
  then have "N' = N \<and> w' = w \<and> (data = [] \<or> (\<exists>e. r = Inl e))"
    using assms(1) by (auto simp: Write_def Let_def simp del: mutable_None split: option.splits sum.splits if_splits)
  then show ?thesis by auto
next
  case True
  then obtain i n where res: "resolve N h = Inr (i, n)" "checkPerm N OpWrite c n = None" by blast
  define d where "d = (if length data > maxFileSize N - ofs then take (maxFileSize N - ofs) data else data)"
  note W = wholeD [OF assms(4)] and fr = assms(5) [unfolded fresh_feed_def]
  have id: "ID n = i" using mount_okD(6) [OF W(4)] res(1) by auto
  have fit: "ofs + length d < 2 ^ 64" using mount_okD(3) [OF W(4)] True by (auto simp: d_def)
  obtain q N1 w1 where a: "await_alone E fd 0 N w = Some (q, N1, w1)"
      and rest: "(case q of Some e \<Rightarrow> (Inl e, N1, w1) | None \<Rightarrow> write_admitted E fd h i ofs d how N1 w1) = (r, N', w')"
    using assms(1) True res id unfolding d_def
    by (auto simp: Write_def Let_def simp del: mutable_None split: option.splits)
  from await_run [OF a assms(2-4)] show ?thesis
  proof (elim disjE exE conjE)
    assume "N1 = N" "w1 = w"
    then show ?thesis
      using rest admitted_run [of E fd h i ofs d how N w r N' w' n] assms(2-4,7) fr res(1) fit by (cases q) auto
  next
    fix s assume s: "Sync E (fd_clk fd 1) (fd_nonce fd 1) N w = (s, N1, w1)" "q = None \<longrightarrow> s = None"
    have st: "life_step E objs (Some N, w) (Some N1, w1)" using fr s(1) assms(7) by (intro sync) auto
    have S: "whole_here E N1 w1" "outcome E (fd_nonce fd 1) N w w1" using whole_Sync [OF s(1) assms(2-4)] fr by auto
    have e1: "epoch N1 + 2 < 2 ^ 64" using Sync_order [OF s(1) assms(2-4,6)] assms(7) by simp
    show ?thesis
    proof (cases q)
      case (Some e)
      then show ?thesis using rest st by auto
    next
      case None
      then have "same_files (e_sha E) N N1"
        using Sync_durable [of E "fd_clk fd 1" "fd_nonce fd 1" N w N1 w1] s assms(2,3) W(2-6) by (simp add: durable_def)
      then obtain n' where "resolve N1 h = Inr (i, n')" using res(1) by (rule same_files_resolve)
      moreover have "fresh_nonce (fd_nonce fd 0) (objs w1)" using fresh_after [OF S(2)] fr by blast
      ultimately have "(life_step E objs)\<^sup>*\<^sup>* (Some N1, w1) (Some N', w') \<and>
          (asks_stable how \<and> (\<exists>p. r = Inr p) \<longrightarrow> held key_ok E (objs w') N')"
        using admitted_run [of E fd h i ofs d how N1 w1 r N' w' n'] assms(2,3) S(1) fit rest None e1 by simp
      then show ?thesis using st by (meson converse_rtranclp_into_rtranclp)
    qed
  qed
qed

end

section \<open>What a stable answer promises\<close>

text \<open>A stable answer: a WRITE that was asked for stable storage and wrote data, or a COMMIT, that succeeded.\<close>

definition stable_answer :: "'w env \<Rightarrow> feed \<Rightarrow> fs \<Rightarrow> 'w \<Rightarrow> fs \<Rightarrow> 'w \<Rightarrow> bool" where
  "stable_answer E fd N w N1 w1 \<longleftrightarrow>
     (\<exists>c h ofs data how p. Write E fd c h ofs data how N w = Some (Inr p, N1, w1) \<and> asks_stable how \<and> data \<noteq> []) \<or>
     (\<exists>h. Commit E fd h N w = (None, N1, w1))"

context object_store
begin

lemma stable_held:
  assumes "stable_answer E fd N w N1 w1" "\<And>nonce. commit_env st key_ok E nonce" "alone E"
    and "whole_here E N w" "fresh_feed fd (objs w)" "in_order (e_codec E) (objs w) N" "epoch N + 4 < 2 ^ 64"
  shows "(life_step E objs)\<^sup>*\<^sup>* (Some N, w) (Some N1, w1) \<and> held key_ok E (objs w1) N1"
  using assms(1) Write_run [OF _ assms(2-7)] Commit_run [OF _ assms(2-4)] assms(5,7)
  unfolding stable_answer_def fresh_feed_def by force

end

text \<open>
  C3. What NFS calls stable is stable. When a WRITE that asked for stable storage has succeeded with data, or a
  COMMIT has, then after any further history of calls, failures and crashes the next mount shows the
  filesystem as it was at a moment of that history, at or after the answer, prune passes included. The call itself is a run of
  the steps, so that what holds after every history holds after it.
\<close>

theorem stable_answers_survive:
  assumes "object_store st objs etg good key_ok" "\<And>nonce. commit_env st key_ok E nonce" "alone E"
    and "good w0" "bucket_sound key_ok (e_codec E) (e_sha E) (objs w0)"
    and "(life_step E objs)\<^sup>*\<^sup>* (None, w0) (Some N, w)" "fresh_feed fd (objs w)" "epoch N + 4 < 2 ^ 64"
    and "stable_answer E fd N w N1 w1"
    and "(life_step E objs)\<^sup>*\<^sup>* (Some N1, w1) (None, w2)" "life_step E objs (None, w2) (Some M, w3)"
  shows "(life_step E objs)\<^sup>*\<^sup>* (Some N, w) (Some N1, w1) \<and>
    (\<exists>N' w'. (life_step E objs)\<^sup>*\<^sup>* (Some N1, w1) (Some N', w') \<and> (life_step E objs)\<^sup>*\<^sup>* (Some N', w') (None, w2) \<and>
       same_image (e_sha E) N' M)"
proof -
  note st = assms(1)
  have ok: "life_ok key_ok E objs good (Some N, w)"
    using object_store.life_run_keeps [OF st assms(6,2,3)] assms(4,5) by (simp add: life_ok_def)
  then have W: "whole key_ok (e_codec E) (e_sha E) objs good N w" "in_order (e_codec E) (objs w) N" by (simp_all add: life_ok_def)
  note h = object_store.stable_held [OF st assms(9,2,3) W(1) assms(7) W(2) assms(8)]
  have ok1: "life_ok key_ok E objs good (Some N1, w1)" using object_store.life_run_keeps [OF st _ assms(2,3) ok] h by blast
  from object_store.held_remount [OF st assms(10,11,2,3) ok1] h show ?thesis by blast
qed

end
