(* ===== verification/LifetimeRun.thy ===== *)
theory LifetimeRun
  imports StableCalls DurableRun
begin

text \<open>
  A life to run: the bucket in memory, empty, is mounted, committed, pruned, left by a crash and mounted again. It
  shows that what the theorems on histories assume can hold all at once.
\<close>

section \<open>The environment\<close>

definition life_cfg :: "mem config" where
  "life_cfg = \<lparr>cf_Store = Some mem_store, cf_ChunkSize = 4096, cf_CacheBytes = 0, cf_CommitInterval = 0, cf_OwnerUID = 0,
     cf_OwnerGID = 0, cf_ReadOnly = False, cf_SkipChunkVerification = False, cf_SnapshotRetention = 0,
     cf_MaxDirtyBytes = 0, cf_AllowUnconditionalRoot = False\<rparr>"

definition life_new :: fs where
  "life_new = new_fs life_cfg ''w'' (replicate 8 0)"

text \<open>The filesystem the first mount makes and commits.\<close>

definition born :: fs where
  "born = life_new\<lparr>inodes := fmupd rootInodeID (empty_root 5 life_new) fmempty, nextIno := rootInodeID + 1, epoch := 0,
     fsid := fsidFor ''mem'', rootETag := [], rootSnapshot := []\<rparr>"

definition life_env :: "mem env" where
  "life_env = \<lparr>e_store = mem_store, e_readonly = False, e_sha = hex_sha,
     e_codec = one_codec (snapshot_of 5 born) (root_of 5 first_nonce born),
     e_range = (\<lambda>m. sorted_list_of_fset (fmdom m)), e_others = (\<lambda>_ x. x)\<rparr>"

definition next_nonce :: bytes where
  "next_nonce = replicate 6 1"

definition born_key :: string where
  "born_key = snapshotKey (wrap64 (epoch born + 1)) first_nonce"

definition born_bucket :: mem where
  "born_bucket = fmupd rootKey [2] (fmupd born_key [1] fmempty)"

lemma life_env_sel [simp]:
  "e_sha life_env = hex_sha" "mount_store life_env = mem_store" "e_others life_env = (\<lambda>_ x. x)"
  "e_range life_env m = sorted_list_of_fset (fmdom m)" "new_env life_env = life_env"
  "e_codec life_env = one_codec (snapshot_of 5 born) (root_of 5 first_nonce born)"
  by (simp_all add: life_env_def mount_store_def new_env_def)

lemma life_commit_env: "commit_env mem_store (\<lambda>_. True) life_env nonce" "alone life_env"
  using hex_sha_ok one_codec_ok by (auto simp: commit_env_def alone_def sorted_list_of_fset.rep_eq)

lemma life_plain: "plain_config life_env life_cfg ''w''"
  by (simp add: plain_config_def life_cfg_def plain_string_def) (simp add: life_env_def)

lemma life_sound: "bucket_sound (\<lambda>_. True) (e_codec life_env) (e_sha life_env) (fmlookup fmempty)"
  by (simp add: bucket_sound_def chunks_honest_def bucket_ok_def keyed_def root_at_def)

lemma born_sel [simp]:
  "fopen born = fmempty" "inodes born = fmupd 1 (empty_root 5 life_new) fmempty" "mode born = mountWritable"
  "rootKnowledge born = rootKnown" "dirty born = False" "rootETag born = []" "chunkSize born = 4096" "chunkSize life_new = 4096"
  "mode life_new = mountWritable"
  by (simp_all add: born_def life_new_def new_fs_def life_cfg_def rootInodeID_def)

lemma born_key_root [simp]: "born_key \<noteq> rootKey" "rootKey \<noteq> born_key"
  unfolding born_key_def by (rule prefix_apart(2) [OF snapshotKey_prefix], rule not_sym, rule prefix_apart(2) [OF snapshotKey_prefix])

lemma life_New:
  "New life_cfg hex_sha (e_codec life_env) clk ''w'' (replicate 8 0) nonce w =
     (case loadOrInit life_env clk nonce life_new w of
        (Some e, _, w1) \<Rightarrow> (Inl e, w1)
      | (None, N1, w1) \<Rightarrow> (Inr (N1\<lparr>maxFileSize := chunkSize N1 * maxFileChunks\<rparr>), w1))"
proof -
  have c: "cf_Store life_cfg = Some mem_store" "cf_ReadOnly life_cfg = False" "cf_CommitInterval life_cfg = 0"
    by (simp_all add: life_cfg_def)
  have E: "\<lparr>e_store = mem_store, e_readonly = False, e_sha = hex_sha, e_codec = e_codec life_env,
      e_range = (\<lambda>m. sorted_list_of_fset (fmdom m)), e_others = (\<lambda>_ x. x)\<rparr> = life_env"
    by (simp add: life_env_def)
  show ?thesis
    unfolding New_def c life_new_def [symmetric] Let_def by (simp add: E del: life_env_sel(6))
qed

lemma fresh_other: "m \<noteq> first_nonce \<Longrightarrow> fresh_nonce m (fmlookup born_bucket)"
proof -
  assume "m \<noteq> first_nonce"
  then have "born_key \<noteq> snapshotKey ep m" for ep using snapshotKey_inj unfolding born_key_def by metis
  moreover have "rootKey \<noteq> snapshotKey ep m" for ep using prefix_apart(2) [OF snapshotKey_prefix] by metis
  ultimately show ?thesis by (simp add: fresh_nonce_def born_bucket_def)
qed

lemma next_fresh: "fresh_nonce next_nonce (fmlookup born_bucket)"
  by (rule fresh_other) (simp add: next_nonce_def first_nonce_def)

section \<open>The run\<close>

definition born_commit :: sealedCommit where
  "born_commit = \<lparr>sc_epoch = wrap64 (epoch born + 1), sc_key = born_key, sc_body = [1], sc_rpBody = [2], sc_rootETag = [],
     sc_changes = changes born\<rparr>"

lemma born_seal: "seal life_env ((\<lambda>_. 5) \<circ> Suc) first_nonce born = Inr born_commit"
  by (simp add: seal_def unsettled_files_def encodeSnapshot_def one_codec_def born_commit_def born_key_def)

definition mounted :: fs where
  "mounted = (applyLocked 5 born_commit (mem_etag born_bucket rootKey) (born\<lparr>rootKnowledge := rootKnown\<rparr>))
     \<lparr>maxFileSize := 4096 * maxFileChunks\<rparr>"

lemma mounted_sel [simp]:
  "fopen mounted = fmempty" "inodes mounted = inodes born" "dirty mounted = False"
  by (simp_all add: mounted_def applyLocked_def schedulePrune_def born_commit_def)

lemma first_mount_of_life:
  "New life_cfg hex_sha (e_codec life_env) (\<lambda>_. 5) ''w'' (replicate 8 0) first_nonce fmempty = (Inr mounted, born_bucket)"
proof -
  have swap: "swap_root life_env b born_commit (fmupd born_key [1] fmempty) = (FKnown (mem_etag born_bucket rootKey), born_bucket)" for b
    by (simp add: swap_root_def mem_etag_def born_commit_def born_bucket_def)
  have c: "commitSealed life_env ((\<lambda>_. 5) \<circ> Suc) born_commit born fmempty =
      (None, applyLocked 5 born_commit (mem_etag born_bucket rootKey) (born\<lparr>rootKnowledge := rootKnown\<rparr>), born_bucket)"
    using swap by (simp add: commitSealed_def fire_root_def born_commit_def)
  have "initEmpty life_env (\<lambda>_. 5) first_nonce life_new fmempty =
      (None, applyLocked 5 born_commit (mem_etag born_bucket rootKey) (born\<lparr>rootKnowledge := rootKnown\<rparr>), born_bucket)"
    using born_seal c by (simp add: initEmpty_def born_def [symmetric] Let_def)
  then have "loadOrInit life_env (\<lambda>_. 5) first_nonce life_new fmempty =
      (None, applyLocked 5 born_commit (mem_etag born_bucket rootKey) (born\<lparr>rootKnowledge := rootKnown\<rparr>), born_bucket)"
    by (simp add: loadOrInit_def mem_get_def)
  then show ?thesis
    by (simp add: life_New mounted_def applyLocked_def schedulePrune_def del: life_env_sel(6))
qed

lemma second_mount_of_life:
  "\<exists>M. New life_cfg hex_sha (e_codec life_env) (\<lambda>_. 5) ''w'' (replicate 8 0) next_nonce born_bucket = (Inr M, born_bucket)"
proof -
  let ?s = "snapshot_of 5 born" and ?rp = "root_of 5 first_nonce born"
  have root: "rp_Version ?rp = snapshotVersion" "rp_Snapshot ?rp = born_key" by (simp_all add: root_of_def born_key_def)
  have dec: "decodeSnapshot (e_codec life_env) [1] = Inr (json_image ?s\<lparr>sn_Inodes :=
      Some (fmmap (map_option usable_entries) (fmmap (map_option json_inode) (fmmap Some (inodes born))))\<rparr>)"
    by (auto simp: decodeSnapshot_def one_codec_def json_image_def snapshot_of_def nil_inodes_def)
  have un: "unjson_root (e_codec life_env) [2] = Inr ?rp" by (simp add: one_codec_def)
  have look: "mem_get rootKey born_bucket = Inr [2]" "mem_get born_key born_bucket = Inr [1]" "mem_etag born_bucket rootKey \<noteq> []"
    by (simp_all add: mem_get_def mem_etag_def born_bucket_def)
  have "\<exists>M. loadOrInit life_env (\<lambda>_. 5) next_nonce life_new born_bucket = (None, M, born_bucket)"
    using un dec root look by (simp add: loadOrInit_def Let_def adopt_def table_of_def rootInodeID_def del: life_env_sel(6))
  then obtain M where "loadOrInit life_env (\<lambda>_. 5) next_nonce life_new born_bucket = (None, M, born_bucket)" ..
  then show ?thesis by (simp add: life_New del: life_env_sel(6))
qed

lemma life_runs:
  "life_step life_env fmlookup (None, fmempty) (Some mounted, born_bucket)"
  "\<exists>M. life_step life_env fmlookup (None, born_bucket) (Some M, born_bucket)"
proof -
  have "fresh_nonce first_nonce (fmlookup fmempty)" by (simp add: fresh_nonce_def)
  from mount [where obj = fmlookup and w = fmempty, OF life_plain this, of "\<lambda>_. 5"] first_mount_of_life
  show "life_step life_env fmlookup (None, fmempty) (Some mounted, born_bucket)" by fastforce
  obtain M where "New life_cfg hex_sha (e_codec life_env) (\<lambda>_. 5) ''w'' (replicate 8 0) next_nonce born_bucket = (Inr M, born_bucket)"
    using second_mount_of_life ..
  with mount [where obj = fmlookup and w = born_bucket, OF life_plain next_fresh, of "\<lambda>_. 5"] show "\<exists>M. life_step life_env fmlookup (None, born_bucket) (Some M, born_bucket)"
    by fastforce
qed

text \<open>The pass the first commit has scheduled: it finds nothing to remove.\<close>

lemma life_prune: "life_step life_env fmlookup (Some mounted, born_bucket) (Some (mounted\<lparr>pruning := None\<rparr>), born_bucket)"
proof (rule prune)
  have p: "pruning mounted = Some born_key"
    by (simp add: mounted_def applyLocked_def schedulePrune_def born_commit_def born_def life_new_def new_fs_def life_cfg_def
        defaultSnapshotRetention_def)
  obtain r w' where w: "pruneSnapshots mem_store (retention mounted) born_key born_bucket = Some (r, w')"
      "\<And>k. fmlookup w' k \<noteq> fmlookup born_bucket k \<Longrightarrow> fmlookup w' k = None \<and> starts_with snapshotPrefix k \<and> k < born_key"
    using mem_bucket.pruneSnapshots_store [where w = born_bucket and kp = "retention mounted" and current = born_key] by blast
  have "w' = born_bucket"
  proof (rule fmap_ext, rule ccontr)
    fix k assume k: "fmlookup w' k \<noteq> fmlookup born_bucket k"
    then have "fmlookup born_bucket k \<noteq> None" using w(2) by metis
    then have "k = rootKey \<or> k = born_key" by (auto simp: born_bucket_def split: if_splits)
    then show False using w(2) [OF k] prefix_apart(2) [of rootKey] by auto
  qed
  then show "prune_pass life_env mounted born_bucket = Some (mounted\<lparr>pruning := None\<rparr>, born_bucket)"
    using p w(1) by (simp add: prune_pass_def)
qed

lemma life_stars:
  "(life_step life_env fmlookup)\<^sup>*\<^sup>* (None, fmempty) (Some mounted, born_bucket)"
  "(life_step life_env fmlookup)\<^sup>*\<^sup>* (Some mounted, born_bucket) (None, born_bucket)"
proof -
  show "(life_step life_env fmlookup)\<^sup>*\<^sup>* (None, fmempty) (Some mounted, born_bucket)" by (rule r_into_rtranclp, rule life_runs(1))
  have "(life_step life_env fmlookup)\<^sup>*\<^sup>* (Some mounted, born_bucket) (Some (mounted\<lparr>pruning := None\<rparr>), born_bucket)"
    by (rule r_into_rtranclp, rule life_prune)
  then show "(life_step life_env fmlookup)\<^sup>*\<^sup>* (Some mounted, born_bucket) (None, born_bucket)"
    by (rule rtranclp.rtrancl_into_rtrancl) (rule crash)
qed

lemma mounted_epoch: "epoch mounted + 2 < 2 ^ 64" "epoch mounted + 4 < 2 ^ 64"
  by (simp_all add: mounted_def applyLocked_def schedulePrune_def born_commit_def born_def)

lemma mounted_Sync: "Sync life_env clk nonce mounted born_bucket = (None, mounted, born_bucket)"
  by (simp add: Sync_def flushAll_def)

lemma mounted_resolve: "\<exists>n. resolve mounted (encodeHandle 1 1) = Inr (1, n)"
  by (simp add: resolve_Inr empty_root_def)

theorem every_history_sound_witness:
  "bucket_sound (\<lambda>_. True) (e_codec life_env) hex_sha (fmlookup born_bucket) \<and> ns_wf mounted \<and>
   remountable (\<lambda>_. True) (e_codec life_env) (fmlookup born_bucket) mounted"
proof -
  from every_history_sound [OF mem_bucket.object_store_axioms life_commit_env _ life_sound life_stars(1)] show ?thesis by simp
qed

theorem never_rolls_back_witness:
  "\<exists>M. life_step life_env fmlookup (None, born_bucket) (Some M, born_bucket) \<and>
     (\<exists>N' w'. (life_step life_env fmlookup)\<^sup>*\<^sup>* (Some mounted, born_bucket) (Some N', w') \<and> same_image hex_sha N' M)"
proof -
  obtain M where M: "life_step life_env fmlookup (None, born_bucket) (Some M, born_bucket)" using life_runs(2) ..
  from never_rolls_back [OF mem_bucket.object_store_axioms life_commit_env _ life_sound life_stars(1) next_fresh
      mounted_epoch(1) mounted_Sync life_stars(2) M]
  show ?thesis using M by auto
qed

definition life_feed :: feed where
  "life_feed = \<lparr>fd_ctx = \<lambda>_. None, fd_clk = \<lambda>_ _. 5, fd_nonce = \<lambda>k. if k = 0 then next_nonce else replicate 6 2\<rparr>"

theorem stable_answers_survive_witness:
  "\<exists>M N' w'. life_step life_env fmlookup (None, born_bucket) (Some M, born_bucket) \<and>
     (life_step life_env fmlookup)\<^sup>*\<^sup>* (Some mounted, born_bucket) (Some N', w') \<and> same_image hex_sha N' M"
proof -
  obtain M where M: "life_step life_env fmlookup (None, born_bucket) (Some M, born_bucket)" using life_runs(2) ..
  have "replicate 6 2 \<noteq> first_nonce" by (simp add: first_nonce_def)
  then have "fresh_nonce (replicate 6 2) (fmlookup born_bucket)"
    using fresh_other by blast
  then have f: "fresh_feed life_feed (fmlookup born_bucket)"
    using next_fresh by (simp add: fresh_feed_def life_feed_def next_nonce_def)
  obtain n where "resolve mounted (encodeHandle 1 1) = Inr (1, n)" using mounted_resolve ..
  then have "Commit life_env life_feed (encodeHandle 1 1) mounted born_bucket = (None, mounted, born_bucket)"
    by (simp add: Commit_def commitFile_def mounted_Sync)
  then have a: "stable_answer life_env life_feed mounted born_bucket mounted born_bucket" by (auto simp: stable_answer_def)
  from stable_answers_survive [OF mem_bucket.object_store_axioms life_commit_env _ life_sound life_stars(1) f mounted_epoch(2) a
      life_stars(2) M]
  show ?thesis using M by auto
qed

end
