(* ===== verification/Spec2Isabelle.thy ===== *)
theory Spec2Isabelle
  imports Fsm Modes Policy Xdr ChunkCache DirListing LocalContract MountProg FileSpec DurableRun CliRun LifetimeRun
begin

text \<open>
  A verification development for strata, a filesystem that keeps its files in an S3-compatible bucket or a
  local directory and serves them over NFSv3.

  \<^bold>\<open>The program.\<close> A mount (\<open>internal/blobfs\<close>) holds the whole namespace in memory as a table of inodes. File
  data is cut into chunks; a chunk is an object named by its SHA-256, a file a list of chunk references.
  Writes go to buffers, charged to a budget. \<open>Sync\<close> flushes the buffers to chunks, seals the inode table in a
  snapshot object, and swaps the one root pointer to that snapshot with a conditional write. The next
  mount follows the root pointer. The NFS server (\<open>internal/nfs\<close>) translates calls to the interface
  \<open>vfs.FS\<close>; the RPC server (\<open>internal/sunrpc\<close>) reads the records of a connection and keeps a duplicate request
  cache; the object store (\<open>internal/store\<close>) has two backends behind one interface; \<open>cmd/strata\<close> reads the
  flags, can check an endpoint, mounts, serves and commits a last time.
\<close>

text \<open>
  \<^bold>\<open>The theories.\<close> Each models the named file; its definitions have the names of the Go functions, with a
  prefix where several types share one.

  \<^item> \<open>Prelude\<close>: words, wrap-around on naturals (\<open>wrap64\<close>, \<open>sub64\<close>), bytes and strings, shared lemmas.
  \<^item> \<open>Fsm\<close> (\<open>fsm/fsm.go\<close>): tables, the sequential machine, and the atomic machine as steps of loads and
    compare-and-swaps. \<open>Modes\<close> (\<open>blobfs/mode.go\<close>, \<open>rootknowledge.go\<close>): the two machines of the mount.
  \<^item> \<open>Vfs\<close> (\<open>vfs/vfs.go\<close>): statuses, attributes, callers. \<open>Policy\<close> (\<open>policy/policy.go\<close>): the Unix rules and ACCESS.
  \<^item> \<open>Xdr\<close> (\<open>xdr/xdr.go\<close>): the codec. \<open>ReplyCache\<close> (\<open>sunrpc/cache.go\<close>) and \<open>Rpc\<close> (\<open>sunrpc/rpc.go\<close>): the duplicate
    request cache, record marking, dispatch, the loop over a connection, the accept loop.
  \<^item> \<open>Wire\<close>, \<open>Nfs3\<close>, \<open>MountProg\<close> (\<open>nfs/wire.go\<close>, \<open>nfs3.go\<close>, \<open>mount.go\<close>): every procedure over any filesystem with the
    interface (\<open>vfs_ops\<close>). \<open>BlobVfs\<close>: that interface given by this filesystem.
  \<^item> \<open>Store\<close> (\<open>store/store.go\<close>): the interface as a record of operations on a world, the read-only wrapper, and
    the contract as the locale \<open>object_store\<close>. \<open>LocalStore\<close> (\<open>store/local.go\<close>) and \<open>LocalContract\<close>; \<open>Strs\<close> (what is
    used of Go's string packages), \<open>Sigv4\<close> (\<open>store/sigv4.go\<close>), \<open>S3\<close> (\<open>store/s3.go\<close>) and \<open>S3Contract\<close>: the two
    backends and the proofs that they keep the contract.
  \<^item> \<open>Inode\<close> (\<open>blobfs/inode.go\<close>), \<open>FsState\<close> (the records and checks of \<open>blobfs/fs.go\<close>), \<open>ChunkCache\<close> (\<open>cache.go\<close>).
  \<^item> \<open>Namespace\<close> (\<open>fs.go\<close>): lookup, attributes, CREATE, MKDIR, SYMLINK, REMOVE, RMDIR, RENAME, READDIR. \<open>Tree\<close> is
    the abstract tree; \<open>NamespaceInv\<close> and \<open>NamespaceSpec\<close> the invariant and the refinement, \<open>DirListing\<close> paging.
  \<^item> \<open>Datapath\<close> (\<open>fs.go\<close>): chunk loading and storing, READ, buffered writing, truncation, flushing. \<open>Content\<close> is the
    abstract file; \<open>WriteSpec\<close>, \<open>TruncateSpec\<close>, \<open>FlushSpec\<close>, \<open>FileSpec\<close> say what each does to it, \<open>WriteCalls\<close> what a
    whole WRITE does at any stability level, with its wait and its commit.
  \<^item> \<open>Budget\<close> (\<open>blobfs/budget.go\<close>): the budget with any number of callers, as a step relation in which a context
    ends without the lock and the callback it starts runs later. \<open>FileOps\<close> (\<open>fs.go\<close>): WRITE and COMMIT with
    their wait, as a single caller sees it, and their commit.
  \<^item> \<open>Commit\<close> (\<open>blobfs/commit.go\<close>): flush, seal, swap, doubt, reclaim, fallback, resolution. \<open>Mounting\<close> (\<open>commit.go\<close>,
    \<open>fs.go\<close>): \<open>New\<close>, \<open>loadOrInit\<close>, \<open>initEmpty\<close>, pruning, the background loop. \<open>BucketSpec\<close>, \<open>CommitSpec\<close>, \<open>DurableSpec\<close>,
    \<open>PruneSpec\<close>: what they do to the bucket. \<open>DurableRun\<close>: a run of them.
  \<^item> \<open>CallInv\<close>, \<open>DataCalls\<close>: every call keeps what the commit protocol relies on. \<open>RootOrder\<close>: the epochs rise, so
    that no prune pass reaches what the root pointer names. \<open>Lifetime\<close>: histories of mounts, calls, commits,
    prune passes and crashes as a step relation. \<open>StableCalls\<close>: WRITE and COMMIT as runs of its steps.
    \<open>LifetimeRun\<close>: such a history.
  \<^item> \<open>Check\<close> (\<open>cmd/strata/check.go\<close>), \<open>Cli\<close> (\<open>cmd/strata/main.go\<close>): the endpoint check and the command; \<open>CliRun\<close>: runs.
\<close>

text \<open>
  \<^bold>\<open>State and effects.\<close> The struct \<open>FS\<close> is the record \<open>fs\<close>; Go maps are finite maps, pointers to inodes and open
  files are keys of those maps. A method is a function on \<open>fs\<close> and, where it reaches the store, on a world
  \<open>'w\<close> the store's operations read and change. Methods run one at a time, as their locks make them; what other
  callers do in the gaps where \<open>Sync\<close> holds no lock is the parameter \<open>e_others\<close>. In \<open>commitSealed\<close> that is one gap,
  after the snapshot's put and the swap, for the whole stretch without a lock: what calls of the same mount
  write meanwhile are chunks, under other keys than the two the commit writes, so the order makes no
  difference to the bucket. Interleavings proper are modelled where the code is built on them: in \<open>Fsm\<close> and
  in \<open>Budget\<close>. Errors are values; a panic is a value too, which the NFS handlers turn into the answer
  SYSTEM_ERR that \<open>dispatch\<close> gives for it. Clocks and random sources are arguments: the i-th reading is the
  i-th value.

  \<^bold>\<open>What the groups of lemmas show.\<close>
  \<^item> The namespace is a tree under every call, and each call is one change of that tree or none; handles
    are never reused; the bounded ancestor walk is exact; paging shows each entry once.
  \<^item> A file is the bytes written to it: READ, WRITE and SETATTR act on the abstract file, and flushing leaves
    it alone, whether the store fails or not. A WRITE that fails has changed nothing or, if it was to be
    stable and its flush or commit failed, has written its bytes to the buffers.
  \<^item> Both backends keep the store's contract under any faults. The commit protocol, proved once over the
    contract, leaves a sound bucket whatever fails, and what it acknowledged is what the next mount finds.
  \<^item> Over whole histories (\<open>Lifetime\<close>): the bucket and the mount stay sound, an acknowledged commit is never
    rolled back, and what NFS answered as stable survives, with the passes of pruning among the steps. A
    history starts from any sound bucket, the empty one included, and has any calls with any arguments in
    any order. A crash inside a call is a store whose remaining calls fail, followed by a crash: the
    contract lets every call fail, with or without effect.
  \<^item> The budget loses no wake-up, publishes no failure of a drain whose own context ended, and a held write
    returns after one drain; pruning ends and removes only superseded snapshots; the check touches only its
    own prefix and passes only an endpoint that refused the superseded ETag; bad flags are refused at once.
    The chunk cache drops what was used longest ago.
  \<^item> The wire: XDR and record marking round-trip and are bounded on any bytes; a retransmitted call is
    answered again and not executed again, with other calls in between as long as the cache has room for
    them; the procedures that may run again change nothing; MNT grants the export path and no other.

  \<^bold>\<open>Interfaces.\<close> \<open>object_store\<close> is the contract of a backend; the commit, mount, prune and history lemmas are
  proved in it, and it is interpreted on the local backend and, over a service in memory, on the S3 client.
  \<open>vfs_queries\<close> is what the NFS procedures need of a filesystem to change nothing, interpreted on this one.
\<close>

text \<open>
  \<^bold>\<open>Assumptions.\<close> They are hypotheses of the theorems, and each theorem has a run that meets them.
  \<^item> SHA-256 is taken to be injective and never empty (\<open>hash_ok\<close>): the code relies on no two chunks colliding.
  \<^item> JSON and gzip are parameters that give back what they were given when every name is plain ASCII
    (\<open>codec_ok\<close>); other names are changed by \<open>encoding/json\<close>, which the findings record.
  \<^item> A nonce of six random bytes has not been used in the bucket before (\<open>fresh_nonce\<close>).
  \<^item> The S3 service answers as it documents (\<open>s3_service\<close>), listings by the parameters of their query; HTTP, the
    XML decoder, \<open>url.Parse\<close>, HMAC and MD5 are parameters. A request whose reply is lost takes effect before
    its call ends or never: a put that the service applies after the client's time-out is excluded; it
    is the residual that Assumption 30 of ADR 0022 names. For the local backend every operating system call
    may fail, and writes may be short.
  \<^item> Ranging over a map visits each key once in some order (\<open>e_range\<close>).
  \<^item> Histories assume that calls do not overlap, a \<open>Sync\<close> included, that no other process writes the bucket,
    that chunk verification is on, and that the 64-bit inode numbers and epochs do not run out. A prune
    pass runs in one piece, at any time after the commit that scheduled it. What overlapping calls may do
    to a \<open>Sync\<close> is in \<open>DurableSpec\<close>, where soundness is proved for any \<open>e_others\<close> that keeps it.

  \<^bold>\<open>Bounds and loops.\<close> Sizes and offsets are naturals with the wrap-around of \<open>uint64\<close> written out, flags are
  integers with the wrap-around of \<open>int64\<close>; the budget's account is an integer without one, as it counts
  buffers held in memory. The walk of \<open>isAncestor\<close> has the fuel the code gives it, one step more than there
  are inodes, shown to be enough on a tree. Two loops may go on for ever and are partial functions with
  \<open>None\<close> for that: \<open>await_alone\<close>, which a theorem shows to return after one drain, and the snapshot listing,
  which a theorem shows to end over any store that keeps its contract. \<open>Write\<close> has its \<open>None\<close> from the first.

  \<^bold>\<open>Not modelled.\<close> Log records, usage and report texts, the printed mount command and \<open>Stats\<close>: they do not
  change the filesystem. The optional NFSv4.2 interfaces of \<open>vfs.go\<close>: nothing implements or calls them.
  Time-outs of the transport, signals and the scheduling of goroutines beyond what is said above; chunk
  uploads of one flush run in index order; while the server runs, \<open>Cli\<close> takes its effect as a parameter.
\<close>

end
